(* ===== verification/Prelude.thy ===== *)
theory Prelude
  imports Main "HOL-Library.Multiset" "HOL-Library.Char_ord" "HOL-Library.List_Lexorder"
begin

text \<open>
  What the component theories share: the collections of hints, Go's strings as byte
  lists with the functions of package \<^verbatim>\<open>strings\<close> and \<^verbatim>\<open>strconv\<close> the sources call,
  result values, and generic facts on lists and sums.  A Go \<^verbatim>\<open>string\<close> is a list of
  bytes, and Isabelle's \<^typ>\<open>char\<close> is a byte, so a Go string is an Isabelle
  \<^typ>\<open>string\<close>; a multi-byte UTF-8 character of the source is written as its bytes.
  A Go \<^verbatim>\<open>float64\<close> amount (USD, scores) is an exact rational: rounding is not modelled.
\<close>

named_theorems step_defs \<open>definitions of the operations whose effect is read off field by field\<close>
named_theorems keeps \<open>facts that an operation leaves a part of the state as it was\<close>

type_synonym ('e, 'a) result = "'e + 'a"

section \<open>Results\<close>

fun bind_result :: "('e, 'a) result \<Rightarrow> ('a \<Rightarrow> ('e, 'b) result) \<Rightarrow> ('e, 'b) result" where
  "bind_result (Inl e) f = Inl e"
| "bind_result (Inr a) f = f a"

lemma bind_result_Inr [simp]:
  "bind_result r f = Inr b \<longleftrightarrow> (\<exists>a. r = Inr a \<and> f a = Inr b)"
  by (cases r) auto

lemma bind_result_Inl:
  "bind_result r f = Inl e \<longleftrightarrow> r = Inl e \<or> (\<exists>a. r = Inr a \<and> f a = Inl e)"
  by (cases r) auto

text \<open>The first error of a list of checks, in order (Go's loop that returns at the first error).\<close>

fun first_error :: "('a \<Rightarrow> 'e option) \<Rightarrow> 'a list \<Rightarrow> 'e option" where
  "first_error f [] = None"
| "first_error f (x # xs) = (case f x of Some e \<Rightarrow> Some e | None \<Rightarrow> first_error f xs)"

lemma first_error_None [simp]: "first_error f xs = None \<longleftrightarrow> (\<forall>x \<in> set xs. f x = None)"
  by (induction xs) (auto split: option.splits)

lemma first_error_Some:
  "first_error f xs = Some e \<Longrightarrow> \<exists>x \<in> set xs. f x = Some e"
  by (induction xs) (auto split: option.splits)

lemma first_error_cong [fundef_cong]:
  "xs = ys \<Longrightarrow> (\<And>x. x \<in> set ys \<Longrightarrow> f x = g x) \<Longrightarrow> first_error f xs = first_error g ys"
  by (induction ys arbitrary: xs) (auto split: option.splits)

section \<open>Go strings\<close>

definition has_prefix :: "string \<Rightarrow> string \<Rightarrow> bool" where
  "has_prefix s p \<longleftrightarrow> take (length p) s = p"

definition has_suffix :: "string \<Rightarrow> string \<Rightarrow> bool" where
  "has_suffix s p \<longleftrightarrow> length p \<le> length s \<and> drop (length s - length p) s = p"

definition trim_prefix :: "string \<Rightarrow> string \<Rightarrow> string" where
  "trim_prefix s p = (if has_prefix s p then drop (length p) s else s)"

definition trim_suffix :: "string \<Rightarrow> string \<Rightarrow> string" where
  "trim_suffix s p = (if has_suffix s p then take (length s - length p) s else s)"

text \<open>\<^verbatim>\<open>strings.Index\<close>: the offset of the first occurrence, \<^const>\<open>None\<close> for -1.\<close>

fun str_index :: "string \<Rightarrow> string \<Rightarrow> nat option" where
  "str_index [] p = (if p = [] then Some 0 else None)"
| "str_index (c # s) p =
     (if has_prefix (c # s) p then Some 0 else map_option Suc (str_index s p))"

lemma str_index_Some:
  "str_index s p = Some i \<Longrightarrow> s = take i s @ p @ drop (i + length p) s \<and> i + length p \<le> length s"
proof (induction s arbitrary: i)
  case (Cons c s)
  show ?case
  proof (cases "has_prefix (c # s) p")
    case True
    then have "take (length p) (c # s) = p" "i = 0" using Cons.prems by (auto simp: has_prefix_def)
    then show ?thesis by (metis append_Nil append_take_drop_id add_0 length_take min.bounded_iff nle_le take0)
  next
    case False
    then obtain j where "str_index s p = Some j" "i = Suc j" using Cons.prems by auto
    then show ?thesis using Cons.IH [of j] by simp
  qed
qed (auto split: if_splits)

text \<open>The slice \<^verbatim>\<open>s[i:j]\<close>.\<close>

definition subtext :: "string \<Rightarrow> nat \<Rightarrow> nat \<Rightarrow> string" where
  "subtext s i j = take (j - i) (drop i s)"

lemma subtext_split: "i \<le> j \<Longrightarrow> s = take i s @ subtext s i j @ drop j s"
  by (metis append_take_drop_id drop_drop le_add_diff_inverse2 subtext_def)

lemma subtext_mid: "s = x @ q @ z \<Longrightarrow> length x = i \<Longrightarrow> subtext s i (i + length q) = q"
  by (auto simp: subtext_def)

definition contains_str :: "string \<Rightarrow> string \<Rightarrow> bool" where
  "contains_str s p \<longleftrightarrow> str_index s p \<noteq> None"

text \<open>\<^verbatim>\<open>strings.LastIndex\<close> and \<^verbatim>\<open>strings.LastIndexByte\<close>.\<close>

fun str_last_index :: "string \<Rightarrow> string \<Rightarrow> nat option" where
  "str_last_index [] p = (if p = [] then Some 0 else None)"
| "str_last_index (c # s) p =
     (case str_last_index s p of
        Some n \<Rightarrow> Some (Suc n)
      | None \<Rightarrow> if has_prefix (c # s) p then Some 0 else None)"

text \<open>\<^verbatim>\<open>strings.Cut\<close>: the text before and after the first separator, and whether there is one.\<close>

definition str_cut :: "string \<Rightarrow> string \<Rightarrow> string \<times> string \<times> bool" where
  "str_cut s sep =
     (case str_index s sep of
        None \<Rightarrow> (s, [], False)
      | Some i \<Rightarrow> (take i s, drop (i + length sep) s, True))"

text \<open>\<^verbatim>\<open>strings.Split\<close> at a one-byte separator, and \<^verbatim>\<open>strings.Join\<close>.\<close>

fun split_char :: "char \<Rightarrow> string \<Rightarrow> string list" where
  "split_char c [] = [[]]"
| "split_char c (x # xs) =
     (if x = c then [] # split_char c xs
      else (case split_char c xs of [] \<Rightarrow> [[x]] | w # ws \<Rightarrow> (x # w) # ws))"

fun str_join :: "string list \<Rightarrow> string \<Rightarrow> string" where
  "str_join [] sep = []"
| "str_join [x] sep = x"
| "str_join (x # y # xs) sep = x @ sep @ str_join (y # xs) sep"

text \<open>Trimming a set of bytes at the ends (\<^verbatim>\<open>strings.Trim\<close> with a cutset of ASCII bytes).\<close>

definition trim_left :: "(char \<Rightarrow> bool) \<Rightarrow> string \<Rightarrow> string" where
  "trim_left p s = dropWhile p s"

definition trim_right :: "(char \<Rightarrow> bool) \<Rightarrow> string \<Rightarrow> string" where
  "trim_right p s = rev (dropWhile p (rev s))"

definition trim_both :: "(char \<Rightarrow> bool) \<Rightarrow> string \<Rightarrow> string" where
  "trim_both p s = trim_right p (trim_left p s)"

text \<open>\<^verbatim>\<open>strconv.Itoa\<close>.\<close>

fun digits_of :: "nat \<Rightarrow> string" where
  "digits_of n =
     (if n < 10 then [char_of (48 + n)] else digits_of (n div 10) @ [char_of (48 + n mod 10)])"

declare digits_of.simps [simp del]

definition itoa :: "int \<Rightarrow> string" where
  "itoa n = (if n < 0 then CHR ''-'' # digits_of (nat (- n)) else digits_of (nat n))"

definition is_digit_byte :: "char \<Rightarrow> bool" where
  "is_digit_byte c \<longleftrightarrow> CHR ''0'' \<le> c \<and> c \<le> CHR ''9''"

definition digit_val :: "char \<Rightarrow> nat" where
  "digit_val c = of_char c - 48"

definition num_of :: "string \<Rightarrow> nat" where
  "num_of s = foldl (\<lambda>n c. 10 * n + digit_val c) 0 s"

text \<open>A number is read back from its digits.\<close>

lemma digits_of_digit: "c \<in> set (digits_of n) \<Longrightarrow> is_digit_byte c"
proof (induction n rule: digits_of.induct)
  case (1 n)
  have d: "is_digit_byte (char_of (48 + k))" if "k < 10" for k :: nat
    using that by (simp add: is_digit_byte_def less_eq_char_def)
  show ?case
  proof (cases "n < 10")
    case True
    then show ?thesis using "1.prems" d by (subst (asm) digits_of.simps) simp
  next
    case False
    then show ?thesis using "1.prems" "1.IH" d [of "n mod 10"] by (subst (asm) digits_of.simps) auto
  qed
qed

lemma num_of_snoc: "num_of (s @ [c]) = 10 * num_of s + digit_val c"
  by (simp add: num_of_def)

lemma num_of_digits_of: "num_of (digits_of n) = n"
proof (induction n rule: digits_of.induct)
  case (1 n)
  have v: "digit_val (char_of (48 + k)) = k" if "k < 10" for k :: nat
    using that by (simp add: digit_val_def)
  show ?case
  proof (cases "n < 10")
    case True
    then show ?thesis using v by (subst digits_of.simps) (simp add: num_of_def)
  next
    case False
    then show ?thesis using "1.IH" v [of "n mod 10"] by (subst digits_of.simps) (simp add: num_of_snoc)
  qed
qed

text \<open>\<^verbatim>\<open>strings.ToLower\<close> and \<^verbatim>\<open>strings.ToUpper\<close> on the bytes of ASCII text.\<close>

definition lower_byte :: "char \<Rightarrow> char" where
  "lower_byte c = (if CHR ''A'' \<le> c \<and> c \<le> CHR ''Z'' then char_of (of_char c + 32 :: nat) else c)"

definition upper_byte :: "char \<Rightarrow> char" where
  "upper_byte c = (if CHR ''a'' \<le> c \<and> c \<le> CHR ''z'' then char_of (of_char c - 32 :: nat) else c)"

lemma find_SomeD: "find P xs = Some x \<Longrightarrow> x \<in> set xs \<and> P x"
  by (auto simp: find_Some_iff)

section \<open>Sums over an updated list\<close>

lemma sum_list_map_update:
  fixes f :: "'a \<Rightarrow> 'b::ab_group_add"
  assumes "i < length xs"
  shows "sum_list (map f (xs[i := y])) = sum_list (map f xs) - f (xs ! i) + f y"
  using assms by (induction xs arbitrary: i) (auto split: nat.splits simp: algebra_simps)

lemma sum_list_map_nonneg:
  fixes f :: "'a \<Rightarrow> 'b::ordered_ab_group_add"
  shows "(\<And>y. y \<in> set xs \<Longrightarrow> 0 \<le> f y) \<Longrightarrow> 0 \<le> sum_list (map f xs)"
  by (induction xs) (auto intro: add_nonneg_nonneg)

lemma sum_list_map_zero:
  fixes f :: "'a \<Rightarrow> 'b::ab_group_add"
  shows "(\<And>y. y \<in> set xs \<Longrightarrow> f y = 0) \<Longrightarrow> sum_list (map f xs) = 0"
  by (induction xs) auto

lemma sum_list_member_le:
  fixes f :: "'a \<Rightarrow> 'b::ordered_ab_group_add"
  assumes "x \<in> set xs" and "\<And>y. y \<in> set xs \<Longrightarrow> 0 \<le> f y"
  shows "f x \<le> sum_list (map f xs)"
  using assms
proof (induction xs)
  case (Cons y ys)
  have tail: "0 \<le> sum_list (map f ys)" using Cons.prems by (intro sum_list_map_nonneg) auto
  show ?case
  proof (cases "x = y")
    case True
    then show ?thesis using tail by simp
  next
    case False
    then have "f x \<le> sum_list (map f ys)" using Cons by auto
    also have "\<dots> \<le> f y + sum_list (map f ys)" using Cons.prems(2) [of y] by simp
    finally show ?thesis by simp
  qed
qed simp

end
