(* ===== verification/Utf8.thy ===== *)
theory Utf8
  imports Prelude
begin

text \<open>
  Package \<^verbatim>\<open>unicode/utf8\<close> on byte lists, as the sources use it: a rune is a natural
  number, an invalid byte decodes to U+FFFD with width 1, and a string's runes are
  read from the front.  White space (\<^verbatim>\<open>unicode.IsSpace\<close>) and the format characters
  (\<^verbatim>\<open>unicode.Cf\<close>) are written out; letters, digits and case beyond ASCII are
  parameters of the definitions that use them.
\<close>

type_synonym rune = nat

definition rune_error :: rune where "rune_error = 65533"

definition byte_val :: "char \<Rightarrow> nat" where "byte_val c = of_char c"

definition cont_byte :: "char \<Rightarrow> bool" where
  "cont_byte c \<longleftrightarrow> 128 \<le> byte_val c \<and> byte_val c < 192"

definition byte_in :: "nat \<Rightarrow> nat \<Rightarrow> char \<Rightarrow> bool" where
  "byte_in lo hi c \<longleftrightarrow> lo \<le> byte_val c \<and> byte_val c \<le> hi"

text \<open>The range the second byte must be in, by the first byte (overlong forms and surrogates out).\<close>

definition second_lo :: "nat \<Rightarrow> nat" where
  "second_lo b = (if b = 224 then 160 else if b = 240 then 144 else 128)"

definition second_hi :: "nat \<Rightarrow> nat" where
  "second_hi b = (if b = 237 then 159 else if b = 244 then 143 else 191)"

definition decode2 :: "char \<Rightarrow> string \<Rightarrow> rune \<times> nat" where
  "decode2 a s = (case s of
     b # _ \<Rightarrow> if cont_byte b then ((byte_val a - 192) * 64 + (byte_val b - 128), 2) else (rune_error, 1)
   | [] \<Rightarrow> (rune_error, 1))"

definition decode3 :: "char \<Rightarrow> string \<Rightarrow> rune \<times> nat" where
  "decode3 a s = (case s of
     b # c # _ \<Rightarrow>
       if byte_in (second_lo (byte_val a)) (second_hi (byte_val a)) b \<and> cont_byte c
       then (((byte_val a - 224) * 64 + (byte_val b - 128)) * 64 + (byte_val c - 128), 3)
       else (rune_error, 1)
   | _ \<Rightarrow> (rune_error, 1))"

definition decode4 :: "char \<Rightarrow> string \<Rightarrow> rune \<times> nat" where
  "decode4 a s = (case s of
     b # c # d # _ \<Rightarrow>
       if byte_in (second_lo (byte_val a)) (second_hi (byte_val a)) b \<and> cont_byte c \<and> cont_byte d
       then ((((byte_val a - 240) * 64 + (byte_val b - 128)) * 64 + (byte_val c - 128)) * 64
               + (byte_val d - 128), 4)
       else (rune_error, 1)
   | _ \<Rightarrow> (rune_error, 1))"

text \<open>\<^verbatim>\<open>utf8.DecodeRuneInString\<close>; the width of the empty string is 0.\<close>

fun decode_rune :: "string \<Rightarrow> rune \<times> nat" where
  "decode_rune [] = (rune_error, 0)"
| "decode_rune (a # s) =
     (if byte_val a < 128 then (byte_val a, 1)
      else if 194 \<le> byte_val a \<and> byte_val a \<le> 223 then decode2 a s
      else if 224 \<le> byte_val a \<and> byte_val a \<le> 239 then decode3 a s
      else if 240 \<le> byte_val a \<and> byte_val a \<le> 244 then decode4 a s
      else (rune_error, 1))"

lemma decode_rune_width:
  assumes "s \<noteq> []"
  shows "1 \<le> snd (decode_rune s)" and "snd (decode_rune s) \<le> length s"
    and "snd (decode_rune s) \<le> 4"
  using assms
  by (cases s; auto simp: decode2_def decode3_def decode4_def split: list.splits)+

lemma decode_rune_shrinks: "s \<noteq> [] \<Longrightarrow> length s - snd (decode_rune s) < length s"
  using decode_rune_width(1) [of s] by (cases s) auto

text \<open>The runes of a string with their widths, and \<^verbatim>\<open>utf8.RuneCountInString\<close>.\<close>

function runes_of :: "string \<Rightarrow> (rune \<times> nat) list" where
  "runes_of s = (if s = [] then []
     else decode_rune s # runes_of (drop (snd (decode_rune s)) s))"
  by pat_completeness auto
termination
  by (relation "measure length") (auto simp: decode_rune_shrinks)

declare runes_of.simps [simp del]

lemma runes_of_Nil [simp]: "runes_of [] = []"
  by (simp add: runes_of.simps)

lemma runes_of_Cons:
  "s \<noteq> [] \<Longrightarrow> runes_of s = decode_rune s # runes_of (drop (snd (decode_rune s)) s)"
  by (simp add: runes_of.simps [of s])

definition rune_count :: "string \<Rightarrow> nat" where
  "rune_count s = length (runes_of s)"

lemma runes_of_widths: "sum_list (map snd (runes_of s)) = length s"
proof (induction s rule: runes_of.induct)
  case (1 s)
  show ?case
  proof (cases "s = []")
    case False
    then show ?thesis
      using "1.IH" [OF False] decode_rune_width [OF False] by (simp add: runes_of_Cons)
  qed simp
qed

lemma rune_count_le: "rune_count s \<le> length s"
proof (induction s rule: runes_of.induct)
  case (1 s)
  show ?case
  proof (cases "s = []")
    case False
    then show ?thesis
      using "1.IH" [OF False] decode_rune_width [OF False] by (simp add: rune_count_def runes_of_Cons)
  qed (simp add: rune_count_def)
qed

lemma runes_of_ascii: "(\<And>c. c \<in> set s \<Longrightarrow> byte_val c < 128) \<Longrightarrow> runes_of s = map (\<lambda>c. (byte_val c, 1)) s"
proof (induction s)
  case (Cons c s)
  then have "decode_rune (c # s) = (byte_val c, 1)" by simp
  with Cons show ?case by (simp add: runes_of_Cons)
qed simp

lemma rune_count_ascii: "(\<And>c. c \<in> set s \<Longrightarrow> byte_val c < 128) \<Longrightarrow> rune_count s = length s"
  by (simp add: rune_count_def runes_of_ascii)

text \<open>Decoding looks no further than the rune it returns, so runes survive a cut at a rune boundary.\<close>

lemma decode2_take: "snd (decode2 a t) \<le> Suc m \<Longrightarrow> decode2 a (take m t) = decode2 a t"
  by (cases t; cases m) (auto simp: decode2_def split: if_splits)

lemma decode3_take: "snd (decode3 a t) \<le> Suc m \<Longrightarrow> decode3 a (take m t) = decode3 a t"
  by (cases t; cases m) (auto simp: decode3_def take_Cons' split: list.splits if_splits)

lemma decode4_take: "snd (decode4 a t) \<le> Suc m \<Longrightarrow> decode4 a (take m t) = decode4 a t"
  by (cases t; cases m) (auto simp: decode4_def take_Cons' split: list.splits if_splits)

lemma decode_rune_take:
  assumes "s \<noteq> []" and "snd (decode_rune s) \<le> n"
  shows "decode_rune (take n s) = decode_rune s"
proof -
  obtain a t where s: "s = a # t" using assms(1) by (cases s) auto
  obtain m where n: "n = Suc m" using assms decode_rune_width(1) [OF assms(1)] by (cases n) auto
  show ?thesis using assms(2) decode2_take [of a t m] decode3_take [of a t m] decode4_take [of a t m]
    by (auto simp: s n split: if_splits)
qed

lemma runes_of_take:
  "runes_of (take (sum_list (map snd (take k (runes_of s)))) s) = take k (runes_of s)"
proof (induction k arbitrary: s)
  case (Suc k)
  show ?case
  proof (cases "s = []")
    case False
    let ?w = "snd (decode_rune s)" and ?r = "runes_of (drop (snd (decode_rune s)) s)"
    let ?n = "sum_list (map snd (take k ?r))"
    have w: "1 \<le> ?w" "?w \<le> length s" using decode_rune_width [OF False] by auto
    have "decode_rune (take (?w + ?n) s) = decode_rune s"
      using False by (intro decode_rune_take) auto
    moreover have "drop ?w (take (?w + ?n) s) = take ?n (drop ?w s)"
      by (simp add: drop_take)
    moreover have "take (?w + ?n) s \<noteq> []" using False w by auto
    ultimately have "runes_of (take (?w + ?n) s) = decode_rune s # runes_of (take ?n (drop ?w s))"
      by (simp add: runes_of_Cons)
    then show ?thesis using Suc.IH [of "drop ?w s"] False by (simp add: runes_of_Cons)
  qed simp
qed simp

text \<open>\<^verbatim>\<open>utf8.RuneStart\<close>: a byte that does not continue a rune.\<close>

definition rune_start_byte :: "char \<Rightarrow> bool" where
  "rune_start_byte c \<longleftrightarrow> \<not> cont_byte c"

text \<open>\<^verbatim>\<open>unicode.IsSpace\<close>, in full.\<close>

definition is_space_rune :: "rune \<Rightarrow> bool" where
  "is_space_rune r \<longleftrightarrow> r \<in> {9, 10, 11, 12, 13, 32, 133, 160, 5760, 8232, 8233, 8239, 8287, 12288}
     \<or> 8192 \<le> r \<and> r \<le> 8202"

text \<open>Code points compare as integers when the definitions are evaluated.\<close>

lemma is_space_rune_code [code]:
  "is_space_rune r \<longleftrightarrow> (let i = int r in
     i \<in> {9, 10, 11, 12, 13, 32, 133, 160, 5760, 8232, 8233, 8239, 8287, 12288} \<or> 8192 \<le> i \<and> i \<le> 8202)"
  unfolding is_space_rune_def Let_def insert_iff empty_iff
    of_nat_eq_iff [symmetric, where 'a = int] of_nat_le_iff [symmetric, where 'a = int] by simp

text \<open>\<^verbatim>\<open>unicode.Is(unicode.Cf, r)\<close>, in full.\<close>

definition is_format_rune :: "rune \<Rightarrow> bool" where
  "is_format_rune r \<longleftrightarrow>
     r \<in> {173, 1564, 1757, 1807, 2274, 6158, 65279, 69821, 69837, 917505}
     \<or> (\<exists>(lo, hi) \<in> set [(1536, 1541), (2192, 2193), (8203, 8207), (8234, 8238), (8288, 8292),
           (8294, 8303), (65529, 65531), (78896, 78911), (113824, 113827), (119155, 119162),
           (917536, 917631)]. lo \<le> r \<and> r \<le> hi)"

lemma is_format_rune_code [code]:
  "is_format_rune r \<longleftrightarrow> (let i = int r in
     i \<in> {173, 1564, 1757, 1807, 2274, 6158, 65279, 69821, 69837, 917505}
     \<or> list_ex (\<lambda>(lo, hi). lo \<le> i \<and> i \<le> hi) [(1536, 1541), (2192, 2193), (8203, 8207), (8234, 8238), (8288, 8292),
           (8294, 8303), (65529, 65531), (78896, 78911), (113824, 113827), (119155, 119162), (917536, 917631)])"
  unfolding is_format_rune_def Let_def insert_iff empty_iff
    of_nat_eq_iff [symmetric, where 'a = int] of_nat_le_iff [symmetric, where 'a = int] by simp

text \<open>\<^verbatim>\<open>utf8.EncodeRune\<close>, for runes that are not surrogates.\<close>

definition encode_rune :: "rune \<Rightarrow> string" where
  "encode_rune r =
     (if r < 128 then [char_of r]
      else if r < 2048 then [char_of (192 + r div 64), char_of (128 + r mod 64)]
      else if r < 65536 then
        [char_of (224 + r div 4096), char_of (128 + (r div 64) mod 64), char_of (128 + r mod 64)]
      else
        [char_of (240 + r div 262144), char_of (128 + (r div 4096) mod 64),
         char_of (128 + (r div 64) mod 64), char_of (128 + r mod 64)])"

lemma encode_rune_nonempty [simp]: "encode_rune r \<noteq> []"
  by (simp add: encode_rune_def)

text \<open>A valid rune is as wide as its encoding.\<close>

lemma byte_val_less: "byte_val c < 256"
  by (simp add: byte_val_def)

lemma decode2_range:
  assumes "194 \<le> byte_val a" and "byte_val a \<le> 223" and "decode2 a t \<noteq> (rune_error, 1)"
  shows "snd (decode2 a t) = 2 \<and> 128 \<le> fst (decode2 a t) \<and> fst (decode2 a t) < 2048"
proof -
  obtain b t' where t: "t = b # t'" and b: "128 \<le> byte_val b" "byte_val b < 192"
    using assms(3) by (auto simp: decode2_def cont_byte_def split: list.splits if_splits)
  obtain x where "byte_val a = 192 + x" using assms(1) by (auto dest: le_Suc_ex)
  moreover obtain y where "byte_val b = 128 + y" using b(1) by (auto dest: le_Suc_ex)
  moreover have "2 \<le> x" "x \<le> 31" "y < 64" using assms(1,2) b calculation by auto
  ultimately show ?thesis by (simp add: decode2_def t cont_byte_def)
qed

lemma decode3_range:
  assumes "224 \<le> byte_val a" and "byte_val a \<le> 239" and "decode3 a t \<noteq> (rune_error, 1)"
  shows "snd (decode3 a t) = 3 \<and> 2048 \<le> fst (decode3 a t) \<and> fst (decode3 a t) < 65536"
proof -
  obtain b c t' where t: "t = b # c # t'"
    and ok: "byte_in (second_lo (byte_val a)) (second_hi (byte_val a)) b \<and> cont_byte c"
    using assms(3) by (auto simp: decode3_def split: list.splits if_splits)
  then have b: "128 \<le> byte_val b" "byte_val b < 192" "byte_val a = 224 \<longrightarrow> 160 \<le> byte_val b"
    and c: "128 \<le> byte_val c" "byte_val c < 192"
    by (auto simp: byte_in_def second_lo_def second_hi_def cont_byte_def split: if_splits)
  obtain x where x: "byte_val a = 224 + x" using assms(1) by (auto dest: le_Suc_ex)
  obtain y where y: "byte_val b = 128 + y" using b(1) by (auto dest: le_Suc_ex)
  obtain z where z: "byte_val c = 128 + z" using c(1) by (auto dest: le_Suc_ex)
  note xyz = x y z
  have "x \<le> 15" "y < 64" "z < 64" "x = 0 \<longrightarrow> 32 \<le> y" using assms(2) b c xyz by auto
  then have "2048 \<le> (x * 64 + y) * 64 + z \<and> (x * 64 + y) * 64 + z < 65536"
    by (cases "x = 0") auto
  then show ?thesis using ok xyz by (simp add: decode3_def t)
qed

lemma decode4_range:
  assumes "240 \<le> byte_val a" and "byte_val a \<le> 244" and "decode4 a t \<noteq> (rune_error, 1)"
  shows "snd (decode4 a t) = 4 \<and> 65536 \<le> fst (decode4 a t)"
proof -
  obtain b c d t' where t: "t = b # c # d # t'"
    and ok: "byte_in (second_lo (byte_val a)) (second_hi (byte_val a)) b \<and> cont_byte c \<and> cont_byte d"
    using assms(3) by (auto simp: decode4_def split: list.splits if_splits)
  then have b: "128 \<le> byte_val b" "byte_val a = 240 \<longrightarrow> 144 \<le> byte_val b"
    and c: "128 \<le> byte_val c" and d: "128 \<le> byte_val d"
    by (auto simp: byte_in_def second_lo_def second_hi_def cont_byte_def split: if_splits)
  obtain x where x: "byte_val a = 240 + x" using assms(1) by (auto dest: le_Suc_ex)
  obtain y where y: "byte_val b = 128 + y" using b(1) by (auto dest: le_Suc_ex)
  obtain z where z: "byte_val c = 128 + z" using c by (auto dest: le_Suc_ex)
  obtain w where w: "byte_val d = 128 + w" using d by (auto dest: le_Suc_ex)
  note xyz = x y z w
  have "x = 0 \<longrightarrow> 16 \<le> y" using b xyz by auto
  then have "65536 \<le> ((x * 64 + y) * 64 + z) * 64 + w" by (cases "x = 0") auto
  then show ?thesis using ok xyz by (simp add: decode4_def t)
qed

lemma decode_encode_length:
  assumes "s \<noteq> []" and "decode_rune s \<noteq> (rune_error, 1)"
  shows "length (encode_rune (fst (decode_rune s))) = snd (decode_rune s)"
proof -
  obtain a t where s: "s = a # t" using assms(1) by (cases s) auto
  consider "byte_val a < 128" | "194 \<le> byte_val a" "byte_val a \<le> 223" | "224 \<le> byte_val a" "byte_val a \<le> 239"
    | "240 \<le> byte_val a" "byte_val a \<le> 244"
    using assms(2) by (auto simp: s split: if_splits)
  then show ?thesis
  proof cases
    case 2
    then show ?thesis using assms(2) decode2_range [of a t] by (simp add: s encode_rune_def)
  next
    case 3
    then show ?thesis using assms(2) decode3_range [of a t] by (simp add: s encode_rune_def)
  next
    case 4
    then show ?thesis using assms(2) decode4_range [of a t] by (simp add: s encode_rune_def)
  qed (simp add: s encode_rune_def)
qed

text \<open>Valid UTF-8: no byte decodes to an error.\<close>

definition valid_utf8 :: "string \<Rightarrow> bool" where
  "valid_utf8 s \<longleftrightarrow> (rune_error, 1) \<notin> set (runes_of s)"

lemma valid_utf8_ascii: "(\<And>c. c \<in> set s \<Longrightarrow> byte_val c < 128) \<Longrightarrow> valid_utf8 s"
  by (fastforce simp: valid_utf8_def runes_of_ascii rune_error_def)

lemma valid_utf8_widths:
  "valid_utf8 s \<Longrightarrow> rw \<in> set (runes_of s) \<Longrightarrow> length (encode_rune (fst rw)) = snd rw"
proof (induction s rule: runes_of.induct)
  case (1 s)
  show ?case
  proof (cases "s = []")
    case False
    then have "valid_utf8 (drop (snd (decode_rune s)) s)" "decode_rune s \<noteq> (rune_error, 1)"
      using "1.prems"(1) by (auto simp: valid_utf8_def runes_of_Cons)
    then show ?thesis
      using "1.IH" [OF False] "1.prems"(2) decode_encode_length [OF False] by (auto simp: runes_of_Cons [OF False])
  qed (use "1.prems" in simp)
qed

lemma runes_of_drop:
  "runes_of (drop (sum_list (map snd (take k (runes_of s)))) s) = drop k (runes_of s)"
proof (induction k arbitrary: s)
  case (Suc k)
  show ?case
  proof (cases "s = []")
    case False
    then show ?thesis using Suc.IH [of "drop (snd (decode_rune s)) s"]
      by (simp add: runes_of_Cons add.commute [of "snd (decode_rune s)"])
  qed simp
qed simp

lemma valid_utf8_take:
  "valid_utf8 s \<Longrightarrow> valid_utf8 (take (sum_list (map snd (take k (runes_of s)))) s)"
  by (auto simp: valid_utf8_def runes_of_take dest: in_set_takeD)

lemma valid_utf8_drop:
  "valid_utf8 s \<Longrightarrow> valid_utf8 (drop (sum_list (map snd (take k (runes_of s)))) s)"
  by (auto simp: valid_utf8_def runes_of_drop dest: in_set_dropD)

text \<open>The offset of the k-th rune grows with k, up to the length of the text.\<close>

definition rune_offset :: "string \<Rightarrow> nat \<Rightarrow> nat" where
  "rune_offset s k = sum_list (map snd (take k (runes_of s)))"

lemma runes_of_pos: "rw \<in> set (runes_of s) \<Longrightarrow> 1 \<le> snd rw"
proof (induction s rule: runes_of.induct)
  case (1 s)
  then show ?case
    using decode_rune_width(1) [of s] by (cases "s = []") (auto simp: runes_of_Cons)
qed

lemma rune_offset_Suc: "k < length (runes_of s) \<Longrightarrow> rune_offset s k < rune_offset s (Suc k)"
  using runes_of_pos [of "runes_of s ! k" s] by (simp add: rune_offset_def take_Suc_conv_app_nth)

lemma rune_offset_mono: "j \<le> k \<Longrightarrow> rune_offset s j \<le> rune_offset s k"
proof (induction k)
  case (Suc k)
  have "rune_offset s k \<le> rune_offset s (Suc k)"
    by (cases "k < length (runes_of s)") (auto simp: rune_offset_Suc less_imp_le, simp add: rune_offset_def)
  then show ?case using Suc by (cases "j = Suc k") auto
qed simp

lemma rune_offset_less: "j < k \<Longrightarrow> k \<le> length (runes_of s) \<Longrightarrow> rune_offset s j < rune_offset s k"
  using rune_offset_Suc [of j s] rune_offset_mono [of "Suc j" k s] by simp

lemma rune_offset_0 [simp]: "rune_offset s 0 = 0"
  by (simp add: rune_offset_def)

lemma rune_offset_all: "rune_offset s (length (runes_of s)) = length s"
  by (simp add: rune_offset_def runes_of_widths)

text \<open>Every byte of a rune wider than one is at least 128, so an ASCII byte of valid text ends a rune.\<close>

lemma second_lo_ge: "128 \<le> second_lo b"
  by (simp add: second_lo_def)

lemma decode_tail_bytes:
  "1 < snd (decode2 a t) \<Longrightarrow> i < snd (decode2 a t) - 1 \<Longrightarrow> 128 \<le> byte_val (t ! i)"
  "1 < snd (decode3 a t) \<Longrightarrow> i < snd (decode3 a t) - 1 \<Longrightarrow> 128 \<le> byte_val (t ! i)"
  "1 < snd (decode4 a t) \<Longrightarrow> i < snd (decode4 a t) - 1 \<Longrightarrow> 128 \<le> byte_val (t ! i)"
proof -
  show "1 < snd (decode2 a t) \<Longrightarrow> i < snd (decode2 a t) - 1 \<Longrightarrow> 128 \<le> byte_val (t ! i)"
    by (auto simp: decode2_def cont_byte_def split: list.splits if_splits)
next
  assume d: "1 < snd (decode3 a t)" and i: "i < snd (decode3 a t) - 1"
  then obtain b c r where "t = b # c # r" "128 \<le> byte_val b" "128 \<le> byte_val c" "i < 2"
    using second_lo_ge [of "byte_val a"]
    by (auto simp: decode3_def cont_byte_def byte_in_def split: list.splits if_splits)
  then show "128 \<le> byte_val (t ! i)" by (cases i) auto
next
  assume q: "1 < snd (decode4 a t)" and i: "i < snd (decode4 a t) - 1"
  then obtain b c d r where "t = b # c # d # r" "128 \<le> byte_val b" "128 \<le> byte_val c" "128 \<le> byte_val d" "i < 3"
    using second_lo_ge [of "byte_val a"]
    by (auto simp: decode4_def cont_byte_def byte_in_def split: list.splits if_splits)
  then show "128 \<le> byte_val (t ! i)" by (cases i; cases "i - 1") auto
qed

lemma wide_rune_bytes:
  assumes "1 < snd (decode_rune s)" and "i < snd (decode_rune s)"
  shows "128 \<le> byte_val (s ! i)"
proof -
  obtain a t where s: "s = a # t" using assms(1) by (cases s) auto
  show ?thesis
  proof (cases i)
    case 0
    then show ?thesis using assms(1) by (auto simp: s split: if_splits)
  next
    case (Suc j)
    then show ?thesis using assms decode_tail_bytes [of a t j] by (auto simp: s split: if_splits)
  qed
qed

lemma ascii_ends_rune:
  assumes "i < length s" and "byte_val (s ! i) < 128"
  shows "\<exists>k \<le> length (runes_of s). Suc i = rune_offset s k"
  using assms
proof (induction s arbitrary: i rule: runes_of.induct)
  case (1 s)
  then have ne: "s \<noteq> []" by auto
  note w = decode_rune_width [OF ne]
  show ?case
  proof (cases "i < snd (decode_rune s)")
    case True
    then have "snd (decode_rune s) = 1" using "1.prems"(2) wide_rune_bytes [of s i] w(1) by (cases "snd (decode_rune s) = 1") auto
    then show ?thesis using True by (intro exI [of _ 1]) (simp add: runes_of_Cons [OF ne] rune_offset_def)
  next
    case False
    let ?w = "snd (decode_rune s)"
    have "\<exists>k \<le> length (runes_of (drop ?w s)). Suc (i - ?w) = rune_offset (drop ?w s) k"
      using "1.prems" False by (intro "1.IH" [OF ne]) (auto simp: less_diff_conv2)
    then obtain k where "k \<le> length (runes_of (drop ?w s))"
      "Suc (i - ?w) = rune_offset (drop ?w s) k" by auto
    then show ?thesis using False by (intro exI [of _ "Suc k"]) (auto simp: runes_of_Cons [OF ne] rune_offset_def)
  qed
qed

text \<open>\<^verbatim>\<open>strings.TrimSpace\<close>, \<^verbatim>\<open>strings.Fields\<close>, over runes.\<close>

function trim_left_space :: "string \<Rightarrow> string" where
  "trim_left_space s =
     (if s \<noteq> [] \<and> is_space_rune (fst (decode_rune s))
      then trim_left_space (drop (snd (decode_rune s)) s) else s)"
  by pat_completeness auto
termination
  by (relation "measure length") (auto simp: decode_rune_shrinks)

declare trim_left_space.simps [simp del]

text \<open>
  The last rune is found from the end: one, two, three or four bytes that decode as one
  rune (\<^verbatim>\<open>utf8.DecodeLastRuneInString\<close>), else U+FFFD of width 1.
\<close>

definition decode_last_rune :: "string \<Rightarrow> rune \<times> nat" where
  "decode_last_rune s =
     (if s = [] then (rune_error, 0)
      else if byte_val (last s) < 128 then (byte_val (last s), 1)
      else (case filter (\<lambda>k. k \<le> length s \<and> snd (decode_rune (drop (length s - k) s)) = k) [2, 3, 4] of
              k # _ \<Rightarrow> (fst (decode_rune (drop (length s - k) s)), k)
            | [] \<Rightarrow> (rune_error, 1)))"

lemma decode_last_rune_width:
  assumes "s \<noteq> []"
  shows "1 \<le> snd (decode_last_rune s)" and "snd (decode_last_rune s) \<le> length s"
proof -
  let ?P = "\<lambda>k. k \<le> length s \<and> snd (decode_rune (drop (length s - k) s)) = k"
  have "1 \<le> snd (decode_last_rune s) \<and> snd (decode_last_rune s) \<le> length s"
  proof (cases "filter ?P [2, 3, 4]")
    case Nil
    with assms show ?thesis by (cases s) (auto simp: decode_last_rune_def)
  next
    case (Cons k ks)
    then have "k \<in> set (filter ?P [2, 3, 4])" by simp
    then have "1 \<le> k \<and> k \<le> length s" by (auto split: if_splits)
    with Cons assms show ?thesis by (cases s) (auto simp: decode_last_rune_def)
  qed
  then show "1 \<le> snd (decode_last_rune s)" and "snd (decode_last_rune s) \<le> length s" by auto
qed

function trim_right_space :: "string \<Rightarrow> string" where
  "trim_right_space s =
     (if s \<noteq> [] \<and> is_space_rune (fst (decode_last_rune s))
      then trim_right_space (take (length s - snd (decode_last_rune s)) s) else s)"
  by pat_completeness auto
termination
proof (relation "measure length")
  fix s :: string
  assume a: "s \<noteq> [] \<and> is_space_rune (fst (decode_last_rune s))"
  then have "1 \<le> snd (decode_last_rune s)" by (blast intro: decode_last_rune_width(1))
  with a show "(take (length s - snd (decode_last_rune s)) s, s) \<in> measure length"
    by (cases s) auto
qed simp

declare trim_right_space.simps [simp del]

definition trim_space :: "string \<Rightarrow> string" where
  "trim_space s = trim_right_space (trim_left_space s)"

text \<open>Text whose first and last bytes are ASCII and not white space is trimmed already.\<close>

definition graphic_byte :: "char \<Rightarrow> bool" where
  "graphic_byte c \<longleftrightarrow> byte_val c < 128 \<and> \<not> is_space_rune (byte_val c)"

lemma trim_space_id: "s = [] \<or> graphic_byte (hd s) \<and> graphic_byte (last s) \<Longrightarrow> trim_space s = s"
  by (cases s)
    (auto simp: trim_space_def trim_left_space.simps trim_right_space.simps decode_last_rune_def graphic_byte_def)

function fields_from :: "string \<Rightarrow> string \<Rightarrow> string list" where
  "fields_from w s =
     (if s = [] then (if w = [] then [] else [w])
      else let n = snd (decode_rune s) in
        if is_space_rune (fst (decode_rune s))
        then (if w = [] then fields_from [] (drop n s) else w # fields_from [] (drop n s))
        else fields_from (w @ take n s) (drop n s))"
  by pat_completeness auto
termination
  by (relation "measure (\<lambda>(w, s). length s)") (auto simp: decode_rune_shrinks)

declare fields_from.simps [simp del]

definition str_fields :: "string \<Rightarrow> string list" where
  "str_fields s = fields_from [] s"

lemma fields_from_nonempty: "[] \<notin> set (fields_from w s)"
proof (induction w s rule: fields_from.induct)
  case (1 w s)
  show ?case
  proof (cases "s = []")
    case True
    then show ?thesis by (simp add: fields_from.simps)
  next
    case False
    let ?n = "snd (decode_rune s)"
    from False show ?thesis
      using "1.IH"(1) [OF False refl] "1.IH"(2) [OF False refl] "1.IH"(3) [OF False refl]
      by (simp add: fields_from.simps [of w s] Let_def)
  qed
qed

lemma fields_nonempty: "w \<in> set (str_fields s) \<Longrightarrow> w \<noteq> []"
  using fields_from_nonempty [of "[]" s] by (auto simp: str_fields_def)

text \<open>\<^verbatim>\<open>strings.Map\<close> with a function that keeps every rune.\<close>

definition map_runes :: "(rune \<Rightarrow> rune) \<Rightarrow> string \<Rightarrow> string" where
  "map_runes f s = concat (map (\<lambda>(r, w). encode_rune (f r)) (runes_of s))"

text \<open>\<^verbatim>\<open>strings.ToValidUTF8\<close> with an empty replacement.\<close>

function to_valid_utf8 :: "string \<Rightarrow> string" where
  "to_valid_utf8 s =
     (if s = [] then []
      else (let (r, w) = decode_rune s in
            (if r = rune_error \<and> w = 1 then [] else take w s) @ to_valid_utf8 (drop w s)))"
  by pat_completeness auto
termination
  by (relation "measure length") (simp_all, metis decode_rune_shrinks snd_conv)

declare to_valid_utf8.simps [simp del]

text \<open>\<^verbatim>\<open>strings.ReplaceAll\<close> of a text that is not empty.\<close>

function str_replace :: "string \<Rightarrow> string \<Rightarrow> string \<Rightarrow> string" where
  "str_replace old new s =
     (if s = [] \<or> old = [] then s
      else if has_prefix s old then new @ str_replace old new (drop (length old) s)
      else hd s # str_replace old new (tl s))"
  by pat_completeness auto
termination by (relation "measure (\<lambda>(old, new, s). length s)") auto

declare str_replace.simps [simp del]

end
