(* ===== verification/Json.thy ===== *)
theory Json
  imports Utf8 Complex_Main
begin

text \<open>
  JSON values as \<^verbatim>\<open>encoding/json\<close> decodes them with \<^verbatim>\<open>UseNumber\<close>: a number keeps its
  text.  An object is an association list whose order is the order a Go map iteration
  happens to take (the sources sort the keys before they depend on an order).  A
  \<^verbatim>\<open>json.RawMessage\<close> is \<open>Some v\<close> when its bytes hold exactly one JSON value \<open>v\<close>, and
  \<open>None\<close> when they do not: the text level of the decoder is the standard library's.
\<close>

datatype json =
    JNull
  | JBool bool
  | JNum string
  | JStr string
  | JArr "json list"
  | JObj "(string \<times> json) list"

type_synonym raw_message = "json option"

section \<open>Numbers\<close>

text \<open>\<^verbatim>\<open>json.Number.Int64\<close> succeeds: an optional sign and digits, within 64 bits.\<close>

definition int64_text :: "string \<Rightarrow> int option" where
  "int64_text s =
     (let neg = has_prefix s ''-''; d = (if neg then drop 1 s else s) in
      if d \<noteq> [] \<and> list_all is_digit_byte d
      then let n = (if neg then - int (num_of d) else int (num_of d)) in
        if - (2 ^ 63) \<le> n \<and> n < 2 ^ 63 then Some n else None
      else None)"

definition pow10 :: "int \<Rightarrow> rat" where
  "pow10 e = (if 0 \<le> e then 10 ^ nat e else 1 / 10 ^ nat (- e))"

text \<open>
  \<^verbatim>\<open>json.Number.Float64\<close>: sign, digits, fraction and exponent.  The value is exact here;
  the source's is the nearest \<^verbatim>\<open>float64\<close>.
\<close>

definition split_exp :: "string \<Rightarrow> string \<times> int" where
  "split_exp s =
     (let m = takeWhile (\<lambda>c. c \<notin> set ''eE'') s; r = drop (Suc (length m)) s in
      if length m = length s then (s, 0)
      else if has_prefix r ''-'' then (m, - int (num_of (drop 1 r)))
      else (m, int (num_of (trim_prefix r ''+''))))"

definition num_rat :: "string \<Rightarrow> rat" where
  "num_rat s =
     (let neg = has_prefix s ''-''; d = (if neg then drop 1 s else s);
          (m, e) = split_exp d; (ip, fp, dot) = str_cut m ''.'';
          v = of_nat (num_of (ip @ fp)) * pow10 (e - int (length fp))
      in if neg then - v else v)"

section \<open>The type a value has\<close>

fun typeOf :: "json \<Rightarrow> string" where
  "typeOf JNull = ''null''"
| "typeOf (JBool b) = ''boolean''"
| "typeOf (JStr s) = ''string''"
| "typeOf (JArr xs) = ''array''"
| "typeOf (JObj kvs) = ''object''"
| "typeOf (JNum n) = (case int64_text n of Some i \<Rightarrow> ''integer'' | None \<Rightarrow> ''number'')"

lemma typeOf_range:
  "typeOf v \<in> {''null'', ''boolean'', ''string'', ''array'', ''object'', ''integer'', ''number''}"
  by (cases v) (auto split: option.splits)

section \<open>Object keys and lookups\<close>

definition json_keys :: "(string \<times> 'a) list \<Rightarrow> string list" where
  "json_keys kvs = sort (remdups (map fst kvs))"

lemma set_json_keys [simp]: "set (json_keys kvs) = fst ` set kvs"
  by (simp add: json_keys_def)

lemma distinct_json_keys [simp]: "distinct (json_keys kvs)"
  by (simp add: json_keys_def)

lemma map_of_key_some: "k \<in> fst ` set kvs \<Longrightarrow> \<exists>v. map_of kvs k = Some v"
  by (metis domD dom_map_of_conv_image_fst)

lemma json_size_arr [termination_simp]: "x \<in> set xs \<Longrightarrow> size x < Suc (size_list size xs)"
  by (induction xs) auto

lemma json_size_obj [termination_simp]:
  "map_of kvs k = Some v \<Longrightarrow> size v < Suc (size_list (size_prod (\<lambda>_. 0) size) kvs)"
  by (induction kvs) (auto split: if_splits)

section \<open>\<^verbatim>\<open>fmt.Sprint\<close> of a decoded value\<close>

text \<open>
  The printed form the enum check compares.  A number prints as its text: an enum's
  numbers are kept as the text \<^verbatim>\<open>fmt\<close> prints for their \<^verbatim>\<open>float64\<close>.
\<close>

function sprint :: "json \<Rightarrow> string" where
  "sprint JNull = ''<nil>''"
| "sprint (JBool b) = (if b then ''true'' else ''false'')"
| "sprint (JNum n) = n"
| "sprint (JStr s) = s"
| "sprint (JArr xs) = ''['' @ str_join (map sprint xs) '' '' @ '']''"
| "sprint (JObj kvs) =
     ''map['' @ str_join (map (\<lambda>k. k @ '':'' @ (case map_of kvs k of None \<Rightarrow> ''<nil>'' | Some v \<Rightarrow> sprint v))
                          (json_keys kvs)) '' '' @ '']''"
  by pat_completeness auto
termination
  by (relation "measure size") (auto simp: json_size_arr json_size_obj)

section \<open>The size of an encoded string\<close>

text \<open>
  \<^verbatim>\<open>json.Marshal\<close> of a string writes two quotes and each rune either as its bytes, as a
  two-byte escape, or as a six-byte \<open>\u\<close> escape (control characters, HTML characters,
  the line separators, and U+FFFD for an invalid byte).
\<close>

definition json_rune_len :: "rune \<times> nat \<Rightarrow> nat" where
  "json_rune_len rw = (case rw of (r, w) \<Rightarrow>
     if r = rune_error \<and> w = 1 then 6
     else if r \<in> {34, 92, 8, 9, 10, 12, 13} then 2
     else if r < 32 \<or> r \<in> {60, 62, 38, 8232, 8233} then 6
     else w)"

definition json_str_len :: "string \<Rightarrow> nat" where
  "json_str_len s = 2 + sum_list (map json_rune_len (runes_of s))"


text \<open>The encoding itself, rune by rune.\<close>

definition hex_digit :: "nat \<Rightarrow> char" where
  "hex_digit n = (if n < 10 then char_of (48 + n) else char_of (87 + n))"

definition unicode_escape :: "nat \<Rightarrow> string" where
  "unicode_escape r = [char_of (92 :: nat), CHR ''u'', hex_digit (r div 4096 mod 16), hex_digit (r div 256 mod 16),
     hex_digit (r div 16 mod 16), hex_digit (r mod 16)]"

definition short_escape :: "nat \<Rightarrow> char option" where
  "short_escape r = map_of [(34, char_of (34 :: nat)), (92, char_of (92 :: nat)), (8, CHR ''b''), (12, CHR ''f''),
     (10, CHR ''n''), (13, CHR ''r''), (9, CHR ''t'')] r"

definition json_rune :: "rune \<Rightarrow> nat \<Rightarrow> string \<Rightarrow> string" where
  "json_rune r w bytes =
     (if r = rune_error \<and> w = 1 then unicode_escape rune_error
      else (case short_escape r of
              Some c \<Rightarrow> [char_of (92 :: nat), c]
            | None \<Rightarrow> if r < 32 \<or> r \<in> {60, 62, 38, 8232, 8233} then unicode_escape r else bytes))"

function json_body :: "string \<Rightarrow> string" where
  "json_body s =
     (if s = [] then []
      else json_rune (fst (decode_rune s)) (snd (decode_rune s)) (take (snd (decode_rune s)) s)
             @ json_body (drop (snd (decode_rune s)) s))"
  by pat_completeness auto
termination
  by (relation "measure length") (auto simp: decode_rune_shrinks)

declare json_body.simps [simp del]

definition json_string :: "string \<Rightarrow> string" where
  "json_string s = CHR 0x22 # json_body s @ [CHR 0x22]"

lemma short_escape_None: "short_escape r = None \<longleftrightarrow> r \<notin> {34, 92, 8, 9, 10, 12, 13}"
  by (auto simp: short_escape_def)

lemma json_rune_length:
  assumes "length bytes = w"
  shows "length (json_rune r w bytes) = json_rune_len (r, w)"
proof -
  define short where "short \<longleftrightarrow> r \<in> {34, 92, 8, 9, 10, 12, 13}"
  define long where "long \<longleftrightarrow> r < 32 \<or> r \<in> {60, 62, 38, 8232, 8233}"
  define bad where "bad \<longleftrightarrow> r = rune_error \<and> w = 1"
  have len: "json_rune_len (r, w) = (if bad then 6 else if short then 2 else if long then 6 else w)"
    unfolding json_rune_len_def short_def long_def bad_def prod.case by (rule refl)
  have enc: "json_rune r w bytes = (if bad then unicode_escape rune_error
      else (case short_escape r of Some c \<Rightarrow> [char_of (92 :: nat), c] | None \<Rightarrow> if long then unicode_escape r else bytes))"
    unfolding json_rune_def long_def bad_def by (rule refl)
  have esc: "length (unicode_escape n) = 6" for n by (simp add: unicode_escape_def)
  have "(short_escape r = None) = (\<not> short)" unfolding short_def by (rule short_escape_None)
  then show ?thesis using assms by (cases "short_escape r") (simp_all add: len enc esc)
qed

lemma json_body_length: "length (json_body s) = sum_list (map json_rune_len (runes_of s))"
proof (induction s rule: json_body.induct)
  case (1 s)
  show ?case
  proof (cases "s = []")
    case False
    note w = decode_rune_width [OF False]
    have "length (json_rune (fst (decode_rune s)) (snd (decode_rune s)) (take (snd (decode_rune s)) s))
        = json_rune_len (decode_rune s)"
      using w(2) json_rune_length [of "take (snd (decode_rune s)) s" "snd (decode_rune s)" "fst (decode_rune s)"] by simp
    then show ?thesis using "1.IH" [OF False] False by (simp add: json_body.simps [of s] runes_of_Cons)
  qed (simp add: json_body.simps)
qed

lemma json_string_length: "length (json_string s) = json_str_len s"
  by (simp add: json_string_def json_str_len_def json_body_length)

text \<open>
  \<^verbatim>\<open>strconv.Quote\<close> on ASCII text; a byte of a longer rune is kept as it is, which is what Quote
  does with the runes it can print.
\<close>

definition quoted_byte :: "char \<Rightarrow> string" where
  "quoted_byte c =
     (case map_of [(34, CHR 0x22), (92, CHR 0x5C), (7, CHR ''a''), (8, CHR ''b''), (12, CHR ''f''),
        (10, CHR ''n''), (13, CHR ''r''), (9, CHR ''t''), (11, CHR ''v'')] (byte_val c) of
        Some e \<Rightarrow> [CHR 0x5C, e]
      | None \<Rightarrow> if byte_val c < 32 \<or> byte_val c = 127
                then [CHR 0x5C, CHR ''x'', hex_digit (byte_val c div 16), hex_digit (byte_val c mod 16)]
                else [c])"

definition quoted :: "string \<Rightarrow> string" where
  "quoted s = CHR 0x22 # concat (map quoted_byte s) @ [CHR 0x22]"

end
