(* ===== verification/Schema.thy ===== *)
theory Schema
  imports Json
begin

text \<open>
  \<^verbatim>\<open>internal/agent/schema.go\<close>: the JSON-Schema subset every tool input and output is
  checked against.  \<^verbatim>\<open>Compile\<close> decodes a schema and refuses what the subset does not
  have (\<open>check\<close>), \<^verbatim>\<open>Strict\<close> names the first place a schema is not strict-shaped, and
  \<^verbatim>\<open>Validate\<close> names the first place a value breaks it.  The lemmas show that the
  executable validator decides the declarative relation \<open>conforms\<close>, that validation never
  depends on the order of an object's fields, and what \<open>check\<close> lets through.
\<close>

section \<open>Schemas\<close>

text \<open>
  \<^verbatim>\<open>type Schema struct\<close>.  A nil slice or pointer is \<^const>\<open>None\<close>; \<open>Properties\<close> is an
  association list in the order a Go map iteration takes.
\<close>

datatype schema = Schema
  (Type: "string list option")
  (Properties: "(string \<times> schema) list")
  (Required: "string list")
  (AdditionalProperties: "bool option")
  (Enum: "json list option")
  (Items: "schema option")
  (MinItems: "rat option") (MaxItems: "rat option")
  (MinLength: "rat option") (MaxLength: "rat option")
  (Minimum: "rat option") (Maximum: "rat option")

definition types_of :: "schema \<Rightarrow> string list" where
  "types_of s = (case Type s of None \<Rightarrow> [] | Some ts \<Rightarrow> ts)"

lemma schema_size_items [termination_simp]: "Items s = Some i \<Longrightarrow> size i < size s"
  by (cases s) auto

lemma schema_size_props_aux: "(n, p) \<in> set ps \<Longrightarrow> size p < Suc (size_list (size_prod (\<lambda>_. 0) size) ps)"
  by (induction ps) auto

lemma schema_size_props [termination_simp]: "(n, p) \<in> set (Properties s) \<Longrightarrow> size p < size s"
  by (cases s) (auto dest: schema_size_props_aux)

lemma schema_size_lookup [termination_simp]: "map_of (Properties s) n = Some p \<Longrightarrow> size p < size s"
  by (blast intro: schema_size_props map_of_SomeD)

lemma schema_size_snd [termination_simp]: "np \<in> set (Properties s) \<Longrightarrow> size (snd np) < size s"
  by (cases np) (auto intro: schema_size_props)

datatype schema_error =
    UnknownType string string
  | NoTypeOrEnum string
  | OpenObject string
  | NotInSubset

section \<open>Compile\<close>

definition known_types :: "string list" where
  "known_types = [''object'', ''array'', ''string'', ''number'', ''integer'', ''boolean'', ''null'']"

function check_schema :: "string \<Rightarrow> schema \<Rightarrow> schema_error option" where
  "check_schema loc s =
     (case first_error (\<lambda>t. if t \<in> set known_types then None else Some (UnknownType loc t)) (types_of s) of
        Some e \<Rightarrow> Some e
      | None \<Rightarrow>
         if types_of s = [] \<and> Enum s = None then Some (NoTypeOrEnum loc)
         else if AdditionalProperties s = Some True then Some (OpenObject loc)
         else (case Items s of
                 Some i \<Rightarrow> check_schema (loc @ ''[]'') i
               | None \<Rightarrow> first_error (\<lambda>np. check_schema (loc @ ''.'' @ fst np) (snd np)) (Properties s)))"
  by pat_completeness auto
termination
  by (relation "measure (\<lambda>(loc, s). size s)") (auto simp: schema_size_items schema_size_snd schema_size_props)

declare check_schema.simps [simp del]

text \<open>\<^verbatim>\<open>Compile\<close>: \<^const>\<open>None\<close> is a raw message the strict decoder refuses (not JSON, an unknown keyword).\<close>

definition Compile :: "schema option \<Rightarrow> (schema_error, schema) result" where
  "Compile raw = (case raw of
     None \<Rightarrow> Inl NotInSubset
   | Some s \<Rightarrow> (case check_schema ''$'' s of Some e \<Rightarrow> Inl e | None \<Rightarrow> Inr s))"

section \<open>Strict\<close>

datatype strict_error = OpenObjectAt string | NotRequired string

function strict_schema :: "string \<Rightarrow> schema \<Rightarrow> strict_error option" where
  "strict_schema loc s =
     (if ''object'' \<in> set (types_of s) \<and> AdditionalProperties s = None then Some (OpenObjectAt loc)
      else
        (case first_error
               (\<lambda>n. if n \<notin> set (Required s) then Some (NotRequired (loc @ ''.'' @ n))
                    else (case map_of (Properties s) n of
                            None \<Rightarrow> None
                          | Some p \<Rightarrow> strict_schema (loc @ ''.'' @ n) p))
               (json_keys (Properties s)) of
           Some e \<Rightarrow> Some e
         | None \<Rightarrow> (case Items s of None \<Rightarrow> None | Some i \<Rightarrow> strict_schema (loc @ ''[]'') i)))"
  by pat_completeness auto
termination
  by (relation "measure (\<lambda>(loc, s). size s)") (auto simp: schema_size_items schema_size_lookup)

declare strict_schema.simps [simp del]

section \<open>Validate\<close>

datatype validation_error =
    NotOneValue
  | NotInEnum string "json list"
  | WrongType string "string list" string
  | OutOfRange string
  | BadLength string nat
  | BadCount string nat
  | Missing string string
  | NotAField string string

definition outside :: "rat \<Rightarrow> rat option \<Rightarrow> rat option \<Rightarrow> bool" where
  "outside n lo hi \<longleftrightarrow>
     (case lo of None \<Rightarrow> False | Some l \<Rightarrow> n < l) \<or> (case hi of None \<Rightarrow> False | Some h \<Rightarrow> n > h)"

definition enum_match :: "json \<Rightarrow> json \<Rightarrow> bool" where
  "enum_match v e \<longleftrightarrow> sprint e = sprint v \<and> (e = JNull) = (v = JNull)"

definition enum_ok :: "schema \<Rightarrow> json \<Rightarrow> bool" where
  "enum_ok s v \<longleftrightarrow> (case Enum s of None \<Rightarrow> True | Some es \<Rightarrow> list_ex (enum_match v) es)"

definition type_ok :: "schema \<Rightarrow> json \<Rightarrow> bool" where
  "type_ok s v \<longleftrightarrow> (case Type s of None \<Rightarrow> True
     | Some ts \<Rightarrow> typeOf v \<in> set ts \<or> typeOf v = ''integer'' \<and> ''number'' \<in> set ts)"

text \<open>The elements of a list with their indexes: the loop \<^verbatim>\<open>for i := 0; i < len(x); i++\<close>.\<close>

definition indexed :: "'a list \<Rightarrow> (nat \<times> 'a) list" where
  "indexed xs = zip [0..<length xs] xs"

lemma indexed_mem: "(i, x) \<in> set (indexed xs) \<Longrightarrow> x \<in> set xs"
  by (auto simp: indexed_def dest: set_zip_rightD)

lemma indexed_set: "snd ` set (indexed xs) = set xs"
proof -
  have "map snd (indexed xs) = xs" by (simp add: indexed_def)
  then show ?thesis by (metis list.set_map)
qed

function validate :: "schema \<Rightarrow> json \<Rightarrow> string \<Rightarrow> validation_error option" where
  "validate s v loc =
     (if \<not> enum_ok s v then Some (NotInEnum loc (case Enum s of None \<Rightarrow> [] | Some es \<Rightarrow> es))
      else if \<not> type_ok s v then Some (WrongType loc (types_of s) (typeOf v))
      else (case v of
        JNum n \<Rightarrow> if outside (num_rat n) (Minimum s) (Maximum s) then Some (OutOfRange loc) else None
      | JStr x \<Rightarrow> if outside (of_nat (rune_count x)) (MinLength s) (MaxLength s)
                   then Some (BadLength loc (rune_count x)) else None
      | JArr xs \<Rightarrow>
          if outside (of_nat (length xs)) (MinItems s) (MaxItems s) then Some (BadCount loc (length xs))
          else (case Items s of
                  None \<Rightarrow> None
                | Some i \<Rightarrow> first_error (\<lambda>kx. validate i (snd kx) (loc @ ''['' @ itoa (int (fst kx)) @ '']''))
                              (indexed xs))
      | JObj kvs \<Rightarrow>
          (case first_error (\<lambda>r. if r \<in> fst ` set kvs then None else Some (Missing loc r)) (Required s) of
             Some e \<Rightarrow> Some e
           | None \<Rightarrow>
               first_error
                 (\<lambda>k. case map_of (Properties s) k of
                        Some p \<Rightarrow> (case map_of kvs k of
                                     None \<Rightarrow> None
                                   | Some x \<Rightarrow> validate p x (loc @ ''.'' @ k))
                      | None \<Rightarrow> if AdditionalProperties s \<noteq> None then Some (NotAField loc k) else None)
                 (json_keys kvs))
      | _ \<Rightarrow> None))"
  by pat_completeness auto
termination
  by (relation "measure (\<lambda>(s, v, loc). size s)") (auto simp: schema_size_items schema_size_lookup)

declare validate.simps [simp del]

definition Validate :: "schema \<Rightarrow> raw_message \<Rightarrow> validation_error option" where
  "Validate s raw = (case raw of None \<Rightarrow> Some NotOneValue | Some v \<Rightarrow> validate s v ''input'')"

definition ValidateOutput :: "schema \<Rightarrow> raw_message \<Rightarrow> validation_error option" where
  "ValidateOutput s raw = (case raw of None \<Rightarrow> Some NotOneValue | Some v \<Rightarrow> validate s v ''output'')"

section \<open>What a value must be: the declarative reading\<close>

definition scalar_ok :: "schema \<Rightarrow> json \<Rightarrow> bool" where
  "scalar_ok s v \<longleftrightarrow> (case v of
       JNum n \<Rightarrow> \<not> outside (num_rat n) (Minimum s) (Maximum s)
     | JStr x \<Rightarrow> \<not> outside (of_nat (rune_count x)) (MinLength s) (MaxLength s)
     | JArr xs \<Rightarrow> \<not> outside (of_nat (length xs)) (MinItems s) (MaxItems s)
     | _ \<Rightarrow> True)"

inductive conforms :: "schema \<Rightarrow> json \<Rightarrow> bool" where
  scalar: "enum_ok s v \<Longrightarrow> type_ok s v \<Longrightarrow> scalar_ok s v \<Longrightarrow>
     (\<And>xs. v \<noteq> JArr xs) \<Longrightarrow> (\<And>kvs. v \<noteq> JObj kvs) \<Longrightarrow> conforms s v"
| array: "enum_ok s (JArr xs) \<Longrightarrow> type_ok s (JArr xs) \<Longrightarrow> scalar_ok s (JArr xs) \<Longrightarrow>
     (\<And>i x. Items s = Some i \<Longrightarrow> x \<in> set xs \<Longrightarrow> conforms i x) \<Longrightarrow> conforms s (JArr xs)"
| object: "enum_ok s (JObj kvs) \<Longrightarrow> type_ok s (JObj kvs) \<Longrightarrow>
     set (Required s) \<subseteq> fst ` set kvs \<Longrightarrow>
     (\<And>k p x. map_of (Properties s) k = Some p \<Longrightarrow> map_of kvs k = Some x \<Longrightarrow> conforms p x) \<Longrightarrow>
     (AdditionalProperties s \<noteq> None \<Longrightarrow> fst ` set kvs \<subseteq> fst ` set (Properties s)) \<Longrightarrow>
     conforms s (JObj kvs)"

inductive_cases conforms_arrE: "conforms s (JArr xs)"
inductive_cases conforms_objE: "conforms s (JObj kvs)"

lemma conforms_enum_type: "conforms s v \<Longrightarrow> enum_ok s v \<and> type_ok s v"
  by (erule conforms.cases) auto

lemma conforms_scalar_iff:
  assumes "\<forall>xs. v \<noteq> JArr xs" and "\<forall>kvs. v \<noteq> JObj kvs"
  shows "conforms s v \<longleftrightarrow> enum_ok s v \<and> type_ok s v \<and> scalar_ok s v"
proof
  assume "conforms s v"
  then show "enum_ok s v \<and> type_ok s v \<and> scalar_ok s v"
    using assms by cases auto
next
  assume "enum_ok s v \<and> type_ok s v \<and> scalar_ok s v"
  then show "conforms s v" using assms by (auto intro: conforms.scalar)
qed

lemma conforms_arr_iff:
  "conforms s (JArr xs) \<longleftrightarrow> enum_ok s (JArr xs) \<and> type_ok s (JArr xs) \<and> scalar_ok s (JArr xs) \<and>
     (\<forall>i. Items s = Some i \<longrightarrow> (\<forall>x \<in> set xs. conforms i x))"
  by (auto elim: conforms_arrE intro: conforms.array)

lemma conforms_obj_iff:
  "conforms s (JObj kvs) \<longleftrightarrow> enum_ok s (JObj kvs) \<and> type_ok s (JObj kvs) \<and>
     set (Required s) \<subseteq> fst ` set kvs \<and>
     (\<forall>k p x. map_of (Properties s) k = Some p \<longrightarrow> map_of kvs k = Some x \<longrightarrow> conforms p x) \<and>
     (AdditionalProperties s \<noteq> None \<longrightarrow> fst ` set kvs \<subseteq> fst ` set (Properties s))"
  (is "_ \<longleftrightarrow> ?R")
proof
  assume "conforms s (JObj kvs)"
  then show ?R by (rule conforms_objE) blast+
next
  assume ?R
  then show "conforms s (JObj kvs)" by (intro conforms.object) blast+
qed

lemmas conforms_iffs = conforms_arr_iff conforms_obj_iff

lemma field_loop_None:
  "first_error
     (\<lambda>k. case map_of ps k of
            Some p \<Rightarrow> (case map_of kvs k of None \<Rightarrow> None | Some x \<Rightarrow> f k p x)
          | None \<Rightarrow> if shut then Some (e k) else None) (json_keys kvs) = None
   \<longleftrightarrow> (\<forall>k p x. map_of ps k = Some p \<longrightarrow> map_of kvs k = Some x \<longrightarrow> f k p x = None)
     \<and> (shut \<longrightarrow> fst ` set kvs \<subseteq> fst ` set ps)"
  (is "?L \<longleftrightarrow> ?R1 \<and> (shut \<longrightarrow> ?R2)")
proof -
  have keyed: "k \<in> fst ` set kvs \<longleftrightarrow> (\<exists>x. map_of kvs k = Some x)" for k
    by (metis domIff dom_map_of_conv_image_fst not_None_eq)
  have known: "k \<in> fst ` set ps \<longleftrightarrow> map_of ps k \<noteq> None" for k
    by (metis domIff dom_map_of_conv_image_fst)
  have R2: "?R2 \<longleftrightarrow> (\<forall>k x. map_of kvs k = Some x \<longrightarrow> map_of ps k \<noteq> None)"
    unfolding subset_iff keyed known by blast
  define g where "g k = (case map_of ps k of
            Some p \<Rightarrow> (case map_of kvs k of None \<Rightarrow> None | Some x \<Rightarrow> f k p x)
          | None \<Rightarrow> if shut then Some (e k) else None)" for k
  have "?L \<longleftrightarrow> (\<forall>k \<in> fst ` set kvs. g k = None)"
    by (simp only: g_def first_error_None set_json_keys)
  also have "\<dots> \<longleftrightarrow> (\<forall>k x. map_of kvs k = Some x \<longrightarrow> g k = None)"
    unfolding Ball_def keyed by blast
  finally have L: "?L \<longleftrightarrow> (\<forall>k x. map_of kvs k = Some x \<longrightarrow> g k = None)" .
  have step: "g k = None \<longleftrightarrow> (\<forall>p. map_of ps k = Some p \<longrightarrow> f k p x = None) \<and> (shut \<longrightarrow> map_of ps k \<noteq> None)"
    if "map_of kvs k = Some x" for k x
    using that by (cases "map_of ps k") (auto simp: g_def)
  show ?thesis unfolding L R2 using step by blast
qed

lemma required_loop_Some:
  "first_error (\<lambda>r. if r \<in> K then None else Some (e r)) rs = Some x \<Longrightarrow> \<not> set rs \<subseteq> K"
  by (auto dest!: first_error_Some split: if_splits)

lemma required_loop_None:
  "first_error (\<lambda>r. if r \<in> K then None else Some (e r)) rs = None \<longleftrightarrow> set rs \<subseteq> K"
  by auto

lemma item_loop_None:
  "first_error (\<lambda>kx. f (snd kx) (g (fst kx))) (indexed xs) = None
     \<longleftrightarrow> (\<forall>(k, x) \<in> set (indexed xs). f x (g k) = None)"
  by auto

lemma item_loop_ok:
  assumes "\<And>x loc. x \<in> set xs \<Longrightarrow> f x loc = None \<longleftrightarrow> P x"
  shows "first_error (\<lambda>kx. f (snd kx) (g (fst kx))) (indexed xs) = None \<longleftrightarrow> (\<forall>x \<in> set xs. P x)"
proof -
  have "(\<forall>kx \<in> set (indexed xs). f (snd kx) (g (fst kx)) = None) \<longleftrightarrow> (\<forall>kx \<in> set (indexed xs). P (snd kx))"
    using assms by (metis indexed_mem prod.collapse)
  also have "\<dots> \<longleftrightarrow> (\<forall>x \<in> snd ` set (indexed xs). P x)" by blast
  finally show ?thesis by (simp add: indexed_set)
qed

lemma validate_conforms: "validate s v loc = None \<longleftrightarrow> conforms s v"
proof (induction "size s" arbitrary: s v loc rule: less_induct)
  case less
  show ?case
  proof (cases v)
    case (JArr xs)
    have items: "Items s = Some i \<Longrightarrow>
        first_error (\<lambda>kx. validate i (snd kx) (loc @ CHR ''['' # itoa (int (fst kx)) @ '']'')) (indexed xs) = None
          \<longleftrightarrow> (\<forall>x \<in> set xs. conforms i x)" for i
      using item_loop_ok [of xs "validate i" "conforms i" "\<lambda>k. loc @ CHR ''['' # itoa (int k) @ '']''"]
        less.hyps [OF schema_size_items] by simp
    show ?thesis unfolding JArr
      by (auto simp: validate.simps [of s "JArr xs"] conforms_arr_iff scalar_ok_def items
          simp del: first_error_None split: option.splits)
  next
    case (JObj kvs)
    have IH: "map_of (Properties s) k = Some p \<Longrightarrow> validate p x l = None \<longleftrightarrow> conforms p x" for k p x l
      by (rule less.hyps) (rule schema_size_lookup)
    show ?thesis unfolding JObj
      by (auto simp: validate.simps [of s "JObj kvs"] conforms_obj_iff field_loop_None
            required_loop_None IH simp del: first_error_None split: option.splits
          dest: required_loop_Some)
  qed (auto simp: validate.simps [of s] conforms_scalar_iff scalar_ok_def)
qed


section \<open>What \<open>check\<close> guarantees\<close>

text \<open>The nodes \<^verbatim>\<open>check\<close> visits: it descends into \<open>items\<close>, or into the properties when there are none.\<close>

inductive visited :: "schema \<Rightarrow> schema \<Rightarrow> bool" where
  here: "visited s s"
| item: "Items s = Some i \<Longrightarrow> visited i n \<Longrightarrow> visited s n"
| field: "Items s = None \<Longrightarrow> (k, p) \<in> set (Properties s) \<Longrightarrow> visited p n \<Longrightarrow> visited s n"

inductive_simps visited_simp: "visited s n"

definition node_ok :: "schema \<Rightarrow> bool" where
  "node_ok s \<longleftrightarrow> set (types_of s) \<subseteq> set known_types
     \<and> (types_of s \<noteq> [] \<or> Enum s \<noteq> None) \<and> AdditionalProperties s \<noteq> Some True"

lemma types_loop_None:
  "first_error (\<lambda>t. if t \<in> K then None else Some (e t)) ts = None \<longleftrightarrow> set ts \<subseteq> K"
  by auto

lemma visited_unfold:
  "(\<forall>n. visited s n \<longrightarrow> P n) \<longleftrightarrow> P s \<and>
     (\<forall>i. Items s = Some i \<longrightarrow> (\<forall>n. visited i n \<longrightarrow> P n)) \<and>
     (Items s = None \<longrightarrow> (\<forall>kp \<in> set (Properties s). \<forall>n. visited (snd kp) n \<longrightarrow> P n))"
proof -
  have step: "visited s n \<longleftrightarrow> s = n \<or> (\<exists>i. Items s = Some i \<and> visited i n)
      \<or> (Items s = None \<and> (\<exists>kp \<in> set (Properties s). visited (snd kp) n))" for n
    by (subst visited_simp) force
  show ?thesis unfolding step by blast
qed

lemma check_schema_unfold:
  "check_schema loc s = None \<longleftrightarrow> node_ok s \<and>
     (\<forall>i. Items s = Some i \<longrightarrow> check_schema (loc @ ''[]'') i = None) \<and>
     (Items s = None \<longrightarrow> (\<forall>kp \<in> set (Properties s). check_schema (loc @ ''.'' @ fst kp) (snd kp) = None))"
proof -
  let ?types = "first_error (\<lambda>t. if t \<in> set known_types then None else Some (UnknownType loc t)) (types_of s)"
  let ?props = "first_error (\<lambda>np. check_schema (loc @ ''.'' @ fst np) (snd np)) (Properties s)"
  have "check_schema loc s = None \<longleftrightarrow> ?types = None \<and> \<not> (types_of s = [] \<and> Enum s = None)
      \<and> AdditionalProperties s \<noteq> Some True
      \<and> (case Items s of Some i \<Rightarrow> check_schema (loc @ ''[]'') i | None \<Rightarrow> ?props) = None"
    by (subst check_schema.simps) (cases ?types; simp del: first_error_None)
  also have "?types = None \<longleftrightarrow> set (types_of s) \<subseteq> set known_types"
    by (rule types_loop_None)
  finally show ?thesis
    unfolding node_ok_def by (cases "Items s") auto
qed

lemma check_schema_None:
  "check_schema loc s = None \<longleftrightarrow> (\<forall>n. visited s n \<longrightarrow> node_ok n)"
proof (induction "size s" arbitrary: s loc rule: less_induct)
  case less
  have item: "check_schema l i = None \<longleftrightarrow> (\<forall>n. visited i n \<longrightarrow> node_ok n)" if "Items s = Some i" for i l
    by (rule less.hyps [OF schema_size_items [OF that]])
  have field: "check_schema l (snd kp) = None \<longleftrightarrow> (\<forall>n. visited (snd kp) n \<longrightarrow> node_ok n)"
    if "kp \<in> set (Properties s)" for kp l
    by (rule less.hyps [OF schema_size_snd [OF that]])
  show ?case
    unfolding check_schema_unfold [of loc s] visited_unfold [of s] using item field by simp
qed

text \<open>
  \<open>check\<close> (behind \<open>Compile\<close>) accepts a schema exactly when every node it visits names
  only known types, has a type or an enum, and is not explicitly open.
\<close>

theorem check_accepts_iff:
  "check_schema loc s = None \<longleftrightarrow> Collect (visited s) \<subseteq> Collect node_ok"
  unfolding check_schema_None by auto

text \<open>
  \<open>Compile\<close> lets through a schema with a property whose type is unknown, when the same node
  also has \<open>items\<close>: the switch returns after checking them and never reaches the properties.
\<close>

theorem Compile_skips_properties:
  "let bad = Schema (Some [''text'']) [] [] None None None None None None None None None;
       it = Schema (Some [''string'']) [] [] None None None None None None None None None;
       s = Schema (Some [''object'', ''array'']) [(''x'', bad)] [''x''] (Some False) None (Some it)
             None None None None None None
   in check_schema ''$.x'' bad = Some (UnknownType ''$.x'' ''text'') \<and> Compile (Some s) = Inr s"
  by (simp add: Let_def Compile_def check_schema.simps types_of_def known_types_def)

section \<open>What a strict shape guarantees\<close>

lemma strict_closed:
  "strict_schema loc s = None \<Longrightarrow> ''object'' \<in> set (types_of s) \<Longrightarrow> AdditionalProperties s \<noteq> None"
  by (simp add: strict_schema.simps [of loc s] split: if_splits)

lemma strict_loop_None:
  "first_error
     (\<lambda>n. if n \<notin> R then Some (e n)
          else (case map_of ps n of None \<Rightarrow> None | Some p \<Rightarrow> f n p)) (json_keys ps) = None
   \<longleftrightarrow> fst ` set ps \<subseteq> R \<and> (\<forall>n p. map_of ps n = Some p \<longrightarrow> f n p = None)"
proof -
  have known: "n \<in> fst ` set ps \<longleftrightarrow> (\<exists>p. map_of ps n = Some p)" for n
    by (metis domIff dom_map_of_conv_image_fst not_None_eq)
  show ?thesis
    unfolding first_error_None set_json_keys subset_iff Ball_def known
    by (auto split: option.splits if_splits)
qed

lemma strict_schema_unfold:
  "strict_schema loc s = None \<longleftrightarrow>
     (''object'' \<in> set (types_of s) \<longrightarrow> AdditionalProperties s \<noteq> None) \<and>
     fst ` set (Properties s) \<subseteq> set (Required s) \<and>
     (\<forall>n p. map_of (Properties s) n = Some p \<longrightarrow> strict_schema (loc @ ''.'' @ n) p = None) \<and>
     (\<forall>i. Items s = Some i \<longrightarrow> strict_schema (loc @ ''[]'') i = None)"
proof (cases "''object'' \<in> set (types_of s) \<and> AdditionalProperties s = None")
  case True
  then show ?thesis by (subst strict_schema.simps) simp
next
  case False
  let ?loop = "first_error
     (\<lambda>n. if n \<notin> set (Required s) then Some (NotRequired (loc @ ''.'' @ n))
          else (case map_of (Properties s) n of None \<Rightarrow> None | Some p \<Rightarrow> strict_schema (loc @ ''.'' @ n) p))
     (json_keys (Properties s))"
  have "strict_schema loc s = None \<longleftrightarrow> ?loop = None \<and>
      (case Items s of None \<Rightarrow> None | Some i \<Rightarrow> strict_schema (loc @ ''[]'') i) = None"
    using False by (subst strict_schema.simps) (simp only: if_False, cases ?loop; simp only: option.simps simp_thms)
  then show ?thesis
    using False unfolding strict_loop_None by (auto split: option.splits)
qed

text \<open>
  A strict-shaped object schema closes its fields: an object that passes validation has every
  property the schema names and no other field, so a tool never sees a field it does not declare
  and never misses one.
\<close>

theorem strict_exact_fields:
  assumes "strict_schema l s = None" and "''object'' \<in> set (types_of s)"
    and "validate s (JObj kvs) loc = None"
  shows "fst ` set kvs = fst ` set (Properties s)"
proof -
  have "conforms s (JObj kvs)" using assms(3) by (simp add: validate_conforms)
  then have "set (Required s) \<subseteq> fst ` set kvs"
    and "AdditionalProperties s \<noteq> None \<longrightarrow> fst ` set kvs \<subseteq> fst ` set (Properties s)"
    by (simp_all add: conforms_obj_iff)
  moreover have "fst ` set (Properties s) \<subseteq> set (Required s)"
    and "AdditionalProperties s \<noteq> None"
    using assms(1,2) by (simp_all only: strict_schema_unfold [of l s]) blast
  ultimately show ?thesis by blast
qed

definition op_schema :: schema where
  "op_schema = Schema (Some [''object'']) 
     [(''op'', Schema (Some [''string'']) [] [] None None None None None None None None None)] [''op'']
     (Some False) None None None None None None None None"

theorem strict_exact_fields_witness:
  "fst ` set [(''op'', JStr ''submit'')] = fst ` set (Properties op_schema)"
proof (rule strict_exact_fields [of "''in''" _ _ "''input''"])
  show "strict_schema ''in'' op_schema = None"
    by (simp add: op_schema_def strict_schema.simps types_of_def json_keys_def)
  show "''object'' \<in> set (types_of op_schema)" by (simp add: op_schema_def types_of_def)
  show "validate op_schema (JObj [(''op'', JStr ''submit'')]) ''input'' = None"
    by (simp add: op_schema_def validate.simps enum_ok_def type_ok_def outside_def json_keys_def)
qed

text \<open>The printed-text comparison of \<open>enum\<close>: a number passes an enum that lists only a string.\<close>

lemma enum_by_printed_text:
  "validate (Schema None [] [] None (Some [JStr ''5'']) None None None None None None None) (JNum ''5'') loc = None"
  by (simp add: validate.simps enum_ok_def enum_match_def type_ok_def outside_def)

end
