(* ===== verification/AgentTypes.thy ===== *)
theory AgentTypes
  imports Schema
begin

text \<open>
  The types the agent runtime passes around: \<^verbatim>\<open>internal/agent/tool.go\<close>,
  \<^verbatim>\<open>internal/agent/policy.go\<close> and the failures of \<^verbatim>\<open>internal/model/errors.go\<close>.  A Go
  \<^verbatim>\<open>error\<close> value is one constructor per origin; \<^verbatim>\<open>errors.Is\<close> and \<^verbatim>\<open>errors.As\<close> walk the
  wrapping of \<open>EJournal\<close>, the only error here that wraps another.
\<close>

section \<open>Usage and grants\<close>

record grant =
  Calls :: int
  USD :: rat

definition no_grant :: grant where "no_grant = \<lparr>Calls = 0, USD = 0\<rparr>"

record usage =
  uCalls :: int
  uInput :: int
  uOutput :: int
  uUSD :: rat
  uUnpriced :: int
  uWatt :: rat

definition no_usage :: usage where
  "no_usage = \<lparr>uCalls = 0, uInput = 0, uOutput = 0, uUSD = 0, uUnpriced = 0, uWatt = 0\<rparr>"

definition usage_add :: "usage \<Rightarrow> usage \<Rightarrow> usage" where
  "usage_add u v = \<lparr>uCalls = uCalls u + uCalls v, uInput = uInput u + uInput v,
     uOutput = uOutput u + uOutput v, uUSD = uUSD u + uUSD v,
     uUnpriced = uUnpriced u + uUnpriced v, uWatt = uWatt u + uWatt v\<rparr>"

definition usage_nonneg :: "usage \<Rightarrow> bool" where
  "usage_nonneg u \<longleftrightarrow> 0 \<le> uCalls u \<and> 0 \<le> uUSD u"

lemma usage_add_simps [simp]:
  "uCalls (usage_add u v) = uCalls u + uCalls v"
  "uUSD (usage_add u v) = uUSD u + uUSD v"
  "uInput (usage_add u v) = uInput u + uInput v"
  "uOutput (usage_add u v) = uOutput u + uOutput v"
  "uUnpriced (usage_add u v) = uUnpriced u + uUnpriced v"
  "uWatt (usage_add u v) = uWatt u + uWatt v"
  by (simp_all add: usage_add_def)

lemma no_usage_simps [simp]:
  "uCalls no_usage = 0" "uUSD no_usage = 0" "uUnpriced no_usage = 0"
  "uInput no_usage = 0" "uOutput no_usage = 0" "uWatt no_usage = 0"
  by (simp_all add: no_usage_def)

lemma usage_add_no [simp]: "usage_add no_usage u = u" "usage_add u no_usage = u"
  by (simp_all add: usage_add_def)

lemma usage_add_assoc: "usage_add (usage_add u v) w = usage_add u (usage_add v w)"
  by (simp add: usage_add_def)

lemma usage_nonneg_add [intro]: "usage_nonneg u \<Longrightarrow> usage_nonneg v \<Longrightarrow> usage_nonneg (usage_add u v)"
  by (simp add: usage_nonneg_def)

lemma usage_nonneg_no [simp, intro]: "usage_nonneg no_usage"
  by (simp add: usage_nonneg_def)

section \<open>Model failures\<close>

text \<open>The kinds of \<^verbatim>\<open>internal/model/errors.go\<close>.\<close>

datatype model_kind = ErrNotConfigured | ErrRateLimited | ErrUnavailable | ErrTimeout | ErrNoContent

record model_usage =
  InputTokens :: int
  OutputTokens :: int
  CacheReadTokens :: int
  CacheWriteTokens :: int
  DurationHours :: rat
  CostUSD :: "rat option"
  WattHours :: "rat option"

record model_error =
  eKind :: model_kind
  eDetail :: string
  eRetryAfter :: rat
  eUsage :: "model_usage option"
  eStatus :: int
  eTruncated :: bool

definition model_fail :: "model_kind \<Rightarrow> string \<Rightarrow> model_error" where
  "model_fail k d = \<lparr>eKind = k, eDetail = d, eRetryAfter = 0, eUsage = None, eStatus = 0, eTruncated = False\<rparr>"

section \<open>Errors of the runtime\<close>

datatype refusal_kind = ErrToolInput | ErrNotOffered | ErrNesting | ErrAlone | ErrBudgetKind | ErrPolicy

record refusal =
  rKind :: refusal_kind
  Reason :: string
  Next :: string

datatype budget_why = Short int rat int | Noted string

datatype err =
    EModel model_error
  | ECanceled
  | EDeadline
  | ERefused refusal
  | EFailure string
  | EToolOutput string
  | ETurnCap string
  | EBudget budget_why
  | EJournal err
  | EPanic string
  | EOther string

text \<open>\<^verbatim>\<open>errors.Is(err, k)\<close> and \<^verbatim>\<open>errors.As\<close> for the kinds the runtime asks about.\<close>

fun is_canceled :: "err \<Rightarrow> bool" where
  "is_canceled ECanceled = True"
| "is_canceled (EJournal e) = is_canceled e"
| "is_canceled _ = False"

fun as_model :: "err \<Rightarrow> model_error option" where
  "as_model (EModel m) = Some m"
| "as_model (EJournal e) = as_model e"
| "as_model _ = None"

fun as_refusal :: "err \<Rightarrow> refusal option" where
  "as_refusal (ERefused r) = Some r"
| "as_refusal (EJournal e) = as_refusal e"
| "as_refusal _ = None"

fun as_failure :: "err \<Rightarrow> string option" where
  "as_failure (EFailure s) = Some s"
| "as_failure (EJournal e) = as_failure e"
| "as_failure _ = None"

text \<open>A refusal unwraps to its kind, so a budget refusal is also a budget error.\<close>

fun is_budget :: "err \<Rightarrow> bool" where
  "is_budget (EBudget _) = True"
| "is_budget (ERefused r) = (rKind r = ErrBudgetKind)"
| "is_budget (EJournal e) = is_budget e"
| "is_budget _ = False"

fun is_tool_output :: "err \<Rightarrow> bool" where
  "is_tool_output (EToolOutput _) = True"
| "is_tool_output (EJournal e) = is_tool_output e"
| "is_tool_output _ = False"

fun is_turn_cap :: "err \<Rightarrow> bool" where
  "is_turn_cap (ETurnCap _) = True"
| "is_turn_cap (EJournal e) = is_turn_cap e"
| "is_turn_cap _ = False"

fun is_panic :: "err \<Rightarrow> bool" where
  "is_panic (EPanic _) = True"
| "is_panic (EJournal e) = is_panic e"
| "is_panic _ = False"

text \<open>
  \<^verbatim>\<open>EndsRun\<close> (\<^verbatim>\<open>loop.go\<close>): a model failure, a stop, a journal write that failed or a
  tool's panic ends the run.
\<close>

fun EndsRun :: "err \<Rightarrow> bool" where
  "EndsRun (EModel _) = True"
| "EndsRun ECanceled = True"
| "EndsRun EDeadline = True"
| "EndsRun (EJournal _) = True"
| "EndsRun (EPanic _) = True"
| "EndsRun _ = False"

definition refuse :: "refusal_kind \<Rightarrow> string \<Rightarrow> string list \<Rightarrow> refusal" where
  "refuse k next reason = \<lparr>rKind = k, Reason = concat reason, Next = next\<rparr>"

definition refusal_text :: "refusal \<Rightarrow> string" where
  "refusal_text r = ''refused: '' @ Reason r @ ''. Next: '' @ Next r"

section \<open>Tools, calls and results\<close>

text \<open>\<^verbatim>\<open>type Spec struct\<close>: \<^verbatim>\<open>In\<close> and \<^verbatim>\<open>Out\<close> are the raw schemas (\<^const>\<open>None\<close>: not a schema of the subset).\<close>

record spec =
  Name :: string
  Kind :: string
  Description :: string
  In :: "schema option"
  Out :: "schema option"
  Class :: string
  MaxTurns :: int
  Allowed :: "string list"
  Role :: string
  Solo :: "string list"
  Final :: bool

record call =
  cTask :: string
  cDocs :: "string list"
  cInput :: raw_message
  cBudget :: grant
  cDepth :: nat
  cModel :: string
  cNoTools :: bool

record tool_result =
  Output :: raw_message
  Usage :: usage
  rModel :: string
  Reward :: "rat option"
  rFinal :: bool

definition no_result :: tool_result where
  "no_result = \<lparr>Output = None, Usage = no_usage, rModel = [], Reward = None, rFinal = False\<rparr>"

text \<open>\<^verbatim>\<open>type Response struct\<close> and \<^verbatim>\<open>type ToolCall struct\<close> (\<^verbatim>\<open>model/client.go\<close>).\<close>

record tool_call =
  tcID :: string
  tcName :: string
  tcArgs :: raw_message

record response =
  respText :: string
  respCalls :: "tool_call list"
  respTruncated :: bool
  respUsage :: model_usage

text \<open>\<^verbatim>\<open>ModelUsage\<close>: one model call's usage, from its answer or its failure.\<close>

definition usage_of :: "model_usage \<Rightarrow> usage" where
  "usage_of mu = \<lparr>uCalls = 1,
     uInput = InputTokens mu + CacheReadTokens mu + CacheWriteTokens mu,
     uOutput = OutputTokens mu,
     uUSD = (case CostUSD mu of None \<Rightarrow> 0 | Some c \<Rightarrow> c),
     uUnpriced = (case CostUSD mu of None \<Rightarrow> 1 | Some _ \<Rightarrow> 0),
     uWatt = (case WattHours mu of None \<Rightarrow> 0 | Some w \<Rightarrow> w)\<rparr>"

definition ModelUsage :: "err option \<Rightarrow> response option \<Rightarrow> usage" where
  "ModelUsage e r =
     (case r of
        Some r' \<Rightarrow> usage_of (respUsage r')
      | None \<Rightarrow>
         (case Option.bind e as_model of
            None \<Rightarrow> no_usage
          | Some me \<Rightarrow>
             (case eUsage me of
                Some mu \<Rightarrow> usage_of mu
              | None \<Rightarrow> if eStatus me = 200 then no_usage\<lparr>uCalls := 1, uUnpriced := 1\<rparr>
                        else no_usage\<lparr>uCalls := 1\<rparr>)))"

lemma ModelUsage_calls: "uCalls (ModelUsage e r) \<in> {0, 1}"
  by (auto simp: ModelUsage_def usage_of_def split: option.splits)

lemma ModelUsage_answered: "uCalls (ModelUsage e (Some r)) = 1"
  by (simp add: ModelUsage_def usage_of_def)

lemma ModelUsage_none: "as_model e = None \<Longrightarrow> ModelUsage (Some e) None = no_usage"
  by (simp add: ModelUsage_def)

section \<open>Steps\<close>

text \<open>\<^verbatim>\<open>type Step struct\<close> (\<^verbatim>\<open>policy.go\<close>): one durable step of a lead's run.\<close>

datatype step_status = Started | Committed | Refused | Failed

datatype step_kind = LeadTurn | ToolCallStep | NoteStep

datatype step_output = NoOutput | Answer string "tool_call list" | ToolOut raw_message | NoteText string

record step =
  N :: int
  sKind :: step_kind
  sTool :: string
  Status :: step_status
  sInput :: raw_message
  sOutput :: step_output
  Grant :: grant
  sUsage :: usage
  Note :: string
  sModel :: string
  sFinal :: bool

record pending =
  pTask :: string
  pAgent :: string
  pDepth :: nat
  pSpec :: spec
  pInput :: raw_message
  pBudget :: nat

text \<open>\<^verbatim>\<open>type Arm struct\<close> (\<^verbatim>\<open>bandit.go\<close>): a tool and the model it ran on.\<close>

record arm =
  armTool :: string
  armModel :: string

end
