(* ===== verification/Budget.thy ===== *)
theory Budget
  imports AgentTypes
begin

text \<open>
  \<^verbatim>\<open>internal/agent/budget.go\<close>: the task ledger.  A tree of \<^verbatim>\<open>*Budget\<close> values under one
  mutex is a list of records: a budget is its position, and its \<open>parent\<close> is the position
  of the budget it was carved out of, always an earlier one.  Every operation takes the
  tree and returns the new one, as the code does inside its critical section.
\<close>

record budget =
  parent :: "nat option"
  calls :: int
  usd :: rat
  keep :: "grant list"
  spent :: usage
  heldCalls :: int
  heldUSD :: rat
  closedB :: bool

type_synonym tree = "budget list"

section \<open>Levels\<close>

definition LevelEvidence :: nat where "LevelEvidence = 0"
definition LevelWork :: nat where "LevelWork = 1"
definition LevelReview :: nat where "LevelReview = 2"
definition LevelFinal :: nat where "LevelFinal = 3"

lemmas level_defs = LevelEvidence_def LevelWork_def LevelReview_def LevelFinal_def

definition Level :: "spec \<Rightarrow> nat" where
  "Level s =
     (if Final s then LevelFinal
      else if Class s = ''evidence'' \<or> Class s = ''plan'' then LevelEvidence
      else if Class s = ''committee'' \<or> Class s = ''cover'' then LevelReview
      else LevelWork)"

lemma Level_le [simp]: "Level s \<le> LevelFinal"
  by (simp add: Level_def level_defs)

section \<open>The operations\<close>

definition no_keep :: "grant list" where
  "no_keep = replicate (Suc LevelFinal) no_grant"

definition fresh :: "nat option \<Rightarrow> int \<Rightarrow> rat \<Rightarrow> budget" where
  "fresh p c u = \<lparr>parent = p, calls = c, usd = u, keep = no_keep, spent = no_usage,
     heldCalls = 0, heldUSD = 0, closedB = False\<rparr>"

text \<open>\<^verbatim>\<open>NewBudget\<close>: a one-budget tree.\<close>

definition NewBudget :: "int \<Rightarrow> rat \<Rightarrow> int \<Rightarrow> tree" where
  "NewBudget c u flr =
     (let b = fresh None c u in
      if flr > 0 \<and> c > 0
      then [b\<lparr>keep := (keep b)[LevelFinal := \<lparr>Calls = flr, USD = u * of_int flr / of_int c\<rparr>]\<rparr>]
      else [b])"

definition Keep :: "tree \<Rightarrow> nat \<Rightarrow> nat \<Rightarrow> grant \<Rightarrow> tree" where
  "Keep t b level g = t[b := (t ! b)\<lparr>keep := (keep (t ! b))[level := g]\<rparr>]"

text \<open>What a level must leave to the levels above it.\<close>

definition kept_above :: "budget \<Rightarrow> nat \<Rightarrow> grant list" where
  "kept_above b level = drop (Suc level) (keep b)"

definition raw_calls :: "budget \<Rightarrow> grant \<Rightarrow> int" where
  "raw_calls b g = calls b - uCalls (spent b) - heldCalls b + Calls g"

definition raw_usd :: "budget \<Rightarrow> grant \<Rightarrow> rat" where
  "raw_usd b g = usd b - uUSD (spent b) - heldUSD b + USD g"

definition freeBeside :: "budget \<Rightarrow> nat \<Rightarrow> grant \<Rightarrow> int \<times> rat" where
  "freeBeside b level g =
     (let (rc, ru) = foldl (\<lambda>(rc, ru) k. (rc - Calls k, ru - USD k))
                       (raw_calls b g, raw_usd b g) (kept_above b level)
      in (max rc 0, max ru 0))"

definition free :: "budget \<Rightarrow> nat \<Rightarrow> int \<times> rat" where
  "free b level = freeBeside b level no_grant"

definition RemainingAt :: "tree \<Rightarrow> nat \<Rightarrow> nat \<Rightarrow> int \<times> rat" where
  "RemainingAt t b level = free (t ! b) level"

definition Remaining :: "tree \<Rightarrow> nat \<Rightarrow> int \<times> rat" where
  "Remaining t b = RemainingAt t b LevelWork"

definition RemainingBeside :: "tree \<Rightarrow> nat \<Rightarrow> nat \<Rightarrow> grant \<Rightarrow> int \<times> rat" where
  "RemainingBeside t b level g = freeBeside (t ! b) level g"

definition Spent :: "tree \<Rightarrow> nat \<Rightarrow> usage" where
  "Spent t b = spent (t ! b)"

text \<open>\<^verbatim>\<open>(*Budget).Grant\<close>: the new tree and the new budget's position, or why none is free.\<close>

definition kept_calls :: "budget \<Rightarrow> nat \<Rightarrow> int" where
  "kept_calls b level = sum_list (map Calls (kept_above b level))"

definition kept_usd :: "budget \<Rightarrow> nat \<Rightarrow> rat" where
  "kept_usd b level = sum_list (map USD (kept_above b level))"

definition take_grant :: "tree \<Rightarrow> nat \<Rightarrow> int \<Rightarrow> rat \<Rightarrow> nat \<Rightarrow> (budget_why, tree \<times> nat) result" where
  "take_grant t b c u level =
     (let (fc, fu) = free (t ! b) level in
      if c > 0 \<and> fc = 0 \<or> u > fu then Inl (Short fc fu (kept_calls (t ! b) level))
      else
        let g = fresh (Some b) (min c fc) (if u < 0 then fu else u) in
        Inr (t[b := (t ! b)\<lparr>heldCalls := heldCalls (t ! b) + calls g,
                            heldUSD := heldUSD (t ! b) + usd g\<rparr>] @ [g], length t))"

text \<open>
  \<^verbatim>\<open>Charge\<close> walks up the tree, converting the parents' holds into spending.  The walk
  follows \<open>parent\<close> while it leads to an earlier position, which it always does.
\<close>

definition charge_one :: "tree \<Rightarrow> nat \<Rightarrow> usage \<Rightarrow> tree" where
  "charge_one t c u =
     (let b = t ! c;
          t' = (case parent b of
                  Some p \<Rightarrow>
                    if closedB b then t
                    else t[p := (t ! p)\<lparr>
                      heldCalls := heldCalls (t ! p) - min (uCalls u) (max 0 (calls b - uCalls (spent b))),
                      heldUSD := heldUSD (t ! p) - min (uUSD u) (max 0 (usd b - uUSD (spent b)))\<rparr>]
                | None \<Rightarrow> t)
      in t'[c := (t' ! c)\<lparr>spent := usage_add (spent (t' ! c)) u\<rparr>])"

function Charge :: "tree \<Rightarrow> nat \<Rightarrow> usage \<Rightarrow> tree" where
  "Charge t c u =
     (case parent (t ! c) of
        Some p \<Rightarrow> if p < c then Charge (charge_one t c u) p u else charge_one t c u
      | None \<Rightarrow> charge_one t c u)"
  by pat_completeness auto
termination
  by (relation "measure (\<lambda>(t, c, u). c)") auto

declare Charge.simps [simp del]

definition Close :: "tree \<Rightarrow> nat \<Rightarrow> tree" where
  "Close t c =
     (let b = t ! c;
          t' = (case parent b of
                  Some p \<Rightarrow>
                    if closedB b then t
                    else t[p := (t ! p)\<lparr>
                      heldCalls := heldCalls (t ! p) - max 0 (calls b - uCalls (spent b)),
                      heldUSD := heldUSD (t ! p) - max 0 (usd b - uUSD (spent b))\<rparr>]
                | None \<Rightarrow> t)
      in t'[c := (t' ! c)\<lparr>closedB := True\<rparr>])"

definition Value :: "tree \<Rightarrow> nat \<Rightarrow> grant" where
  "Value t b = \<lparr>Calls = calls (t ! b), USD = usd (t ! b)\<rparr>"

section \<open>The books balance\<close>

text \<open>What an open budget still holds in its parent: its unspent part, never below nothing.\<close>

definition left_calls :: "budget \<Rightarrow> int" where
  "left_calls b = max 0 (calls b - uCalls (spent b))"

definition left_usd :: "budget \<Rightarrow> rat" where
  "left_usd b = max 0 (usd b - uUSD (spent b))"

definition held_by :: "(budget \<Rightarrow> 'a::ab_group_add) \<Rightarrow> tree \<Rightarrow> nat \<Rightarrow> 'a" where
  "held_by f t p = sum_list (map (\<lambda>b. if parent b = Some p \<and> \<not> closedB b then f b else 0) t)"

definition wf_tree :: "tree \<Rightarrow> bool" where
  "wf_tree t \<longleftrightarrow> (\<forall>i < length t. length (keep (t ! i)) = Suc LevelFinal \<and>
     (\<forall>p. parent (t ! i) = Some p \<longrightarrow> p < i))"

definition books :: "tree \<Rightarrow> bool" where
  "books t \<longleftrightarrow> wf_tree t \<and>
     (\<forall>p < length t. heldCalls (t ! p) = held_by left_calls t p \<and> heldUSD (t ! p) = held_by left_usd t p)"

lemma left_nonneg [simp]: "0 \<le> left_calls b" "0 \<le> left_usd b"
  by (simp_all add: left_calls_def left_usd_def)

lemma wf_treeD: "wf_tree t \<Longrightarrow> i < length t \<Longrightarrow> parent (t ! i) = Some p \<Longrightarrow> p < i"
  by (simp add: wf_tree_def)

lemma booksD:
  assumes "books t" and "p < length t"
  shows "heldCalls (t ! p) = held_by left_calls t p" and "heldUSD (t ! p) = held_by left_usd t p"
  using assms by (simp_all add: books_def)

lemma books_wf: "books t \<Longrightarrow> wf_tree t"
  by (simp add: books_def)

text \<open>An update that changes neither parent nor what is left changes no parent's sum.\<close>

lemma held_by_update_same:
  assumes "i < length t" and "parent b = parent (t ! i)" and "closedB b = closedB (t ! i)"
    and "f b = f (t ! i)"
  shows "held_by f (t[i := b]) p = held_by f t p"
  using assms by (simp add: held_by_def sum_list_map_update)

lemma held_by_update:
  assumes "i < length t"
  shows "held_by f (t[i := b]) p = held_by f t p
     - (if parent (t ! i) = Some p \<and> \<not> closedB (t ! i) then f (t ! i) else 0)
     + (if parent b = Some p \<and> \<not> closedB b then f b else 0)"
  using assms by (simp add: held_by_def sum_list_map_update)

lemma held_by_snoc:
  "held_by f (t @ [b]) p = held_by f t p + (if parent b = Some p \<and> \<not> closedB b then f b else 0)"
  by (simp add: held_by_def)

lemma held_by_nonneg: "(\<And>b. 0 \<le> f b) \<Longrightarrow> 0 \<le> (held_by f t p :: 'a::ordered_ab_group_add)"
  unfolding held_by_def by (rule sum_list_map_nonneg) simp

lemma held_by_member:
  assumes "i < length t" and "parent (t ! i) = Some p" and "\<not> closedB (t ! i)" and "\<And>b. 0 \<le> f b"
  shows "f (t ! i) \<le> (held_by f t p :: 'a::ordered_ab_group_add)"
proof -
  let ?g = "\<lambda>b. if parent b = Some p \<and> \<not> closedB b then f b else 0"
  have "?g (t ! i) \<le> sum_list (map ?g t)"
    using assms by (intro sum_list_member_le) auto
  then show ?thesis using assms by (simp add: held_by_def)
qed

lemma held_nonneg:
  assumes "books t" and "p < length t"
  shows "0 \<le> heldCalls (t ! p)" and "0 \<le> heldUSD (t ! p)"
  using booksD [OF assms] by (simp_all add: held_by_nonneg)

subsection \<open>Each operation keeps the books\<close>

lemma books_NewBudget: "books (NewBudget c u flr)"
  by (simp add: books_def wf_tree_def NewBudget_def fresh_def no_keep_def held_by_def Let_def level_defs)

lemma Keep_same:
  assumes "b < length t"
  shows "length (Keep t b l g) = length t"
    and "parent (Keep t b l g ! i) = parent (t ! i)" and "closedB (Keep t b l g ! i) = closedB (t ! i)"
    and "spent (Keep t b l g ! i) = spent (t ! i)" and "calls (Keep t b l g ! i) = calls (t ! i)"
    and "usd (Keep t b l g ! i) = usd (t ! i)" and "heldCalls (Keep t b l g ! i) = heldCalls (t ! i)"
    and "heldUSD (Keep t b l g ! i) = heldUSD (t ! i)"
    and "length (keep (Keep t b l g ! i)) = length (keep (t ! i))"
  using assms by (cases "i = b"; simp add: Keep_def)+

lemma books_Keep: "books t \<Longrightarrow> b < length t \<Longrightarrow> books (Keep t b l g)"
  unfolding books_def wf_tree_def
  by (auto simp: Keep_same Keep_def held_by_update_same left_calls_def left_usd_def nth_list_update)

lemma take_grant_InrD:
  assumes "take_grant t b c u level = Inr (t', g)"
  obtains gr where "gr = fresh (Some b) (min c (fst (free (t ! b) level)))
        (if u < 0 then snd (free (t ! b) level) else u)"
    and "t' = t[b := (t ! b)\<lparr>heldCalls := heldCalls (t ! b) + calls gr,
                            heldUSD := heldUSD (t ! b) + usd gr\<rparr>] @ [gr]"
    and "g = length t" and "u \<le> snd (free (t ! b) level)"
    and "\<not> (c > 0 \<and> fst (free (t ! b) level) = 0)"
  using assms by (auto simp: take_grant_def Let_def split: prod.splits if_splits)

lemma free_nonneg: "0 \<le> fst (free b l)" "0 \<le> snd (free b l)"
  by (simp_all add: free_def freeBeside_def Let_def split: prod.splits)

lemma fresh_simps [simp]:
  "parent (fresh p c u) = p" "calls (fresh p c u) = c" "usd (fresh p c u) = u"
  "spent (fresh p c u) = no_usage" "heldCalls (fresh p c u) = 0" "heldUSD (fresh p c u) = 0"
  "closedB (fresh p c u) = False" "keep (fresh p c u) = no_keep"
  by (simp_all add: fresh_def)

lemma held_by_none:
  assumes "wf_tree t"
  shows "held_by f t (length t) = 0"
proof -
  have "(if parent b = Some (length t) \<and> \<not> closedB b then f b else 0) = 0" if "b \<in> set t" for b
    using that wf_treeD [OF assms] by (fastforce simp: in_set_conv_nth)
  then show ?thesis unfolding held_by_def by (rule sum_list_map_zero)
qed

lemma books_take_grant:
  assumes "books t" and "b < length t" and "0 \<le> c" and g: "take_grant t b c u level = Inr (t', g)"
  shows "books t'"
proof -
  obtain gr where gr: "gr = fresh (Some b) (min c (fst (free (t ! b) level)))
        (if u < 0 then snd (free (t ! b) level) else u)"
    and t': "t' = t[b := (t ! b)\<lparr>heldCalls := heldCalls (t ! b) + calls gr,
                            heldUSD := heldUSD (t ! b) + usd gr\<rparr>] @ [gr]"
    using g by (rule take_grant_InrD)
  let ?b = "(t ! b)\<lparr>heldCalls := heldCalls (t ! b) + calls gr, heldUSD := heldUSD (t ! b) + usd gr\<rparr>"
  have nn: "0 \<le> calls gr" "0 \<le> usd gr"
    using assms(3) by (auto simp: gr free_nonneg)
  have left: "left_calls gr = calls gr" "left_usd gr = usd gr"
    using nn by (simp_all add: left_calls_def left_usd_def gr)
  have gp: "parent gr = Some b" "\<not> closedB gr" by (simp_all add: gr)
  have same: "held_by left_calls (t[b := ?b]) p = held_by left_calls t p"
    "held_by left_usd (t[b := ?b]) p = held_by left_usd t p" for p
    using assms(2) by (simp_all add: held_by_update_same left_calls_def left_usd_def)
  have sums: "held_by left_calls t' p = held_by left_calls t p + (if p = b then calls gr else 0)"
    "held_by left_usd t' p = held_by left_usd t p + (if p = b then usd gr else 0)" for p
    unfolding t' held_by_snoc same using gp left by auto
  have wf: "wf_tree t'"
    using books_wf [OF assms(1)] assms(2) gp
    by (auto simp: wf_tree_def t' nth_append nth_list_update gr no_keep_def less_Suc_eq)
  have none: "held_by left_calls t (length t) = 0" "held_by left_usd t (length t) = 0"
    using books_wf [OF assms(1)] by (rule held_by_none)+
  have at: "t' ! p = (if p = length t then gr else if p = b then ?b else t ! p)" if "p \<le> length t" for p
    using that assms(2) by (auto simp: t' nth_append nth_list_update)
  show ?thesis unfolding books_def
  proof (intro conjI allI impI wf)
    fix p assume "p < length t'"
    then have p: "p \<le> length t" by (simp add: t')
    show "heldCalls (t' ! p) = held_by left_calls t' p" "heldUSD (t' ! p) = held_by left_usd t' p"
      using p assms(2) booksD [OF assms(1), of p] none
      unfolding at [OF p] sums by (auto simp: gr)
  qed
qed

lemma left_charge:
  "0 \<le> uCalls u \<Longrightarrow> left_calls (b\<lparr>spent := usage_add (spent b) u\<rparr>) = left_calls b - min (uCalls u) (left_calls b)"
  "0 \<le> uUSD u \<Longrightarrow> left_usd (b\<lparr>spent := usage_add (spent b) u\<rparr>) = left_usd b - min (uUSD u) (left_usd b)"
  by (auto simp: left_calls_def left_usd_def max_def min_def)

text \<open>The parent after a hold of \<open>dc\<close> calls and \<open>du\<close> USD was taken off it.\<close>

definition release :: "tree \<Rightarrow> nat \<Rightarrow> int \<Rightarrow> rat \<Rightarrow> tree" where
  "release t p dc du = t[p := (t ! p)\<lparr>heldCalls := heldCalls (t ! p) - dc, heldUSD := heldUSD (t ! p) - du\<rparr>]"

lemma release_length [simp]: "length (release t p dc du) = length t"
  by (simp add: release_def)

lemma release_nth:
  "p < length t \<Longrightarrow> release t p dc du ! i =
     (if i = p then (t ! p)\<lparr>heldCalls := heldCalls (t ! p) - dc, heldUSD := heldUSD (t ! p) - du\<rparr> else t ! i)"
  by (simp add: release_def nth_list_update)

lemma held_by_release:
  "p < length t \<Longrightarrow> held_by left_calls (release t p dc du) q = held_by left_calls t q"
  "p < length t \<Longrightarrow> held_by left_usd (release t p dc du) q = held_by left_usd t q"
  by (simp_all add: release_def held_by_update_same left_calls_def left_usd_def)

lemma charge_one_release:
  "charge_one t c u =
     (let t' = (case parent (t ! c) of
          Some p \<Rightarrow> if closedB (t ! c) then t
                    else release t p (min (uCalls u) (left_calls (t ! c))) (min (uUSD u) (left_usd (t ! c)))
        | None \<Rightarrow> t)
      in t'[c := (t' ! c)\<lparr>spent := usage_add (spent (t' ! c)) u\<rparr>])"
  by (simp add: charge_one_def release_def left_calls_def left_usd_def Let_def split: option.split)

lemma Close_release:
  "Close t c =
     (let t' = (case parent (t ! c) of
          Some p \<Rightarrow> if closedB (t ! c) then t
                    else release t p (left_calls (t ! c)) (left_usd (t ! c))
        | None \<Rightarrow> t)
      in t'[c := (t' ! c)\<lparr>closedB := True\<rparr>])"
  by (simp add: Close_def release_def left_calls_def left_usd_def Let_def split: option.split)

text \<open>
  One update of a budget whose parent, if it is open, gives up exactly the difference of what
  is left: the step \<open>Charge\<close> and \<open>Close\<close> share.
\<close>

lemma books_shift:
  assumes bk: "books t" and c: "c < length t" and par: "parent b' = parent (t ! c)"
    and kp: "length (keep b') = length (keep (t ! c))"
    and hc: "heldCalls b' = heldCalls (t ! c)" and hu: "heldUSD b' = heldUSD (t ! c)"
    and shut: "closedB (t ! c) \<Longrightarrow> closedB b'"
    and dc: "dc = left_calls (t ! c) - (if closedB b' then 0 else left_calls b')"
    and du: "du = left_usd (t ! c) - (if closedB b' then 0 else left_usd b')"
  shows "books ((case parent (t ! c) of
             Some p \<Rightarrow> if closedB (t ! c) then t else release t p dc du
           | None \<Rightarrow> t)[c := b'])" (is "books (?u[c := b'])")
proof -
  define t1 where "t1 = ?u"
  have pc: "p < c" if "parent (t ! c) = Some p" for p
    using wf_treeD [OF books_wf [OF bk] c that] .
  have len: "length t1 = length t" by (auto simp: t1_def split: option.split)
  have tc: "t1 ! c = t ! c"
    using pc c by (auto simp: t1_def release_nth split: option.split)
  have par_t: "parent (t1 ! i) = parent (t ! i)" and keep_t: "keep (t1 ! i) = keep (t ! i)" for i
    using pc c by (auto simp: t1_def release_nth split: option.split)
  have wf: "wf_tree (t1[c := b'])"
    using books_wf [OF bk] par kp c by (auto simp: wf_tree_def len par_t keep_t nth_list_update)
  have sums: "held_by left_calls t1 q = held_by left_calls t q" "held_by left_usd t1 q = held_by left_usd t q" for q
    using pc c by (auto simp: t1_def held_by_release split: option.split)
  have drop: "held_by left_calls (t1[c := b']) q = held_by left_calls t q - (if parent (t ! c) = Some q \<and> \<not> closedB (t ! c) then dc else 0)"
    "held_by left_usd (t1[c := b']) q = held_by left_usd t q - (if parent (t ! c) = Some q \<and> \<not> closedB (t ! c) then du else 0)" for q
    using c shut by (auto simp: held_by_update len tc sums par dc du)
  have fields: "heldCalls (t1[c := b'] ! q) = heldCalls (t ! q) - (if parent (t ! c) = Some q \<and> \<not> closedB (t ! c) then dc else 0)"
    "heldUSD (t1[c := b'] ! q) = heldUSD (t ! q) - (if parent (t ! c) = Some q \<and> \<not> closedB (t ! c) then du else 0)" if "q < length t" for q
    using that c pc hc hu by (auto simp: t1_def nth_list_update release_nth split: option.split)
  show ?thesis unfolding t1_def [symmetric] books_def
    using wf fields drop booksD [OF bk] by (simp add: len)
qed

lemma books_charge_one:
  assumes "books t" and "c < length t" and "usage_nonneg u"
  shows "books (charge_one t c u)"
proof -
  let ?b' = "(t ! c)\<lparr>spent := usage_add (spent (t ! c)) u\<rparr>"
  let ?t = "case parent (t ! c) of
      Some p \<Rightarrow> if closedB (t ! c) then t
                else release t p (min (uCalls u) (left_calls (t ! c))) (min (uUSD u) (left_usd (t ! c)))
    | None \<Rightarrow> t"
  have "?t ! c = t ! c"
    using wf_treeD [OF books_wf [OF assms(1)] assms(2)] assms(2)
    by (fastforce simp: release_nth split: option.split)
  then have eq: "charge_one t c u = ?t[c := ?b']" by (simp add: charge_one_release Let_def)
  show ?thesis
  proof (cases "closedB (t ! c)")
    case True
    then have "books ((case parent (t ! c) of Some p \<Rightarrow> if closedB (t ! c) then t else release t p (left_calls (t ! c)) (left_usd (t ! c)) | None \<Rightarrow> t)[c := ?b'])"
      using assms by (intro books_shift) auto
    then show ?thesis using True unfolding eq by (simp split: option.splits)
  next
    case False
    then show ?thesis unfolding eq
      using assms left_charge [of u "t ! c"] by (intro books_shift) (auto simp: usage_nonneg_def)
  qed
qed

lemma charge_one_length [simp]: "length (charge_one t c u) = length t"
  by (simp add: charge_one_def Let_def split: option.split)

lemma Charge_length [simp]: "length (Charge t c u) = length t"
proof (induction t c u rule: Charge.induct)
  case (1 t c u)
  then show ?case by (subst Charge.simps) (auto split: option.split)
qed

lemma Charge_step:
  "Charge t c u = (case parent (t ! c) of
      Some p \<Rightarrow> if p < c then Charge (charge_one t c u) p u else charge_one t c u
    | None \<Rightarrow> charge_one t c u)"
  by (subst Charge.simps) (rule refl)

lemma books_Charge: "books t \<Longrightarrow> c < length t \<Longrightarrow> usage_nonneg u \<Longrightarrow> books (Charge t c u)"
proof (induction t c u rule: Charge.induct)
  case (1 t c u)
  show ?case
    using "1.IH" "1.prems" books_charge_one [OF "1.prems"] unfolding Charge_step [of t c u]
    by (auto split: option.split)
qed

lemma Close_length [simp]: "length (Close t c) = length t"
  by (simp add: Close_def Let_def split: option.split)

lemma books_Close:
  assumes "books t" and "c < length t"
  shows "books (Close t c)"
proof -
  let ?b' = "(t ! c)\<lparr>closedB := True\<rparr>"
  let ?t = "case parent (t ! c) of
      Some p \<Rightarrow> if closedB (t ! c) then t else release t p (left_calls (t ! c)) (left_usd (t ! c))
    | None \<Rightarrow> t"
  have "?t ! c = t ! c"
    using wf_treeD [OF books_wf [OF assms(1)] assms(2)] assms(2)
    by (fastforce simp: release_nth split: option.split)
  then have eq: "Close t c = ?t[c := ?b']" by (simp add: Close_release Let_def)
  show ?thesis unfolding eq using assms by (intro books_shift) auto
qed

subsection \<open>Every reachable ledger\<close>

inductive ledger :: "int \<Rightarrow> rat \<Rightarrow> int \<Rightarrow> tree \<Rightarrow> bool" for c u f where
  start: "ledger c u f (NewBudget c u f)"
| kept: "ledger c u f t \<Longrightarrow> b < length t \<Longrightarrow> ledger c u f (Keep t b l g)"
| granted: "ledger c u f t \<Longrightarrow> b < length t \<Longrightarrow> 0 \<le> n \<Longrightarrow>
     take_grant t b n w l = Inr (t', g) \<Longrightarrow> ledger c u f t'"
| charged: "ledger c u f t \<Longrightarrow> b < length t \<Longrightarrow> usage_nonneg v \<Longrightarrow> ledger c u f (Charge t b v)"
| closed: "ledger c u f t \<Longrightarrow> b < length t \<Longrightarrow> ledger c u f (Close t b)"

lemma ledger_books: "ledger c u f t \<Longrightarrow> books t"
  by (induction rule: ledger.induct)
    (auto intro: books_NewBudget books_Keep books_take_grant books_Charge books_Close)

text \<open>
  The ledger's books always balance: whatever grants, charges (past a cap too), closings and
  keeps a task makes, and in whatever order, the calls and USD a budget records as held are exactly
  what its open grants have left.
\<close>

theorem ledger_holds_are_open_grants:
  assumes "ledger c u f t" and "p < length t"
  shows "heldCalls (t ! p) = held_by left_calls t p \<and> heldUSD (t ! p) = held_by left_usd t p"
  using booksD [OF ledger_books [OF assms(1)] assms(2)] by simp

definition demo_usage :: usage where
  "demo_usage = no_usage\<lparr>uCalls := 7, uUSD := 1\<rparr>"

theorem ledger_holds_are_open_grants_witness:
  "heldCalls (Charge (NewBudget 400 5 5) 0 demo_usage ! 0)
     = held_by left_calls (Charge (NewBudget 400 5 5) 0 demo_usage) 0"
proof -
  have "ledger 400 5 5 (Charge (NewBudget 400 5 5) 0 demo_usage)"
    by (rule ledger.charged [OF ledger.start])
      (simp_all add: NewBudget_def usage_nonneg_def demo_usage_def)
  from ledger_holds_are_open_grants [OF this, of 0] show ?thesis
    by (simp add: NewBudget_def)
qed

section \<open>No honest run overspends\<close>

text \<open>What is free at a level, in closed form.\<close>

lemma fold_kept:
  "foldl (\<lambda>(rc, ru) k. (rc - Calls k, ru - USD k)) (a, b) ks
     = (a - sum_list (map Calls ks), b - sum_list (map USD ks))"
  by (induction ks arbitrary: a b) (auto simp: algebra_simps)

lemma free_eq:
  "free b l = (max (raw_calls b no_grant - kept_calls b l) 0, max (raw_usd b no_grant - kept_usd b l) 0)"
  by (simp add: free_def freeBeside_def fold_kept kept_calls_def kept_usd_def)

lemma raw_no_grant [simp]:
  "raw_calls b no_grant = calls b - uCalls (spent b) - heldCalls b"
  "raw_usd b no_grant = usd b - uUSD (spent b) - heldUSD b"
  by (simp_all add: raw_calls_def raw_usd_def no_grant_def)

definition keeps_nonneg :: "tree \<Rightarrow> bool" where
  "keeps_nonneg t \<longleftrightarrow> (\<forall>i < length t. \<forall>k \<in> set (keep (t ! i)). 0 \<le> Calls k \<and> 0 \<le> USD k)"

lemma kept_nonneg:
  assumes "keeps_nonneg t" and "b < length t"
  shows "0 \<le> kept_calls (t ! b) l" and "0 \<le> kept_usd (t ! b) l"
proof -
  have "\<And>k. k \<in> set (kept_above (t ! b) l) \<Longrightarrow> 0 \<le> Calls k \<and> 0 \<le> USD k"
    using assms by (fastforce simp: keeps_nonneg_def kept_above_def dest: in_set_dropD)
  then show "0 \<le> kept_calls (t ! b) l" and "0 \<le> kept_usd (t ! b) l"
    unfolding kept_calls_def kept_usd_def by (simp_all add: sum_list_map_nonneg)
qed

text \<open>A budget is live while it and every budget above it is open.\<close>

function live :: "tree \<Rightarrow> nat \<Rightarrow> bool" where
  "live t c = (\<not> closedB (t ! c) \<and>
     (case parent (t ! c) of None \<Rightarrow> True | Some p \<Rightarrow> if p < c then live t p else False))"
  by pat_completeness auto
termination
  by (relation "measure snd") auto

declare live.simps [simp del]

definition affords :: "tree \<Rightarrow> nat \<Rightarrow> usage \<Rightarrow> bool" where
  "affords t c u \<longleftrightarrow>
     uCalls (spent (t ! c)) + heldCalls (t ! c) + uCalls u \<le> calls (t ! c) \<and>
     uUSD (spent (t ! c)) + heldUSD (t ! c) + uUSD u \<le> usd (t ! c)"

definition capped :: "tree \<Rightarrow> nat \<Rightarrow> bool" where
  "capped t i \<longleftrightarrow> affords t i no_usage"

text \<open>
  An honest run: shares kept are not negative, grants ask for no negative number of calls, and a
  budget is charged only while it is live and for no more than it has left.
\<close>

inductive honest :: "int \<Rightarrow> rat \<Rightarrow> int \<Rightarrow> tree \<Rightarrow> bool" for c u f where
  start: "honest c u f (NewBudget c u f)"
| kept: "honest c u f t \<Longrightarrow> b < length t \<Longrightarrow> 0 \<le> Calls g \<Longrightarrow> 0 \<le> USD g \<Longrightarrow> honest c u f (Keep t b l g)"
| granted: "honest c u f t \<Longrightarrow> b < length t \<Longrightarrow> 0 \<le> n \<Longrightarrow>
     take_grant t b n w l = Inr (t', g) \<Longrightarrow> honest c u f t'"
| charged: "honest c u f t \<Longrightarrow> b < length t \<Longrightarrow> usage_nonneg v \<Longrightarrow> live t b \<Longrightarrow> affords t b v \<Longrightarrow>
     honest c u f (Charge t b v)"
| closed: "honest c u f t \<Longrightarrow> b < length t \<Longrightarrow> honest c u f (Close t b)"

lemma honest_ledger: "honest c u f t \<Longrightarrow> ledger c u f t"
  by (induction rule: honest.induct) (auto intro: ledger.intros)

lemma charge_one_nth:
  assumes "wf_tree t" and "c < length t" and "i < length t"
  shows "charge_one t c u ! i =
     (if i = c then (t ! c)\<lparr>spent := usage_add (spent (t ! c)) u\<rparr>
      else if parent (t ! c) = Some i \<and> \<not> closedB (t ! c)
        then (t ! i)\<lparr>heldCalls := heldCalls (t ! i) - min (uCalls u) (left_calls (t ! c)),
                     heldUSD := heldUSD (t ! i) - min (uUSD u) (left_usd (t ! c))\<rparr>
      else t ! i)"
  using assms wf_treeD [OF assms(1,2)]
  by (auto simp: charge_one_release Let_def release_nth nth_list_update split: option.split)

lemma live_cong:
  assumes "\<And>i. i \<le> c \<Longrightarrow> parent (t' ! i) = parent (t ! i) \<and> closedB (t' ! i) = closedB (t ! i)"
  shows "live t' c = live t c"
  using assms
proof (induction t c rule: live.induct)
  case (1 t c)
  show ?case
    using "1.IH" "1.prems" by (subst (1 2) live.simps) (auto split: option.split)
qed

lemma capped_Charge:
  assumes "books t" and "c < length t" and "usage_nonneg u" and "live t c" and "affords t c u"
    and "\<And>i. i < length t \<Longrightarrow> i \<noteq> c \<Longrightarrow> capped t i"
  shows "i < length t \<Longrightarrow> capped (Charge t c u) i"
  using assms
proof (induction t c u rule: Charge.induct)
  case (1 t c u)
  note wf = books_wf [OF "1.prems"(2)] and c = "1.prems"(3) and u = "1.prems"(4)
  let ?t = "charge_one t c u"
  have open_c: "\<not> closedB (t ! c)" using "1.prems"(5) by (simp add: live.simps)
  have at_c: "capped ?t c"
    using "1.prems"(6) by (simp add: capped_def affords_def charge_one_nth [OF wf c c])
  show ?case
  proof (cases "parent (t ! c)")
    case None
    have "capped ?t j" if "j < length t" for j
      using that at_c "1.prems"(7) None
      by (cases "j = c") (auto simp: capped_def affords_def charge_one_nth [OF wf c])
    then show ?thesis using None "1.prems"(1) by (simp add: Charge_step [of t c u])
  next
    case (Some p)
    have p: "p < c" using wf_treeD [OF wf c Some] .
    then have pl: "p < length t" using c by simp
    have room: "uCalls u \<le> left_calls (t ! c)" "uUSD u \<le> left_usd (t ! c)"
      using "1.prems"(6) held_nonneg [OF "1.prems"(2) c]
      by (auto simp: affords_def left_calls_def left_usd_def)
    have at_p: "?t ! p = (t ! p)\<lparr>heldCalls := heldCalls (t ! p) - uCalls u, heldUSD := heldUSD (t ! p) - uUSD u\<rparr>"
      using p room by (simp add: charge_one_nth [OF wf c pl] Some open_c min_absorb1)
    have same: "parent (?t ! j) = parent (t ! j) \<and> closedB (?t ! j) = closedB (t ! j)" if "j \<le> p" for j
      using that pl by (simp add: charge_one_nth [OF wf c])
    have "capped (Charge ?t p u) i"
    proof (rule "1.IH" [OF Some p])
      show "books ?t" by (rule books_charge_one [OF "1.prems"(2) c u])
      show "live ?t p"
        using "1.prems"(5) Some p live_cong [of p ?t t, OF same] by (simp add: live.simps [of t c])
      show "affords ?t p u"
        using "1.prems"(7) [OF pl] p by (simp add: affords_def at_p capped_def)
      show "capped ?t j" if "j < length ?t" and "j \<noteq> p" for j
        using that at_c "1.prems"(7) [of j] Some
        by (cases "j = c") (auto simp: capped_def affords_def charge_one_nth [OF wf c])
    qed (use "1.prems"(1) pl u in auto)
    then show ?thesis using Some p by (simp add: Charge_step [of t c u])
  qed
qed

lemma capped_take_grant:
  assumes "keeps_nonneg t" and "\<And>i. i < length t \<Longrightarrow> capped t i" and b: "b < length t" and "0 \<le> n"
    and g: "take_grant t b n w l = Inr (t', g)" and i: "i < length t'"
  shows "capped t' i"
proof -
  obtain gr where gr: "gr = fresh (Some b) (min n (fst (free (t ! b) l)))
        (if w < 0 then snd (free (t ! b) l) else w)"
    and t': "t' = t[b := (t ! b)\<lparr>heldCalls := heldCalls (t ! b) + calls gr,
                            heldUSD := heldUSD (t ! b) + usd gr\<rparr>] @ [gr]"
    and w: "w \<le> snd (free (t ! b) l)"
    using g by (rule take_grant_InrD)
  have room: "capped t b" using assms(2) b .
  have "calls gr \<le> fst (free (t ! b) l)" "usd gr \<le> snd (free (t ! b) l)"
    using w by (auto simp: gr)
  moreover have "fst (free (t ! b) l) \<le> calls (t ! b) - uCalls (spent (t ! b)) - heldCalls (t ! b)"
    "snd (free (t ! b) l) \<le> usd (t ! b) - uUSD (spent (t ! b)) - heldUSD (t ! b)"
    using room kept_nonneg [OF assms(1) b, of l] by (auto simp: free_eq capped_def affords_def)
  ultimately have at_b: "heldCalls (t ! b) + calls gr + uCalls (spent (t ! b)) \<le> calls (t ! b)"
    "heldUSD (t ! b) + usd gr + uUSD (spent (t ! b)) \<le> usd (t ! b)" by linarith+
  have new: "0 \<le> calls gr" "0 \<le> usd gr" using assms(4) by (auto simp: gr free_nonneg)
  show ?thesis
    using i at_b new assms(2) [of i] b
    by (cases "i = length t") (auto simp: t' capped_def affords_def nth_append nth_list_update gr algebra_simps)
qed

lemma capped_Close:
  assumes "books t" and c: "c < length t" and "\<And>i. i < length t \<Longrightarrow> capped t i" and i: "i < length t"
  shows "capped (Close t c) i"
proof -
  have pc: "p < c" if "parent (t ! c) = Some p" for p
    using wf_treeD [OF books_wf [OF assms(1)] c that] .
  have "\<exists>dc du. 0 \<le> dc \<and> 0 \<le> du \<and> spent (Close t c ! i) = spent (t ! i) \<and> calls (Close t c ! i) = calls (t ! i)
      \<and> usd (Close t c ! i) = usd (t ! i) \<and> heldCalls (Close t c ! i) = heldCalls (t ! i) - dc
      \<and> heldUSD (Close t c ! i) = heldUSD (t ! i) - du"
  proof (cases "parent (t ! c) = Some i \<and> \<not> closedB (t ! c)")
    case True
    then show ?thesis
      using pc [of i] c i
      by (intro exI [of _ "left_calls (t ! c)"] exI [of _ "left_usd (t ! c)"])
        (simp add: Close_release Let_def release_nth)
  next
    case False
    then show ?thesis
      using pc c i
      by (intro exI [of _ 0]) (auto simp: Close_release Let_def release_nth nth_list_update split: option.split)
  qed
  then show ?thesis using assms(3) [OF i] by (auto simp: capped_def affords_def)
qed

lemma charge_one_fields:
  assumes "wf_tree t" and "c < length t" and "i < length t"
  shows "keep (charge_one t c u ! i) = keep (t ! i)" and "parent (charge_one t c u ! i) = parent (t ! i)"
    and "calls (charge_one t c u ! i) = calls (t ! i)" and "usd (charge_one t c u ! i) = usd (t ! i)"
    and "closedB (charge_one t c u ! i) = closedB (t ! i)"
  by (simp_all add: charge_one_nth [OF assms])

text \<open>What a charge leaves alone, at every budget of the tree.\<close>

definition same_terms :: "budget \<Rightarrow> budget \<Rightarrow> bool" where
  "same_terms a b \<longleftrightarrow> keep a = keep b \<and> parent a = parent b \<and> calls a = calls b \<and> usd a = usd b
     \<and> closedB a = closedB b"

lemma Charge_terms:
  assumes "books t" and "c < length t" and "usage_nonneg u" and "i < length t"
  shows "same_terms (Charge t c u ! i) (t ! i)"
  using assms
proof (induction t c u rule: Charge.induct)
  case (1 t c u)
  note wf = books_wf [OF "1.prems"(1)] and c = "1.prems"(2) and i = "1.prems"(4)
  have one: "same_terms (charge_one t c u ! i) (t ! i)"
    by (simp add: same_terms_def charge_one_fields [OF wf c i])
  show ?case
  proof (cases "parent (t ! c)")
    case None
    then show ?thesis using one by (simp add: Charge_step [of t c u])
  next
    case (Some p)
    have p: "p < c" using wf_treeD [OF wf c Some] .
    have "same_terms (Charge (charge_one t c u) p u ! i) (charge_one t c u ! i)"
      using "1.prems" p by (intro "1.IH" [OF Some p] books_charge_one) auto
    with one show ?thesis using Some p by (simp add: Charge_step [of t c u] same_terms_def)
  qed
qed

definition honest_inv :: "int \<Rightarrow> rat \<Rightarrow> tree \<Rightarrow> bool" where
  "honest_inv c u t \<longleftrightarrow> t \<noteq> [] \<and> calls (t ! 0) = c \<and> usd (t ! 0) = u \<and> keeps_nonneg t
     \<and> (\<forall>i < length t. capped t i)"

lemma honest_inv_step:
  assumes "honest_inv c u t" and "t' \<noteq> []" and "length t \<le> length t'"
    and "calls (t' ! 0) = calls (t ! 0)" and "usd (t' ! 0) = usd (t ! 0)"
    and "\<And>i. i < length t \<Longrightarrow> keep (t' ! i) = keep (t ! i)"
    and "\<And>i. length t \<le> i \<Longrightarrow> i < length t' \<Longrightarrow> keep (t' ! i) = no_keep"
    and "\<And>i. i < length t' \<Longrightarrow> capped t' i"
  shows "honest_inv c u t'"
proof -
  have none: "\<forall>k \<in> set no_keep. 0 \<le> Calls k \<and> 0 \<le> USD k"
    by (simp add: no_keep_def no_grant_def)
  have "\<forall>k \<in> set (keep (t' ! i)). 0 \<le> Calls k \<and> 0 \<le> USD k" if "i < length t'" for i
  proof (cases "i < length t")
    case True
    then show ?thesis using assms(1) assms(6) [OF True] by (simp add: honest_inv_def keeps_nonneg_def)
  next
    case False
    then show ?thesis using none assms(7) [OF _ that] by simp
  qed
  then have "keeps_nonneg t'" by (simp add: keeps_nonneg_def)
  then show ?thesis using assms by (simp add: honest_inv_def)
qed

lemma Close_terms:
  assumes "wf_tree t" and "c < length t" and "i < length t"
  shows "keep (Close t c ! i) = keep (t ! i)" and "parent (Close t c ! i) = parent (t ! i)"
    and "calls (Close t c ! i) = calls (t ! i)" and "usd (Close t c ! i) = usd (t ! i)"
  using assms wf_treeD [OF assms(1,2)]
  by (auto simp: Close_release Let_def release_nth nth_list_update split: option.split)

lemma honest_honest_inv:
  assumes "honest c u f t" and "0 \<le> c" and "0 \<le> u"
  shows "honest_inv c u t"
  using assms(1)
proof (induction rule: honest.induct)
  case start
  show ?case
    using assms(2,3)
    by (auto simp: honest_inv_def NewBudget_def keeps_nonneg_def capped_def affords_def Let_def
        no_keep_def no_grant_def level_defs numeral_3_eq_3)
next
  case (kept t b g l)
  have "keeps_nonneg (Keep t b l g)"
    using kept by (auto simp: honest_inv_def keeps_nonneg_def Keep_def nth_list_update dest: set_update_subset_insert [THEN subsetD])
  then show ?case
    using kept by (auto simp: honest_inv_def Keep_same capped_def affords_def) (simp add: Keep_def)
next
  case (granted t b n w l t' g)
  obtain gr where gr: "gr = fresh (Some b) (min n (fst (free (t ! b) l)))
        (if w < 0 then snd (free (t ! b) l) else w)"
    and t': "t' = t[b := (t ! b)\<lparr>heldCalls := heldCalls (t ! b) + calls gr,
                            heldUSD := heldUSD (t ! b) + usd gr\<rparr>] @ [gr]"
    using granted(4) by (rule take_grant_InrD)
  have "capped t' i" if "i < length t'" for i
    using granted that by (intro capped_take_grant [OF _ _ granted(2,3,4)]) (auto simp: honest_inv_def)
  then show ?case
    using granted by (intro honest_inv_step [of c u t t']) (auto simp: t' gr nth_append nth_list_update honest_inv_def)
next
  case (charged t b v)
  have bk: "books t" using charged(1) by (blast intro: honest_ledger ledger_books)
  have same: "same_terms (Charge t b v ! i) (t ! i)" if "i < length t" for i
    using Charge_terms [OF bk charged(2,3) that] .
  have "capped (Charge t b v) i" if "i < length t" for i
    using charged that bk by (intro capped_Charge) (auto simp: honest_inv_def)
  then show ?case
    using charged same by (intro honest_inv_step [of c u t "Charge t b v"])
      (auto simp: honest_inv_def same_terms_def simp flip: length_greater_0_conv)
next
  case (closed t b)
  have bk: "books t" using closed(1) by (blast intro: honest_ledger ledger_books)
  have "capped (Close t b) i" if "i < length t" for i
    using closed that bk by (intro capped_Close) (auto simp: honest_inv_def)
  then show ?case
    using closed bk Close_terms [OF books_wf [OF bk] closed(2)]
    by (intro honest_inv_step [of c u t "Close t b"]) (auto simp: honest_inv_def simp flip: length_greater_0_conv)
qed

text \<open>
  C1. A run whose charges stay within live grants never overspends its caps: however calls are
  granted, nested, charged and closed, the root has spent at most the task's calls and USD.
\<close>

theorem honest_never_overspends:
  assumes "honest c u f t" and "0 \<le> c" and "0 \<le> u"
  shows "uCalls (Spent t 0) \<le> c \<and> uUSD (Spent t 0) \<le> u"
proof -
  have inv: "honest_inv c u t" by (rule honest_honest_inv [OF assms])
  then have "0 < length t" and "capped t 0" by (auto simp: honest_inv_def)
  moreover from this have "0 \<le> heldCalls (t ! 0)" and "0 \<le> heldUSD (t ! 0)"
    using held_nonneg [OF ledger_books [OF honest_ledger [OF assms(1)]]] by auto
  ultimately show ?thesis using inv by (auto simp: Spent_def honest_inv_def capped_def affords_def)
qed

theorem honest_never_overspends_witness:
  "uCalls (Spent (Charge (NewBudget 400 5 5) 0 demo_usage) 0) = 7 \<and>
   uCalls (Spent (Charge (NewBudget 400 5 5) 0 demo_usage) 0) \<le> 400 \<and>
   uUSD (Spent (Charge (NewBudget 400 5 5) 0 demo_usage) 0) \<le> 5"
proof -
  have "honest 400 5 5 (Charge (NewBudget 400 5 5) 0 demo_usage)"
    by (rule honest.charged [OF honest.start])
      (simp_all add: NewBudget_def usage_nonneg_def demo_usage_def live.simps affords_def)
  moreover have "uCalls (Spent (Charge (NewBudget 400 5 5) 0 demo_usage) 0) = 7"
    by (simp add: Spent_def NewBudget_def Charge.simps charge_one_def demo_usage_def)
  ultimately show ?thesis using honest_never_overspends [of 400 5 5 "Charge (NewBudget 400 5 5) 0 demo_usage"]
    by simp
qed

section \<open>What higher levels keep\<close>

lemma take_grant_leaves:
  assumes "b < length t" and "take_grant t b n w l = Inr (t', g)"
    and "kept_calls (t ! b) l \<le> raw_calls (t ! b) no_grant"
    and "kept_usd (t ! b) l \<le> raw_usd (t ! b) no_grant" and "wf_tree t"
  shows "kept_calls (t ! b) l \<le> fst (RemainingAt t' b LevelFinal)
    \<and> kept_usd (t ! b) l \<le> snd (RemainingAt t' b LevelFinal)"
proof -
  obtain gr where gr: "gr = fresh (Some b) (min n (fst (free (t ! b) l)))
        (if w < 0 then snd (free (t ! b) l) else w)"
    and t': "t' = t[b := (t ! b)\<lparr>heldCalls := heldCalls (t ! b) + calls gr,
                            heldUSD := heldUSD (t ! b) + usd gr\<rparr>] @ [gr]"
    and w: "w \<le> snd (free (t ! b) l)"
    using assms(2) by (rule take_grant_InrD)
  have "calls gr \<le> raw_calls (t ! b) no_grant - kept_calls (t ! b) l"
    "usd gr \<le> raw_usd (t ! b) no_grant - kept_usd (t ! b) l"
    using assms(3,4) w by (auto simp: gr free_eq)
  moreover have "raw_calls (t' ! b) no_grant = raw_calls (t ! b) no_grant - calls gr"
    "raw_usd (t' ! b) no_grant = raw_usd (t ! b) no_grant - usd gr"
    using assms(1) by (simp_all add: t' nth_append)
  ultimately have "kept_calls (t ! b) l \<le> raw_calls (t' ! b) no_grant"
    "kept_usd (t ! b) l \<le> raw_usd (t' ! b) no_grant" by linarith+
  moreover have "raw_calls (t' ! b) no_grant - kept_calls (t' ! b) LevelFinal \<le> fst (RemainingAt t' b LevelFinal)"
    "raw_usd (t' ! b) no_grant - kept_usd (t' ! b) LevelFinal \<le> snd (RemainingAt t' b LevelFinal)"
    by (simp_all add: RemainingAt_def free_eq)
  moreover have "kept_calls (t' ! b) LevelFinal = 0" "kept_usd (t' ! b) LevelFinal = 0"
    using assms(1,5) by (simp_all add: t' nth_append kept_calls_def kept_usd_def kept_above_def wf_tree_def)
  ultimately show ?thesis by linarith
qed

text \<open>
  A grant at one level never takes what is kept for a higher one: when what is unspent and
  unheld covers the shares above the level, it still covers them after any grant at that level, so
  a call at the last level can always be granted them.
\<close>

theorem grant_leaves_reserve:
  assumes "b < length t" and "take_grant t b n w l = Inr (t', g)"
    and "kept_calls (t ! b) l \<le> raw_calls (t ! b) no_grant"
    and "kept_usd (t ! b) l \<le> raw_usd (t ! b) no_grant" and "wf_tree t"
  shows "kept_calls (t ! b) l \<le> fst (RemainingAt t' b LevelFinal)
    \<and> kept_usd (t ! b) l \<le> snd (RemainingAt t' b LevelFinal)"
  using assms by (rule take_grant_leaves)

theorem grant_leaves_reserve_witness:
  "(case take_grant (NewBudget 400 5 5) 0 50 (-1) LevelEvidence of
      Inl _ \<Rightarrow> False
    | Inr (t', g) \<Rightarrow> 5 \<le> fst (RemainingAt t' 0 LevelFinal))"
proof -
  define r where "r = take_grant (NewBudget 400 5 5) 0 50 (-1) LevelEvidence"
  have kept: "kept_calls (NewBudget 400 5 5 ! 0) LevelEvidence = 5"
    "kept_usd (NewBudget 400 5 5 ! 0) LevelEvidence \<le> 5"
    by (simp_all add: kept_calls_def kept_usd_def kept_above_def NewBudget_def level_defs no_keep_def
        no_grant_def numeral_3_eq_3)
  have raw: "raw_calls (NewBudget 400 5 5 ! 0) no_grant = 400" "raw_usd (NewBudget 400 5 5 ! 0) no_grant = 5"
    by (simp_all add: NewBudget_def)
  obtain t' g where r: "r = Inr (t', g)"
    using raw kept by (simp add: r_def take_grant_def free_eq Let_def)
  have "5 \<le> fst (RemainingAt t' 0 LevelFinal)"
    using grant_leaves_reserve [of 0 "NewBudget 400 5 5" 50 "-1" LevelEvidence t' g] r kept raw
      books_wf [OF books_NewBudget [of 400 5 5]]
    by (simp add: r_def NewBudget_def)
  then show ?thesis by (simp add: r flip: r_def)
qed

text \<open>A charge reaches the charged budget and its ancestors only.\<close>

lemma charge_one_above: "wf_tree t \<Longrightarrow> c < length t \<Longrightarrow> i < length t \<Longrightarrow> c < i \<Longrightarrow> charge_one t c u ! i = t ! i"
  using wf_treeD [of t c] by (fastforce simp: charge_one_nth)

lemma Charge_above:
  "books t \<Longrightarrow> c < length t \<Longrightarrow> usage_nonneg u \<Longrightarrow> i < length t \<Longrightarrow> c < i \<Longrightarrow> Charge t c u ! i = t ! i"
proof (induction t c u rule: Charge.induct)
  case (1 t c u)
  note wf = books_wf [OF "1.prems"(1)]
  show ?case
  proof (cases "parent (t ! c)")
    case None
    then show ?thesis using charge_one_above [OF wf] "1.prems" by (simp add: Charge_step [of t c u])
  next
    case (Some p)
    have p: "p < c" using wf_treeD [OF wf "1.prems"(2) Some] .
    have "Charge (charge_one t c u) p u ! i = charge_one t c u ! i"
      using "1.prems" p by (intro "1.IH" [OF Some p] books_charge_one) auto
    then show ?thesis using charge_one_above [OF wf] "1.prems" Some p by (simp add: Charge_step [of t c u])
  qed
qed

lemma Charge_self:
  assumes "books t" and c: "c < length t" and u: "usage_nonneg u"
  shows "Charge t c u ! c = (t ! c)\<lparr>spent := usage_add (spent (t ! c)) u\<rparr>"
proof -
  note wf = books_wf [OF assms(1)]
  have one: "charge_one t c u ! c = (t ! c)\<lparr>spent := usage_add (spent (t ! c)) u\<rparr>"
    by (simp add: charge_one_nth [OF wf c c])
  show ?thesis
  proof (cases "parent (t ! c)")
    case None
    then show ?thesis using one by (simp add: Charge_step [of t c u])
  next
    case (Some p)
    have p: "p < c" using wf_treeD [OF wf c Some] .
    have "Charge (charge_one t c u) p u ! c = charge_one t c u ! c"
      using p c u by (intro Charge_above books_charge_one assms(1)) auto
    then show ?thesis using one Some p by (simp add: Charge_step [of t c u])
  qed
qed

text \<open>A charge of an open grant reaches its parent: its hold shrinks by what the grant had left.\<close>

lemma Charge_parent:
  assumes "books t" and c: "c < length t" and u: "usage_nonneg u"
    and par: "parent (t ! c) = Some p" and "\<not> closedB (t ! c)"
  shows "Charge t c u ! p = (t ! p)\<lparr>heldCalls := heldCalls (t ! p) - min (uCalls u) (left_calls (t ! c)),
      heldUSD := heldUSD (t ! p) - min (uUSD u) (left_usd (t ! c)), spent := usage_add (spent (t ! p)) u\<rparr>"
proof -
  note wf = books_wf [OF assms(1)]
  have p: "p < c" using wf_treeD [OF wf c par] .
  then have pl: "p < length t" using c by simp
  have "Charge t c u ! p = Charge (charge_one t c u) p u ! p"
    using par p by (simp add: Charge_step [of t c u])
  also have "\<dots> = (charge_one t c u ! p)\<lparr>spent := usage_add (spent (charge_one t c u ! p)) u\<rparr>"
    using assms pl by (intro Charge_self books_charge_one) auto
  finally show ?thesis using p assms(5) by (simp add: charge_one_nth [OF wf c pl] par)
qed

section \<open>The ledger as an interface\<close>

text \<open>
  What a caller of the ledger relies on, over any state: opening a hold takes its size off the
  room its holder has, charging it moves what it had left back before the charge comes off, and
  closing it gives back what is left.  \<open>room\<close> is what is neither spent nor held.
\<close>

locale holding =
  fixes inv :: "'s \<Rightarrow> nat \<Rightarrow> bool"
    and hold :: "'s \<Rightarrow> nat \<Rightarrow> int \<Rightarrow> rat \<Rightarrow> nat \<Rightarrow> ('e, 's \<times> nat) result"
    and charge :: "'s \<Rightarrow> nat \<Rightarrow> usage \<Rightarrow> 's"
    and close :: "'s \<Rightarrow> nat \<Rightarrow> 's"
    and room :: "'s \<Rightarrow> nat \<Rightarrow> int \<times> rat"
    and left :: "'s \<Rightarrow> nat \<Rightarrow> int \<times> rat"
    and total :: "'s \<Rightarrow> nat \<Rightarrow> usage"
    and holds_of :: "'s \<Rightarrow> nat \<Rightarrow> nat \<Rightarrow> bool"
  assumes hold_opens: "inv s b \<Longrightarrow> 0 \<le> n \<Longrightarrow> hold s b n w l = Inr (s', g) \<Longrightarrow>
      inv s' b \<and> inv s' g \<and> holds_of s' b g \<and> total s' b = total s b
      \<and> fst (room s' b) = fst (room s b) - fst (left s' g) \<and> snd (room s' b) = snd (room s b) - snd (left s' g)"
    and charge_moves: "inv s g \<Longrightarrow> holds_of s b g \<Longrightarrow> usage_nonneg u \<Longrightarrow>
      inv (charge s g u) b \<and> inv (charge s g u) g \<and> holds_of (charge s g u) b g
      \<and> total (charge s g u) b = usage_add (total s b) u
      \<and> fst (room (charge s g u) b) + fst (left (charge s g u) g) = fst (room s b) + fst (left s g) - uCalls u
      \<and> snd (room (charge s g u) b) + snd (left (charge s g u) g) = snd (room s b) + snd (left s g) - uUSD u"
    and close_returns: "inv s g \<Longrightarrow> holds_of s b g \<Longrightarrow>
      inv (close s g) b \<and> total (close s g) b = total s b
      \<and> fst (room (close s g) b) = fst (room s b) + fst (left s g)
      \<and> snd (room (close s g) b) = snd (room s b) + snd (left s g)"
begin

lemma cycle_total:
  assumes "inv s b" and "0 \<le> n" and "hold s b n w l = Inr (s', g)" and "usage_nonneg u"
  shows "total (close (charge s' g u) g) b = usage_add (total s b) u"
  using hold_opens [OF assms(1-3)] charge_moves [of s' g b u] close_returns [of "charge s' g u" g b] assms(4)
  by simp

lemma cycle_room:
  assumes "inv s b" and "0 \<le> n" and "hold s b n w l = Inr (s', g)" and "usage_nonneg u"
  shows "fst (room (close (charge s' g u) g) b) = fst (room s b) - uCalls u
    \<and> snd (room (close (charge s' g u) g) b) = snd (room s b) - uUSD u"
  using hold_opens [OF assms(1-3)] charge_moves [of s' g b u] close_returns [of "charge s' g u" g b] assms(4)
  by simp

lemma cycle_inv:
  assumes "inv s b" and "0 \<le> n" and "hold s b n w l = Inr (s', g)" and "usage_nonneg u"
  shows "inv (close (charge s' g u) g) b"
  using hold_opens [OF assms(1-3)] charge_moves [of s' g b u] close_returns [of "charge s' g u" g b] assms(4)
  by simp

end

text \<open>The ledger of the code provides it.\<close>

definition ledger_ok :: "tree \<Rightarrow> nat \<Rightarrow> bool" where
  "ledger_ok t b \<longleftrightarrow> books t \<and> b < length t"

definition room_of :: "tree \<Rightarrow> nat \<Rightarrow> int \<times> rat" where
  "room_of t b = (raw_calls (t ! b) no_grant, raw_usd (t ! b) no_grant)"

definition left_of :: "tree \<Rightarrow> nat \<Rightarrow> int \<times> rat" where
  "left_of t g = (left_calls (t ! g), left_usd (t ! g))"

definition open_grant_of :: "tree \<Rightarrow> nat \<Rightarrow> nat \<Rightarrow> bool" where
  "open_grant_of t b g \<longleftrightarrow> g < length t \<and> parent (t ! g) = Some b \<and> \<not> closedB (t ! g)"

lemma open_grant_less: "books t \<Longrightarrow> open_grant_of t b g \<Longrightarrow> b < g \<and> b < length t"
  using wf_treeD [OF books_wf] by (fastforce simp: open_grant_of_def)

interpretation lg: holding ledger_ok take_grant Charge Close room_of left_of Spent open_grant_of
proof
  fix t t' :: tree and b n w l g
  assume ok: "ledger_ok t b" and n: "0 \<le> n" and take: "take_grant t b n w l = Inr (t', g)"
  obtain gr where gr: "gr = fresh (Some b) (min n (fst (free (t ! b) l)))
        (if w < 0 then snd (free (t ! b) l) else w)"
    and t': "t' = t[b := (t ! b)\<lparr>heldCalls := heldCalls (t ! b) + calls gr,
                            heldUSD := heldUSD (t ! b) + usd gr\<rparr>] @ [gr]"
    and g: "g = length t"
    using take by (rule take_grant_InrD)
  have b: "b < length t" and bk: "books t" using ok by (simp_all add: ledger_ok_def)
  have "books t'" by (rule books_take_grant [OF bk b n take])
  moreover have "0 \<le> calls gr" "0 \<le> usd gr" using n by (auto simp: gr free_nonneg)
  ultimately show "ledger_ok t' b \<and> ledger_ok t' g \<and> open_grant_of t' b g \<and> Spent t' b = Spent t b
      \<and> fst (room_of t' b) = fst (room_of t b) - fst (left_of t' g)
      \<and> snd (room_of t' b) = snd (room_of t b) - snd (left_of t' g)"
    using b by (auto simp: ledger_ok_def t' g open_grant_of_def nth_append gr Spent_def room_of_def
        left_of_def left_calls_def left_usd_def)
next
  fix t b g u
  assume ok: "ledger_ok t g" and gr: "open_grant_of t b g" and u: "usage_nonneg u"
  have g: "g < length t" and bk: "books t" using ok by (simp_all add: ledger_ok_def)
  have b: "b < g" "b < length t" using open_grant_less [OF bk gr] by auto
  have par: "parent (t ! g) = Some b" "\<not> closedB (t ! g)" using gr by (simp_all add: open_grant_of_def)
  show "ledger_ok (Charge t g u) b \<and> ledger_ok (Charge t g u) g \<and> open_grant_of (Charge t g u) b g
      \<and> Spent (Charge t g u) b = usage_add (Spent t b) u
      \<and> fst (room_of (Charge t g u) b) + fst (left_of (Charge t g u) g) = fst (room_of t b) + fst (left_of t g) - uCalls u
      \<and> snd (room_of (Charge t g u) b) + snd (left_of (Charge t g u) g) = snd (room_of t b) + snd (left_of t g) - uUSD u"
    using b g par books_Charge [OF bk g u] u
    by (simp add: ledger_ok_def open_grant_of_def Spent_def room_of_def left_of_def
        Charge_self [OF bk g u] Charge_parent [OF bk g u par] left_charge usage_nonneg_def)
next
  fix t b g
  assume ok: "ledger_ok t g" and gr: "open_grant_of t b g"
  have g: "g < length t" and bk: "books t" using ok by (simp_all add: ledger_ok_def)
  have b: "b < g" "b < length t" using open_grant_less [OF bk gr] by auto
  have par: "parent (t ! g) = Some b" "\<not> closedB (t ! g)" using gr by (simp_all add: open_grant_of_def)
  show "ledger_ok (Close t g) b \<and> Spent (Close t g) b = Spent t b
      \<and> fst (room_of (Close t g) b) = fst (room_of t b) + fst (left_of t g)
      \<and> snd (room_of (Close t g) b) = snd (room_of t b) + snd (left_of t g)"
    using b g par books_Close [OF bk g]
    by (simp add: ledger_ok_def Spent_def room_of_def left_of_def Close_release Let_def release_nth)
qed

text \<open>
  A grant that is charged and closed costs its holder exactly what was charged, nothing more
  and nothing less: the unspent part comes back, and a charge past the grant is still paid.
\<close>

theorem grant_charge_close:
  assumes "books t" and "b < length t" and "0 \<le> n" and "take_grant t b n w l = Inr (t', g)"
    and "usage_nonneg u"
  shows "room_of (Close (Charge t' g u) g) b = (fst (room_of t b) - uCalls u, snd (room_of t b) - uUSD u)
    \<and> Spent (Close (Charge t' g u) g) b = usage_add (Spent t b) u"
  using lg.cycle_room [of t b n w l t' g u] lg.cycle_total [of t b n w l t' g u] assms
  by (simp add: ledger_ok_def prod_eq_iff)

theorem grant_charge_close_witness:
  "(case take_grant (NewBudget 400 5 5) 0 50 (-1) LevelEvidence of
      Inl _ \<Rightarrow> False
    | Inr (t', g) \<Rightarrow> fst (room_of (Close (Charge t' g demo_usage) g) 0) = 393)"
proof -
  define r where "r = take_grant (NewBudget 400 5 5) 0 50 (-1) LevelEvidence"
  have kept: "kept_calls (NewBudget 400 5 5 ! 0) LevelEvidence = 5"
    by (simp add: kept_calls_def kept_above_def NewBudget_def level_defs no_keep_def
        no_grant_def numeral_3_eq_3)
  have raw: "raw_calls (NewBudget 400 5 5 ! 0) no_grant = 400" "raw_usd (NewBudget 400 5 5 ! 0) no_grant = 5"
    by (simp_all add: NewBudget_def)
  obtain t' g where r: "r = Inr (t', g)"
    using raw kept by (simp add: r_def take_grant_def free_eq Let_def)
  have "fst (room_of (Close (Charge t' g demo_usage) g) 0) = 393"
    using grant_charge_close [of "NewBudget 400 5 5" 0 50 "-1" LevelEvidence t' g demo_usage] r raw
      books_NewBudget [of 400 5 5]
    by (simp add: r_def demo_usage_def usage_nonneg_def room_of_def) (simp add: NewBudget_def)
  then show ?thesis by (simp add: r flip: r_def)
qed

text \<open>Closing twice is closing once.\<close>

lemma Close_Close:
  assumes "books t" and "c < length t"
  shows "Close (Close t c) c = Close t c"
  using wf_treeD [OF books_wf [OF assms(1)] assms(2)] assms(2)
  by (auto simp: Close_release Let_def release_def nth_list_update split: option.split)

end
