(* ===== verification/Registry.thy ===== *)
theory Registry
  imports AgentTypes
begin

text \<open>
  \<^verbatim>\<open>internal/agent/registry.go\<close>: the single table of tools.  A tool's spec is checked when
  it is registered, its definition is frozen there, and an agent sees the definitions of
  its visible tools in the order it lists them.  The table is an association list; the
  regular expressions of the source are the predicates they match.  The text-level JSON
  decoder that reads an example call is the parameter \<open>decode\<close>.
\<close>

section \<open>The checks on a description\<close>

definition MaxTools :: nat where "MaxTools = 48"
definition MaxVisible :: nat where "MaxVisible = 24"

definition lower_letter :: "char \<Rightarrow> bool" where
  "lower_letter c \<longleftrightarrow> CHR ''a'' \<le> c \<and> c \<le> CHR ''z''"

text \<open>\<^verbatim>\<open>ToolNameRe\<close>: a lower-case letter, then 1 to 63 lower-case letters, digits and _.\<close>

definition tool_name_ok :: "string \<Rightarrow> bool" where
  "tool_name_ok n \<longleftrightarrow> 2 \<le> length n \<and> length n \<le> 64 \<and> lower_letter (hd n)
     \<and> list_all (\<lambda>c. lower_letter c \<or> is_digit_byte c \<or> c = CHR ''_'') n"

text \<open>\<^verbatim>\<open>\\s\<close> in a regular expression.\<close>

definition re_space :: "char \<Rightarrow> bool" where
  "re_space c \<longleftrightarrow> byte_val c \<in> {9, 10, 12, 13, 32}"

text \<open>
  \<^verbatim>\<open>ExampleRe\<close> on one line: \<open>Example: {\<dots>}\<close> with white space after it; the group is the
  braces and what they hold.
\<close>

definition line_example :: "string \<Rightarrow> string option" where
  "line_example l =
     (let t = trim_right re_space l; body = drop 9 t in
      if has_prefix t ''Example: {'' \<and> 2 \<le> length body \<and> last body = CHR ''}'' then Some body else None)"

definition description_lines :: "string \<Rightarrow> string list" where
  "description_lines d = split_char (char_of (10 :: nat)) d"

definition examples_of :: "string \<Rightarrow> string list" where
  "examples_of d = List.map_filter line_example (description_lines d)"

text \<open>\<^verbatim>\<open>sentenceRe\<close>: a full stop, exclamation or question mark before white space or the end.\<close>

fun count_sentences :: "string \<Rightarrow> nat" where
  "count_sentences [] = 0"
| "count_sentences [c] = (if c \<in> set ''.!?'' then 1 else 0)"
| "count_sentences (c # d # s) =
     (if c \<in> set ''.!?'' \<and> re_space d then 1 else 0) + count_sentences (d # s)"

definition sentences_of :: "string \<Rightarrow> nat" where
  "sentences_of d = sum_list (map count_sentences (filter (\<lambda>l. line_example l = None) (description_lines d)))"

definition says_when_not :: "string \<Rightarrow> bool" where
  "says_when_not d \<longleftrightarrow> contains_str (map lower_byte d) ''do not use''"

section \<open>The table\<close>

record tool_def =
  dName :: string
  dDescription :: string
  dParameters :: schema
  dStrict :: bool

record entry =
  eSpec :: spec
  eIn :: schema
  eOut :: schema
  eDef :: tool_def

type_synonym registry = "(string \<times> entry) list"

definition reg_get :: "registry \<Rightarrow> string \<Rightarrow> entry option" where
  "reg_get r n = map_of r n"

text \<open>\<^verbatim>\<open>lengthKw\<close>: the parameters sent to the model carry no string-length bounds, at any depth.\<close>

primrec strip_lengths :: "schema \<Rightarrow> schema" where
  "strip_lengths (Schema ty ps req ap en it mni mxi mnl mxl mn mx) =
     Schema ty (map (map_prod id strip_lengths) ps) req ap en (map_option strip_lengths it)
       mni mxi None None mn mx"

datatype register_error =
    InSchema schema_error
  | OutSchema schema_error
  | BadName
  | BadKind
  | BadClass
  | NotStrict
  | TooFewSentences
  | NoDoNotUse
  | BadExampleCount
  | NoTurnCap
  | BadExample string validation_error
  | AllowedNotGo string
  | AlreadyRegistered
  | RegistryFull

definition known_kinds :: "string list" where
  "known_kinds = [''go'', ''subagent'', ''fanout'']"

definition known_classes :: "string list" where
  "known_classes = [''plan'', ''evidence'', ''draft'', ''committee'', ''cover'', ''free'']"

text \<open>The switch over the spec itself.\<close>

definition spec_error :: "spec \<Rightarrow> schema \<Rightarrow> schema \<Rightarrow> register_error option" where
  "spec_error s i o' =
     (if \<not> tool_name_ok (Name s) then Some BadName
      else if Kind s \<notin> set known_kinds then Some BadKind
      else if Class s \<notin> set known_classes then Some BadClass
      else if strict_schema ''in'' i \<noteq> None \<or> strict_schema ''out'' o' \<noteq> None then Some NotStrict
      else if sentences_of (Description s) < 3 then Some TooFewSentences
      else if \<not> says_when_not (Description s) then Some NoDoNotUse
      else if length (examples_of (Description s)) < 1 \<or> 3 < length (examples_of (Description s))
        then Some BadExampleCount
      else if MaxTurns s < 0 \<or> Kind s = ''subagent'' \<and>
          (MaxTurns s < 1 \<or> Role s \<noteq> ''specialist'' \<and> Role s \<noteq> ''critic'') then Some NoTurnCap
      else None)"

definition allowed_error :: "registry \<Rightarrow> string \<Rightarrow> register_error option" where
  "allowed_error r a = (case reg_get r a of
     None \<Rightarrow> Some (AllowedNotGo a)
   | Some x \<Rightarrow> if Kind (eSpec x) \<noteq> ''go'' then Some (AllowedNotGo a) else None)"

definition frozen_def :: "spec \<Rightarrow> schema \<Rightarrow> tool_def" where
  "frozen_def s i = \<lparr>dName = Name s, dDescription = Description s, dParameters = strip_lengths i, dStrict = True\<rparr>"

definition Register ::
  "(string \<Rightarrow> raw_message) \<Rightarrow> registry \<Rightarrow> spec \<Rightarrow> (register_error, registry) result" where
  "Register decode r s =
     (case Compile (In s) of Inl e \<Rightarrow> Inl (InSchema e) | Inr i \<Rightarrow>
      (case Compile (Out s) of Inl e \<Rightarrow> Inl (OutSchema e) | Inr o' \<Rightarrow>
       (case spec_error s i o' of Some e \<Rightarrow> Inl e | None \<Rightarrow>
        (case first_error (\<lambda>ex. map_option (BadExample ex) (Validate i (decode ex))) (examples_of (Description s)) of
           Some e \<Rightarrow> Inl e | None \<Rightarrow>
         (case first_error (allowed_error r) (Allowed s) of Some e \<Rightarrow> Inl e | None \<Rightarrow>
           if reg_get r (Name s) \<noteq> None then Inl AlreadyRegistered
           else if length r \<ge> MaxTools then Inl RegistryFull
           else Inr ((Name s, \<lparr>eSpec = s, eIn = i, eOut = o', eDef = frozen_def s i\<rparr>) # r))))))"

definition reg_Spec :: "registry \<Rightarrow> string \<Rightarrow> spec option" where
  "reg_Spec r n = map_option eSpec (reg_get r n)"

definition Names :: "registry \<Rightarrow> string list" where
  "Names r = sort (map fst r)"

datatype defs_error = TooManyVisible nat | NotRegistered string

fun collect_defs :: "registry \<Rightarrow> string list \<Rightarrow> (defs_error, tool_def list) result" where
  "collect_defs r [] = Inr []"
| "collect_defs r (n # ns) =
     (case reg_get r n of
        None \<Rightarrow> Inl (NotRegistered n)
      | Some e \<Rightarrow> bind_result (collect_defs r ns) (\<lambda>ds. Inr (eDef e # ds)))"

definition Defs :: "registry \<Rightarrow> string list \<Rightarrow> (defs_error, tool_def list) result" where
  "Defs r names = (if length names > MaxVisible then Inl (TooManyVisible (length names)) else collect_defs r names)"

section \<open>What the table always holds\<close>

definition entry_ok :: "registry \<Rightarrow> string \<Rightarrow> entry \<Rightarrow> bool" where
  "entry_ok r n e \<longleftrightarrow>
     Name (eSpec e) = n \<and> tool_name_ok n \<and> Kind (eSpec e) \<in> set known_kinds
     \<and> Class (eSpec e) \<in> set known_classes
     \<and> strict_schema ''in'' (eIn e) = None \<and> strict_schema ''out'' (eOut e) = None
     \<and> check_schema ''$'' (eIn e) = None \<and> check_schema ''$'' (eOut e) = None
     \<and> 0 \<le> MaxTurns (eSpec e) \<and> (Kind (eSpec e) = ''subagent'' \<longrightarrow> 1 \<le> MaxTurns (eSpec e))
     \<and> (\<forall>a \<in> set (Allowed (eSpec e)). \<exists>x. reg_get r a = Some x \<and> Kind (eSpec x) = ''go'')
     \<and> eDef e = frozen_def (eSpec e) (eIn e)"

definition reg_ok :: "registry \<Rightarrow> bool" where
  "reg_ok r \<longleftrightarrow> distinct (map fst r) \<and> length r \<le> MaxTools \<and> (\<forall>n e. reg_get r n = Some e \<longrightarrow> entry_ok r n e)"

lemma reg_ok_empty: "reg_ok []"
  by (simp add: reg_ok_def reg_get_def)

lemma Compile_Inr: "Compile raw = Inr s \<longleftrightarrow> raw = Some s \<and> check_schema ''$'' s = None"
  by (auto simp: Compile_def split: option.splits)

lemma spec_error_None:
  "spec_error s i o' = None \<longleftrightarrow> tool_name_ok (Name s) \<and> Kind s \<in> set known_kinds \<and> Class s \<in> set known_classes
     \<and> strict_schema ''in'' i = None \<and> strict_schema ''out'' o' = None
     \<and> 3 \<le> sentences_of (Description s) \<and> says_when_not (Description s)
     \<and> length (examples_of (Description s)) \<in> {1..3} \<and> 0 \<le> MaxTurns s
     \<and> (Kind s = ''subagent'' \<longrightarrow> 1 \<le> MaxTurns s \<and> (Role s = ''specialist'' \<or> Role s = ''critic''))"
  by (auto simp: spec_error_def not_less not_le Suc_le_eq)

lemma allowed_error_None:
  "allowed_error r a = None \<longleftrightarrow> (\<exists>x. reg_get r a = Some x \<and> Kind (eSpec x) = ''go'')"
  by (auto simp: allowed_error_def split: option.splits)

text \<open>A successful registration, taken apart.\<close>

lemma Register_InrD:
  assumes "Register decode r s = Inr r'"
  obtains i o' where "In s = Some i" and "Out s = Some o'" and "check_schema ''$'' i = None"
    and "check_schema ''$'' o' = None" and "spec_error s i o' = None"
    and "\<forall>ex \<in> set (examples_of (Description s)). Validate i (decode ex) = None"
    and "\<forall>a \<in> set (Allowed s). \<exists>x. reg_get r a = Some x \<and> Kind (eSpec x) = ''go''"
    and "reg_get r (Name s) = None" and "length r < MaxTools"
    and "r' = (Name s, \<lparr>eSpec = s, eIn = i, eOut = o', eDef = frozen_def s i\<rparr>) # r"
proof -
  obtain i where i: "Compile (In s) = Inr i"
    using assms by (cases "Compile (In s)") (auto simp: Register_def)
  obtain o' where o: "Compile (Out s) = Inr o'"
    using assms i by (cases "Compile (Out s)") (auto simp: Register_def)
  have spec: "spec_error s i o' = None"
    using assms i o by (cases "spec_error s i o'") (auto simp: Register_def)
  let ?ex = "first_error (\<lambda>ex. map_option (BadExample ex) (Validate i (decode ex))) (examples_of (Description s))"
  have ex: "?ex = None"
    using assms i o spec by (cases ?ex) (auto simp: Register_def simp del: first_error_None)
  have al: "first_error (allowed_error r) (Allowed s) = None"
    using assms i o spec ex
    by (cases "first_error (allowed_error r) (Allowed s)") (auto simp: Register_def simp del: first_error_None)
  have "reg_get r (Name s) = None" "length r < MaxTools"
    "r' = (Name s, \<lparr>eSpec = s, eIn = i, eOut = o', eDef = frozen_def s i\<rparr>) # r"
    using assms i o spec ex al by (simp_all add: Register_def not_le del: first_error_None split: if_splits)
  moreover have "\<forall>ex \<in> set (examples_of (Description s)). Validate i (decode ex) = None"
    using ex by simp
  moreover have "\<forall>a \<in> set (Allowed s). \<exists>x. reg_get r a = Some x \<and> Kind (eSpec x) = ''go''"
    using al by (simp add: allowed_error_None)
  ultimately show ?thesis
    using i o spec by (intro that) (auto simp: Compile_Inr)
qed

lemma Register_keeps_entry:
  assumes "Register decode r s = Inr r'" and "reg_get r n = Some e"
  shows "reg_get r' n = Some e"
  using assms(1)
  by (rule Register_InrD) (use assms(2) in \<open>auto simp: reg_get_def\<close>)

lemma collect_defs_keeps:
  assumes "Register decode r s = Inr r'"
  shows "collect_defs r ns = Inr ds \<Longrightarrow> collect_defs r' ns = Inr ds"
proof (induction ns arbitrary: ds)
  case (Cons n ns)
  then show ?case using Register_keeps_entry [OF assms, of n] by (auto split: option.splits)
qed simp

lemma reg_ok_Register:
  assumes "reg_ok r" and "Register decode r s = Inr r'"
  shows "reg_ok r'"
  using assms(2)
proof (rule Register_InrD)
  fix i o'
  assume a: "In s = Some i" "Out s = Some o'" "check_schema ''$'' i = None" "check_schema ''$'' o' = None"
    "spec_error s i o' = None" "\<forall>a \<in> set (Allowed s). \<exists>x. reg_get r a = Some x \<and> Kind (eSpec x) = ''go''"
    "reg_get r (Name s) = None" "length r < MaxTools"
    and r': "r' = (Name s, \<lparr>eSpec = s, eIn = i, eOut = o', eDef = frozen_def s i\<rparr>) # r"
  let ?e = "\<lparr>eSpec = s, eIn = i, eOut = o', eDef = frozen_def s i\<rparr>"
  have kept: "\<exists>x. reg_get r' a = Some x \<and> Kind (eSpec x) = ''go''"
    if "\<exists>x. reg_get r a = Some x \<and> Kind (eSpec x) = ''go''" for a
    using that Register_keeps_entry [OF assms(2)] by blast
  have "entry_ok r' n e" if "reg_get r' n = Some e" for n e
  proof (cases "n = Name s")
    case True
    with that have "e = ?e" by (simp add: r' reg_get_def)
    then show ?thesis using a kept True by (auto simp: entry_ok_def spec_error_None)
  next
    case False
    with that have "reg_get r n = Some e" by (simp add: r' reg_get_def)
    then have "entry_ok r n e" using assms(1) by (simp add: reg_ok_def)
    then show ?thesis using kept by (auto simp: entry_ok_def)
  qed
  moreover have "distinct (map fst r')"
    using assms(1) a(7) by (auto simp: reg_ok_def r' reg_get_def map_of_eq_None_iff)
  ultimately show "reg_ok r'" using a(8) by (simp add: reg_ok_def r')
qed

inductive registered :: "(string \<Rightarrow> raw_message) \<Rightarrow> registry \<Rightarrow> bool" for decode where
  empty: "registered decode []"
| more: "registered decode r \<Longrightarrow> Register decode r s = Inr r' \<Longrightarrow> registered decode r'"

lemma registered_ok: "registered decode r \<Longrightarrow> reg_ok r"
  by (induction rule: registered.induct) (auto intro: reg_ok_empty reg_ok_Register)

text \<open>What the model is sent accepts all that validation accepts.\<close>

lemma strip_fields [simp]:
  "Type (strip_lengths s) = Type s" "Required (strip_lengths s) = Required s"
  "AdditionalProperties (strip_lengths s) = AdditionalProperties s" "Enum (strip_lengths s) = Enum s"
  "Items (strip_lengths s) = map_option strip_lengths (Items s)"
  "Properties (strip_lengths s) = map (map_prod id strip_lengths) (Properties s)"
  "Minimum (strip_lengths s) = Minimum s" "Maximum (strip_lengths s) = Maximum s"
  "MinItems (strip_lengths s) = MinItems s" "MaxItems (strip_lengths s) = MaxItems s"
  "MinLength (strip_lengths s) = None" "MaxLength (strip_lengths s) = None"
  by (cases s; simp)+

lemma strip_ok [simp]:
  "enum_ok (strip_lengths s) v = enum_ok s v" "type_ok (strip_lengths s) v = type_ok s v"
  by (simp_all add: enum_ok_def type_ok_def)

lemma strip_scalar: "scalar_ok s v \<Longrightarrow> scalar_ok (strip_lengths s) v"
  by (auto simp: scalar_ok_def outside_def split: json.splits)

lemma map_of_strip: "map_of (map (map_prod id f) ps) k = map_option f (map_of ps k)"
  by (induction ps) (auto simp: map_prod_def)

lemma conforms_strip: "conforms s v \<Longrightarrow> conforms (strip_lengths s) v"
proof (induction rule: conforms.induct)
  case (scalar s v)
  then show ?case by (intro conforms.scalar) (auto simp: strip_scalar)
next
  case (array s xs)
  then show ?case by (intro conforms.array) (auto simp: strip_scalar)
next
  case (object s kvs)
  then show ?case by (intro conforms.object) (auto simp: map_of_strip image_comp)
qed

section \<open>The properties\<close>

definition demo_spec :: spec where
  "demo_spec = \<lparr>Name = ''calc'', Kind = ''go'',
     Description = ''It adds. It is exact. Do not use it for dates.'' @ [char_of (10 :: nat)] @ ''Example: {}'',
     In = Some (Schema (Some [''object'']) [] [] (Some False) None None None None None None None None),
     Out = Some (Schema (Some [''object'']) [] [] (Some False) None None None None None None None None),
     Class = ''free'', MaxTurns = 0, Allowed = [], Role = [], Solo = [], Final = False\<rparr>"

definition demo_decode :: "string \<Rightarrow> raw_message" where
  "demo_decode t = (if t = ''{}'' then Some (JObj []) else None)"

definition demo_registry :: registry where
  "demo_registry = projr (Register demo_decode [] demo_spec)"

lemma demo_registers: "Register demo_decode [] demo_spec = Inr demo_registry"
proof -
  have "isl (Register demo_decode [] demo_spec) = False" by code_simp
  then show ?thesis by (cases "Register demo_decode [] demo_spec") (simp_all add: demo_registry_def)
qed

lemma demo_more:
  "\<exists>r'. Register demo_decode demo_registry (demo_spec\<lparr>Name := ''dates''\<rparr>) = Inr r'"
proof -
  have "isl (Register demo_decode demo_registry (demo_spec\<lparr>Name := ''dates''\<rparr>)) = False" by code_simp
  then show ?thesis
    by (cases "Register demo_decode demo_registry (demo_spec\<lparr>Name := ''dates''\<rparr>)") simp_all
qed

text \<open>
  A registered definition is frozen: registering another tool never changes what an agent that
  could already see its tools is sent, so the same definitions reach the model on every turn.
\<close>

theorem Register_freezes_defs:
  assumes "Register decode r s = Inr r'" and "Defs r names = Inr ds"
  shows "Defs r' names = Inr ds"
  using assms(2) collect_defs_keeps [OF assms(1)] by (auto simp: Defs_def split: if_splits)

theorem Register_freezes_defs_witness:
  "\<exists>r' ds. Register demo_decode demo_registry (demo_spec\<lparr>Name := ''dates''\<rparr>) = Inr r'
     \<and> Defs r' [''calc''] = Inr ds \<and> map dName ds = [''calc'']"
proof -
  obtain r' where r': "Register demo_decode demo_registry (demo_spec\<lparr>Name := ''dates''\<rparr>) = Inr r'"
    using demo_more by blast
  have "map_sum (\<lambda>_. ()) (map dName) (Defs demo_registry [''calc'']) = Inr [''calc'']" by code_simp
  then obtain ds where ds: "Defs demo_registry [''calc''] = Inr ds" "map dName ds = [''calc'']"
    by (cases "Defs demo_registry [''calc'']") auto
  show ?thesis using r' Register_freezes_defs [OF r' ds(1)] ds(2) by (intro exI conjI)
qed

text \<open>
  Every table built by registration is well formed: at most 48 tools under distinct names, each
  with a valid name, kind, class and strict-shaped schemas, a subagent with a turn cap, the frozen
  definition its spec gives, and only registered Go tools among the tools it may call (so no subagent
  can call a subagent).
\<close>

theorem registered_well_formed:
  assumes "registered decode r"
  shows "distinct (Names r) \<and> length (Names r) \<le> 48 \<and> (\<forall>n e. reg_get r n = Some e \<longrightarrow> entry_ok r n e)"
  using registered_ok [OF assms] by (simp add: reg_ok_def Names_def MaxTools_def)

theorem registered_well_formed_witness:
  "distinct (Names demo_registry) \<and> entry_ok demo_registry ''calc'' (the (reg_get demo_registry ''calc''))"
proof -
  have r: "registered demo_decode demo_registry"
    by (rule registered.more [OF registered.empty demo_registers])
  have "reg_get demo_registry ''calc'' \<noteq> None" by code_simp
  then obtain e where "reg_get demo_registry ''calc'' = Some e" by blast
  then show ?thesis using registered_well_formed [OF r] by simp
qed

text \<open>
  The definition sent to the model, whose string-length bounds are stripped, never refuses an
  input that the full schema accepts: Go's validation stays the stricter of the two.
\<close>

theorem sent_schema_weaker:
  assumes "Validate s raw = None"
  shows "Validate (dParameters (frozen_def sp s)) raw = None"
  using assms by (auto simp: Validate_def validate_conforms frozen_def_def conforms_strip split: option.splits)

theorem sent_schema_weaker_witness:
  "Validate (dParameters (frozen_def demo_spec
      (Schema (Some [''string'']) [] [] None None None None None (Some 1) (Some 3) None None)))
    (Some (JStr ''abc'')) = None"
  by (rule sent_schema_weaker) code_simp

end
