(* ===== verification/Page.thy ===== *)
theory Page
  imports AgentTypes "HOL-Library.Sublist"
begin

text \<open>
  \<^verbatim>\<open>internal/agent/page.go\<close>: a tool output's lists and texts filled from a byte budget.
  The size an item takes is the length of its JSON encoding, a parameter of \<open>Take\<close>; a
  text's encoding is measured rune by rune (\<open>json_str_len\<close>).
\<close>

record page =
  Left :: int
  Truncated :: bool
  taken :: bool

definition ShrunkResult :: int where "ShrunkResult = 16000"
definition PageBytes :: int where "PageBytes = ShrunkResult * 3 div 4"
definition pageFrame :: int where "pageFrame = 1000"

definition NewPage :: page where
  "NewPage = \<lparr>Left = PageBytes - pageFrame, Truncated = False, taken = False\<rparr>"

section \<open>Lists\<close>

fun Take :: "('a \<Rightarrow> nat) \<Rightarrow> page \<Rightarrow> 'a list \<Rightarrow> 'a list \<times> page" where
  "Take sz p [] = ([], p)"
| "Take sz p (it # items) =
     (let n = int (sz it) + 1 in
      if n \<le> Left p \<or> \<not> taken p
      then (let (out, p') = Take sz (p\<lparr>Left := Left p - n, taken := True\<rparr>) items in (it # out, p'))
      else ([], p\<lparr>Truncated := True\<rparr>))"

definition items_size :: "('a \<Rightarrow> nat) \<Rightarrow> 'a list \<Rightarrow> int" where
  "items_size sz xs = sum_list (map (\<lambda>x. int (sz x) + 1) xs)"

lemma items_size_simps [simp]:
  "items_size sz [] = 0" "items_size sz (x # xs) = int (sz x) + 1 + items_size sz xs"
  by (simp_all add: items_size_def)

lemma items_size_nonneg [simp]: "0 \<le> items_size sz xs"
  by (induction xs) auto

lemma Take_prefix: "prefix (fst (Take sz p items)) items"
  by (induction sz p items rule: Take.induct) (auto simp: Let_def split: prod.splits)

lemma Take_left: "Left (snd (Take sz p items)) = Left p - items_size sz (fst (Take sz p items))"
  by (induction sz p items rule: Take.induct) (auto simp: Let_def split: prod.splits)

lemma Take_within: "taken p \<Longrightarrow> 0 \<le> Left p \<Longrightarrow> items_size sz (fst (Take sz p items)) \<le> Left p"
proof (induction sz p items rule: Take.induct)
  case (2 sz p it items)
  then show ?case by (force simp: Let_def split: prod.splits)
qed simp

lemma Take_truncated:
  "\<not> Truncated p \<Longrightarrow> Truncated (snd (Take sz p items)) \<longleftrightarrow> fst (Take sz p items) \<noteq> items"
  by (induction sz p items rule: Take.induct) (auto simp: Let_def split: prod.splits)

text \<open>
  Taking items from a page keeps a leading part of them, charges the page exactly their encoded
  size, says it was cut exactly when it was, never overruns what the page has left except by the
  first item it takes, and always takes that first item, so a paged list always moves on.
\<close>

theorem Take_page:
  assumes "\<not> Truncated p"
  shows "prefix (fst (Take sz p items)) items
    \<and> Left (snd (Take sz p items)) = Left p - items_size sz (fst (Take sz p items))
    \<and> (Truncated (snd (Take sz p items)) \<longleftrightarrow> fst (Take sz p items) \<noteq> items)
    \<and> (taken p \<and> 0 \<le> Left p \<longrightarrow> items_size sz (fst (Take sz p items)) \<le> Left p)
    \<and> (\<not> taken p \<and> items \<noteq> [] \<longrightarrow> fst (Take sz p items) \<noteq> [] \<and>
        items_size sz (tl (fst (Take sz p items))) \<le> max 0 (Left p - int (sz (hd items)) - 1))"
proof -
  have first: "fst (Take sz p items) \<noteq> [] \<and>
      items_size sz (tl (fst (Take sz p items))) \<le> max 0 (Left p - int (sz (hd items)) - 1)"
    if "\<not> taken p" and "items \<noteq> []"
  proof -
    obtain x xs where items: "items = x # xs" using \<open>items \<noteq> []\<close> by (cases items) auto
    let ?q = "p\<lparr>Left := Left p - (int (sz x) + 1), taken := True\<rparr>"
    have "items_size sz (fst (Take sz ?q xs)) \<le> max 0 (Left ?q)"
    proof (cases "0 \<le> Left ?q")
      case True
      then show ?thesis using Take_within [of ?q sz xs] by simp
    next
      case False
      then have "fst (Take sz ?q xs) = []" by (cases xs) (auto simp: Let_def)
      then show ?thesis by simp
    qed
    then show ?thesis using that(1)
      by (cases "Take sz ?q xs") (simp add: items Let_def diff_diff_eq add.commute)
  qed
  show ?thesis
    using Take_prefix Take_left Take_truncated [OF assms] Take_within first by blast
qed

theorem Take_page_witness:
  "fst (Take (\<lambda>n. n) \<lparr>Left = 10, Truncated = False, taken = False\<rparr> [4, 3, 2 :: nat]) = [4, 3]
   \<and> prefix (fst (Take (\<lambda>n. n) \<lparr>Left = 10, Truncated = False, taken = False\<rparr> [4, 3, 2 :: nat])) [4, 3, 2]"
  using Take_page [of "\<lparr>Left = 10, Truncated = False, taken = False\<rparr>" "\<lambda>n. n" "[4, 3, 2 :: nat]"]
  by (simp add: Let_def)

section \<open>Text\<close>

definition newline :: char where "newline = char_of (10 :: nat)"

text \<open>
  The size loop writes each rune again (\<^verbatim>\<open>string(r)\<close>), so an invalid byte is measured as
  the three bytes of U+FFFD.
\<close>

definition rune_size :: "rune \<Rightarrow> nat" where
  "rune_size r = json_rune_len (r, length (encode_rune r))"

fun text_loop :: "int \<Rightarrow> nat \<Rightarrow> int \<Rightarrow> (rune \<times> nat) list \<Rightarrow> nat \<times> int" where
  "text_loop room n sz [] = (n, sz)"
| "text_loop room n sz ((r, w) # rs) =
     (if sz + int (rune_size r) > room then (n, sz)
      else text_loop room (n + w) (sz + int (rune_size r)) rs)"

definition break_at :: "string \<Rightarrow> nat \<Rightarrow> nat" where
  "break_at s n = (case find (\<lambda>i. s ! i = newline) (rev [n div 2 + 1..<n]) of
     None \<Rightarrow> n | Some i \<Rightarrow> i + 1)"

definition TakeText :: "page \<Rightarrow> string \<Rightarrow> string \<times> page" where
  "TakeText p s =
     (let b = int (json_str_len s) in
      if b \<le> Left p \<or> Left p \<le> 2
      then (if b > Left p then ([], p\<lparr>Truncated := True, Left := Left p - b\<rparr>)
            else (s, p\<lparr>Left := Left p - b\<rparr>))
      else (let (n, sz) = text_loop (Left p) 0 2 (runes_of s) in
            (take (break_at s n) s, p\<lparr>Left := Left p - sz, Truncated := True\<rparr>)))"

text \<open>The loop stops after some number of whole runes, the first rune past them not fitting.\<close>

lemma text_loop_stops:
  "\<exists>k \<le> length rs. text_loop room n sz rs
      = (n + sum_list (map snd (take k rs)), sz + int (sum_list (map (\<lambda>rw. rune_size (fst rw)) (take k rs))))
    \<and> (k < length rs \<longrightarrow> room < sz + int (sum_list (map (\<lambda>rw. rune_size (fst rw)) (take (Suc k) rs))))"
proof (induction room n sz rs rule: text_loop.induct)
  case (2 room n sz r w rs)
  show ?case
  proof (cases "sz + int (rune_size r) > room")
    case True
    then show ?thesis by (intro exI [of _ 0]) simp
  next
    case False
    then obtain k where "k \<le> length rs" "text_loop room (n + w) (sz + int (rune_size r)) rs
        = (n + w + sum_list (map snd (take k rs)),
           sz + int (rune_size r) + int (sum_list (map (\<lambda>rw. rune_size (fst rw)) (take k rs))))"
      "k < length rs \<longrightarrow> room < sz + int (rune_size r) + int (sum_list (map (\<lambda>rw. rune_size (fst rw)) (take (Suc k) rs)))"
      using "2.IH" by blast
    then show ?thesis using False by (intro exI [of _ "Suc k"]) auto
  qed
qed simp

lemma text_loop_size: "sz \<le> room \<Longrightarrow> snd (text_loop room n sz rs) \<le> room"
  by (induction room n sz rs rule: text_loop.induct) auto

lemma break_at_cases:
  "break_at s n = n \<or> (\<exists>i < n. n div 2 < i \<and> s ! i = newline \<and> break_at s n = Suc i)"
  by (auto simp: break_at_def dest!: find_SomeD split: option.splits)

text \<open>In valid text a rune is measured as it is written.\<close>

lemma rune_size_valid:
  "valid_utf8 s \<Longrightarrow> rw \<in> set (runes_of s) \<Longrightarrow> rune_size (fst rw) = json_rune_len rw"
  using valid_utf8_widths [of s rw] by (cases rw) (auto simp: rune_size_def)

lemma rune_sizes_valid:
  assumes "valid_utf8 s"
  shows "sum_list (map (\<lambda>rw. rune_size (fst rw)) (take k (runes_of s))) = sum_list (map json_rune_len (take k (runes_of s)))"
  using assms rune_size_valid [of s] by (intro arg_cong [where f = sum_list] map_cong) (auto dest: in_set_takeD)

lemma json_rune_len_pos: "valid_utf8 s \<Longrightarrow> rw \<in> set (runes_of s) \<Longrightarrow> 0 < json_rune_len rw \<and> json_rune_len rw \<le> 6"
  using valid_utf8_widths [of s rw]
  by (cases rw) (auto simp: json_rune_len_def encode_rune_def split: if_splits)

lemma sum_list_take_mono:
  fixes f :: "'a \<Rightarrow> nat"
  assumes "j \<le> k"
  shows "sum_list (map f (take j xs)) \<le> sum_list (map f (take k xs))"
proof -
  have "take k xs = take j xs @ take (k - j) (drop j xs)" using assms by (simp add: take_add [symmetric])
  then show ?thesis by simp
qed

text \<open>The line break the cut moves to ends a rune, so the cut is still between two runes.\<close>

lemma break_at_rune:
  assumes "k \<le> length (runes_of s)" and "0 < k"
  shows "\<exists>j. 0 < j \<and> j \<le> k \<and> break_at s (rune_offset s k) = rune_offset s j"
  using break_at_cases [of s "rune_offset s k"]
proof
  assume "\<exists>i < rune_offset s k. rune_offset s k div 2 < i \<and> s ! i = newline \<and> break_at s (rune_offset s k) = Suc i"
  then obtain i where i: "i < rune_offset s k" "s ! i = newline" "break_at s (rune_offset s k) = Suc i" by blast
  have "i < length s" using i(1) rune_offset_mono [OF assms(1), of s] by (simp add: rune_offset_all)
  moreover have "byte_val newline < 128" by (simp add: newline_def byte_val_def)
  ultimately obtain j where j: "j \<le> length (runes_of s)" "Suc i = rune_offset s j"
    using ascii_ends_rune [of i s] i(2) by metis
  have "0 < j" using j(2) by (cases j) auto
  moreover have "j \<le> k"
  proof (rule ccontr)
    assume "\<not> j \<le> k"
    then have "rune_offset s k < rune_offset s j" using rune_offset_less j(1) by simp
    then show False using i(1) j(2) by simp
  qed
  ultimately show ?thesis using j(2) i(3) by auto
qed (use assms in auto)

lemma json_str_len_ge: "2 \<le> json_str_len s"
  by (simp add: json_str_len_def)

text \<open>
  Cutting valid text to what a page has left (at least 8 bytes) keeps a prefix whose JSON
  encoding fits, never less than nothing of a non-empty text, says it was cut exactly when it was,
  charges the page at least what the text takes and never more than it has, and leaves a rest that
  is valid text again, so paging by offset reads the whole text.
\<close>

theorem TakeText_page:
  assumes "valid_utf8 s" and "\<not> Truncated p" and "8 \<le> Left p"
  shows "prefix (fst (TakeText p s)) s
    \<and> int (json_str_len (fst (TakeText p s))) \<le> Left p - Left (snd (TakeText p s))
    \<and> 0 \<le> Left (snd (TakeText p s))
    \<and> (Truncated (snd (TakeText p s)) \<longleftrightarrow> fst (TakeText p s) \<noteq> s)
    \<and> (s \<noteq> [] \<longrightarrow> fst (TakeText p s) \<noteq> [])
    \<and> valid_utf8 (drop (length (fst (TakeText p s))) s)"
proof (cases "int (json_str_len s) \<le> Left p")
  case True
  then show ?thesis using assms by (simp add: TakeText_def valid_utf8_def)
next
  case False
  let ?rs = "runes_of s"
  define z where "z k = sum_list (map json_rune_len (take k ?rs))" for k
  obtain k where k: "k \<le> length ?rs" "text_loop (Left p) 0 2 ?rs = (rune_offset s k, 2 + int (z k))"
      "k < length ?rs \<longrightarrow> Left p < 2 + int (z (Suc k))"
    using text_loop_stops [where rs = ?rs and room = "Left p" and n = 0 and sz = 2]
    by (auto simp: rune_sizes_valid [OF assms(1)] rune_offset_def z_def)
  have fits: "2 + int (z k) \<le> Left p" using text_loop_size [of 2 "Left p" 0 ?rs] k(2) assms(3) by simp
  have "json_str_len s = 2 + z (length ?rs)" by (simp add: json_str_len_def z_def)
  then have short: "k < length ?rs" using k(1) fits False by (cases "k = length ?rs") auto
  have "0 < k"
  proof (rule ccontr)
    assume "\<not> 0 < k"
    then show False
      using k(3) short assms(3) json_rune_len_pos [OF assms(1), of "hd ?rs"]
      by (cases ?rs) (auto simp: z_def)
  qed
  obtain j where j: "0 < j" "j \<le> k" "break_at s (rune_offset s k) = rune_offset s j"
    using break_at_rune [OF less_imp_le [OF short] \<open>0 < k\<close>] by blast
  let ?cut = "take (rune_offset s j) s"
  have res: "TakeText p s = (?cut, p\<lparr>Left := Left p - (2 + int (z k)), Truncated := True\<rparr>)"
    using False assms(3) by (simp add: TakeText_def k(2) j(3))
  have len: "0 < rune_offset s j" "rune_offset s j < length s"
    using rune_offset_less [of 0 j s] rune_offset_less [of j "length ?rs" s] j short
    by (auto simp: rune_offset_all)
  have "runes_of ?cut = take j ?rs" unfolding rune_offset_def by (rule runes_of_take)
  then have "json_str_len ?cut = 2 + z j" by (simp add: json_str_len_def z_def)
  moreover have "z j \<le> z k" unfolding z_def using j(2) by (rule sum_list_take_mono)
  moreover have "?cut \<noteq> s" "?cut \<noteq> []" using len by (auto dest: arg_cong [of _ _ length])
  moreover have "valid_utf8 (drop (length ?cut) s)"
    using valid_utf8_drop [OF assms(1), of j] len by (simp add: rune_offset_def)
  ultimately show ?thesis using fits by (simp add: res take_is_prefix)
qed

theorem TakeText_page_witness:
  "fst (TakeText \<lparr>Left = 8, Truncated = False, taken = False\<rparr> ''one two three'') \<noteq> []
   \<and> prefix (fst (TakeText \<lparr>Left = 8, Truncated = False, taken = False\<rparr> ''one two three'')) ''one two three''"
proof -
  let ?p = "\<lparr>Left = 8, Truncated = False, taken = False\<rparr>"
  have v: "valid_utf8 ''one two three''" by (rule valid_utf8_ascii) (auto simp: byte_val_def)
  have p: "\<not> Truncated ?p" "8 \<le> Left ?p" by simp_all
  note h = TakeText_page [OF v p]
  from h have pre: "prefix (fst (TakeText ?p ''one two three'')) ''one two three''" by (rule conjunct1)
  from h have "''one two three'' \<noteq> [] \<longrightarrow> fst (TakeText ?p ''one two three'') \<noteq> []" by (elim conjE)
  then have "fst (TakeText ?p ''one two three'') \<noteq> []" by (rule mp) (rule list.distinct)
  then show ?thesis using pre by (rule conjI)
qed

end
