(* ===== verification/Pricing.thy ===== *)
theory Pricing
  imports Registry
begin

text \<open>
  \<^verbatim>\<open>internal/model/pricing.go\<close>, with the request types and role bindings of
  \<^verbatim>\<open>internal/model/client.go\<close> and the runtime's worst-case price of a request
  (\<^verbatim>\<open>(*Runtime).bound\<close>, \<^verbatim>\<open>loop.go\<close>).  A price table is an association list in the order
  Go happens to range over the map; the theorems hold for every order.  Lower-casing and
  the bytes of an encoded request are parameters.
\<close>

section \<open>Rates\<close>

record rate =
  rIn :: rat
  rOut :: rat

type_synonym price_table = "(string \<times> rate option) list"

record prices =
  operator :: price_table
  builtin :: price_table
  warned :: "string list"

definition Cost :: "rate \<Rightarrow> model_usage \<Rightarrow> rat" where
  "Cost r u = (of_int (InputTokens u) * rIn r + of_int (OutputTokens u) * rOut r
     + of_int (CacheWriteTokens u) * rIn r * (5 / 4) + of_int (CacheReadTokens u) * rIn r * (1 / 10)) / 1000000"

definition rate_ok :: "rate \<Rightarrow> bool" where
  "rate_ok r \<longleftrightarrow> 0 \<le> rIn r \<and> rIn r \<le> 10000 \<and> 0 \<le> rOut r \<and> rOut r \<le> 10000"

text \<open>
  \<^verbatim>\<open>ParsePrices\<close> on the decoded object: every key in the order it is ranged over, and either
  null or the two rates, each possibly missing.
\<close>

datatype price_error = BadKey | Repeated | BadEntry

definition key_char :: "char \<Rightarrow> bool" where
  "key_char c \<longleftrightarrow> lower_letter c \<or> is_digit_byte c \<or> c \<in> set ''._:/@+-''"

text \<open>\<^verbatim>\<open>priceKey\<close>: a letter or digit, up to 199 key characters, and an optional star.\<close>

definition price_key :: "string \<Rightarrow> bool" where
  "price_key k = (let b = trim_suffix k ''*'' in
     b \<noteq> [] \<and> (lower_letter (hd b) \<or> is_digit_byte (hd b)) \<and> list_all key_char (tl b) \<and> length (tl b) \<le> 199)"

fun parse_entry :: "(rat option \<times> rat option) option \<Rightarrow> (price_error, rate option) result" where
  "parse_entry None = Inr None"
| "parse_entry (Some (Some i, Some q)) =
     (if rate_ok \<lparr>rIn = i, rOut = q\<rparr> then Inr (Some \<lparr>rIn = i, rOut = q\<rparr>) else Inl BadEntry)"
| "parse_entry (Some _) = Inl BadEntry"

fun ParsePrices ::
  "(string \<Rightarrow> string) \<Rightarrow> price_table \<Rightarrow> (string \<times> (rat option \<times> rat option) option) list \<Rightarrow>
   (price_error, price_table) result" where
  "ParsePrices lower out [] = Inr out"
| "ParsePrices lower out ((k, r) # rest) =
     (let key = lower (trim_space k) in
      if \<not> price_key key then Inl BadKey
      else if key \<in> fst ` set out then Inl Repeated
      else (case parse_entry r of Inl e \<Rightarrow> Inl e | Inr e \<Rightarrow> ParsePrices lower (out @ [(key, e)]) rest))"

section \<open>Lookup\<close>

definition cut_star :: "string \<Rightarrow> string option" where
  "cut_star k = (if has_suffix k ''*'' then Some (trim_suffix k ''*'') else None)"

definition key_matches :: "string \<Rightarrow> string \<Rightarrow> string \<Rightarrow> bool" where
  "key_matches x bare pre \<longleftrightarrow> has_prefix x pre \<and> (x = bare \<or> contains_str pre ''/'')"

definition prefix_step ::
  "string \<Rightarrow> string \<Rightarrow> int \<times> rate option \<Rightarrow> string \<times> rate option \<Rightarrow> int \<times> rate option" where
  "prefix_step x bare acc kv = (case cut_star (fst kv) of
     None \<Rightarrow> acc
   | Some pre \<Rightarrow> if fst acc < int (length pre) \<and> key_matches x bare pre then (int (length pre), snd kv) else acc)"

definition lookup_in :: "string \<Rightarrow> string \<Rightarrow> price_table \<Rightarrow> rate option option" where
  "lookup_in x bare t = (case map_of t x of
     Some r \<Rightarrow> Some r
   | None \<Rightarrow> (let (best, r) = foldl (prefix_step x bare) (-1, None) t in
              if best \<ge> 0 then Some r else None))"

definition bare_id :: "string \<Rightarrow> string" where
  "bare_id x = (case str_last_index x ''/'' of None \<Rightarrow> x | Some i \<Rightarrow> drop (Suc i) x)"

text \<open>The rate, whether any entry matched, and whether it is the operator's.\<close>

fun lookup_first :: "(rate option option \<times> bool) list \<Rightarrow> rate option \<times> bool \<times> bool" where
  "lookup_first [] = (None, False, False)"
| "lookup_first ((Some r, own) # _) = (r, True, own)"
| "lookup_first ((None, own) # rest) = lookup_first rest"

definition Lookup :: "(string \<Rightarrow> string) \<Rightarrow> prices \<Rightarrow> string \<Rightarrow> rate option \<times> bool \<times> bool" where
  "Lookup lower p m =
     (let x = lower (trim_space m); bare = bare_id x in
      lookup_first [(lookup_in x bare (operator p), True), (lookup_in bare bare (operator p), True),
                    (lookup_in x bare (builtin p), False), (lookup_in bare bare (builtin p), False)])"

text \<open>\<^verbatim>\<open>(*Prices).charge\<close>: the priced usage, the warned ids and whether it warned.\<close>

definition charge ::
  "(string \<Rightarrow> string) \<Rightarrow> prices \<Rightarrow> string \<Rightarrow> model_usage \<Rightarrow> rat \<Rightarrow> model_usage \<times> prices \<times> bool" where
  "charge lower p m u watts =
     (let u1 = (if watts > 0 then u\<lparr>WattHours := Some (watts * DurationHours u)\<rparr> else u) in
      case fst (Lookup lower p m) of
        Some r \<Rightarrow> (u1\<lparr>CostUSD := Some (Cost r u1)\<rparr>, p, False)
      | None \<Rightarrow>
          if lower m \<in> set (warned p) then (u1, p, False)
          else (u1, p\<lparr>warned := lower m # warned p\<rparr>, True))"

section \<open>What a lookup finds\<close>

text \<open>
  The entry a table holds for an id: its exact key, else its longest prefix key that may match.
\<close>

definition picks :: "string \<Rightarrow> string \<Rightarrow> price_table \<Rightarrow> rate option \<Rightarrow> bool" where
  "picks x bare t r \<longleftrightarrow> (x, r) \<in> set t \<or>
     x \<notin> fst ` set t \<and> (\<exists>k pre. (k, r) \<in> set t \<and> cut_star k = Some pre \<and> key_matches x bare pre
       \<and> (\<forall>k' r' pre'. (k', r') \<in> set t \<longrightarrow> cut_star k' = Some pre' \<longrightarrow> key_matches x bare pre' \<longrightarrow>
             length pre' \<le> length pre))"

lemma cut_star_Some: "cut_star k = Some pre \<longleftrightarrow> k = pre @ ''*''"
proof
  assume "cut_star k = Some pre"
  then have s: "has_suffix k ''*''" and pre: "pre = take (length k - 1) k"
    by (auto simp: cut_star_def trim_suffix_def split: if_splits)
  have "k = take (length k - 1) k @ drop (length k - 1) k" by simp
  then show "k = pre @ ''*''" using s unfolding pre has_suffix_def by (metis One_nat_def length_Cons list.size(3))
qed (simp add: cut_star_def trim_suffix_def has_suffix_def)

text \<open>What the loop over a table has found so far.\<close>

definition found :: "string \<Rightarrow> string \<Rightarrow> price_table \<Rightarrow> int \<times> rate option \<Rightarrow> bool" where
  "found x bare t acc \<longleftrightarrow>
     (\<forall>k r pre. (k, r) \<in> set t \<longrightarrow> cut_star k = Some pre \<longrightarrow> key_matches x bare pre \<longrightarrow> int (length pre) \<le> fst acc)
   \<and> (fst acc = -1 \<or> (\<exists>k pre. (k, snd acc) \<in> set t \<and> cut_star k = Some pre \<and> key_matches x bare pre
         \<and> fst acc = int (length pre)))"

lemma found_step: "found x bare t acc \<Longrightarrow> found x bare (t @ [kv]) (prefix_step x bare acc kv)"
  by (cases kv; cases "cut_star (fst kv)") (force simp: found_def prefix_step_def)+

lemma found_fold: "found x bare t acc \<Longrightarrow> found x bare (t @ kvs) (foldl (prefix_step x bare) acc kvs)"
proof (induction kvs arbitrary: t acc)
  case (Cons kv kvs)
  then show ?case using found_step [of x bare t acc kv] Cons.IH [of "t @ [kv]" "prefix_step x bare acc kv"] by simp
qed simp

lemma found_all: "found x bare t (foldl (prefix_step x bare) (-1, None) t)"
  using found_fold [of x bare "[]" "(-1, None)" t] by (simp add: found_def)

text \<open>Two prefixes of one id that are as long are the same prefix.\<close>

lemma same_prefix: "key_matches x bare p \<Longrightarrow> key_matches x bare q \<Longrightarrow> length p = length q \<Longrightarrow> p = q"
  by (metis key_matches_def has_prefix_def)

lemma lookup_in_picks:
  assumes "distinct (map fst t)"
  shows "lookup_in x bare t = Some r \<longleftrightarrow> picks x bare t r"
proof (cases "map_of t x")
  case (Some v)
  then have "(x, v) \<in> set t" by (rule map_of_SomeD)
  then have "picks x bare t r \<longleftrightarrow> r = v"
    using assms by (force simp: picks_def dest: eq_key_imp_eq_value)
  then show ?thesis using Some by (auto simp: lookup_in_def)
next
  case None
  then have out: "x \<notin> fst ` set t" by (simp add: map_of_eq_None_iff)
  then have nx: "(x, r) \<notin> set t" by force
  define acc where "acc = foldl (prefix_step x bare) (-1, None) t"
  have f: "found x bare t acc" unfolding acc_def by (rule found_all)
  have lk: "lookup_in x bare t = Some r \<longleftrightarrow> 0 \<le> fst acc \<and> snd acc = r"
    using None by (cases acc) (simp add: lookup_in_def acc_def [symmetric])
  show ?thesis unfolding lk
  proof
    assume l: "0 \<le> fst acc \<and> snd acc = r"
    then obtain k pre where k: "(k, r) \<in> set t" "cut_star k = Some pre" "key_matches x bare pre" "fst acc = int (length pre)"
      using f by (auto simp: found_def)
    moreover have "length pre' \<le> length pre"
      if "(k', r') \<in> set t" "cut_star k' = Some pre'" "key_matches x bare pre'" for k' r' pre'
    proof -
      have "int (length pre') \<le> fst acc" using f that unfolding found_def by blast
      then show ?thesis using k(4) by simp
    qed
    ultimately show "picks x bare t r" using out unfolding picks_def by blast
  next
    assume "picks x bare t r"
    then obtain k pre where k: "(k, r) \<in> set t" "cut_star k = Some pre" "key_matches x bare pre"
      and top: "\<And>k' r' pre'. (k', r') \<in> set t \<Longrightarrow> cut_star k' = Some pre' \<Longrightarrow> key_matches x bare pre' \<Longrightarrow> length pre' \<le> length pre"
      using nx unfolding picks_def by blast
    have le: "int (length pre) \<le> fst acc" using f k unfolding found_def by blast
    then obtain k2 pre2 where k2: "(k2, snd acc) \<in> set t" "cut_star k2 = Some pre2" "key_matches x bare pre2"
      "fst acc = int (length pre2)"
      using f unfolding found_def by fastforce
    have "pre2 = pre" using same_prefix [OF k2(3) k(3)] top [OF k2(1-3)] le k2(4) by simp
    then have "k2 = k" using k(2) k2(2) by (simp add: cut_star_Some)
    then show "0 \<le> fst acc \<and> snd acc = r"
      using k(1) k2(1) le eq_key_imp_eq_value [OF assms] by auto
  qed
qed

lemma lookup_in_order:
  assumes "distinct (map fst t)" and "mset t = mset t'"
  shows "lookup_in x bare t = lookup_in x bare t'"
proof -
  have "distinct (map fst t')" using assms by (metis mset_eq_imp_distinct_iff mset_map)
  moreover have "set t = set t'" using assms(2) by (rule mset_eq_setD)
  ultimately have "lookup_in x bare t = Some r \<longleftrightarrow> lookup_in x bare t' = Some r" for r
    using assms(1) by (simp add: lookup_in_picks picks_def)
  then show ?thesis by (metis option.exhaust)
qed

text \<open>
  A model's price does not depend on the order Go ranges over its tables, and it is the entry the
  documentation promises: the operator's table before the built-in one, the whole id before the id
  without its vendor, an exact key before any prefix key, and the longest prefix key of the rest.
\<close>

theorem Lookup_picks:
  assumes "distinct (map fst (operator p))" and "distinct (map fst (builtin p))"
    and "mset (operator p) = mset (operator q)" and "mset (builtin p) = mset (builtin q)"
    and "x = lower (trim_space m)"
  shows "Lookup lower p m = Lookup lower q m
    \<and> (picks x (bare_id x) (operator p) r \<longrightarrow> Lookup lower p m = (r, True, True))
    \<and> (Lookup lower p m = (r, True, True) \<longrightarrow>
        picks x (bare_id x) (operator p) r \<or> picks (bare_id x) (bare_id x) (operator p) r)
    \<and> (Lookup lower p m = (r, True, False) \<longrightarrow>
        (\<forall>r'. \<not> picks x (bare_id x) (operator p) r' \<and> \<not> picks (bare_id x) (bare_id x) (operator p) r')
        \<and> (picks x (bare_id x) (builtin p) r \<or> picks (bare_id x) (bare_id x) (builtin p) r))"
proof -
  define b where "b = bare_id x"
  have same: "lookup_in y b (operator p) = lookup_in y b (operator q)"
    "lookup_in y b (builtin p) = lookup_in y b (builtin q)" for y
    using assms by (auto intro: lookup_in_order)
  show ?thesis
    unfolding Lookup_def Let_def assms(5) [symmetric] b_def [symmetric]
      lookup_in_picks [OF assms(1), symmetric] lookup_in_picks [OF assms(2), symmetric]
      same [symmetric]
    by (cases "lookup_in x b (operator p)"; cases "lookup_in b b (operator p)";
        cases "lookup_in x b (builtin p)"; cases "lookup_in b b (builtin p)") simp_all
qed

definition demo_prices :: prices where
  "demo_prices = \<lparr>operator = [(''m-large*'', Some \<lparr>rIn = 3, rOut = 15\<rparr>), (''m*'', None)],
     builtin = [(''m-large-2'', Some \<lparr>rIn = 1, rOut = 1\<rparr>)], warned = []\<rparr>"

theorem Lookup_picks_witness:
  "Lookup id demo_prices ''v/m-large-2'' = Lookup id (demo_prices\<lparr>operator := rev (operator demo_prices)\<rparr>) ''v/m-large-2''
   \<and> Lookup id demo_prices ''v/m-large-2'' = (Some \<lparr>rIn = 3, rOut = 15\<rparr>, True, True)"
proof -
  have d: "distinct (map fst (operator demo_prices))" "distinct (map fst (builtin demo_prices))"
    by (simp_all add: demo_prices_def)
  have "Lookup id demo_prices ''v/m-large-2'' = Lookup id (demo_prices\<lparr>operator := rev (operator demo_prices)\<rparr>) ''v/m-large-2''"
    by (rule Lookup_picks [OF d, THEN conjunct1]) simp_all
  moreover have "trim_space ''v/m-large-2'' = ''v/m-large-2''"
    by (rule trim_space_id) (simp add: graphic_byte_def is_space_rune_def byte_val_def)
  then have "Lookup id demo_prices ''v/m-large-2'' = lookup_first
      [(lookup_in ''v/m-large-2'' ''m-large-2'' (operator demo_prices), True),
       (lookup_in ''m-large-2'' ''m-large-2'' (operator demo_prices), True),
       (lookup_in ''v/m-large-2'' ''m-large-2'' (builtin demo_prices), False),
       (lookup_in ''m-large-2'' ''m-large-2'' (builtin demo_prices), False)]"
    by (simp add: Lookup_def bare_id_def has_prefix_def Let_def)
  moreover have "lookup_in ''v/m-large-2'' ''m-large-2'' (operator demo_prices) = None"
    "lookup_in ''m-large-2'' ''m-large-2'' (operator demo_prices) = Some (Some \<lparr>rIn = 3, rOut = 15\<rparr>)"
    by code_simp+
  ultimately show ?thesis by simp
qed

section \<open>The table an operator configures\<close>

definition table_ok :: "price_table \<Rightarrow> bool" where
  "table_ok t \<longleftrightarrow> distinct (map fst t) \<and>
     (\<forall>(k, r) \<in> set t. price_key k \<and> (case r of None \<Rightarrow> True | Some q \<Rightarrow> rate_ok q))"

lemma parse_entry_ok: "parse_entry r = Inr (Some q) \<Longrightarrow> rate_ok q"
  by (cases r rule: parse_entry.cases) (auto split: if_splits)

lemma ParsePrices_table:
  "ParsePrices lower out kvs = Inr t \<Longrightarrow> table_ok out \<Longrightarrow> table_ok t
     \<and> map fst t = map fst out @ map (\<lambda>kv. lower (trim_space (fst kv))) kvs"
proof (induction lower out kvs rule: ParsePrices.induct)
  case (2 lower out k r rest)
  let ?key = "lower (trim_space k)"
  obtain e where e: "price_key ?key" "?key \<notin> fst ` set out" "parse_entry r = Inr e"
    "ParsePrices lower (out @ [(?key, e)]) rest = Inr t"
    using "2.prems"(1) by (auto simp: Let_def split: if_splits sum.splits)
  then have "table_ok (out @ [(?key, e)])"
    using "2.prems"(2) parse_entry_ok [of r] by (force simp: table_ok_def split: option.splits)
  then show ?case using "2.IH" [of ?key e] e by auto
qed simp

text \<open>
  A price table that parses has every key of the input once (in lower case, trimmed), each in the
  form of a model id with at most a trailing star, and every rate from 0 to 10,000 USD.
\<close>

theorem ParsePrices_ok:
  assumes "ParsePrices lower [] kvs = Inr t"
  shows "table_ok t \<and> map fst t = map (\<lambda>kv. lower (trim_space (fst kv))) kvs"
proof -
  have "table_ok []" by (simp add: table_ok_def)
  then show ?thesis using ParsePrices_table [OF assms] by simp
qed

theorem ParsePrices_ok_witness:
  "table_ok [(''gpt-x*'', Some \<lparr>rIn = 3, rOut = 15\<rparr>), (''local'', None)]"
proof -
  have t: "trim_space ''gpt-x*'' = ''gpt-x*''" "trim_space ''local'' = ''local''"
    by (rule trim_space_id; simp add: graphic_byte_def is_space_rune_def byte_val_def)+
  have k: "price_key ''gpt-x*''" "price_key ''local''" by code_simp+
  have "ParsePrices id [] [(''gpt-x*'', Some (Some 3, Some 15)), (''local'', None)]
     = Inr [(''gpt-x*'', Some \<lparr>rIn = 3, rOut = 15\<rparr>), (''local'', None)]"
    by (simp add: t k Let_def rate_ok_def)
  then show ?thesis using ParsePrices_ok [of id "[(''gpt-x*'', Some (Some 3, Some 15)), (''local'', None)]"]
    by blast
qed

section \<open>Requests and roles\<close>

text \<open>\<^verbatim>\<open>type Roles struct\<close> and \<^verbatim>\<open>(Roles) Model\<close>.\<close>

record roles =
  Lead :: string
  Specialist :: string
  Critic :: string
  Vision :: string
  Embed :: string

definition role_binding :: "roles \<Rightarrow> string \<Rightarrow> string option" where
  "role_binding r role = map_of [(''lead'', Lead r), (''specialist'', Specialist r), (''critic'', Critic r),
     (''vision'', Vision r), (''embed'', Embed r)] role"

definition or_str :: "string \<Rightarrow> string \<Rightarrow> string" where
  "or_str a b = (if a \<noteq> [] then a else b)"

definition Roles_Model :: "roles \<Rightarrow> string \<Rightarrow> (model_error, string) result" where
  "Roles_Model r role = (case role_binding r role of
     None \<Rightarrow> Inl (model_fail ErrNotConfigured (''unknown model role '' @ quoted role))
   | Some m0 \<Rightarrow>
      (let m = (if role = ''specialist'' \<or> role = ''critic'' then or_str m0 (Lead r) else m0) in
       if m = [] then Inl (model_fail ErrNotConfigured
         (''no model is set for the '' @ role @ '' role (set '' @ role @ ''=<model id> in BIGLAW_MODELS)''))
       else Inr m))"

lemma Roles_Model_nonempty: "Roles_Model r role = Inr m \<Longrightarrow> m \<noteq> []"
  by (auto simp: Roles_Model_def Let_def split: option.splits if_splits)

text \<open>\<^verbatim>\<open>type Message struct\<close>, \<^verbatim>\<open>type Part struct\<close>, \<^verbatim>\<open>type Request struct\<close>.\<close>

record part =
  pType :: string
  pText :: string
  pImage :: "string option"

datatype content = CNil | CText string | CParts "part list"

record message =
  mRole :: string
  mContent :: content
  mCalls :: "tool_call list"
  mCallID :: string

record request =
  rqAgent :: string
  rqRole :: string
  rqModel :: string
  rqMessages :: "message list"
  rqTools :: "tool_def list"
  rqChoice :: string
  rqMaxTokens :: int

section \<open>The worst case of a request\<close>

definition overheadTokens :: int where "overheadTokens = 1000"

text \<open>
  \<^verbatim>\<open>bound\<close>: every byte of the request a token, all of it billed as a cache write, and
  \<^verbatim>\<open>MaxTokens\<close> of output.  \<open>body\<close> is the length of the encoded messages and tools.
\<close>

definition bound ::
  "(string \<Rightarrow> string) \<Rightarrow> (message list \<Rightarrow> tool_def list \<Rightarrow> nat) \<Rightarrow> prices option \<Rightarrow> request \<Rightarrow> rat" where
  "bound lower body ps req = (case ps of
     None \<Rightarrow> 0
   | Some p \<Rightarrow> (case fst (Lookup lower p (rqModel req)) of
       None \<Rightarrow> 0
     | Some r \<Rightarrow> (5 / 4 * of_int (int (body (rqMessages req) (rqTools req)) + overheadTokens) * rIn r
                  + of_int (rqMaxTokens req) * rOut r) / 1000000))"

lemma lookup_first_in: "lookup_first xs = (Some r, k, w) \<Longrightarrow> \<exists>w. (Some (Some r), w) \<in> set xs"
  by (induction xs rule: lookup_first.induct) auto

lemma Lookup_rate_in:
  assumes "table_ok (operator p)" and "table_ok (builtin p)" and "fst (Lookup lower p m) = Some r"
  shows "rate_ok r"
proof -
  have picked: "rate_ok q" if "table_ok t" "lookup_in x b t = Some (Some q)" for t x b q
  proof -
    have "picks x b t (Some q)" using that lookup_in_picks [of t x b] by (simp add: table_ok_def)
    then obtain k where "(k, Some q) \<in> set t" by (auto simp: picks_def)
    then show ?thesis using that(1) by (auto simp: table_ok_def)
  qed
  obtain k w where "Lookup lower p m = (Some r, k, w)" using assms(3) by (cases "Lookup lower p m") auto
  then show ?thesis unfolding Lookup_def Let_def
    by (fastforce dest!: lookup_first_in intro: picked [OF assms(1) sym] picked [OF assms(2) sym])
qed

lemma token_mix:
  fixes i r w n :: rat
  assumes "i + r + w \<le> n" and "0 \<le> i" and "0 \<le> r" and "0 \<le> w"
  shows "i + w * (5 / 4) + r * (1 / 10) \<le> 5 / 4 * n"
  using assms by (simp add: field_simps)

text \<open>
  The worst case held for a call covers what the call costs: whatever the endpoint answers, as long
  as it bills at most a token for each request byte (and the overhead) and at most \<^verbatim>\<open>MaxTokens\<close> of
  output, the priced call costs at most its bound, however its input is split between fresh, cached
  and cache-written tokens.
\<close>

theorem bound_covers_cost:
  assumes "table_ok (operator p)" and "table_ok (builtin p)"
    and "0 \<le> InputTokens u" and "0 \<le> CacheReadTokens u" and "0 \<le> CacheWriteTokens u"
    and "InputTokens u + CacheReadTokens u + CacheWriteTokens u
           \<le> int (body (rqMessages req) (rqTools req)) + overheadTokens"
    and "OutputTokens u \<le> rqMaxTokens req"
    and "charge lower p (rqModel req) u watts = (u', p', w)" and "CostUSD u' = Some c" and "CostUSD u = None"
  shows "c \<le> bound lower body (Some p) req"
proof -
  define u1 where "u1 = (if watts > 0 then u\<lparr>WattHours := Some (watts * DurationHours u)\<rparr> else u)"
  have same: "InputTokens u1 = InputTokens u" "OutputTokens u1 = OutputTokens u"
    "CacheReadTokens u1 = CacheReadTokens u" "CacheWriteTokens u1 = CacheWriteTokens u" "CostUSD u1 = None"
    using assms(10) by (simp_all add: u1_def)
  obtain r where r: "fst (Lookup lower p (rqModel req)) = Some r" and c: "c = Cost r u1"
    using assms(8,9) same(5) by (auto simp: charge_def u1_def [symmetric] Let_def split: option.splits if_splits)
  have ok: "0 \<le> rIn r" "0 \<le> rOut r"
    using Lookup_rate_in [OF assms(1,2) r] by (simp_all add: rate_ok_def)
  let ?i = "of_int (InputTokens u) :: rat" and ?rd = "of_int (CacheReadTokens u) :: rat"
    and ?wr = "of_int (CacheWriteTokens u) :: rat"
    and ?n = "of_int (int (body (rqMessages req) (rqTools req)) + overheadTokens) :: rat"
  have nn: "0 \<le> ?i" "0 \<le> ?rd" "0 \<le> ?wr" using assms(3-5) by simp_all
  have "?i + ?rd + ?wr \<le> ?n" using assms(6) unfolding of_int_add [symmetric] of_int_le_iff .
  then have tokens: "?i + ?wr * (5 / 4) + ?rd * (1 / 10) \<le> 5 / 4 * ?n" by (rule token_mix [OF _ nn])
  have "(?i + ?wr * (5 / 4) + ?rd * (1 / 10)) * rIn r \<le> (5 / 4 * ?n) * rIn r"
    using tokens ok(1) by (rule mult_right_mono)
  moreover have "of_int (OutputTokens u) * rOut r \<le> of_int (rqMaxTokens req) * rOut r"
    using assms(7) ok(2) by (intro mult_right_mono) simp_all
  moreover have "bound lower body (Some p) req = ((5 / 4 * ?n) * rIn r + of_int (rqMaxTokens req) * rOut r) / 1000000"
    by (simp add: bound_def r)
  moreover have "c = ((?i + ?wr * (5 / 4) + ?rd * (1 / 10)) * rIn r + of_int (OutputTokens u) * rOut r) / 1000000"
    by (simp add: c Cost_def same algebra_simps)
  ultimately show ?thesis by (simp add: divide_right_mono)
qed

definition demo_request :: request where
  "demo_request = \<lparr>rqAgent = ''lead'', rqRole = ''lead'', rqModel = ''m-large-2'', rqMessages = [], rqTools = [],
     rqChoice = [], rqMaxTokens = 4096\<rparr>"

definition demo_model_usage :: model_usage where
  "demo_model_usage = \<lparr>InputTokens = 700, OutputTokens = 90, CacheReadTokens = 200, CacheWriteTokens = 100,
     DurationHours = 0, CostUSD = None, WattHours = None\<rparr>"

lemma demo_lookup: "fst (Lookup id demo_prices ''m-large-2'') = Some \<lparr>rIn = 3, rOut = 15\<rparr>"
proof -
  have "trim_space ''m-large-2'' = ''m-large-2''"
    by (rule trim_space_id) (simp add: graphic_byte_def is_space_rune_def byte_val_def)
  moreover have "lookup_in ''m-large-2'' ''m-large-2'' (operator demo_prices) = Some (Some \<lparr>rIn = 3, rOut = 15\<rparr>)"
    by code_simp
  ultimately show ?thesis by (simp add: Lookup_def bare_id_def has_prefix_def Let_def)
qed

theorem bound_covers_cost_witness:
  "Cost \<lparr>rIn = 3, rOut = 15\<rparr> demo_model_usage \<le> bound id (\<lambda>_ _. 500) (Some demo_prices) demo_request"
proof -
  have k: "price_key ''m-large*''" "price_key ''m*''" "price_key ''m-large-2''" by code_simp+
  have t: "table_ok (operator demo_prices)" "table_ok (builtin demo_prices)"
    by (simp_all add: table_ok_def demo_prices_def rate_ok_def k)
  have c: "charge id demo_prices (rqModel demo_request) demo_model_usage 0
      = (demo_model_usage\<lparr>CostUSD := Some (Cost \<lparr>rIn = 3, rOut = 15\<rparr> demo_model_usage)\<rparr>, demo_prices, False)"
    using demo_lookup by (simp add: charge_def demo_request_def)
  show ?thesis
    by (rule bound_covers_cost [OF t _ _ _ _ _ c])
      (simp_all add: demo_model_usage_def demo_request_def overheadTokens_def)
qed

end
