(* ===== verification/Runtime.thy ===== *)
theory Runtime
  imports Budget Registry Pricing
begin

text \<open>
  The runtime of \<^verbatim>\<open>internal/agent/loop.go\<close>: the state a call changes, the step log, the meter,
  one model call within a budget (\<^verbatim>\<open>ChatWithin\<close>) and one tool call (\<^verbatim>\<open>Invoke\<close>).

  The state is the ledger the caller's budget lives in, what has happened so far (records
  written, tools run, model calls sent, bandit updates, in order), everything outside the
  runtime, and the meter the call's context carries, if any (\<open>Ambient\<close>).  The model endpoint, the step log, the policy, the hooks, the bandit and the
  tools are functions in the runtime's record, as the source holds them behind interfaces.
  Go's formatting of amounts and of schema errors and its JSON reader and writer are functions there too.
  A tool is given a grant by value and no budget, so it runs on a state without the ledger
  and can only add to what has happened.
\<close>

section \<open>The state of a run\<close>

datatype event =
    Recorded step
  | NotRecorded step
  | Ran string call
  | Learned arm rat bool usage
  | Asked request

record meter =
  mStep :: step
  mSpent :: usage
  mHeld :: grant

record 'x world =
  Tree :: tree
  Trace :: "event list"
  Outside :: 'x
  Ambient :: "meter option"

datatype tool_end = Returned tool_result "err option" | Panicked

type_synonym 'x tool = "call \<Rightarrow> 'x world \<Rightarrow> tool_end \<times> 'x world"

record 'x hooks =
  Before :: "pending \<Rightarrow> 'x world \<Rightarrow> (refusal option \<times> usage \<times> err option) \<times> 'x world"
  After :: "pending \<Rightarrow> tool_result \<Rightarrow> err option \<Rightarrow> 'x world \<Rightarrow> (usage \<times> err option) \<times> 'x world"

record 'x runtime =
  Chat :: "request \<Rightarrow> 'x \<Rightarrow> (err, response) result \<times> 'x"
  Roles :: roles
  Prices :: "prices option"
  Reg :: registry
  Tools :: "string \<Rightarrow> 'x tool"
  Policy :: "(pending \<Rightarrow> 'x world \<Rightarrow> refusal option \<times> 'x) option"
  BanditRecord :: "arm \<Rightarrow> rat \<Rightarrow> bool \<Rightarrow> usage \<Rightarrow> 'x \<Rightarrow> 'x"
  BanditHint :: "string list \<Rightarrow> 'x \<Rightarrow> string \<times> 'x"
  PickModel :: "string \<Rightarrow> string list \<Rightarrow> 'x \<Rightarrow> string \<times> 'x"
  Journal :: "(step \<Rightarrow> 'x \<Rightarrow> err option \<times> 'x) option"
  Hooks :: "'x hooks option"
  Lower :: "string \<Rightarrow> string"
  BodyLen :: "message list \<Rightarrow> tool_def list \<Rightarrow> nat"
  FmtUSD :: "rat \<Rightarrow> string"
  FmtInvalid :: "validation_error \<Rightarrow> string"
  DecodeRaw :: "string \<Rightarrow> raw_message"
  RawText :: "raw_message \<Rightarrow> string"

record agent =
  aName :: string
  aRole :: string
  aModel :: string
  aPrompt :: string
  aVisible :: "string list"
  aMaxTurns :: int
  aOut :: "schema option"
  aMaxTokens :: int
  aReplay :: "step list"

section \<open>The text of an error\<close>

fun kind_text :: "model_kind \<Rightarrow> string" where
  "kind_text ErrNotConfigured = ''model not configured''"
| "kind_text ErrRateLimited = ''model provider rate limited''"
| "kind_text ErrUnavailable = ''model call failed''"
| "kind_text ErrTimeout = ''model call timed out''"
| "kind_text ErrNoContent = ''model returned no usable output''"

fun budget_text :: "(rat \<Rightarrow> string) \<Rightarrow> budget_why \<Rightarrow> string" where
  "budget_text fmt (Short fc fu k) = itoa fc @ '' calls and $'' @ fmt fu
     @ '' are free at this stage (the run keeps '' @ itoa k @ '' calls for its later stages and finish)''"
| "budget_text fmt (Noted s) = s"

fun err_text :: "(rat \<Rightarrow> string) \<Rightarrow> err \<Rightarrow> string" where
  "err_text fmt (EModel m) = kind_text (eKind m) @ '': '' @ eDetail m"
| "err_text fmt ECanceled = ''context canceled''"
| "err_text fmt EDeadline = ''context deadline exceeded''"
| "err_text fmt (ERefused r) = refusal_text r"
| "err_text fmt (EFailure s) = s"
| "err_text fmt (EToolOutput s) = ''tool output does not match its schema: '' @ s"
| "err_text fmt (ETurnCap s) = ''turn cap reached without an answer: '' @ s"
| "err_text fmt (EBudget w) = ''the budget cannot fund this call: '' @ budget_text fmt w"
| "err_text fmt (EJournal e) = ''the step log refused a step: '' @ err_text fmt e"
| "err_text fmt (EPanic s) = ''a tool panicked: '' @ s"
| "err_text fmt (EOther s) = s"

text \<open>\<^verbatim>\<open>shown\<close>: an error as the model may see it, the runtime's own words only.\<close>

definition internal_error :: string where
  "internal_error = ''internal error (logged); try a different call or continue without it''"

definition shown :: "(rat \<Rightarrow> string) \<Rightarrow> err \<Rightarrow> string" where
  "shown fmt e =
     (if as_refusal e \<noteq> None \<or> as_failure e \<noteq> None \<or> is_tool_output e \<or> is_turn_cap e \<or> is_budget e
      then err_text fmt e else internal_error)"

lemma shown_hides:
  "as_refusal e = None \<Longrightarrow> as_failure e = None \<Longrightarrow> \<not> is_tool_output e \<Longrightarrow> \<not> is_turn_cap e \<Longrightarrow> \<not> is_budget e
   \<Longrightarrow> shown fmt e = internal_error"
  by (simp add: shown_def)

section \<open>The step log and the meter\<close>

definition happens :: "event \<Rightarrow> 'x world \<Rightarrow> 'x world" where
  "happens e w = w\<lparr>Trace := Trace w @ [e]\<rparr>"

definition record_step :: "'x runtime \<Rightarrow> step \<Rightarrow> 'x world \<Rightarrow> err option \<times> 'x world" where
  "record_step rt s w = (case Journal rt of
     None \<Rightarrow> (None, w)
   | Some j \<Rightarrow> (case j s (Outside w) of
        (None, x) \<Rightarrow> (None, happens (Recorded s) (w\<lparr>Outside := x\<rparr>))
      | (Some e, x) \<Rightarrow> (Some e, happens (NotRecorded s) (w\<lparr>Outside := x\<rparr>))))"

text \<open>\<^verbatim>\<open>(*meter).note\<close> on the context's meter; with none it records nothing.\<close>

definition meter_add :: "meter \<Rightarrow> usage \<Rightarrow> grant \<Rightarrow> meter" where
  "meter_add m u h = m\<lparr>mSpent := usage_add (mSpent m) u,
     mHeld := \<lparr>Calls = Calls (mHeld m) + Calls h, USD = max 0 (USD (mHeld m) + USD h)\<rparr>\<rparr>"

definition meter_step :: "meter \<Rightarrow> step" where
  "meter_step m = (mStep m)\<lparr>
     Grant := \<lparr>Calls = uCalls (mSpent m) + Calls (mHeld m), USD = uUSD (mSpent m) + USD (mHeld m)\<rparr>,
     sUsage := mSpent m\<rparr>"

definition note_meter :: "'x runtime \<Rightarrow> usage \<Rightarrow> grant \<Rightarrow> 'x world \<Rightarrow> err option \<times> 'x world" where
  "note_meter rt u h w = (case Ambient w of
     None \<Rightarrow> (None, w)
   | Some m0 \<Rightarrow>
      (let m1 = meter_add m0 u h in record_step rt (meter_step m1) (w\<lparr>Ambient := Some m1\<rparr>)))"

text \<open>\<^verbatim>\<open>Meter\<close>: spend a tool made without a model call of the runtime's.\<close>

definition Meter :: "'x runtime \<Rightarrow> usage \<Rightarrow> 'x world \<Rightarrow> err option \<times> 'x world" where
  "Meter rt u w = note_meter rt u no_grant w"

section \<open>One model call within a budget\<close>

definition rt_bound :: "'x runtime \<Rightarrow> request \<Rightarrow> rat" where
  "rt_bound rt req = bound (Lower rt) (BodyLen rt) (Prices rt) req"

text \<open>An aborted call may still be billed, so it is charged its worst case.\<close>

definition chat_usage :: "(err, response) result \<Rightarrow> grant \<Rightarrow> usage" where
  "chat_usage r worst =
     (let u = (case r of Inl e \<Rightarrow> ModelUsage (Some e) None | Inr resp \<Rightarrow> ModelUsage None (Some resp)) in
      case r of
        Inl e \<Rightarrow> if is_canceled e \<and> uCalls u = 0 then no_usage\<lparr>uCalls := 1, uUSD := USD worst\<rparr> else u
      | Inr _ \<Rightarrow> u)"

definition ask :: "'x runtime \<Rightarrow> request \<Rightarrow> 'x world \<Rightarrow> (err, response) result \<times> 'x world" where
  "ask rt req w = (case Chat rt req (Outside w) of (r, x) \<Rightarrow> (r, happens (Asked req) (w\<lparr>Outside := x\<rparr>)))"

text \<open>\<^verbatim>\<open>ChatWithin\<close>: the answer or the error, what the call spent, the meter and the state.\<close>

definition chat_held ::
  "'x runtime \<Rightarrow> request \<Rightarrow> nat \<Rightarrow> 'x world \<Rightarrow> ((err, response) result \<times> usage) \<times> 'x world" where
  "chat_held rt req g w =
     (let worst = \<lparr>Calls = 1, USD = USD (Value (Tree w) g)\<rparr>;
          (ne, w1) = note_meter rt no_usage worst w in
      case ne of
        Some e \<Rightarrow> ((Inl (EJournal e), no_usage), w1\<lparr>Tree := Close (Tree w1) g\<rparr>)
      | None \<Rightarrow>
         (let (r, w2) = ask rt req w1;
              u = chat_usage r worst;
              w3 = w2\<lparr>Tree := Charge (Tree w2) g u\<rparr>;
              (_, w4) = note_meter rt u \<lparr>Calls = - Calls worst, USD = - USD worst\<rparr> w3
          in ((r, u), w4\<lparr>Tree := Close (Tree w4) g\<rparr>)))"

definition request_model :: "'x runtime \<Rightarrow> request \<Rightarrow> (err, request) result" where
  "request_model rt req =
     (if rqModel req \<noteq> [] then Inr req
      else (case Roles_Model (Roles rt) (rqRole req) of
              Inl e \<Rightarrow> Inl (EModel e) | Inr m \<Rightarrow> Inr (req\<lparr>rqModel := m\<rparr>)))"

definition ChatWithin ::
  "'x runtime \<Rightarrow> request \<Rightarrow> nat \<Rightarrow> 'x world \<Rightarrow> ((err, response) result \<times> usage) \<times> 'x world" where
  "ChatWithin rt req0 b w =
     (case request_model rt req0 of
        Inl e \<Rightarrow> ((Inl e, no_usage), w)
      | Inr req \<Rightarrow>
         (case take_grant (Tree w) b 1 (rt_bound rt req) LevelWork of
            Inl why \<Rightarrow> ((Inl (EBudget why), no_usage), w)
          | Inr (t, g) \<Rightarrow> chat_held rt req g (w\<lparr>Tree := t\<rparr>)))"

section \<open>One tool call\<close>

definition op_of :: "raw_message \<Rightarrow> string" where
  "op_of raw = (case raw of
     Some (JObj kvs) \<Rightarrow> (case map_of kvs ''op'' of Some (JStr s) \<Rightarrow> s | _ \<Rightarrow> [])
   | _ \<Rightarrow> [])"

text \<open>The checks before anything is spent: offered, not nested, alone when it must be, a valid input.\<close>

definition invoke_gate ::
  "'x runtime \<Rightarrow> agent \<Rightarrow> call \<Rightarrow> string \<Rightarrow> raw_message \<Rightarrow> bool \<Rightarrow> (refusal, entry) result" where
  "invoke_gate rt a c name input alone =
     (case reg_get (Reg rt) name of
        None \<Rightarrow> Inl (refuse ErrNotOffered (''call one of: '' @ str_join (aVisible a) '', '')
                     [name, '' is not one of your tools''])
      | Some e \<Rightarrow>
         if name \<notin> set (aVisible a)
         then Inl (refuse ErrNotOffered (''call one of: '' @ str_join (aVisible a) '', '')
                     [name, '' is not one of your tools''])
         else if cDepth c > 0 \<and> Kind (eSpec e) \<noteq> ''go''
         then Inl (refuse ErrNesting ''do the work with your own tools, or answer with what you have''
                     [name, '' runs subagents, and a subagent cannot call one''])
         else if alone \<and> (Final (eSpec e) \<or> ''*'' \<in> set (Solo (eSpec e)) \<or> op_of input \<in> set (Solo (eSpec e)))
         then Inl (refuse ErrAlone (''call '' @ name @ '' again in a turn of its own'')
                     [''this call of '', name, '' must be the only tool call in its turn''])
         else (case Validate (eIn e) input of
                 Some v \<Rightarrow> Inl (refuse ErrToolInput
                     (''fix the input to match '' @ name @ '''s schema and call again'') [FmtInvalid rt v])
               | None \<Rightarrow> Inr e))"

definition pending_of :: "call \<Rightarrow> agent \<Rightarrow> spec \<Rightarrow> raw_message \<Rightarrow> nat \<Rightarrow> pending" where
  "pending_of c a s input b =
     \<lparr>pTask = cTask c, pAgent = aName a, pDepth = cDepth c, pSpec = s, pInput = input, pBudget = b\<rparr>"

definition ask_policy :: "'x runtime \<Rightarrow> pending \<Rightarrow> 'x world \<Rightarrow> refusal option \<times> 'x world" where
  "ask_policy rt p w = (case Policy rt of
     None \<Rightarrow> (None, w)
   | Some allow \<Rightarrow> (case allow p w of (r, x) \<Rightarrow> (r, w\<lparr>Outside := x\<rparr>)))"

text \<open>\<^verbatim>\<open>call\<close>: a tool runs on the outside and what it does is added to what has happened; a panic is an error.\<close>

definition run_tool ::
  "'x runtime \<Rightarrow> string \<Rightarrow> call \<Rightarrow> 'x world \<Rightarrow> (tool_result \<times> err option) \<times> 'x world" where
  "run_tool rt name c w =
     (let (r, w') = Tools rt name c (w\<lparr>Tree := [], Trace := []\<rparr>) in
      ((case r of Returned res e \<Rightarrow> (res, e) | Panicked \<Rightarrow> (no_result, Some (EPanic name))),
       w\<lparr>Trace := Trace w @ [Ran name c] @ Trace w', Outside := Outside w', Ambient := Ambient w'\<rparr>))"

text \<open>A panicked tool returned no usage: its step's meter keeps what was recorded.\<close>

definition keep_metered :: "tool_result \<Rightarrow> err option \<Rightarrow> meter option \<Rightarrow> tool_result" where
  "keep_metered res e m = (case (e, m) of
     (Some err, Some m0) \<Rightarrow>
        if is_panic err \<and> (uCalls (mSpent m0) > uCalls (Usage res) \<or> uUSD (mSpent m0) > uUSD (Usage res))
        then res\<lparr>Usage := mSpent m0\<rparr> else res
   | _ \<Rightarrow> res)"

definition check_output :: "'x runtime \<Rightarrow> entry \<Rightarrow> string \<Rightarrow> tool_result \<Rightarrow> err option \<Rightarrow> err option" where
  "check_output rt e name res err = (case err of
     Some x \<Rightarrow> Some x
   | None \<Rightarrow> map_option (\<lambda>v. EToolOutput (name @ '': '' @ FmtInvalid rt v)) (ValidateOutput (eOut e) (Output res)))"

definition tool_step :: "int \<Rightarrow> string \<Rightarrow> raw_message \<Rightarrow> step" where
  "tool_step n name input = \<lparr>N = n, sKind = ToolCallStep, sTool = name, Status = Started, sInput = input,
     sOutput = NoOutput, Grant = no_grant, sUsage = no_usage, Note = [], sModel = [], sFinal = False\<rparr>"

definition start_step :: "'x runtime \<Rightarrow> step \<Rightarrow> 'x world \<Rightarrow> err option \<times> 'x world" where
  "start_step rt st w = (if N st > 0 then record_step rt st w else (None, w))"

text \<open>
  From a started step on: the tool, its charge, and the check of its output.  A journaled
  step has a meter of its own while its tool runs.
\<close>

definition new_meter :: "step \<Rightarrow> meter" where
  "new_meter st = \<lparr>mStep = st, mSpent = no_usage, mHeld = no_grant\<rparr>"

definition run_granted ::
  "'x runtime \<Rightarrow> entry \<Rightarrow> call \<Rightarrow> string \<Rightarrow> raw_message \<Rightarrow> nat \<Rightarrow> step \<Rightarrow> 'x world \<Rightarrow>
   (tool_result \<times> err option) \<times> 'x world" where
  "run_granted rt e c name input g st w =
     (let w0 = (if N st > 0 then w\<lparr>Ambient := Some (new_meter st)\<rparr> else w);
          ((res0, err), w1) = run_tool rt name (c\<lparr>cInput := input, cBudget := Value (Tree w) g\<rparr>) w0;
          res = (if N st > 0 then keep_metered res0 err (Ambient w1) else res0);
          w2 = (if N st > 0 then w1\<lparr>Ambient := Ambient w\<rparr> else w1)
      in ((res, check_output rt e name res err), w2\<lparr>Tree := Close (Charge (Tree w2) g (Usage res)) g\<rparr>))"

definition add_usage :: "tool_result \<Rightarrow> usage \<Rightarrow> tool_result" where
  "add_usage res u = res\<lparr>Usage := usage_add (Usage res) u\<rparr>"

text \<open>\<^verbatim>\<open>Hooks.After\<close>: an answer it withholds reaches neither the caller nor the step log.\<close>

definition after_hooks ::
  "'x runtime \<Rightarrow> pending \<Rightarrow> usage \<Rightarrow> (tool_result \<times> err option) \<times> 'x world \<Rightarrow> (tool_result \<times> err option) \<times> 'x world" where
  "after_hooks rt p hooked r = (case Hooks rt of
     None \<Rightarrow> r
   | Some h \<Rightarrow> (case r of ((res, was), w) \<Rightarrow>
       (let ((u, err), w1) = After h p res was w;
            res1 = (if err \<noteq> None \<and> was = None then res\<lparr>Output := None, rFinal := False\<rparr> else res)
        in ((add_usage res1 (usage_add hooked u), err), w1))))"

definition no_fund_next :: "call \<Rightarrow> string" where
  "no_fund_next c = (if cDepth c = 0 then ''call finish to end the run with what you have''
                     else ''answer now with what you have'')"

definition granted_step :: "step \<Rightarrow> grant \<Rightarrow> step" where
  "granted_step st v = (if N st > 0 then st\<lparr>Grant := v\<rparr> else st)"

text \<open>
  A call the policy and the hooks let through: a grant, the run, and the hooks after it.  The
  second part of the result is the step with the grant it was given, for its last record.
\<close>

definition invoke_funded ::
  "'x runtime \<Rightarrow> agent \<Rightarrow> call \<Rightarrow> entry \<Rightarrow> string \<Rightarrow> raw_message \<Rightarrow> nat \<Rightarrow> step \<Rightarrow> usage \<Rightarrow> 'x world \<Rightarrow>
   ((tool_result \<times> err option) \<times> step) \<times> 'x world" where
  "invoke_funded rt a c e name input b st hooked w =
     (case take_grant (Tree w) b (MaxTurns (eSpec e)) (-1) (Level (eSpec e)) of
        Inl why \<Rightarrow>
          (((add_usage no_result hooked,
             Some (ERefused (refuse ErrBudgetKind (no_fund_next c) [err_text (FmtUSD rt) (EBudget why)]))), st), w)
      | Inr (t, g) \<Rightarrow>
         (let st1 = granted_step st (Value t g);
              (je, w1) = start_step rt st1 (w\<lparr>Tree := t\<rparr>)
          in case je of
               Some x \<Rightarrow> (((add_usage no_result hooked, Some (EJournal x)), st1), w1\<lparr>Tree := Close (Tree w1) g\<rparr>)
             | None \<Rightarrow>
                (let (r, w2) = after_hooks rt (pending_of c a (eSpec e) input b) hooked
                                 (run_granted rt e c name input g st1 w1)
                 in ((r, st1), w2))))"

definition invoke_allowed ::
  "'x runtime \<Rightarrow> agent \<Rightarrow> call \<Rightarrow> entry \<Rightarrow> string \<Rightarrow> raw_message \<Rightarrow> nat \<Rightarrow> step \<Rightarrow> 'x world \<Rightarrow>
   ((tool_result \<times> err option) \<times> step) \<times> 'x world" where
  "invoke_allowed rt a c e name input b st w =
     (let p = pending_of c a (eSpec e) input b; (refused, w1) = ask_policy rt p w in
      case refused of
        Some r \<Rightarrow> (((no_result, Some (ERefused r)), st), w1)
      | None \<Rightarrow>
         (case Hooks rt of
            None \<Rightarrow> invoke_funded rt a c e name input b st no_usage w1
          | Some h \<Rightarrow>
             (let ((r, u, herr), w2) = Before h p w1 in
              case herr of
                Some x \<Rightarrow> (((no_result\<lparr>Usage := u\<rparr>, Some x), st), w2)
              | None \<Rightarrow>
                 (case r of
                    Some r' \<Rightarrow> (((no_result\<lparr>Usage := u\<rparr>, Some (ERefused r')), st), w2)
                  | None \<Rightarrow> invoke_funded rt a c e name input b st u w2))))"

definition invoke_body ::
  "'x runtime \<Rightarrow> agent \<Rightarrow> call \<Rightarrow> string \<Rightarrow> raw_message \<Rightarrow> nat \<Rightarrow> bool \<Rightarrow> step \<Rightarrow> 'x world \<Rightarrow>
   ((tool_result \<times> err option) \<times> step) \<times> 'x world" where
  "invoke_body rt a c name input b alone st w =
     (case invoke_gate rt a c name input alone of
        Inl r \<Rightarrow> (((no_result, Some (ERefused r)), st), w)
      | Inr e \<Rightarrow> invoke_allowed rt a c e name input b st w)"

text \<open>What is deferred to the end of every call: the bandit's record and the step's last record.\<close>

definition learn :: "'x runtime \<Rightarrow> string \<Rightarrow> tool_result \<Rightarrow> err option \<Rightarrow> 'x world \<Rightarrow> 'x world" where
  "learn rt name res err w =
     (if reg_get (Reg rt) name = None then w
      else (let reward = (if err = None then (case Reward res of None \<Rightarrow> 1 | Some r \<Rightarrow> r) else 0);
                k = \<lparr>armTool = name, armModel = rModel res\<rparr>
            in happens (Learned k reward (err \<noteq> None) (Usage res))
                 (w\<lparr>Outside := BanditRecord rt k reward (err \<noteq> None) (Usage res) (Outside w)\<rparr>)))"

definition ended_step :: "'x runtime \<Rightarrow> step \<Rightarrow> tool_result \<Rightarrow> err option \<Rightarrow> step" where
  "ended_step rt st res err =
     (let st1 = st\<lparr>Status := Committed, sOutput := ToolOut (Output res), sUsage := Usage res,
                   sModel := rModel res, sFinal := (rFinal res \<and> err = None)\<rparr> in
      case err of
        None \<Rightarrow> st1
      | Some e \<Rightarrow> if as_refusal e \<noteq> None then st1\<lparr>Status := Refused, Note := err_text (FmtUSD rt) e\<rparr>
                  else st1\<lparr>Status := Failed, Note := shown (FmtUSD rt) e\<rparr>)"

definition end_step ::
  "'x runtime \<Rightarrow> step \<Rightarrow> tool_result \<Rightarrow> err option \<Rightarrow> 'x world \<Rightarrow> (tool_result \<times> err option) \<times> 'x world" where
  "end_step rt st res err w =
     (if N st \<le> 0 then ((res, err), w)
      else if (case err of Some e \<Rightarrow> is_canceled e | None \<Rightarrow> False)
      then (if Grant st = no_grant then ((res, err), w)
            else (let (_, w1) = record_step rt (st\<lparr>Grant := \<lparr>Calls = uCalls (Usage res), USD = uUSD (Usage res)\<rparr>\<rparr>) w
                  in ((res, err), w1)))
      else (let (je, w1) = record_step rt (ended_step rt st res err) w in
            case je of None \<Rightarrow> ((res, err), w1) | Some x \<Rightarrow> ((res, Some (EJournal x)), w1)))"

definition Invoke ::
  "'x runtime \<Rightarrow> agent \<Rightarrow> call \<Rightarrow> string \<Rightarrow> raw_message \<Rightarrow> nat \<Rightarrow> bool \<Rightarrow> int \<Rightarrow> 'x world \<Rightarrow>
   (tool_result \<times> err option) \<times> 'x world" where
  "Invoke rt a c name input b alone n w =
     (let (((res, err), st), w1) = invoke_body rt a c name input b alone (tool_step n name input) w
      in end_step rt st res err (learn rt name res err w1))"

end
