(* ===== verification/Spending.thy ===== *)
theory Spending
  imports Runtime
begin

text \<open>
  What spending from a budget means to the code that does it, as an interface: a relation between
  the ledger before and after, that holds when nothing is spent, composes, and holds of a grant that
  is charged and closed.  The runtime's model calls, tool calls and loops are proved once against it
  and used twice: for the ledger paying exactly what is reported (\<open>costs\<close>), and for a budget never
  being overdrawn when every call stays within what it was granted (\<open>pays\<close>).
\<close>

section \<open>The interface\<close>

locale spending =
  fixes R :: "nat \<Rightarrow> usage \<Rightarrow> tree \<Rightarrow> tree \<Rightarrow> bool"
    and fits :: "grant \<Rightarrow> usage \<Rightarrow> bool"
  assumes R_ok: "R b u t t' \<Longrightarrow> ledger_ok t' b"
    and R_none: "ledger_ok t b \<Longrightarrow> R b no_usage t t"
    and R_trans: "R b u t t' \<Longrightarrow> R b v t' t'' \<Longrightarrow> R b (usage_add u v) t t''"
    and R_aborted: "ledger_ok t b \<Longrightarrow> 0 \<le> n \<Longrightarrow> take_grant t b n w l = Inr (t', g) \<Longrightarrow> R b no_usage t (Close t' g)"
    and R_cycle: "ledger_ok t b \<Longrightarrow> 0 \<le> n \<Longrightarrow> take_grant t b n w l = Inr (t', g) \<Longrightarrow> usage_nonneg u \<Longrightarrow>
      fits (Value t' g) u \<Longrightarrow> R b u t (Close (Charge t' g u) g)"
    and fits_none: "0 \<le> Calls k \<Longrightarrow> 0 \<le> USD k \<Longrightarrow> fits k no_usage"
begin

lemma R_after: "R b u t t' \<Longrightarrow> ledger_ok t' b \<Longrightarrow> (\<And>t. ledger_ok t b \<Longrightarrow> R b v t (f t)) \<Longrightarrow> R b (usage_add u v) t (f t')"
  using R_trans by blast

lemma R_spent: "R b u t t' \<Longrightarrow> take_grant t' b n w l = Inr (t2, g) \<Longrightarrow> 0 \<le> n \<Longrightarrow> usage_nonneg v \<Longrightarrow>
  fits (Value t2 g) v \<Longrightarrow> R b (usage_add u v) t (Close (Charge t2 g v) g)"
  using R_trans R_cycle R_ok by blast

lemma R_gave_up: "R b u t t' \<Longrightarrow> take_grant t' b n w l = Inr (t2, g) \<Longrightarrow> 0 \<le> n \<Longrightarrow> R b u t (Close t2 g)"
  using R_trans [of b u t t' no_usage] R_aborted R_ok by fastforce

end

section \<open>The ledger pays exactly what is reported\<close>

definition costs :: "nat \<Rightarrow> usage \<Rightarrow> tree \<Rightarrow> tree \<Rightarrow> bool" where
  "costs b u t t' \<longleftrightarrow> ledger_ok t' b \<and> Spent t' b = usage_add (Spent t b) u
     \<and> room_of t' b = (fst (room_of t b) - uCalls u, snd (room_of t b) - uUSD u)
     \<and> keep (t' ! b) = keep (t ! b) \<and> usage_nonneg u"

definition any_usage :: "grant \<Rightarrow> usage \<Rightarrow> bool" where
  "any_usage v u \<longleftrightarrow> True"

lemma take_grant_keep:
  assumes "take_grant t b n w l = Inr (t', g)" and "b < length t"
  shows "keep (t' ! b) = keep (t ! b)" and "length t < length t'" and "g = length t"
proof -
  obtain gr where "t' = t[b := (t ! b)\<lparr>heldCalls := heldCalls (t ! b) + calls gr,
                            heldUSD := heldUSD (t ! b) + usd gr\<rparr>] @ [gr]" and "g = length t"
    using assms(1) by (rule take_grant_InrD)
  then show "keep (t' ! b) = keep (t ! b)" and "length t < length t'" and "g = length t"
    using assms(2) by (simp_all add: nth_append)
qed

lemma costs_none: "ledger_ok t b \<Longrightarrow> costs b no_usage t t"
  by (simp add: costs_def)

lemma costs_trans: "costs b u t t' \<Longrightarrow> costs b v t' t'' \<Longrightarrow> costs b (usage_add u v) t t''"
  by (auto simp: costs_def usage_add_assoc)

lemma costs_aborted:
  assumes "ledger_ok t b" and "0 \<le> n" and "take_grant t b n w l = Inr (t', g)"
  shows "costs b no_usage t (Close t' g)"
proof -
  note opened = lg.hold_opens [OF assms]
  have ok: "ledger_ok t' g" "open_grant_of t' b g" using opened by auto
  note closed = lg.close_returns [OF ok]
  have "keep (Close t' g ! b) = keep (t ! b)"
    using Close_terms(1) [of t' g b] take_grant_keep [OF assms(3)] assms(1) ok(1)
    by (simp add: ledger_ok_def books_wf)
  then show ?thesis using opened closed by (simp add: costs_def prod_eq_iff)
qed

lemma costs_cycle:
  assumes "ledger_ok t b" and "0 \<le> n" and "take_grant t b n w l = Inr (t', g)" and "usage_nonneg u"
  shows "costs b u t (Close (Charge t' g u) g)"
proof -
  note opened = lg.hold_opens [OF assms(1-3)]
  have bk: "books t'" "g < length t'" and b: "b < length t'" using opened by (auto simp: ledger_ok_def)
  have "keep (Close (Charge t' g u) g ! b) = keep (Charge t' g u ! b)"
    using books_Charge [OF bk assms(4)] bk(2) b by (intro Close_terms(1)) (auto simp: books_wf)
  also have "\<dots> = keep (t ! b)"
    using Charge_terms [OF bk assms(4) b] take_grant_keep [OF assms(3)] assms(1)
    by (simp add: same_terms_def ledger_ok_def)
  finally show ?thesis
    unfolding costs_def prod_eq_iff fst_conv snd_conv
    using lg.cycle_inv [OF assms] lg.cycle_total [OF assms] lg.cycle_room [OF assms] assms(4) by blast
qed

interpretation ex: spending costs any_usage
proof
  show "costs b u t t' \<Longrightarrow> ledger_ok t' b" for b u t t' by (simp add: costs_def)
  show "any_usage k no_usage" for k by (simp add: any_usage_def)
qed ((fact costs_none costs_trans costs_aborted | rule costs_cycle; assumption)+)

section \<open>A budget is never overdrawn\<close>

definition solvent :: "tree \<Rightarrow> nat \<Rightarrow> bool" where
  "solvent t b \<longleftrightarrow> 0 \<le> fst (room_of t b) \<and> 0 \<le> snd (room_of t b)"

definition kept_ok :: "tree \<Rightarrow> nat \<Rightarrow> bool" where
  "kept_ok t b \<longleftrightarrow> (\<forall>k \<in> set (keep (t ! b)). 0 \<le> Calls k \<and> 0 \<le> USD k)"

definition within_grant :: "grant \<Rightarrow> usage \<Rightarrow> bool" where
  "within_grant v u \<longleftrightarrow> uCalls u \<le> Calls v \<and> uUSD u \<le> USD v"

definition pays :: "nat \<Rightarrow> usage \<Rightarrow> tree \<Rightarrow> tree \<Rightarrow> bool" where
  "pays b u t t' \<longleftrightarrow> costs b u t t' \<and> (kept_ok t b \<and> solvent t b \<longrightarrow> solvent t' b)"

lemma pays_costs: "pays b u t t' \<Longrightarrow> costs b u t t'"
  by (simp add: pays_def)

lemma kept_ok_nonneg: "kept_ok t b \<Longrightarrow> 0 \<le> kept_calls (t ! b) l \<and> 0 \<le> kept_usd (t ! b) l"
  unfolding kept_calls_def kept_usd_def kept_above_def kept_ok_def
  by (auto intro!: sum_list_map_nonneg dest: in_set_dropD)

lemma take_grant_value:
  assumes "take_grant t b n w l = Inr (t', g)"
  shows "Value t' g = \<lparr>Calls = min n (fst (free (t ! b) l)), USD = (if w < 0 then snd (free (t ! b) l) else w)\<rparr>"
    and "0 \<le> USD (Value t' g)" and "w \<le> USD (Value t' g)" and "0 \<le> n \<Longrightarrow> 0 \<le> Calls (Value t' g)"
    and "n = 1 \<Longrightarrow> Calls (Value t' g) = 1"
  using assms free_nonneg [of "t ! b" l]
  by (auto simp: take_grant_def Let_def Value_def nth_append split: prod.splits if_splits)

text \<open>What is granted is there: a charge within the grant leaves the holder solvent.\<close>

lemma grant_affords:
  assumes "take_grant t b n w l = Inr (t', g)" and "kept_ok t b" and "solvent t b" and "within_grant (Value t' g) u"
    and "usage_nonneg u"
  shows "uCalls u \<le> fst (room_of t b) \<and> uUSD u \<le> snd (room_of t b)"
proof -
  have "w \<le> snd (free (t ! b) l)" using assms(1) by (rule take_grant_InrD)
  then have "uCalls u \<le> fst (free (t ! b) l)" "uUSD u \<le> snd (free (t ! b) l)"
    using assms(4) by (auto simp: within_grant_def take_grant_value(1) [OF assms(1)] split: if_splits)
  then show ?thesis
    using kept_ok_nonneg [OF assms(2), of l] assms(3)
    by (auto simp: free_eq room_of_def solvent_def max_def split: if_splits)
qed

lemma pays_trans: "pays b u t t' \<Longrightarrow> pays b v t' t'' \<Longrightarrow> pays b (usage_add u v) t t''"
  using costs_trans [of b u t t' v t''] by (auto simp: pays_def costs_def kept_ok_def)

lemma pays_cycle:
  assumes "ledger_ok t b" and "0 \<le> n" and "take_grant t b n w l = Inr (t', g)" and "usage_nonneg u"
    and "within_grant (Value t' g) u"
  shows "pays b u t (Close (Charge t' g u) g)"
  using costs_cycle [OF assms(1-4)] grant_affords [OF assms(3) _ _ assms(5,4)]
  by (auto simp: pays_def costs_def solvent_def)

lemma pays_aborted:
  assumes "ledger_ok t b" and "0 \<le> n" and "take_grant t b n w l = Inr (t', g)"
  shows "pays b no_usage t (Close t' g)"
  using costs_aborted [OF assms] by (auto simp: pays_def costs_def solvent_def)

lemma pays_none: "ledger_ok t b \<Longrightarrow> pays b no_usage t t"
  by (simp add: pays_def costs_none)

interpretation st: spending pays within_grant
proof
  show "pays b u t t' \<Longrightarrow> ledger_ok t' b" for b u t t' by (simp add: pays_def costs_def)
  show "0 \<le> Calls v \<Longrightarrow> 0 \<le> USD v \<Longrightarrow> within_grant v no_usage" for v by (simp add: within_grant_def)
qed (fact pays_none pays_trans pays_aborted pays_cycle)+

end
