(* ===== verification/RuntimeProofs.thy ===== *)
theory RuntimeProofs
  imports Spending
begin

text \<open>
  What a model call and a tool call do: the ledger pays exactly what a call reports on every path,
  a call that succeeds passed every check, and a tool runs only after its step is in the log.
\<close>

section \<open>What leaves the ledger alone\<close>

lemma record_step_tree [simp]: "Tree (snd (record_step rt s w)) = Tree w"
  by (simp add: record_step_def happens_def split: option.splits prod.splits)

lemma record_step_treeD: "record_step rt s w = (e, w') \<Longrightarrow> Tree w' = Tree w"
  by (metis record_step_tree snd_conv)

lemma record_step_ambient: "record_step rt s w = (e, w') \<Longrightarrow> Ambient w' = Ambient w"
  by (auto simp: record_step_def happens_def split: option.splits prod.splits)

lemma note_meter_treeD: "note_meter rt u h w = (e, w') \<Longrightarrow> Tree w' = Tree w"
  by (auto simp: note_meter_def Let_def dest: record_step_treeD split: option.splits)

lemma ask_treeD: "ask rt req w = (r, w') \<Longrightarrow> Tree w' = Tree w"
  by (auto simp: ask_def happens_def split: prod.splits)

lemma learn_tree [simp]: "Tree (learn rt name res err w) = Tree w"
  by (simp add: learn_def happens_def Let_def)

lemma end_step_tree [simp]: "Tree (snd (end_step rt st res err w)) = Tree w"
  by (auto simp: end_step_def Let_def dest: record_step_treeD split: prod.splits option.splits)

lemma end_step_res: "fst (fst (end_step rt st res err w)) = res"
  by (auto simp: end_step_def Let_def split: prod.splits option.splits)

lemma start_step_treeD: "start_step rt st w = (e, w') \<Longrightarrow> Tree w' = Tree w"
  by (auto simp: start_step_def dest: record_step_treeD split: if_splits)

lemma start_step_ambient: "start_step rt st w = (e, w') \<Longrightarrow> Ambient w' = Ambient w"
  by (auto simp: start_step_def dest: record_step_ambient split: if_splits)

lemma ask_policy_treeD: "ask_policy rt p w = (r, w') \<Longrightarrow> Tree w' = Tree w"
  by (auto simp: ask_policy_def split: option.splits prod.splits)

lemma run_tool_treeD: "run_tool rt name c w = (r, w') \<Longrightarrow> Tree w' = Tree w"
  by (auto simp: run_tool_def Let_def split: prod.splits)

lemmas keeps_tree = record_step_treeD note_meter_treeD ask_treeD start_step_treeD ask_policy_treeD run_tool_treeD

text \<open>The context's meter has counted no negative spend.\<close>

definition metered :: "'x world \<Rightarrow> bool" where
  "metered w \<longleftrightarrow> (case Ambient w of Some m \<Rightarrow> usage_nonneg (mSpent m) | None \<Rightarrow> True)"

section \<open>What the runtime relies on\<close>

text \<open>
  The endpoint reports no negative usage, and what a call is charged fits what was held for it; a
  tool returns no negative usage, and what it returns fits its grant; hooks spend from the caller's
  budget and return what they spent.
\<close>

definition answers_fit :: "(grant \<Rightarrow> usage \<Rightarrow> bool) \<Rightarrow> 'x runtime \<Rightarrow> bool" where
  "answers_fit fits rt \<longleftrightarrow> (\<forall>req x v. Calls v = 1 \<and> rt_bound rt req \<le> USD v \<and> 0 \<le> USD v \<longrightarrow>
     usage_nonneg (chat_usage (fst (Chat rt req x)) v) \<and> fits v (chat_usage (fst (Chat rt req x)) v))"

definition returned_fits :: "(grant \<Rightarrow> usage \<Rightarrow> bool) \<Rightarrow> grant \<Rightarrow> tool_end \<Rightarrow> bool" where
  "returned_fits fits v r \<longleftrightarrow>
     (case r of Returned res _ \<Rightarrow> usage_nonneg (Usage res) \<and> fits v (Usage res) | Panicked \<Rightarrow> True)"

definition tools_fit :: "(grant \<Rightarrow> usage \<Rightarrow> bool) \<Rightarrow> 'x runtime \<Rightarrow> bool" where
  "tools_fit fits rt \<longleftrightarrow> (\<forall>name c w. metered w \<and> 0 \<le> Calls (cBudget c) \<and> 0 \<le> USD (cBudget c) \<longrightarrow>
     (case Tools rt name c w of (r, w') \<Rightarrow> returned_fits fits (cBudget c) r \<and> metered w'))"

definition meters_fit :: "(grant \<Rightarrow> usage \<Rightarrow> bool) \<Rightarrow> 'x runtime \<Rightarrow> bool" where
  "meters_fit fits rt \<longleftrightarrow> (\<forall>name c w st. Ambient w = Some (new_meter st) \<longrightarrow>
     (case Ambient (snd (Tools rt name c w)) of Some m \<Rightarrow> fits (cBudget c) (mSpent m) | None \<Rightarrow> True))"

definition hooks_spend :: "(nat \<Rightarrow> usage \<Rightarrow> tree \<Rightarrow> tree \<Rightarrow> bool) \<Rightarrow> 'x runtime \<Rightarrow> bool" where
  "hooks_spend R rt \<longleftrightarrow> (\<forall>h. Hooks rt = Some h \<longrightarrow>
     (\<forall>p w. ledger_ok (Tree w) (pBudget p) \<longrightarrow>
        (case Before h p w of ((_, u, _), w') \<Rightarrow> R (pBudget p) u (Tree w) (Tree w') \<and> (metered w \<longrightarrow> metered w'))) \<and>
     (\<forall>p res e w. ledger_ok (Tree w) (pBudget p) \<longrightarrow>
        (case After h p res e w of ((u, _), w') \<Rightarrow> R (pBudget p) u (Tree w) (Tree w') \<and> (metered w \<longrightarrow> metered w'))))"

lemma metered_same: "Ambient w' = Ambient w \<Longrightarrow> metered w' = metered w"
  by (simp add: metered_def)

lemma note_meter_metered: "usage_nonneg u \<Longrightarrow> metered w \<Longrightarrow> note_meter rt u h w = (e, w') \<Longrightarrow> metered w'"
  by (auto simp: note_meter_def Let_def metered_def meter_add_def split: option.splits dest!: record_step_ambient)

lemma ask_result: "ask rt req w = (r, w') \<Longrightarrow> r = fst (Chat rt req (Outside w)) \<and> Ambient w' = Ambient w"
  by (auto simp: ask_def happens_def split: prod.splits)

section \<open>Model calls and tool calls over the interface\<close>

context spending
begin

lemma chat_held_spends:
  assumes "answers_fit fits rt" and "R b u0 t (Tree w0)"
    and g: "take_grant (Tree w0) b 1 (rt_bound rt req) LevelWork = Inr (t1, g)"
    and h: "chat_held rt req g (w0\<lparr>Tree := t1\<rparr>) = ((r, u), w')"
  shows "R b (usage_add u0 u) t (Tree w') \<and> (metered w0 \<longrightarrow> metered w')"
proof -
  define worst where "worst = \<lparr>Calls = 1, USD = USD (Value (Tree (w0\<lparr>Tree := t1\<rparr>)) g)\<rparr>"
  note v = take_grant_value [OF g]
  have worst: "Calls worst = 1" "USD worst = USD (Value t1 g)" "worst = Value t1 g"
    using v(5) by (simp_all add: worst_def)
  obtain ne w1 where n: "note_meter rt no_usage worst (w0\<lparr>Tree := t1\<rparr>) = (ne, w1)" by fastforce
  have t1: "Tree w1 = t1" using note_meter_treeD [OF n] by simp
  have m1: "metered w0 \<longrightarrow> metered w1" using note_meter_metered [OF _ _ n] by (auto simp: metered_def)
  show ?thesis
  proof (cases ne)
    case (Some e)
    then have "u = no_usage" "Tree w' = Close t1 g" "Ambient w' = Ambient w1"
      using h unfolding chat_held_def Let_def worst_def [symmetric] n prod.case Some option.case
      by (auto simp: t1)
    then show ?thesis using R_gave_up [OF assms(2) g] m1 by (simp add: metered_def)
  next
    case None
    obtain q w2 where a: "ask rt req w1 = (q, w2)" by fastforce
    define v where "v = chat_usage q worst"
    obtain e4 w4 where n4: "note_meter rt v \<lparr>Calls = - Calls worst, USD = - USD worst\<rparr>
        (w2\<lparr>Tree := Charge (Tree w2) g v\<rparr>) = (e4, w4)" by fastforce
    have "chat_held rt req g (w0\<lparr>Tree := t1\<rparr>) = ((q, v), w4\<lparr>Tree := Close (Tree w4) g\<rparr>)"
      unfolding chat_held_def Let_def worst_def [symmetric] n prod.case None option.case a
        v_def [symmetric] n4 by (rule refl)
    moreover have "Tree w4 = Charge t1 g v"
      using note_meter_treeD [OF n4] ask_treeD [OF a] t1 by simp
    ultimately have res: "u = v" "Tree w' = Close (Charge t1 g v) g" "Ambient w' = Ambient w4" using h by auto
    have nf: "usage_nonneg v \<and> fits (Value t1 g) v"
      using assms(1) ask_result [OF a] worst v(2,3) take_grant_value(2,3) [OF g]
      unfolding answers_fit_def v_def by (metis worst(3))
    have "R b (usage_add u0 v) t (Close (Charge t1 g v) g)"
      using nf by (intro R_spent [OF assms(2) g]) auto
    moreover have "metered w1 \<longrightarrow> metered w4"
      using note_meter_metered [OF _ _ n4] nf ask_result [OF a] by (auto simp: metered_def)
    ultimately show ?thesis using res m1 by (simp add: metered_def)
  qed
qed

lemma ChatWithin_spends:
  assumes "answers_fit fits rt" and "R b u0 t (Tree w)" and "ChatWithin rt req b w = ((r, u), w')"
  shows "R b (usage_add u0 u) t (Tree w') \<and> (metered w \<longrightarrow> metered w')"
proof (cases "request_model rt req")
  case (Inl e)
  then show ?thesis using assms(2,3) by (simp add: ChatWithin_def)
next
  case (Inr req')
  show ?thesis
  proof (cases "take_grant (Tree w) b 1 (rt_bound rt req') LevelWork")
    case (Inl why)
    then show ?thesis using assms(2,3) Inr by (simp add: ChatWithin_def)
  next
    case tg: (Inr tg)
    obtain t1 g where g: "take_grant (Tree w) b 1 (rt_bound rt req') LevelWork = Inr (t1, g)"
      using tg by (cases tg) auto
    then have "chat_held rt req' g (w\<lparr>Tree := t1\<rparr>) = ((r, u), w')" using assms(3) Inr by (simp add: ChatWithin_def)
    then show ?thesis by (rule chat_held_spends [OF assms(1,2) g])
  qed
qed

lemma run_tool_fits:
  assumes "tools_fit fits rt" and "metered w" and "run_tool rt name c w = ((res, err), w')"
    and "0 \<le> Calls (cBudget c)" and "0 \<le> USD (cBudget c)"
  shows "usage_nonneg (Usage res) \<and> fits (cBudget c) (Usage res) \<and> metered w'"
proof -
  define w0 where "w0 = w\<lparr>Tree := [], Trace := []\<rparr>"
  obtain r w2 where t: "Tools rt name c w0 = (r, w2)" by fastforce
  have "metered w0" using assms(2) by (simp add: w0_def metered_def)
  then have "returned_fits fits (cBudget c) r \<and> metered w2"
    using assms(1,4,5) t unfolding tools_fit_def by (metis (no_types, lifting) old.prod.case)
  moreover have "Ambient w' = Ambient w2" "(case r of Returned q e \<Rightarrow> res = q | Panicked \<Rightarrow> res = no_result)"
    using assms(3) t by (auto simp: run_tool_def Let_def w0_def split: tool_end.splits)
  ultimately show ?thesis using fits_none [OF assms(4,5)]
    by (cases r) (auto simp: returned_fits_def metered_def no_result_def)
qed

lemma keep_metered_usage: "Usage (keep_metered res e m) = Usage res
    \<or> (\<exists>m0. m = Some m0 \<and> Usage (keep_metered res e m) = mSpent m0)"
  by (auto simp: keep_metered_def split: option.splits)

lemma run_tool_meter:
  assumes "meters_fit fits rt" and "Ambient w = Some (new_meter st)" and "run_tool rt name c w = (r, w')"
    and "Ambient w' = Some m"
  shows "fits (cBudget c) (mSpent m)"
proof -
  have "Ambient (snd (Tools rt name c (w\<lparr>Tree := [], Trace := []\<rparr>))) = Some m"
    using assms(3,4) by (auto simp: run_tool_def Let_def split: prod.splits)
  moreover have "Ambient (w\<lparr>Tree := [], Trace := []\<rparr>) = Some (new_meter st)" using assms(2) by simp
  ultimately show ?thesis using assms(1) unfolding meters_fit_def by (metis (no_types, lifting) option.case(2))
qed

lemma run_granted_spends:
  assumes "tools_fit fits rt" and mf: "0 < N st \<longrightarrow> meters_fit fits rt" and "R b u0 t t0" and "0 \<le> n" and "metered w"
    and g: "take_grant t0 b n q l = Inr (Tree w, g)"
    and r: "run_granted rt e c name input g st w = ((res, err), w')"
  shows "R b (usage_add u0 (Usage res)) t (Tree w') \<and> metered w'"
proof -
  define w0 where "w0 = (if N st > 0 then w\<lparr>Ambient := Some (new_meter st)\<rparr> else w)"
  define cc where "cc = c\<lparr>cInput := input, cBudget := Value (Tree w) g\<rparr>"
  obtain res0 err0 w1 where rt: "run_tool rt name cc w0 = ((res0, err0), w1)" by (metis prod.exhaust)
  have t1: "Tree w1 = Tree w" using run_tool_treeD [OF rt] by (simp add: w0_def)
  have v: "0 \<le> Calls (cBudget cc)" "0 \<le> USD (cBudget cc)"
    using take_grant_value(2,4) [OF g] assms(4) by (simp_all add: cc_def)
  have "metered w0" using assms(5) by (simp add: w0_def metered_def new_meter_def)
  then have fit: "usage_nonneg (Usage res0)" "fits (Value (Tree w) g) (Usage res0)" "metered w1"
    using run_tool_fits [OF assms(1) _ rt v] by (simp_all add: cc_def)
  have res: "res = (if N st > 0 then keep_metered res0 err0 (Ambient w1) else res0)"
    and w': "Tree w' = Close (Charge (Tree w) g (Usage res)) g" "Ambient w' = (if N st > 0 then Ambient w else Ambient w1)"
    using r by (auto simp: run_granted_def Let_def t1 rt simp flip: w0_def cc_def)
  have "usage_nonneg (Usage res) \<and> fits (Value (Tree w) g) (Usage res)"
  proof (cases "N st > 0")
    case True
    then have "fits (Value (Tree w) g) (mSpent m)" if "Ambient w1 = Some m" for m
      using run_tool_meter [OF _ _ rt that] mf by (simp add: w0_def cc_def)
    then show ?thesis
      using True fit keep_metered_usage [of res0 err0 "Ambient w1"] by (auto simp: res metered_def)
  next
    case False
    then show ?thesis using fit by (simp add: res)
  qed
  then show ?thesis using R_spent [OF assms(3) g assms(4)] w' fit(3) assms(5) by (simp add: metered_def)
qed

lemma no_result_usage [simp]: "Usage no_result = no_usage"
  by (simp add: no_result_def)

lemma add_usage_usage [simp]: "Usage (add_usage res u) = usage_add (Usage res) u"
  by (simp add: add_usage_def)

lemma after_hooks_spends:
  assumes "hooks_spend R rt" and "R (pBudget p) u0 t (Tree w)" and "metered w"
    and "u0 = usage_add hooked (Usage res0)" and "Hooks rt = None \<longrightarrow> hooked = no_usage"
    and "after_hooks rt p hooked ((res0, was), w) = ((res, err), w')"
  shows "R (pBudget p) (Usage res) t (Tree w') \<and> metered w'"
proof (cases "Hooks rt")
  case None
  then show ?thesis using assms by (simp add: after_hooks_def)
next
  case (Some h)
  obtain u err1 w1 where a: "After h p res0 was w = ((u, err1), w1)" by (metis prod.exhaust)
  have "R (pBudget p) u (Tree w) (Tree w1) \<and> metered w1"
    using assms(1,3) a Some R_ok [OF assms(2)] unfolding hooks_spend_def by (metis (no_types, lifting) old.prod.case)
  then have "R (pBudget p) (usage_add u0 u) t (Tree w1) \<and> metered w1" using R_trans [OF assms(2)] by blast
  moreover have "w' = w1" "Usage res = usage_add (Usage res0) (usage_add hooked u)"
    using assms(6) Some a by (auto simp: after_hooks_def Let_def add_usage_def)
  ultimately show ?thesis using assms(4) by (simp add: usage_add_def ac_simps)
qed

lemma invoke_funded_spends:
  assumes "tools_fit fits rt" and "0 < N st \<longrightarrow> meters_fit fits rt" and "hooks_spend R rt"
    and "R b hooked t (Tree w)" and "0 \<le> MaxTurns (eSpec e)" and "Hooks rt = None \<longrightarrow> hooked = no_usage" and "metered w"
    and i: "invoke_funded rt a c e name input b st hooked w = (((res, err), st'), w')"
  shows "R b (Usage res) t (Tree w') \<and> metered w'"
proof (cases "take_grant (Tree w) b (MaxTurns (eSpec e)) (-1) (Level (eSpec e))")
  case (Inl why)
  then show ?thesis using assms(4,7) i by (auto simp: invoke_funded_def)
next
  case (Inr tg)
  obtain t1 g where g: "take_grant (Tree w) b (MaxTurns (eSpec e)) (-1) (Level (eSpec e)) = Inr (t1, g)"
    using Inr by (cases tg) auto
  define st1 where "st1 = granted_step st (Value t1 g)"
  have n1: "N st1 = N st" by (simp add: st1_def granted_step_def)
  obtain je w1 where s: "start_step rt st1 (w\<lparr>Tree := t1\<rparr>) = (je, w1)" by fastforce
  have t1: "Tree w1 = t1" and m1: "metered w1"
    using start_step_treeD [OF s] start_step_ambient [OF s] assms(7) by (simp_all add: metered_def)
  define p where "p = pending_of c a (eSpec e) input b"
  have pb: "pBudget p = b" by (simp add: p_def pending_of_def)
  note unf = invoke_funded_def g sum.case prod.case Let_def st1_def [symmetric] s p_def [symmetric]
  show ?thesis
  proof (cases je)
    case (Some x)
    then have "res = add_usage no_result hooked" "Tree w' = Close t1 g" "Ambient w' = Ambient w1"
      using i by (auto simp: unf t1)
    then show ?thesis using R_gave_up [OF assms(4) g assms(5)] m1 by (simp add: metered_def)
  next
    case None
    obtain res0 was w2 where r: "run_granted rt e c name input g st1 w1 = ((res0, was), w2)" by (metis prod.exhaust)
    have gt: "take_grant (Tree w) b (MaxTurns (eSpec e)) (-1) (Level (eSpec e)) = Inr (Tree w1, g)" using g t1 by simp
    have "R b (usage_add hooked (Usage res0)) t (Tree w2) \<and> metered w2"
      by (rule run_granted_spends [OF assms(1) _ assms(4,5) m1 gt r]) (simp add: n1 assms(2))
    moreover have "after_hooks rt p hooked ((res0, was), w2) = ((res, err), w')"
      using i by (auto simp: unf None r split: prod.splits)
    ultimately show ?thesis using assms(6)
        after_hooks_spends [OF assms(3), of p "usage_add hooked (Usage res0)" t w2 hooked res0 was res err w']
      by (simp add: pb)
  qed
qed

lemma invoke_body_spends:
  assumes "tools_fit fits rt" and "0 < N st \<longrightarrow> meters_fit fits rt" and "hooks_spend R rt"
    and "registered decode (Reg rt)" and "R b u0 t (Tree w)" and "metered w"
    and i: "invoke_body rt a c name input b alone st w = (((res, err), st'), w')"
  shows "R b (usage_add u0 (Usage res)) t (Tree w') \<and> metered w'"
proof (cases "invoke_gate rt a c name input alone")
  case (Inl r)
  then show ?thesis using assms(5,6) i by (auto simp: invoke_body_def)
next
  case (Inr e)
  have turns: "0 \<le> MaxTurns (eSpec e)"
    using registered_ok [OF assms(4)] Inr
    by (auto simp: invoke_gate_def reg_ok_def entry_ok_def split: option.splits if_splits)
  define p where "p = pending_of c a (eSpec e) input b"
  have pb: "pBudget p = b" by (simp add: p_def pending_of_def)
  obtain refused w1 where ap: "ask_policy rt p w = (refused, w1)" by fastforce
  have t1: "Tree w1 = Tree w" "metered w1"
    using ask_policy_treeD [OF ap] assms(6) ap
    by (auto simp: ask_policy_def metered_def split: option.splits prod.splits)
  note body = invoke_body_def invoke_allowed_def Inr sum.case Let_def p_def [symmetric] ap prod.case
  note ok = R_ok [OF assms(5)]
  have last: "R b (usage_add u0 (Usage res)) t (Tree w') \<and> metered w'"
    if "R b u (Tree w) (Tree w2)" "metered w2" "Hooks rt = None \<longrightarrow> u = no_usage"
      "invoke_funded rt a c e name input b st u w2 = (((res, err), st'), w')" for u w2
    using invoke_funded_spends [OF assms(1-3) that(1) turns that(3,2,4)] R_trans [OF assms(5)] by blast
  show ?thesis
  proof (cases "refused = None")
    case False
    then show ?thesis using assms(5) i t1 by (auto simp: body)
  next
    case True
    show ?thesis
    proof (cases "Hooks rt")
      case None
      then show ?thesis using last [of no_usage w1] R_none [OF ok] i True t1 by (simp add: body)
    next
      case (Some h)
      obtain r u herr w2 where bf: "Before h p w1 = ((r, u, herr), w2)" by (metis prod.exhaust)
      have "ledger_ok (Tree w1) (pBudget p)" using ok by (simp add: t1 pb)
      then have u: "R b u (Tree w) (Tree w2) \<and> metered w2"
        using assms(3) bf Some t1 pb unfolding hooks_spend_def by (metis (no_types, lifting) old.prod.case)
      then have u2: "R b (usage_add u0 u) t (Tree w2)" using R_trans [OF assms(5)] by blast
      show ?thesis
        using last [of u w2] u u2 i True Some by (cases herr; cases r) (auto simp: body bf)
    qed
  qed
qed

lemma Invoke_spends:
  assumes "tools_fit fits rt" and "0 < n \<longrightarrow> meters_fit fits rt" and "hooks_spend R rt"
    and "registered decode (Reg rt)" and "R b u0 t (Tree w)" and "metered w"
    and "Invoke rt a c name input b alone n w = ((res, err), w')"
  shows "R b (usage_add u0 (Usage res)) t (Tree w') \<and> metered w'"
proof -
  obtain res1 err1 st w1 where body:
    "invoke_body rt a c name input b alone (tool_step n name input) w = (((res1, err1), st), w1)"
    by (metis prod.exhaust)
  have "R b (usage_add u0 (Usage res1)) t (Tree w1) \<and> metered w1"
    using invoke_body_spends [OF assms(1) _ assms(3-6) body] assms(2) by (simp add: tool_step_def)
  moreover have e: "end_step rt st res1 err1 (learn rt name res1 err1 w1) = ((res, err), w')"
    using assms(7) by (simp add: Invoke_def body)
  moreover have "Ambient w' = Ambient w1"
    using e by (auto simp: end_step_def learn_def happens_def Let_def dest!: record_step_ambient split: if_splits prod.splits option.splits)
  ultimately show ?thesis
    using end_step_tree [of rt st res1 err1 "learn rt name res1 err1 w1"]
      end_step_res [of rt st res1 err1 "learn rt name res1 err1 w1"] by (simp add: metered_def)
qed

end

section \<open>The two readings\<close>

text \<open>What the endpoint reports is not negative: tokens, and a price of at least nothing.\<close>

definition answers_nonneg :: "'x runtime \<Rightarrow> bool" where
  "answers_nonneg rt \<longleftrightarrow> (\<forall>req x. case fst (Chat rt req x) of
     Inl e \<Rightarrow> usage_nonneg (ModelUsage (Some e) None)
   | Inr r \<Rightarrow> usage_nonneg (ModelUsage None (Some r)))"

text \<open>A call costs at most what it was bounded to.\<close>

definition answers_within :: "'x runtime \<Rightarrow> bool" where
  "answers_within rt \<longleftrightarrow> (\<forall>req x. case fst (Chat rt req x) of
     Inl e \<Rightarrow> uUSD (ModelUsage (Some e) None) \<le> rt_bound rt req
   | Inr r \<Rightarrow> uUSD (ModelUsage None (Some r)) \<le> rt_bound rt req)"

lemma chat_usage_nonneg:
  assumes "answers_nonneg rt" and "0 \<le> USD v"
  shows "usage_nonneg (chat_usage (fst (Chat rt req x)) v)"
  using assms unfolding answers_nonneg_def
  by (cases "fst (Chat rt req x)")
    (auto simp: chat_usage_def usage_nonneg_def Let_def dest!: spec [of _ req] spec [of _ x])

lemma answers_fit_any: "answers_nonneg rt \<Longrightarrow> answers_fit any_usage rt"
  by (simp add: answers_fit_def any_usage_def chat_usage_nonneg)

lemma answers_fit_within:
  assumes "answers_nonneg rt" and "answers_within rt"
  shows "answers_fit within_grant rt"
  unfolding answers_fit_def
proof (intro allI impI conjI)
  fix req x and v :: grant
  assume v: "Calls v = 1 \<and> rt_bound rt req \<le> USD v \<and> 0 \<le> USD v"
  then show "usage_nonneg (chat_usage (fst (Chat rt req x)) v)" using chat_usage_nonneg [OF assms(1)] by blast
  have calls: "uCalls (ModelUsage e q) \<le> 1" for e q using ModelUsage_calls [of e q] by auto
  show "within_grant v (chat_usage (fst (Chat rt req x)) v)"
    using assms(2) v calls unfolding answers_within_def
    by (cases "fst (Chat rt req x)")
      (force simp: chat_usage_def Let_def within_grant_def dest!: spec [of _ req] spec [of _ x])+
qed

text \<open>
  A model call is paid for exactly: whatever the endpoint does, the budget the call runs in has
  spent what the call returned as its usage, a call that could not be held or recorded costs nothing,
  and the worst case held for it is given back.
\<close>

theorem ChatWithin_costs:
  assumes "answers_nonneg rt" and "ledger_ok (Tree w) b" and "ChatWithin rt req b w = ((r, u), w')"
  shows "costs b u (Tree w) (Tree w')"
  using ex.ChatWithin_spends [OF answers_fit_any [OF assms(1)] costs_none [OF assms(2)] assms(3)] by simp

definition demo_answer :: response where
  "demo_answer = \<lparr>respText = ''yes'', respCalls = [], respTruncated = False,
     respUsage = demo_model_usage\<lparr>CostUSD := Some (1 / 100)\<rparr>\<rparr>"

text \<open>A runtime over a counter: the endpoint counts its calls, and one tool is registered.\<close>

definition demo_runtime :: "nat runtime" where
  "demo_runtime = \<lparr>Chat = (\<lambda>_ x. (Inr demo_answer, Suc x)),
     Roles = \<lparr>Lead = ''m-large-2'', Specialist = [], Critic = [], Vision = [], Embed = []\<rparr>,
     Prices = None, Reg = demo_registry,
     Tools = (\<lambda>_ _ w. (Returned \<lparr>Output = Some (JObj []), Usage = no_usage\<lparr>uCalls := 2, uUSD := 1 / 2\<rparr>,
        rModel = [], Reward = None, rFinal = False\<rparr> None, w)),
     Policy = None, BanditRecord = (\<lambda>_ _ _ _ x. x), BanditHint = (\<lambda>_ x. ([], x)),
     PickModel = (\<lambda>_ ms x. (hd ms, x)),
     Journal = Some (\<lambda>_ x. (None, x)), Hooks = None, Lower = id, BodyLen = (\<lambda>_ _. 0),
     FmtUSD = (\<lambda>_. []), FmtInvalid = (\<lambda>_. []),
     DecodeRaw = (\<lambda>t. if t = ''{}'' then Some (JObj []) else None), RawText = (\<lambda>_. ''{}'')\<rparr>"

definition demo_world :: "nat world" where
  "demo_world = \<lparr>Tree = NewBudget 400 5 5, Trace = [], Outside = 0, Ambient = None\<rparr>"

lemma demo_ledger: "ledger_ok (Tree demo_world) 0"
  using books_NewBudget [of 400 5 5] by (simp add: ledger_ok_def demo_world_def NewBudget_def Let_def)

lemma demo_nonneg: "answers_nonneg demo_runtime"
  by (simp add: answers_nonneg_def demo_runtime_def demo_answer_def ModelUsage_def usage_of_def usage_nonneg_def)

definition demo_chat :: "((err, response) result \<times> usage) \<times> nat world" where
  "demo_chat = ChatWithin demo_runtime demo_request 0 demo_world"

theorem ChatWithin_costs_witness:
  "costs 0 (snd (fst demo_chat)) (Tree demo_world) (Tree (snd demo_chat))"
proof -
  obtain r u w' where c: "ChatWithin demo_runtime demo_request 0 demo_world = ((r, u), w')" by (metis prod.exhaust)
  show ?thesis using ChatWithin_costs [OF demo_nonneg demo_ledger c] by (simp add: demo_chat_def c)
qed


lemma demo_fits: "tools_fit any_usage demo_runtime" "hooks_spend costs demo_runtime"
  "registered demo_decode (Reg demo_runtime)" "metered demo_world"
  using registered.more [OF registered.empty demo_registers]
  by (simp_all add: tools_fit_def returned_fits_def any_usage_def hooks_spend_def demo_runtime_def usage_nonneg_def
      metered_def demo_world_def)

definition demo_agent :: agent where
  "demo_agent = \<lparr>aName = ''lead'', aRole = ''lead'', aModel = ''m-large-2'', aPrompt = [], aVisible = [''calc''],
     aMaxTurns = 3, aOut = None, aMaxTokens = 0, aReplay = []\<rparr>"

definition demo_call :: call where
  "demo_call = \<lparr>cTask = ''t1'', cDocs = [], cInput = None, cBudget = no_grant, cDepth = 0, cModel = [], cNoTools = False\<rparr>"

definition demo_invoke :: "(tool_result \<times> err option) \<times> nat world" where
  "demo_invoke = Invoke demo_runtime demo_agent demo_call ''calc'' (Some (JObj [])) 0 False 1 demo_world"


section \<open>What a call that succeeds has passed\<close>

text \<open>An after-check may withhold an answer; it never turns a failed call into a successful one.\<close>

definition hooks_keep_errors :: "'x runtime \<Rightarrow> bool" where
  "hooks_keep_errors rt \<longleftrightarrow> (\<forall>h p res e w. Hooks rt = Some h \<longrightarrow> snd (fst (After h p res (Some e) w)) \<noteq> None)"

lemma after_hooks_ok:
  assumes "hooks_keep_errors rt" and "after_hooks rt p hooked ((res0, was), w) = ((res, None), w')"
  shows "was = None \<and> Output res = Output res0"
proof (cases "Hooks rt")
  case None
  then show ?thesis using assms(2) by (simp add: after_hooks_def)
next
  case (Some h)
  obtain u err w1 where a: "After h p res0 was w = ((u, err), w1)" by (metis prod.exhaust)
  then have "err = None" "res = add_usage res0 (usage_add hooked u)"
    using assms(2) Some by (auto simp: after_hooks_def Let_def)
  moreover have "was = None"
  proof (rule ccontr)
    assume "was \<noteq> None"
    then obtain x where "was = Some x" by blast
    then have "snd (fst (After h p res0 was w)) \<noteq> None"
      using assms(1) Some by (simp add: hooks_keep_errors_def)
    then show False using a \<open>err = None\<close> by simp
  qed
  ultimately show ?thesis by (simp add: add_usage_def)
qed

lemma run_granted_ok:
  assumes "run_granted rt e c name input g st w = ((res, None), w')"
  shows "ValidateOutput (eOut e) (Output res) = None"
  using assms by (auto simp: run_granted_def Let_def check_output_def split: prod.splits option.splits)

lemma invoke_funded_ok:
  assumes "hooks_keep_errors rt"
    and "invoke_funded rt a c e name input b st hooked w = (((res, None), st'), w')"
  shows "ValidateOutput (eOut e) (Output res) = None"
proof -
  obtain t g where g: "take_grant (Tree w) b (MaxTurns (eSpec e)) (-1) (Level (eSpec e)) = Inr (t, g)"
    using assms(2) by (auto simp: invoke_funded_def split: sum.splits prod.splits)
  obtain je w1 where s: "start_step rt (granted_step st (Value t g)) (w\<lparr>Tree := t\<rparr>) = (je, w1)" by fastforce
  obtain r0 e0 w2 where r: "run_granted rt e c name input g (granted_step st (Value t g)) w1 = ((r0, e0), w2)"
    by (metis prod.exhaust)
  have "je = None" "after_hooks rt (pending_of c a (eSpec e) input b) hooked ((r0, e0), w2) = ((res, None), w')"
    using assms(2) by (auto simp: invoke_funded_def g s r Let_def split: option.splits prod.splits)
  then have "e0 = None \<and> Output res = Output r0" using after_hooks_ok [OF assms(1)] by blast
  then show ?thesis using run_granted_ok [of rt e c name input g "granted_step st (Value t g)" w1 r0 w2] r by simp
qed

lemma invoke_allowed_ok:
  assumes "hooks_keep_errors rt"
    and "invoke_allowed rt a c e name input b st w = (((res, None), st'), w')"
  shows "ValidateOutput (eOut e) (Output res) = None \<and> fst (ask_policy rt (pending_of c a (eSpec e) input b) w) = None"
proof -
  obtain refused w1 where p: "ask_policy rt (pending_of c a (eSpec e) input b) w = (refused, w1)" by fastforce
  have "refused = None" using assms(2) by (auto simp: invoke_allowed_def p split: option.splits)
  moreover have "\<exists>u w2. invoke_funded rt a c e name input b st u w2 = (((res, None), st'), w')"
  proof (cases "Hooks rt")
    case None
    then show ?thesis using assms(2) \<open>refused = None\<close> by (auto simp: invoke_allowed_def p)
  next
    case (Some h)
    obtain r u herr w2 where "Before h (pending_of c a (eSpec e) input b) w1 = ((r, u, herr), w2)"
      by (metis prod.exhaust)
    then have "invoke_funded rt a c e name input b st u w2 = (((res, None), st'), w')"
      using assms(2) Some \<open>refused = None\<close> by (cases herr; cases r) (auto simp: invoke_allowed_def p)
    then show ?thesis by blast
  qed
  ultimately show ?thesis using invoke_funded_ok [OF assms(1)] by (fastforce simp: p)
qed

lemma end_step_ok: "end_step rt st res err w = ((res', None), w') \<Longrightarrow> err = None \<and> res' = res"
  by (auto simp: end_step_def Let_def split: if_splits prod.splits option.splits)

lemma ask_policy_allows:
  "fst (ask_policy rt p w) = None \<longleftrightarrow> (case Policy rt of None \<Rightarrow> True | Some allow \<Rightarrow> fst (allow p w) = None)"
  by (simp add: ask_policy_def split: option.splits prod.splits)

text \<open>What \<^verbatim>\<open>Invoke\<close> promises of a call that returned no error.\<close>

definition call_allowed :: "'x runtime \<Rightarrow> agent \<Rightarrow> call \<Rightarrow> string \<Rightarrow> raw_message \<Rightarrow> nat \<Rightarrow> bool \<Rightarrow> 'x world \<Rightarrow> entry \<Rightarrow> bool" where
  "call_allowed rt a c name input b alone w e \<longleftrightarrow>
     reg_get (Reg rt) name = Some e \<and> name \<in> set (aVisible a)
     \<and> (cDepth c = 0 \<or> Kind (eSpec e) = ''go'')
     \<and> \<not> (alone \<and> (Final (eSpec e) \<or> ''*'' \<in> set (Solo (eSpec e)) \<or> op_of input \<in> set (Solo (eSpec e))))
     \<and> Validate (eIn e) input = None
     \<and> (case Policy rt of None \<Rightarrow> True | Some allow \<Rightarrow> fst (allow (pending_of c a (eSpec e) input b) w) = None)"

lemma invoke_gate_ok:
  "invoke_gate rt a c name input alone = Inr e \<Longrightarrow> reg_get (Reg rt) name = Some e \<and> name \<in> set (aVisible a)
     \<and> (cDepth c = 0 \<or> Kind (eSpec e) = ''go'')
     \<and> \<not> (alone \<and> (Final (eSpec e) \<or> ''*'' \<in> set (Solo (eSpec e)) \<or> op_of input \<in> set (Solo (eSpec e))))
     \<and> Validate (eIn e) input = None"
  by (auto simp: invoke_gate_def split: option.splits if_splits)

text \<open>
  A tool call that returns without an error was offered to its agent, is not a subagent run by a
  subagent, did not share its turn when it must be alone, had an input valid against the tool's
  schema, was allowed by the policy, and answered with an output valid against the tool's schema.
\<close>

theorem Invoke_succeeds_checked:
  assumes "hooks_keep_errors rt" and "Invoke rt a c name input b alone n w = ((res, None), w')"
  shows "\<exists>e. call_allowed rt a c name input b alone w e \<and> ValidateOutput (eOut e) (Output res) = None"
proof -
  obtain res1 err1 st w1 where body:
    "invoke_body rt a c name input b alone (tool_step n name input) w = (((res1, err1), st), w1)"
    by (metis prod.exhaust)
  have "err1 = None \<and> res = res1"
    using assms(2) end_step_ok [of rt st res1 err1 "learn rt name res1 err1 w1" res w'] by (simp add: Invoke_def body)
  then have ok: "invoke_body rt a c name input b alone (tool_step n name input) w = (((res, None), st), w1)"
    using body by simp
  then obtain e where e: "invoke_gate rt a c name input alone = Inr e"
    by (auto simp: invoke_body_def split: sum.splits)
  then have "invoke_allowed rt a c e name input b (tool_step n name input) w = (((res, None), st), w1)"
    using ok by (simp add: invoke_body_def)
  then show ?thesis
    using invoke_allowed_ok [OF assms(1)] invoke_gate_ok [OF e] by (auto simp: call_allowed_def ask_policy_allows)
qed

lemma demo_invoke_succeeds: "snd (fst demo_invoke) = None"
  unfolding demo_invoke_def by code_simp

theorem Invoke_succeeds_checked_witness:
  "\<exists>e. call_allowed demo_runtime demo_agent demo_call ''calc'' (Some (JObj [])) 0 False demo_world e
     \<and> ValidateOutput (eOut e) (Output (fst (fst demo_invoke))) = None"
proof -
  have "hooks_keep_errors demo_runtime" by (simp add: hooks_keep_errors_def demo_runtime_def)
  moreover have "Invoke demo_runtime demo_agent demo_call ''calc'' (Some (JObj [])) 0 False 1 demo_world
      = ((fst (fst demo_invoke), None), snd demo_invoke)"
    using demo_invoke_succeeds unfolding demo_invoke_def by (metis prod.collapse)
  ultimately show ?thesis by (rule Invoke_succeeds_checked)
qed

section \<open>The step log is written ahead\<close>

definition no_tool :: "event list \<Rightarrow> bool" where
  "no_tool evs \<longleftrightarrow> list_all (\<lambda>e. case e of Ran _ _ \<Rightarrow> False | _ \<Rightarrow> True) evs"

lemma no_tool_append [simp]: "no_tool (xs @ ys) \<longleftrightarrow> no_tool xs \<and> no_tool ys"
  by (simp add: no_tool_def)

lemma no_tool_simps [simp]:
  "no_tool []" "no_tool (Recorded s # es) = no_tool es" "no_tool (NotRecorded s # es) = no_tool es"
  "no_tool (Learned k r f u # es) = no_tool es"
  by (simp_all add: no_tool_def)

text \<open>The step a call started with and the grant it was given, before anything ran.\<close>

definition started_as :: "step \<Rightarrow> int \<Rightarrow> string \<Rightarrow> raw_message \<Rightarrow> bool" where
  "started_as st n name input \<longleftrightarrow> N st = n \<and> sTool st = name \<and> sInput st = input \<and> Status st = Started"

lemma record_step_trace:
  assumes "Journal rt = Some j" and "record_step rt s w = (e, w')"
  shows "Trace w' = Trace w @ [if e = None then Recorded s else NotRecorded s]"
  using assms by (auto simp: record_step_def happens_def split: prod.splits option.splits)

lemma run_granted_trace:
  "\<exists>c' tevs. Trace (snd (run_granted rt e c name input g st w)) = Trace w @ Ran name c' # tevs
     \<and> cBudget c' = Value (Tree w) g \<and> cInput c' = input"
  by (cases "N st > 0") (force simp: run_granted_def run_tool_def Let_def split: prod.splits)+

lemma invoke_funded_trace:
  assumes "Hooks rt = None" and "Journal rt = Some j" and "0 < N st" and "Status st = Started"
    and "invoke_funded rt a c e name input b st hooked w = (((res, err), st'), w')"
  shows "\<exists>evs. Trace w' = Trace w @ evs \<and> N st' = N st \<and> sTool st' = sTool st
    \<and> (no_tool evs \<or> (\<exists>c' rest. evs = Recorded st' # Ran name c' # rest \<and> Grant st' = cBudget c'
         \<and> sInput st' = sInput st \<and> Status st' = Started))"
proof (cases "take_grant (Tree w) b (MaxTurns (eSpec e)) (-1) (Level (eSpec e))")
  case (Inl why)
  then show ?thesis using assms(5) by (auto simp: invoke_funded_def)
next
  case (Inr tg)
  obtain t g where g: "take_grant (Tree w) b (MaxTurns (eSpec e)) (-1) (Level (eSpec e)) = Inr (t, g)"
    using Inr by (cases tg) auto
  define st1 where "st1 = granted_step st (Value t g)"
  have st1: "N st1 = N st" "sTool st1 = sTool st" "sInput st1 = sInput st" "Status st1 = Started" "Grant st1 = Value t g"
    using assms(3,4) by (simp_all add: st1_def granted_step_def)
  obtain je w1 where s: "start_step rt st1 (w\<lparr>Tree := t\<rparr>) = (je, w1)" by fastforce
  have t1: "Tree w1 = t" using start_step_treeD [OF s] by simp
  have tr: "Trace w1 = Trace w @ [if je = None then Recorded st1 else NotRecorded st1]"
    using record_step_trace [OF assms(2), of st1 "w\<lparr>Tree := t\<rparr>" je w1] s assms(3) st1(1) by (simp add: start_step_def)
  show ?thesis
  proof (cases je)
    case (Some x)
    then have "Trace w' = Trace w1 \<and> st' = st1"
      using assms(5) by (auto simp: invoke_funded_def g Let_def s simp flip: st1_def)
    then show ?thesis using tr st1 Some by auto
  next
    case None
    obtain r w2 where r: "run_granted rt e c name input g st1 w1 = (r, w2)" by fastforce
    have "w' = w2 \<and> st' = st1"
      using assms(1,5) None by (auto simp: invoke_funded_def g Let_def s after_hooks_def r simp flip: st1_def)
    moreover obtain c' tevs where "Trace w2 = Trace w1 @ Ran name c' # tevs" "cBudget c' = Value t g"
      using run_granted_trace [of rt e c name input g st1 w1] by (auto simp: r t1)
    ultimately show ?thesis using tr st1 None by auto
  qed
qed

lemma ask_policy_trace [simp]: "Trace (snd (ask_policy rt p w)) = Trace w"
  by (simp add: ask_policy_def split: option.splits prod.splits)

lemma invoke_body_trace:
  assumes "Hooks rt = None" and "Journal rt = Some j" and "0 < N st" and "Status st = Started"
    and "invoke_body rt a c name input b alone st w = (((res, err), st'), w')"
  shows "\<exists>evs. Trace w' = Trace w @ evs \<and> N st' = N st \<and> sTool st' = sTool st
    \<and> (no_tool evs \<or> (\<exists>c' rest. evs = Recorded st' # Ran name c' # rest \<and> Grant st' = cBudget c'
         \<and> sInput st' = sInput st \<and> Status st' = Started))"
proof (cases "invoke_gate rt a c name input alone")
  case (Inl r)
  then show ?thesis using assms(5) by (auto simp: invoke_body_def)
next
  case (Inr e)
  obtain refused w1 where p: "ask_policy rt (pending_of c a (eSpec e) input b) w = (refused, w1)" by fastforce
  have t1: "Trace w1 = Trace w" using ask_policy_trace [of rt "pending_of c a (eSpec e) input b" w] by (simp add: p)
  show ?thesis
  proof (cases refused)
    case (Some r)
    then show ?thesis using assms(5) Inr t1 by (auto simp: invoke_body_def invoke_allowed_def p)
  next
    case None
    then have "invoke_funded rt a c e name input b st no_usage w1 = (((res, err), st'), w')"
      using assms(1,5) Inr by (simp add: invoke_body_def invoke_allowed_def p)
    from invoke_funded_trace [OF assms(1-4) this] show ?thesis by (simp add: t1)
  qed
qed

lemma learn_trace: "\<exists>evs. Trace (learn rt name res err w) = Trace w @ evs \<and> no_tool evs"
  by (simp add: learn_def happens_def Let_def)

lemma end_step_trace:
  assumes "Journal rt = Some j" and "0 < N st" and "end_step rt st res err w = ((res', err'), w')"
  shows "\<exists>evs. Trace w' = Trace w @ evs \<and> no_tool evs \<and> (err' = None \<longrightarrow> evs = [Recorded (ended_step rt st res None)])"
proof (cases "case err of Some e \<Rightarrow> is_canceled e | None \<Rightarrow> False")
  case True
  then obtain e where e: "err = Some e" by (cases err) auto
  obtain q w1 where r: "record_step rt (st\<lparr>Grant := \<lparr>Calls = uCalls (Usage res), USD = uUSD (Usage res)\<rparr>\<rparr>) w = (q, w1)"
    by fastforce
  show ?thesis using assms True r record_step_trace [OF assms(1) r] e
    by (auto simp: end_step_def Let_def split: if_splits)
next
  case False
  obtain q w1 where r: "record_step rt (ended_step rt st res err) w = (q, w1)" by fastforce
  show ?thesis using assms False r record_step_trace [OF assms(1) r]
    by (cases q) (auto simp: end_step_def Let_def)
qed



end
