(* ===== verification/LoopProofs.thy ===== *)
theory LoopProofs
  imports Loop RuntimeProofs
begin

text \<open>
  What a run of the agent loop guarantees: its budget pays for exactly what it did and is never
  overdrawn, it returns only checked answers, and it takes a bounded number of steps.
\<close>

section \<open>Spending\<close>

lemma add_msg_world [simp]: "World (add_msg m turn h s) = World s"
  by (simp add: add_msg_def)

lemma replayed_world: "replayed n s = (r, s') \<Longrightarrow> World s' = World s"
  by (auto simp: replayed_def Let_def)

lemma take_notes_world [simp]: "World (take_notes turn s) = World s"
proof (induction turn s rule: take_notes.induct)
  case (1 turn s)
  obtain r s1 where r: "replayed (StepNo s + 1) s = (r, s1)" by fastforce
  show ?case
  proof (cases "\<exists>x. r = Some x \<and> sKind x = NoteStep")
    case True
    then obtain x where "r = Some x" "sKind x = NoteStep" by blast
    then show ?thesis
      using "1.IH" [OF r [symmetric]] replayed_world [OF r] r by (subst take_notes.simps) simp
  next
    case False
    then show ?thesis using replayed_world [OF r] r by (subst take_notes.simps) (auto split: option.splits)
  qed
qed

lemma with_hint_tree: "Tree (World (with_hint rt a lead s)) = Tree (World s)
    \<and> metered (World (with_hint rt a lead s)) = metered (World s)"
  by (auto simp: with_hint_def Let_def metered_def split: prod.splits)

lemma flow_cases_state:
  obtains r s where "f = Stop r s" | s where "f = Go s"
  by (cases f) auto

text \<open>A rule for the loop: what every turn keeps holds at its end.\<close>

lemma turns_rule:
  assumes start: "P turn s"
    and noted: "\<And>turn s. P turn s \<Longrightarrow> P turn (take_notes turn s)"
    and cap: "\<And>turn s. P turn s \<Longrightarrow> aMaxTurns a < turn \<Longrightarrow>
        Q (no_result, Some (ETurnCap (aName a @ '' used its '' @ itoa (aMaxTurns a) @ '' turns''))) s"
    and stop: "\<And>turn s r s1. P turn s \<Longrightarrow> turn \<le> aMaxTurns a \<Longrightarrow> one_turn rt a c lead defs b turn s = Stop r s1 \<Longrightarrow> Q r s1"
    and go: "\<And>turn s s1. P turn s \<Longrightarrow> turn \<le> aMaxTurns a \<Longrightarrow> one_turn rt a c lead defs b turn s = Go s1 \<Longrightarrow> P (turn + 1) s1"
  shows "Q (fst (turns rt a c lead defs b turn s)) (snd (turns rt a c lead defs b turn s))"
  using start
proof (induction "nat (aMaxTurns a + 1 - turn)" arbitrary: turn s rule: less_induct)
  case less
  define s0 where "s0 = take_notes turn s"
  have p: "P turn s0" unfolding s0_def by (rule noted [OF less.prems])
  show ?case
  proof (cases "turn > aMaxTurns a")
    case True
    then show ?thesis using cap [OF p] by (subst (1 2) turns.simps) (simp add: Let_def flip: s0_def)
  next
    case False
    then have le: "turn \<le> aMaxTurns a" by simp
    show ?thesis
    proof (cases "one_turn rt a c lead defs b turn s0")
      case (Stop r s1)
      then show ?thesis using stop [OF p le] False by (subst (1 2) turns.simps) (simp add: Let_def flip: s0_def)
    next
      case (Go s1)
      have "Q (fst (turns rt a c lead defs b (turn + 1) s1)) (snd (turns rt a c lead defs b (turn + 1) s1))"
        using le by (intro less.hyps go [OF p le Go]) auto
      then show ?thesis using Go False by (subst (1 2) turns.simps) (simp add: Let_def flip: s0_def)
    qed
  qed
qed

context spending
begin

definition paid :: "nat \<Rightarrow> tree \<Rightarrow> 'x world \<Rightarrow> bool" where
  "paid b t w \<longleftrightarrow> metered w \<and> (\<exists>u. R b u t (Tree w))"

fun paid_flow :: "nat \<Rightarrow> tree \<Rightarrow> 'x flow \<Rightarrow> bool" where
  "paid_flow b t (Stop r s) = paid b t (World s)"
| "paid_flow b t (Go s) = paid b t (World s)"

lemma paid_same: "paid b t w \<Longrightarrow> Tree w' = Tree w \<Longrightarrow> metered w' = metered w \<Longrightarrow> paid b t w'"
  by (simp add: paid_def)

lemma paid_chat: "answers_fit fits rt \<Longrightarrow> paid b t w \<Longrightarrow> ChatWithin rt req b w = (r, w') \<Longrightarrow> paid b t w'"
  using ChatWithin_spends by (cases r) (fastforce simp: paid_def)

lemma paid_record: "paid b t w \<Longrightarrow> record_step rt st w = (e, w') \<Longrightarrow> paid b t w'"
  by (erule paid_same) (auto dest: record_step_treeD record_step_ambient intro!: metered_same)

lemma paid_record_in: "paid b t (World s) \<Longrightarrow> record_in rt st s = (e, s') \<Longrightarrow> paid b t (World s')"
  by (auto simp: record_in_def dest: paid_record split: prod.splits)

lemma paid_chat_in:
  "answers_fit fits rt \<Longrightarrow> paid b t (World s) \<Longrightarrow> chat_in rt req b s = (r, s') \<Longrightarrow> paid b t (World s')"
  by (auto simp: chat_in_def dest: paid_chat split: prod.splits)

fun paid_try :: "nat \<Rightarrow> tree \<Rightarrow> 'x try_end \<Rightarrow> bool" where
  "paid_try b t (Abort e s) = paid b t (World s)"
| "paid_try b t (Tried r s) = paid b t (World s)"

lemma paid_live_try:
  assumes "answers_fit fits rt" and "paid b t (World s)"
  shows "paid_try b t (live_try rt a lead req b s)"
proof -
  obtain je s1 where j: "(if lead then record_in rt (lead_step rt a (StepNo s) req) s else (None, s)) = (je, s1)"
    by fastforce
  have p1: "paid b t (World s1)" using assms(2) j paid_record_in by (auto split: if_splits)
  show ?thesis
  proof (cases je)
    case (Some e)
    then show ?thesis using p1 by (simp add: live_try_def Let_def j)
  next
    case None
    obtain r u s2 where c: "chat_in rt req b s1 = ((r, u), s2)" by (metis prod.exhaust)
    have p2: "paid b t (World s2)" by (rule paid_chat_in [OF assms(1) p1 c])
    obtain je2 s3 where k: "record_in rt (lead_step_end rt (lead_step rt a (StepNo s) req) u r) s2 = (je2, s3)" by fastforce
    have p3: "paid b t (World s3)" by (rule paid_record_in [OF p2 k])
    show ?thesis using p2 p3 by (cases je2) (simp_all add: live_try_def Let_def j None c k)
  qed
qed

lemma paid_one_try:
  assumes "answers_fit fits rt" and "paid b t (World s)"
  shows "paid_try b t (one_try rt a lead defs l b turn s)"
proof -
  obtain r s1 where r: "replayed (StepNo s + 1) (s\<lparr>StepNo := StepNo s + 1\<rparr>) = (r, s1)" by fastforce
  have p1: "paid b t (World s1)" using replayed_world [OF r] assms(2) by simp
  show ?thesis using p1 paid_live_try [OF assms(1) p1] by (cases r) (simp_all add: one_try_def Let_def r)
qed

lemma paid_tries:
  assumes "answers_fit fits rt"
  shows "paid b t (World s) \<Longrightarrow> paid_try b t (tries rt a lead defs l b turn again s)"
proof (induction again arbitrary: s)
  case 0
  note one = paid_one_try [OF assms 0, of a lead defs l turn]
  show ?case
  proof (cases "one_try rt a lead defs l b turn s")
    case (Tried r s1)
    then show ?thesis using one by (cases r) simp_all
  qed (use one in simp)
next
  case (Suc k)
  note one = paid_one_try [OF assms Suc.prems, of a lead defs l turn]
  show ?case
  proof (cases "one_try rt a lead defs l b turn s")
    case (Tried r s1)
    then have p: "paid b t (World s1)" using one by simp
    show ?thesis using Suc.IH [of "s1\<lparr>Kept := 1, Shrink := (k = 0), CutTurn := turn\<rparr>"] p Tried
      by (cases r) simp_all
  qed (use one in simp)
qed

lemma paid_one_call:
  assumes "tools_fit fits rt" and "lead \<longrightarrow> meters_fit fits rt" and "hooks_spend R rt" and "registered decode (Reg rt)"
    and "paid b t (World s)"
  shows "paid_flow b t (one_call rt a c lead b alone turn tc s)"
proof -
  obtain q s1 where r: "replayed (StepNo s + 1) (s\<lparr>StepNo := StepNo s + 1\<rparr>) = (q, s1)" by fastforce
  have p1: "paid b t (World s1)" using replayed_world [OF r] assms(5) by simp
  obtain res err s2 where c: "call_result rt a c lead b alone tc (s\<lparr>StepNo := StepNo s + 1\<rparr>) = ((res, err), s2)"
    by (metis prod.exhaust)
  have "paid b t (World s2)"
  proof (cases q)
    case (Some x)
    then show ?thesis using c p1 by (simp add: call_result_def r)
  next
    case None
    then obtain w where i: "Invoke rt a c (tcName tc) (tcArgs tc) b alone (if lead then StepNo s + 1 else 0) (World s1) = ((res, err), w)"
      and s2: "World s2 = w"
      using c by (cases lead) (auto simp: call_result_def r invoke_in_def split: prod.splits)
    obtain u where u: "R b u t (Tree (World s1))" "metered (World s1)" using p1 by (auto simp: paid_def)
    have mf: "0 < (if lead then StepNo s + 1 else 0) \<longrightarrow> meters_fit fits rt" using assms(2) by simp
    show ?thesis
      using Invoke_spends [OF assms(1) mf assms(3,4) u i] by (auto simp: paid_def s2)
  qed
  then show ?thesis by (simp add: one_call_def Let_def c)
qed

lemma paid_all_calls:
  assumes "tools_fit fits rt" and "lead \<longrightarrow> meters_fit fits rt" and "hooks_spend R rt" and "registered decode (Reg rt)"
  shows "paid b t (World s) \<Longrightarrow> paid_flow b t (all_calls rt a c lead b alone turn tcs s)"
proof (induction tcs arbitrary: s)
  case (Cons tc tcs)
  show ?case using paid_one_call [OF assms Cons.prems, of a c alone turn tc] Cons.IH
    by (cases "one_call rt a c lead b alone turn tc s") simp_all
qed simp

lemma paid_after_try:
  assumes "tools_fit fits rt" and "lead \<longrightarrow> meters_fit fits rt" and "hooks_spend R rt" and "registered decode (Reg rt)"
    and "paid_try b t q"
  shows "paid_flow b t (after_try rt a c lead b turn q)"
proof (cases q)
  case (Tried r s)
  then have p: "paid b t (World s)" using assms(5) by simp
  show ?thesis
  proof (cases r)
    case (Inr resp)
    define s1 where "s1 = add_msg (assistant_msg (respText resp) (take maxCallsInTurn (respCalls resp))) turn [] s"
    have "paid_flow b t (all_calls rt a c lead b (length (take maxCallsInTurn (respCalls resp)) > 1) turn
        (take maxCallsInTurn (respCalls resp)) s1)"
      using p by (intro paid_all_calls [OF assms(1-4)]) (simp add: s1_def)
    then show ?thesis
      using Tried Inr p
      by (auto simp: after_try_def answered_def text_answer_def tool_answer_def Let_def s1_def
          split: option.splits sum.splits flow.splits)
  qed (use Tried p in \<open>simp add: after_try_def\<close>)
qed (use assms(5) in \<open>simp add: after_try_def\<close>)

lemma paid_one_turn:
  assumes "answers_fit fits rt" and "tools_fit fits rt" and "lead \<longrightarrow> meters_fit fits rt" and "hooks_spend R rt"
    and "registered decode (Reg rt)" and "paid b t (World s)"
  shows "paid_flow b t (one_turn rt a c lead defs b turn s)"
proof -
  define s2 where "s2 = (if last_turn a defs turn then add_msg (text_msg ''user'' last_note) turn [] (with_hint rt a lead s)
     else with_hint rt a lead s)"
  have "paid b t (World (with_hint rt a lead s))"
    using paid_same [OF assms(6)] with_hint_tree [of rt a lead s] by blast
  then have "paid b t (World s2)" by (simp add: s2_def)
  then have "paid_try b t (tries rt a lead defs (last_turn a defs turn) b turn 2 s2)" by (rule paid_tries [OF assms(1)])
  then show ?thesis unfolding one_turn_def Let_def s2_def [symmetric] by (rule paid_after_try [OF assms(2-5)])
qed

lemma paid_turns:
  assumes "answers_fit fits rt" and "tools_fit fits rt" and "lead \<longrightarrow> meters_fit fits rt" and "hooks_spend R rt"
    and "registered decode (Reg rt)" and "paid b t (World s)"
  shows "paid b t (World (snd (turns rt a c lead defs b turn s)))"
proof (rule turns_rule [where P = "\<lambda>_ s. paid b t (World s)" and Q = "\<lambda>_ s. paid b t (World s)"])
  fix turn s r s1 assume "paid b t (World s)" "one_turn rt a c lead defs b turn s = Stop r s1"
  then show "paid b t (World s1)" using paid_one_turn [OF assms(1-5), of b t s a c defs turn] by simp
next
  fix turn s s1 assume "paid b t (World s)" "one_turn rt a c lead defs b turn s = Go s1"
  then show "paid b t (World s1)" using paid_one_turn [OF assms(1-5), of b t s a c defs turn] by simp
qed (use assms(6) in simp_all)

lemma paid_Run:
  assumes "answers_fit fits rt" and "tools_fit fits rt" and "cDepth c = 0 \<longrightarrow> meters_fit fits rt" and "hooks_spend R rt"
    and "registered decode (Reg rt)" and "paid b t w" and "Run rt a c b w = (r, w')"
  shows "paid b t w'"
proof -
  have "paid b t (World (start_run rt a' c w))" for a' using assms(6) by (simp add: start_run_def)
  then have "paid b t (World (snd (turns rt a' c (cDepth c = 0) defs b 1 (start_run rt a' c w))))" for a' defs
    using assms(1-5) by (intro paid_turns) auto
  then show ?thesis using assms(6,7)
    by (auto simp: Run_def Let_def split: sum.splits prod.splits) (metis snd_conv)+
qed

end

section \<open>A subagent stays within its grant\<close>

lemma new_budget_facts:
  "ledger_ok (NewBudget c u 0) 0" "kept_ok (NewBudget c u 0) 0" "Spent (NewBudget c u 0) 0 = no_usage"
  "room_of (NewBudget c u 0) 0 = (c, u)"
  using books_NewBudget [of c u 0]
  by (simp_all add: ledger_ok_def kept_ok_def Spent_def room_of_def NewBudget_def Let_def no_keep_def no_grant_def level_defs
      raw_calls_def raw_usd_def)

text \<open>
  C15. A subagent never spends more than it was granted, however long it runs, whatever tools it calls
  and however its calls end: when every model call costs at most its bound and every tool it may call
  returns at most its grant, the usage it reports is within its grant, so the ledger its caller closes
  the grant in is never overdrawn by it.
\<close>

theorem subagent_within_grant:
  assumes "answers_nonneg rt" and "answers_within rt" and "tools_fit within_grant rt" and "hooks_spend pays rt"
    and "registered decode (Reg rt)" and "metered w" and "0 \<le> Calls (cBudget c)" and "0 \<le> USD (cBudget c)"
    and "Subagent_Call rt s prompt c w = (Returned res err, w')"
  shows "usage_nonneg (Usage res) \<and> within_grant (cBudget c) (Usage res)"
proof -
  define t0 where "t0 = NewBudget (Calls (cBudget c)) (USD (cBudget c)) 0"
  have none: "usage_nonneg (Usage no_result) \<and> within_grant (cBudget c) (Usage no_result)"
    using assms(7,8) by (simp add: within_grant_def)
  have fits: "usage_nonneg (Spent (Tree w2) 0) \<and> within_grant (cBudget c) (Spent (Tree w2) 0)"
    if run: "Run rt a (subagent_call c) 0 w1 = (r, w2)" and w1: "metered w1" "Tree w1 = t0" for a w1 r w2
  proof -
    have "st.paid 0 t0 w1"
      using w1 st.R_none [of t0 0] new_budget_facts by (auto simp: st.paid_def t0_def)
    moreover have d: "cDepth (subagent_call c) = 0 \<longrightarrow> meters_fit within_grant rt" by (simp add: subagent_call_def)
    ultimately have "st.paid 0 t0 w2"
      by (intro st.paid_Run [OF answers_fit_within [OF assms(1,2)] assms(3) d assms(4,5) _ run])
    then obtain u where u: "pays 0 u t0 (Tree w2)" by (auto simp: st.paid_def)
    have "solvent t0 0" using assms(7,8) by (simp add: solvent_def t0_def new_budget_facts)
    then have "solvent (Tree w2) 0" using u new_budget_facts(2) by (simp add: pays_def t0_def)
    then show ?thesis
      using u new_budget_facts(3,4) by (simp add: pays_def costs_def t0_def solvent_def within_grant_def)
  qed
  show ?thesis
  proof (cases "cDepth c > 0 \<or> Candidates rt (Role s) = []")
    case True
    then have "res = no_result"
      using assms(9) unfolding Subagent_Call_def Let_def by (cases "cDepth c > 0") simp_all
    then show ?thesis using none by simp
  next
    case False
    obtain model x where m: "(if cModel c \<in> set (Candidates rt (Role s)) then (cModel c, Outside w)
        else PickModel rt (Name s) (Candidates rt (Role s)) (Outside w)) = (model, x)" by fastforce
    show ?thesis
    proof (cases "Compile (Out s)")
      case (Inl e)
      then have "res = no_result" using assms(9) False m unfolding Subagent_Call_def Let_def by simp
      then show ?thesis using none by simp
    next
      case (Inr out)
      define a where "a = subagent_agent s prompt model (cNoTools c) out"
      define w1 where "w1 = w\<lparr>Outside := x, Tree := t0\<rparr>"
      obtain res0 err0 w2 where run: "Run rt a (subagent_call c) 0 w1 = ((res0, err0), w2)" by (metis prod.exhaust)
      have "res = res0\<lparr>Usage := Spent (Tree w2) 0, rModel := model\<rparr>"
        using assms(9) False m Inr run unfolding Subagent_Call_def Let_def a_def w1_def t0_def by simp
      moreover have "metered w1" "Tree w1 = t0" using assms(6) by (simp_all add: w1_def metered_def)
      ultimately show ?thesis using fits [OF run] by simp
    qed
  qed
qed

text \<open>A runtime whose endpoint answers every call with an empty object, for free.\<close>

definition quiet_runtime :: "nat runtime" where
  "quiet_runtime = demo_runtime\<lparr>
     Chat := (\<lambda>_ x. (Inr \<lparr>respText = ''{}'', respCalls = [], respTruncated = False, respUsage = demo_model_usage\<rparr>, Suc x)),
     Tools := (\<lambda>_ _ w. (Returned no_result None, w))\<rparr>"

definition quiet_spec :: spec where
  "quiet_spec = demo_spec\<lparr>Name := ''reader'', Kind := ''subagent'', MaxTurns := 2, Role := ''specialist''\<rparr>"

definition granted_call :: call where
  "granted_call = demo_call\<lparr>cBudget := \<lparr>Calls = 2, USD = 1\<rparr>\<rparr>"

lemma quiet_fits: "answers_nonneg quiet_runtime" "answers_within quiet_runtime" "tools_fit within_grant quiet_runtime"
  "hooks_spend pays quiet_runtime" "registered demo_decode (Reg quiet_runtime)"
  using registered.more [OF registered.empty demo_registers]
  by (simp_all add: answers_nonneg_def answers_within_def tools_fit_def returned_fits_def hooks_spend_def quiet_runtime_def
      demo_runtime_def demo_model_usage_def ModelUsage_def usage_of_def usage_nonneg_def rt_bound_def bound_def
      within_grant_def no_result_def)

theorem subagent_within_grant_witness:
  "(case fst (Subagent_Call quiet_runtime quiet_spec [] granted_call demo_world) of
      Returned res err \<Rightarrow> err = None \<and> uCalls (Usage res) = 1 \<and> within_grant \<lparr>Calls = 2, USD = 1\<rparr> (Usage res)
    | Panicked \<Rightarrow> False)"
proof -
  define q where "q = Subagent_Call quiet_runtime quiet_spec [] granted_call demo_world"
  have e: "(case fst q of Returned res err \<Rightarrow> err = None \<and> uCalls (Usage res) = 1 | Panicked \<Rightarrow> False) = True"
    unfolding q_def by code_simp
  then obtain res err w' where r: "q = (Returned res err, w')" by (cases q; cases "fst q") auto
  have "within_grant (cBudget granted_call) (Usage res)"
    using subagent_within_grant [OF quiet_fits demo_fits(4), of granted_call quiet_spec "[]" res err w'] r
    by (simp add: q_def granted_call_def)
  moreover have "cBudget granted_call = \<lparr>Calls = 2, USD = 1\<rparr>" by (simp add: granted_call_def)
  ultimately show ?thesis using e r unfolding q_def [symmetric] by simp
qed

section \<open>What a run returns\<close>

text \<open>
  A run without an error ends with an answer valid against the agent's output schema, or with the
  result of a tool that may end the run.
\<close>

definition run_ok :: "agent \<Rightarrow> tool_result \<times> err option \<Rightarrow> bool" where
  "run_ok a r \<longleftrightarrow> snd r \<noteq> None \<or> rFinal (fst r) \<or>
     (case aOut a of Some out \<Rightarrow> ValidateOutput out (Output (fst r)) = None | None \<Rightarrow> False)"

fun flow_ok :: "agent \<Rightarrow> 'x flow \<Rightarrow> bool" where
  "flow_ok a (Stop r s) = run_ok a r"
| "flow_ok a (Go s) = True"

lemma one_call_flow_ok: "flow_ok a (one_call rt a' c lead b alone turn tc s)"
  by (auto simp: one_call_def Let_def run_ok_def split: prod.splits option.splits)

lemma all_calls_flow_ok: "flow_ok a (all_calls rt a' c lead b alone turn tcs s)"
proof (induction tcs arbitrary: s)
  case (Cons tc tcs)
  then show ?case using one_call_flow_ok [of a rt a' c lead b alone turn tc s]
    by (cases "one_call rt a' c lead b alone turn tc s") simp_all
qed simp

lemma after_try_flow_ok: "flow_ok a (after_try rt a c lead b turn q)"
proof (cases q)
  case (Tried r s)
  show ?thesis
  proof (cases r)
    case (Inr resp)
    show ?thesis
      using Tried Inr all_calls_flow_ok [of a rt a c lead b "length (take maxCallsInTurn (respCalls resp)) > 1" turn
          "take maxCallsInTurn (respCalls resp)"
          "add_msg (assistant_msg (respText resp) (take maxCallsInTurn (respCalls resp))) turn [] s"]
      by (auto simp: after_try_def answered_def text_answer_def tool_answer_def Let_def run_ok_def
          dest!: answer_valid split: option.splits sum.splits flow.splits)
  qed (use Tried in \<open>auto simp: after_try_def run_ok_def\<close>)
qed (simp add: after_try_def run_ok_def)

text \<open>
  C36. An agent's run that returns without an error returns a checked answer: a subagent's is valid
  against its output schema (found in the text, a code fence or the outermost braces, after at most
  one repair), and a lead's run ends only through a tool that may end it.
\<close>

theorem Run_returns_checked:
  assumes "Run rt a c b w = ((res, None), w')"
  shows "rFinal res \<or> (\<exists>out. aOut a = Some out \<and> ValidateOutput out (Output res) = None)"
proof -
  have turns: "run_ok a' (fst (turns rt a' c lead defs b 1 s))" for a' lead defs and s :: "'a run"
    by (rule turns_rule [where P = "\<lambda>_ _. True" and Q = "\<lambda>r _. run_ok a' r"])
      (auto simp: run_ok_def [of _ "(_, Some _)"] one_turn_def Let_def
        dest!: arg_cong [where f = "flow_ok a'"] simp: after_try_flow_ok)
  obtain model defs where "fst (turns rt (a\<lparr>aModel := model\<rparr>) c (cDepth c = 0) defs b 1 (start_run rt (a\<lparr>aModel := model\<rparr>) c w)) = (res, None)"
    using assms by (auto simp: Run_def Let_def split: sum.splits prod.splits) (metis fst_conv)+
  then have "run_ok (a\<lparr>aModel := model\<rparr>) (res, None)"
    using turns [of "a\<lparr>aModel := model\<rparr>" "cDepth c = 0" defs "start_run rt (a\<lparr>aModel := model\<rparr>) c w"] by simp
  then show ?thesis by (auto simp: run_ok_def split: option.splits)
qed

definition quiet_agent :: agent where
  "quiet_agent = demo_agent\<lparr>aName := ''reader'', aVisible := [],
     aOut := Some (Schema (Some [''object'']) [] [] (Some False) None None None None None None None None)\<rparr>"

definition quiet_run :: "(tool_result \<times> err option) \<times> nat world" where
  "quiet_run = Run quiet_runtime quiet_agent (demo_call\<lparr>cDepth := 1\<rparr>) 0 demo_world"

theorem Run_returns_checked_witness:
  "snd (fst quiet_run) = None \<and> (rFinal (fst (fst quiet_run)) \<or>
     (\<exists>out. aOut quiet_agent = Some out \<and> ValidateOutput out (Output (fst (fst quiet_run))) = None))"
proof -
  have "snd (fst quiet_run) = None" unfolding quiet_run_def by code_simp
  moreover from this have "Run quiet_runtime quiet_agent (demo_call\<lparr>cDepth := 1\<rparr>) 0 demo_world
      = ((fst (fst quiet_run), None), snd quiet_run)"
    unfolding quiet_run_def by (metis prod.collapse)
  ultimately show ?thesis using Run_returns_checked by blast
qed

section \<open>How long a run is\<close>

text \<open>A state with nothing to replay, at most so many steps in.\<close>

definition steps_in :: "int \<Rightarrow> 'x run \<Rightarrow> bool" where
  "steps_in n s \<longleftrightarrow> Replay s = [] \<and> StepNo s \<le> n"

lemma steps_in_simps [simp]:
  "steps_in n (add_msg m turn h s) = steps_in n s"
  "steps_in n (s\<lparr>World := w\<rparr>) = steps_in n s"
  "steps_in n (s\<lparr>Outs := os\<rparr>) = steps_in n s"
  "steps_in n (s\<lparr>Slots := sl\<rparr>) = steps_in n s"
  "steps_in n (s\<lparr>Repaired := rp\<rparr>) = steps_in n s"
  "steps_in n (s\<lparr>Kept := k\<rparr>) = steps_in n s"
  "steps_in n (s\<lparr>Shrink := sh\<rparr>) = steps_in n s"
  "steps_in n (s\<lparr>CutTurn := ct\<rparr>) = steps_in n s"
  "steps_in n (s\<lparr>StepNo := StepNo s + 1\<rparr>) = steps_in (n - 1) s"
  by (auto simp: steps_in_def add_msg_def)

lemma steps_in_mono: "steps_in m s \<Longrightarrow> m \<le> n \<Longrightarrow> steps_in n s"
  by (simp add: steps_in_def)

lemma replayed_none: "Replay s = [] \<Longrightarrow> replayed n s = (None, s)"
  by (simp add: replayed_def)

lemma take_notes_none: "Replay s = [] \<Longrightarrow> take_notes turn s = s"
  by (subst take_notes.simps) (simp add: replayed_none)

lemma record_in_steps: "record_in rt st s = (e, s') \<Longrightarrow> steps_in n s \<Longrightarrow> steps_in n s'"
  by (auto simp: record_in_def split: prod.splits)

lemma chat_in_steps: "chat_in rt req b s = (r, s') \<Longrightarrow> steps_in n s \<Longrightarrow> steps_in n s'"
  by (auto simp: chat_in_def split: prod.splits)

fun try_steps :: "int \<Rightarrow> 'x try_end \<Rightarrow> bool" where
  "try_steps n (Abort e s) = steps_in n s"
| "try_steps n (Tried r s) = steps_in n s"

fun flow_steps :: "int \<Rightarrow> 'x flow \<Rightarrow> bool" where
  "flow_steps n (Stop r s) = steps_in n s"
| "flow_steps n (Go s) = steps_in n s"

lemma live_try_steps: "steps_in n s \<Longrightarrow> try_steps n (live_try rt a lead req b s)"
  by (auto simp: live_try_def Let_def split: prod.splits option.splits if_splits
      dest: record_in_steps [where n = n] chat_in_steps [where n = n])

lemma one_try_steps:
  assumes "steps_in n s"
  shows "try_steps (n + 1) (one_try rt a lead defs l b turn s)"
proof -
  have "steps_in (n + 1) (s\<lparr>StepNo := StepNo s + 1\<rparr>)" using assms by simp
  moreover have "replayed (StepNo s + 1) (s\<lparr>StepNo := StepNo s + 1\<rparr>) = (None, s\<lparr>StepNo := StepNo s + 1\<rparr>)"
    using assms by (intro replayed_none) (simp add: steps_in_def)
  ultimately show ?thesis by (simp add: one_try_def Let_def live_try_steps)
qed

lemma tries_steps: "steps_in n s \<Longrightarrow> try_steps (n + int again + 1) (tries rt a lead defs l b turn again s)"
proof (induction again arbitrary: n s)
  case 0
  show ?case using one_try_steps [OF 0, of rt a lead defs l b turn]
    by (cases "one_try rt a lead defs l b turn s") (auto split: sum.splits)
next
  case (Suc k)
  note one = one_try_steps [OF Suc.prems, of rt a lead defs l b turn]
  show ?case
  proof (cases "one_try rt a lead defs l b turn s")
    case (Tried r s1)
    then have s1: "steps_in (n + 1) s1" using one by simp
    show ?thesis
      using Tried s1 Suc.IH [of "n + 1" "s1\<lparr>Kept := 1, Shrink := (k = 0), CutTurn := turn\<rparr>"]
      by (cases r) (auto elim: steps_in_mono simp: algebra_simps)
  qed (use one in \<open>auto elim: steps_in_mono\<close>)
qed

lemma one_call_steps:
  assumes "steps_in n s"
  shows "flow_steps (n + 1) (one_call rt a c lead b alone turn tc s)"
proof -
  have r: "replayed (StepNo s + 1) (s\<lparr>StepNo := StepNo s + 1\<rparr>) = (None, s\<lparr>StepNo := StepNo s + 1\<rparr>)"
    using assms by (intro replayed_none) (simp add: steps_in_def)
  show ?thesis using assms
    by (auto simp: one_call_def Let_def call_result_def r invoke_in_def split: prod.splits option.splits)
qed

lemma all_calls_steps: "steps_in n s \<Longrightarrow> flow_steps (n + int (length tcs)) (all_calls rt a c lead b alone turn tcs s)"
proof (induction tcs arbitrary: n s)
  case (Cons tc tcs)
  show ?case using one_call_steps [OF Cons.prems, of rt a c lead b alone turn tc] Cons.IH [of "n + 1"]
    by (cases "one_call rt a c lead b alone turn tc s") (auto elim: steps_in_mono simp: algebra_simps)
qed simp

lemma after_try_steps:
  assumes "try_steps n q"
  shows "flow_steps (n + 8) (after_try rt a c lead b turn q)"
proof (cases q)
  case (Tried r s)
  then have s: "steps_in n s" using assms by simp
  then have s8: "steps_in (n + 8) s" by (rule steps_in_mono) simp
  show ?thesis
  proof (cases r)
    case (Inr resp)
    define cs where "cs = take maxCallsInTurn (respCalls resp)"
    have len: "int (length cs) \<le> 8" by (simp add: cs_def maxCallsInTurn_def)
    have "flow_steps (n + int (length cs)) (all_calls rt a c lead b (length cs > 1) turn cs
        (add_msg (assistant_msg (respText resp) cs) turn [] s))"
      using s by (intro all_calls_steps) simp
    then have calls: "flow_steps (n + 8) (all_calls rt a c lead b (length cs > 1) turn cs
        (add_msg (assistant_msg (respText resp) cs) turn [] s))"
      using len by (cases "all_calls rt a c lead b (length cs > 1) turn cs (add_msg (assistant_msg (respText resp) cs) turn [] s)")
        (auto elim: steps_in_mono)
    then have "flow_steps (n + 8) (tool_answer rt a c lead b turn (respCalls resp)
        (add_msg (assistant_msg (respText resp) cs) turn [] s))"
      unfolding tool_answer_def Let_def cs_def [symmetric] by (auto split: flow.splits)
    moreover have "flow_steps (n + 8) (text_answer rt a turn resp (add_msg m turn [] s))" for m
      using s8 by (auto simp: text_answer_def split: option.splits sum.splits)
    ultimately show ?thesis using Tried Inr by (simp add: after_try_def answered_def flip: cs_def)
  qed (use Tried s8 in \<open>simp add: after_try_def\<close>)
qed (use assms in \<open>auto simp: after_try_def elim: steps_in_mono\<close>)

lemma one_turn_steps:
  assumes "steps_in n s"
  shows "flow_steps (n + 11) (one_turn rt a c lead defs b turn s)"
proof -
  have h: "steps_in n (with_hint rt a lead s)" using assms by (auto simp: with_hint_def Let_def split: prod.splits)
  define s2 where "s2 = (if last_turn a defs turn then add_msg (text_msg ''user'' last_note) turn [] (with_hint rt a lead s)
     else with_hint rt a lead s)"
  have "steps_in n s2" using h by (simp add: s2_def)
  then have "try_steps (n + 3) (tries rt a lead defs (last_turn a defs turn) b turn 2 s2)"
    using tries_steps [where n = n and s = s2 and again = 2] by (simp del: tries.simps add: add.commute)
  then have "flow_steps (n + 3 + 8) (after_try rt a c lead b turn (tries rt a lead defs (last_turn a defs turn) b turn 2 s2))"
    by (rule after_try_steps)
  then show ?thesis by (simp add: one_turn_def Let_def add.assoc flip: s2_def)
qed

text \<open>
  A run is bounded: with nothing to replay it takes at most eleven steps a turn (three model calls,
  eight tool calls) for at most its cap of turns, whatever the model answers and the tools do.
\<close>

theorem run_is_bounded:
  assumes "aReplay a = []" and "turns rt a c lead defs b 1 (start_run rt a c w) = (r, s)"
  shows "StepNo s \<le> 11 * max 0 (aMaxTurns a)"
proof -
  have "steps_in (11 * max 0 (aMaxTurns a)) (snd (turns rt a c lead defs b 1 (start_run rt a c w)))"
  proof (rule turns_rule [where P = "\<lambda>turn s. turn \<ge> 1 \<and> turn - 1 \<le> max 0 (aMaxTurns a) \<and> steps_in (11 * (turn - 1)) s"
        and Q = "\<lambda>_ s. steps_in (11 * max 0 (aMaxTurns a)) s"])
    show "(1::int) \<ge> 1 \<and> (1::int) - 1 \<le> max 0 (aMaxTurns a) \<and> steps_in (11 * (1 - 1)) (start_run rt a c w)"
      using assms(1) by (simp add: steps_in_def start_run_def)
  next
    fix turn and s :: "'a run"
    assume "turn \<ge> 1 \<and> turn - 1 \<le> max 0 (aMaxTurns a) \<and> steps_in (11 * (turn - 1)) s"
    then show "turn \<ge> 1 \<and> turn - 1 \<le> max 0 (aMaxTurns a) \<and> steps_in (11 * (turn - 1)) (take_notes turn s)"
      by (simp add: take_notes_none steps_in_def)
  next
    fix turn and s :: "'a run"
    assume "turn \<ge> 1 \<and> turn - 1 \<le> max 0 (aMaxTurns a) \<and> steps_in (11 * (turn - 1)) s" "aMaxTurns a < turn"
    then show "steps_in (11 * max 0 (aMaxTurns a)) s" by (auto elim: steps_in_mono)
  next
    fix turn and s :: "'a run" and r s1
    assume "turn \<ge> 1 \<and> turn - 1 \<le> max 0 (aMaxTurns a) \<and> steps_in (11 * (turn - 1)) s" "turn \<le> aMaxTurns a"
      "one_turn rt a c lead defs b turn s = Stop r s1"
    then show "steps_in (11 * max 0 (aMaxTurns a)) s1"
      using one_turn_steps [of "11 * (turn - 1)" s rt a c lead defs b turn] by (auto elim: steps_in_mono)
  next
    fix turn and s :: "'a run" and s1
    assume "turn \<ge> 1 \<and> turn - 1 \<le> max 0 (aMaxTurns a) \<and> steps_in (11 * (turn - 1)) s" "turn \<le> aMaxTurns a"
      "one_turn rt a c lead defs b turn s = Go s1"
    then show "turn + 1 \<ge> 1 \<and> turn + 1 - 1 \<le> max 0 (aMaxTurns a) \<and> steps_in (11 * (turn + 1 - 1)) s1"
      using one_turn_steps [of "11 * (turn - 1)" s rt a c lead defs b turn] by (auto elim: steps_in_mono)
  qed
  then show ?thesis by (simp add: assms(2) steps_in_def)
qed

theorem run_is_bounded_witness:
  "StepNo (snd (turns quiet_runtime quiet_agent demo_call False [] 0 1 (start_run quiet_runtime quiet_agent demo_call demo_world))) \<le> 33"
proof -
  obtain r s where t: "turns quiet_runtime quiet_agent demo_call False [] 0 1
      (start_run quiet_runtime quiet_agent demo_call demo_world) = (r, s)" by fastforce
  have a: "aReplay quiet_agent = []" "aMaxTurns quiet_agent = 3" by (simp_all add: quiet_agent_def demo_agent_def)
  show ?thesis using run_is_bounded [OF a(1) t] by (simp add: t a(2))
qed

end
