(* ===== verification/Bandit.thy ===== *)
theory Bandit
  imports AgentTypes "HOL-Library.AList"
begin

text \<open>
  \<^verbatim>\<open>internal/agent/bandit.go\<close>: the record of how well each tool and model has done, and the
  ranking made from it.  The exploration bonus \<^verbatim>\<open>explore * sqrt(log(tot+1)/(n+1))\<close> is the
  parameter \<open>ucb\<close> of the total and the arm's count; two decimals of a mean (\<^verbatim>\<open>%.2f\<close>) are the
  parameter \<open>fmt\<close>.  A map from arms to records is an association list in the order ranged over.
\<close>

section \<open>Scores and their order\<close>

record stat =
  stN :: rat
  stReward :: rat
  stRewardSq :: rat
  stFails :: rat
  stCalls :: rat
  stTokens :: rat

definition no_stat :: stat where
  "no_stat = \<lparr>stN = 0, stReward = 0, stRewardSq = 0, stFails = 0, stCalls = 0, stTokens = 0\<rparr>"

definition plus_stat :: "stat \<Rightarrow> stat \<Rightarrow> stat" where
  "plus_stat s d = \<lparr>stN = stN s + stN d, stReward = stReward s + stReward d, stRewardSq = stRewardSq s + stRewardSq d,
     stFails = stFails s + stFails d, stCalls = stCalls s + stCalls d, stTokens = stTokens s + stTokens d\<rparr>"

text \<open>An untried arm scores \<^verbatim>\<open>math.Inf(1)\<close>.\<close>

datatype score = Fin rat | PosInf

instantiation score :: linorder
begin

fun less_eq_score :: "score \<Rightarrow> score \<Rightarrow> bool" where
  "less_eq_score x PosInf = True"
| "less_eq_score PosInf (Fin b) = False"
| "less_eq_score (Fin a) (Fin b) = (a \<le> b)"

definition less_score :: "score \<Rightarrow> score \<Rightarrow> bool" where
  "less_score (x :: score) y \<longleftrightarrow> x \<le> y \<and> \<not> y \<le> x"

instance
proof
  fix x y z :: score
  show "x \<le> x" by (cases x) auto
  show "x \<le> y \<Longrightarrow> y \<le> z \<Longrightarrow> x \<le> z" by (cases x; cases y; cases z) auto
  show "x \<le> y \<Longrightarrow> y \<le> x \<Longrightarrow> x = y" by (cases x; cases y) auto
  show "x \<le> y \<or> y \<le> x" by (cases x; cases y) auto
qed (rule less_score_def)

end

text \<open>What the arms are sorted by: the score, highest first, then the tool and the model.\<close>

datatype rank_key = RankKey (keyScore: score) (keyTool: string) (keyModel: string)

instantiation rank_key :: linorder
begin

definition less_eq_rank_key :: "rank_key \<Rightarrow> rank_key \<Rightarrow> bool" where
  "less_eq_rank_key x y \<longleftrightarrow> keyScore y < keyScore x \<or> keyScore x = keyScore y \<and>
     (keyTool x < keyTool y \<or> keyTool x = keyTool y \<and> keyModel x \<le> keyModel y)"

definition less_rank_key :: "rank_key \<Rightarrow> rank_key \<Rightarrow> bool" where
  "less_rank_key (x :: rank_key) y \<longleftrightarrow> x \<le> y \<and> \<not> y \<le> x"

instance
proof
  fix x y z :: rank_key
  show "x \<le> x" by (simp add: less_eq_rank_key_def)
  show "x \<le> y \<Longrightarrow> y \<le> z \<Longrightarrow> x \<le> z" by (auto simp: less_eq_rank_key_def)
  show "x \<le> y \<Longrightarrow> y \<le> x \<Longrightarrow> x = y" by (auto simp: less_eq_rank_key_def rank_key.expand)
  show "x \<le> y \<or> y \<le> x" by (auto simp: less_eq_rank_key_def)
qed (rule less_rank_key_def)

end

section \<open>The bandit\<close>

record bandit =
  Sig :: string
  BudgetCalls :: int
  Off :: bool
  Pinned :: "string list"
  Skip :: "string list"
  promoted :: "arm list"

type_synonym stats = "(arm \<times> stat) list"

definition stat_of :: "stats \<Rightarrow> arm \<Rightarrow> stat" where
  "stat_of ss a = (case map_of ss a of None \<Rightarrow> no_stat | Some s \<Rightarrow> s)"

definition failPenalty :: rat where "failPenalty = 1 / 2"
definition costWeight :: rat where "costWeight = 1"

definition doc_bucket :: "int \<Rightarrow> string" where
  "doc_bucket docs = (if docs < 4 then ''1-3'' else if docs < 10 then ''4-9'' else ''10+'')"

definition Signature :: "(string \<Rightarrow> string) \<Rightarrow> string \<Rightarrow> string \<Rightarrow> string \<Rightarrow> string \<Rightarrow> int \<Rightarrow> string" where
  "Signature upper workflow practice jurisdiction leadModel docs =
     str_join [workflow, practice, fst (str_cut (upper jurisdiction) ''-''), leadModel, doc_bucket docs] ''|''"

definition score_of :: "(rat \<Rightarrow> rat \<Rightarrow> rat) \<Rightarrow> bandit \<Rightarrow> stat \<Rightarrow> rat \<Rightarrow> arm \<Rightarrow> score" where
  "score_of ucb b s tot a =
     (if stN s \<le> 0 then (if a \<in> set (promoted b) then Fin (ucb tot 0) else PosInf)
      else Fin ((stReward s - failPenalty * stFails s
                  - costWeight * stCalls s / of_int (max (BudgetCalls b) 1)) / stN s + ucb tot (stN s)))"

record ranked =
  rkArm :: arm
  rkStat :: stat
  rkScore :: score

definition rank_key_of :: "ranked \<Rightarrow> rank_key" where
  "rank_key_of r = RankKey (rkScore r) (armTool (rkArm r)) (armModel (rkArm r))"

definition ranking :: "(rat \<Rightarrow> rat \<Rightarrow> rat) \<Rightarrow> bandit \<Rightarrow> stats \<Rightarrow> arm list \<Rightarrow> ranked list" where
  "ranking ucb b ss arms =
     (let tot = sum_list (map (\<lambda>kv. stN (snd kv)) ss) in
      sort_key rank_key_of
        (map (\<lambda>a. \<lparr>rkArm = a, rkStat = stat_of ss a, rkScore = score_of ucb b (stat_of ss a) tot a\<rparr>) arms))"

text \<open>\<^verbatim>\<open>rank\<close>: the ranking, and the bandit that has offered the untried arm it put first.\<close>

definition rank :: "(rat \<Rightarrow> rat \<Rightarrow> rat) \<Rightarrow> bandit \<Rightarrow> stats \<Rightarrow> arm list \<Rightarrow> ranked list \<times> bandit" where
  "rank ucb b ss arms =
     (let out = ranking ucb b ss arms in
      (out, case out of
              r # _ \<Rightarrow> if rkScore r = PosInf then b\<lparr>promoted := rkArm r # promoted b\<rparr> else b
            | [] \<Rightarrow> b))"

text \<open>A tool's record over all its models.\<close>

definition tool_arm :: "string \<Rightarrow> arm" where
  "tool_arm t = \<lparr>armTool = t, armModel = []\<rparr>"

definition add_to :: "stats \<Rightarrow> arm \<times> stat \<Rightarrow> stats" where
  "add_to acc kv = (let k = tool_arm (armTool (fst kv)) in
     AList.update k (plus_stat (stat_of acc k) (snd kv)) acc)"

definition by_tool :: "stats \<Rightarrow> stats" where
  "by_tool ss = foldl add_to [] ss"

definition hint_part :: "(rat \<Rightarrow> string) \<Rightarrow> ranked \<Rightarrow> string" where
  "hint_part fmt r =
     (if stN (rkStat r) = 0 then armTool (rkArm r) @ '' untried''
      else armTool (rkArm r) @ '' '' @ fmt (stReward (rkStat r) / stN (rkStat r)) @ '' (''
             @ itoa (floor (stN (rkStat r))) @ '' calls)'')"

definition hint_pinned :: "bandit \<Rightarrow> string list \<Rightarrow> string list" where
  "hint_pinned b visible = filter (\<lambda>p. p \<in> set visible) (Pinned b)"

definition hint_arms :: "bandit \<Rightarrow> string list \<Rightarrow> arm list" where
  "hint_arms b visible = map tool_arm (filter (\<lambda>t. t \<notin> set (Pinned b) \<and> t \<notin> set (Skip b)) visible)"

definition Hint ::
  "(rat \<Rightarrow> rat \<Rightarrow> rat) \<Rightarrow> (rat \<Rightarrow> string) \<Rightarrow> bandit option \<Rightarrow> stats option \<Rightarrow> string list \<Rightarrow> string \<times> bandit option" where
  "Hint ucb fmt bo so visible = (case (bo, so) of
     (Some b, Some ss) \<Rightarrow>
       if Off b then ([], bo)
       else (let (rs, b') = rank ucb b (by_tool ss) (hint_arms b visible) in
             (''Track record for this kind of task (a hint, not a rule; every tool stays available): ''
                @ str_join (hint_pinned b visible) '', '' @ ''; then '' @ str_join (map (hint_part fmt) rs) '', '' @ ''.'',
              Some b'))
   | _ \<Rightarrow> ([], bo))"

text \<open>\<^verbatim>\<open>PickModel\<close>: \<open>so\<close> is what the store loads, \<^const>\<open>None\<close> when it fails.\<close>

definition PickModel ::
  "(rat \<Rightarrow> rat \<Rightarrow> rat) \<Rightarrow> bandit option \<Rightarrow> stats option \<Rightarrow> string \<Rightarrow> string list \<Rightarrow> string \<times> bandit option" where
  "PickModel ucb bo so tool candidates =
     (case candidates of
        [] \<Rightarrow> ([], bo)
      | m # ms \<Rightarrow>
         (case bo of
            None \<Rightarrow> (m, bo)
          | Some b \<Rightarrow>
             if Off b \<or> ms = [] then (m, bo)
             else (case so of
                     None \<Rightarrow> (m, bo)
                   | Some ss \<Rightarrow>
                      (let (rs, b') = rank ucb b ss (map (\<lambda>m. \<lparr>armTool = tool, armModel = m\<rparr>) candidates) in
                       (armModel (rkArm (hd rs)), Some b')))))"

text \<open>\<^verbatim>\<open>Record\<close>: what is added to the store, if anything.\<close>

definition Record :: "bandit option \<Rightarrow> arm \<Rightarrow> rat \<Rightarrow> bool \<Rightarrow> usage \<Rightarrow> (string \<times> arm \<times> stat) option" where
  "Record bo a reward failed u = (case bo of
     None \<Rightarrow> None
   | Some b \<Rightarrow>
      if armTool a \<in> set (Skip b) then None
      else Some (Sig b, a, \<lparr>stN = 1, stReward = reward, stRewardSq = reward * reward,
             stFails = (if failed then 1 else 0), stCalls = of_int (uCalls u),
             stTokens = of_int (uInput u + uOutput u)\<rparr>))"

section \<open>The ranking\<close>

lemma ranking_arms: "mset (map rkArm (ranking ucb b ss arms)) = mset arms"
proof -
  define f where "f a = \<lparr>rkArm = a, rkStat = stat_of ss a,
      rkScore = score_of ucb b (stat_of ss a) (sum_list (map (\<lambda>kv. stN (snd kv)) ss)) a\<rparr>" for a
  have f: "rkArm \<circ> f = id" by (auto simp: f_def)
  have "mset (map rkArm (ranking ucb b ss arms)) = image_mset rkArm (mset (sort_key rank_key_of (map f arms)))"
    unfolding ranking_def Let_def f_def [abs_def] by simp
  also have "\<dots> = image_mset (rkArm \<circ> f) (mset arms)" by (simp add: multiset.map_comp)
  finally show ?thesis by (simp add: f)
qed

lemma ranking_nonempty: "arms \<noteq> [] \<Longrightarrow> ranking ucb b ss arms \<noteq> []"
  using ranking_arms [of ucb b ss arms] by auto

lemma ranking_first:
  assumes "a \<in> set arms"
  shows "rank_key_of (hd (ranking ucb b ss arms))
    \<le> RankKey (score_of ucb b (stat_of ss a) (sum_list (map (\<lambda>kv. stN (snd kv)) ss)) a) (armTool a) (armModel a)"
proof -
  define rs where "rs = ranking ucb b ss arms"
  define r where "r = \<lparr>rkArm = a, rkStat = stat_of ss a,
      rkScore = score_of ucb b (stat_of ss a) (sum_list (map (\<lambda>kv. stN (snd kv)) ss)) a\<rparr>"
  have "r \<in> set rs" using assms by (auto simp: rs_def ranking_def r_def)
  moreover have "sorted (map rank_key_of rs)" by (simp add: rs_def ranking_def Let_def)
  ultimately have "rank_key_of (hd rs) \<le> rank_key_of r" by (cases rs) auto
  then show ?thesis by (simp add: rs_def r_def rank_key_of_def)
qed

lemma ranking_hd:
  assumes "arms \<noteq> []"
  shows "rkArm (hd (ranking ucb b ss arms)) \<in> set arms"
    and "rkScore (hd (ranking ucb b ss arms)) = score_of ucb b (stat_of ss (rkArm (hd (ranking ucb b ss arms))))
           (sum_list (map (\<lambda>kv. stN (snd kv)) ss)) (rkArm (hd (ranking ucb b ss arms)))"
proof -
  have "hd (ranking ucb b ss arms) \<in> set (ranking ucb b ss arms)"
    using ranking_nonempty [OF assms] by simp
  then show "rkArm (hd (ranking ucb b ss arms)) \<in> set arms"
    and "rkScore (hd (ranking ucb b ss arms)) = score_of ucb b (stat_of ss (rkArm (hd (ranking ucb b ss arms))))
           (sum_list (map (\<lambda>kv. stN (snd kv)) ss)) (rkArm (hd (ranking ucb b ss arms)))"
    by (auto simp: ranking_def Let_def)
qed

text \<open>
  A hint hides no tool: the ranking behind it lists exactly the visible tools that are neither pinned
  nor outside the bandit, each as often as it is visible, whatever their records.
\<close>

theorem hint_lists_every_tool:
  "image_mset (armTool \<circ> rkArm) (mset (fst (rank ucb b (by_tool ss) (hint_arms b visible))))
     = filter_mset (\<lambda>t. t \<notin> set (Pinned b) \<and> t \<notin> set (Skip b)) (mset visible)"
proof -
  have "image_mset (armTool \<circ> rkArm) (mset (fst (rank ucb b (by_tool ss) (hint_arms b visible))))
      = image_mset armTool (mset (map rkArm (ranking ucb b (by_tool ss) (hint_arms b visible))))"
    by (simp add: rank_def Let_def multiset.map_comp)
  also have "\<dots> = image_mset armTool (mset (hint_arms b visible))" by (simp only: ranking_arms)
  also have "\<dots> = mset (filter (\<lambda>t. t \<notin> set (Pinned b) \<and> t \<notin> set (Skip b)) visible)"
    by (simp add: hint_arms_def tool_arm_def multiset.map_comp comp_def)
  finally show ?thesis by simp
qed

section \<open>Every model is tried\<close>

definition pair_arm :: "string \<Rightarrow> string \<Rightarrow> arm" where
  "pair_arm tool m = \<lparr>armTool = tool, armModel = m\<rparr>"

definition unoffered :: "bandit \<Rightarrow> string \<Rightarrow> string list \<Rightarrow> string list" where
  "unoffered b tool ms = filter (\<lambda>m. pair_arm tool m \<notin> set (promoted b)) ms"

lemma PickModel_rank:
  assumes "\<not> Off b" and "2 \<le> length ms"
  shows "PickModel ucb (Some b) (Some ss) tool ms
    = (armModel (rkArm (hd (ranking ucb b ss (map (pair_arm tool) ms)))),
       Some (snd (rank ucb b ss (map (pair_arm tool) ms))))"
  using assms by (cases ms rule: remdups_adj.cases) (auto simp: PickModel_def rank_def Let_def pair_arm_def [abs_def])

text \<open>An untried model that was never offered is picked before any other.\<close>

lemma pick_unoffered:
  assumes "\<not> Off b" and "2 \<le> length ms" and "unoffered b tool ms \<noteq> []"
    and "\<forall>m \<in> set (unoffered b tool ms). stN (stat_of ss (pair_arm tool m)) \<le> 0"
  shows "\<exists>m b'. PickModel ucb (Some b) (Some ss) tool ms = (m, Some b') \<and> m \<in> set (unoffered b tool ms)
    \<and> promoted b' = pair_arm tool m # promoted b \<and> Off b' = Off b"
proof -
  let ?rs = "ranking ucb b ss (map (pair_arm tool) ms)"
  have ne: "map (pair_arm tool) ms \<noteq> []" using assms(2) by auto
  obtain a where a: "a \<in> set ms" "pair_arm tool a \<notin> set (promoted b)" "stN (stat_of ss (pair_arm tool a)) \<le> 0"
    using hd_in_set [OF assms(3)] assms(4) by (auto simp: unoffered_def)
  have inf: "score_of ucb b (stat_of ss (pair_arm tool a)) t (pair_arm tool a) = PosInf" for t
    using a by (simp add: score_of_def)
  have "rank_key_of (hd ?rs) \<le> RankKey PosInf (armTool (pair_arm tool a)) (armModel (pair_arm tool a))"
    using ranking_first [of "pair_arm tool a" "map (pair_arm tool) ms" ucb b ss] a(1) inf by simp
  then have top: "rkScore (hd ?rs) = PosInf"
    by (cases "rkScore (hd ?rs)") (auto simp: less_eq_rank_key_def rank_key_of_def less_score_def)
  obtain m where m: "m \<in> set ms" "rkArm (hd ?rs) = pair_arm tool m" using ranking_hd(1) [OF ne, of ucb b ss] by auto
  have "pair_arm tool m \<notin> set (promoted b)"
    using ranking_hd(2) [OF ne, of ucb b ss] top m by (auto simp: score_of_def split: if_splits)
  then have "m \<in> set (unoffered b tool ms)" using m(1) by (simp add: unoffered_def)
  moreover have "promoted (snd (rank ucb b ss (map (pair_arm tool) ms))) = pair_arm tool m # promoted b
      \<and> Off (snd (rank ucb b ss (map (pair_arm tool) ms))) = Off b"
    using top m ranking_nonempty [OF ne, of ucb b ss]
    by (cases ?rs) (auto simp: rank_def Let_def)
  ultimately show ?thesis
    using PickModel_rank [OF assms(1,2), of ucb ss tool] m(2) by (simp add: pair_arm_def)
qed

text \<open>Successive picks, each over the record as it is then.\<close>

fun pick_runs :: "(rat \<Rightarrow> rat \<Rightarrow> rat) \<Rightarrow> bandit option \<Rightarrow> string \<Rightarrow> string list \<Rightarrow> stats list \<Rightarrow> string list" where
  "pick_runs ucb bo tool ms [] = []"
| "pick_runs ucb bo tool ms (ss # sss) =
     (let (m, bo') = PickModel ucb bo (Some ss) tool ms in m # pick_runs ucb bo' tool ms sss)"

text \<open>The record knows only models that were picked: one never offered has no calls in it.\<close>

fun known_if_offered :: "(rat \<Rightarrow> rat \<Rightarrow> rat) \<Rightarrow> bandit option \<Rightarrow> string \<Rightarrow> string list \<Rightarrow> stats list \<Rightarrow> bool" where
  "known_if_offered ucb bo tool ms [] = True"
| "known_if_offered ucb bo tool ms (ss # sss) =
     ((case bo of None \<Rightarrow> True
       | Some b \<Rightarrow> \<forall>m \<in> set (unoffered b tool ms). stN (stat_of ss (pair_arm tool m)) \<le> 0)
      \<and> known_if_offered ucb (snd (PickModel ucb bo (Some ss) tool ms)) tool ms sss)"

lemma pick_runs_unoffered:
  assumes "distinct ms" and "2 \<le> length ms"
  shows "\<not> Off b \<Longrightarrow> known_if_offered ucb (Some b) tool ms sss \<Longrightarrow> length sss \<le> length (unoffered b tool ms) \<Longrightarrow>
    distinct (pick_runs ucb (Some b) tool ms sss) \<and> set (pick_runs ucb (Some b) tool ms sss) \<subseteq> set (unoffered b tool ms)
    \<and> length (pick_runs ucb (Some b) tool ms sss) = length sss"
proof (induction sss arbitrary: b)
  case (Cons ss sss)
  have ne: "unoffered b tool ms \<noteq> []" using Cons.prems(3) by auto
  obtain m b' where p: "PickModel ucb (Some b) (Some ss) tool ms = (m, Some b')" and m: "m \<in> set (unoffered b tool ms)"
    and b': "promoted b' = pair_arm tool m # promoted b" "Off b' = Off b"
    using pick_unoffered [OF Cons.prems(1) assms(2) ne, of ss ucb] Cons.prems(2) by auto
  have un: "unoffered b' tool ms = filter (\<lambda>x. x \<noteq> m) (unoffered b tool ms)"
    by (auto simp: unoffered_def b' pair_arm_def intro: filter_cong)
  have "distinct (unoffered b tool ms)" using assms(1) by (simp add: unoffered_def)
  then have "unoffered b' tool ms = remove1 m (unoffered b tool ms)"
    unfolding un by (simp add: distinct_remove1_removeAll removeAll_filter_not_eq) (metis (full_types))
  then have "length (unoffered b' tool ms) = length (unoffered b tool ms) - 1"
    using m by (simp add: length_remove1)
  then have "length sss \<le> length (unoffered b' tool ms)" using Cons.prems(3) by simp
  then have "distinct (pick_runs ucb (Some b') tool ms sss)
      \<and> set (pick_runs ucb (Some b') tool ms sss) \<subseteq> set (unoffered b' tool ms)
      \<and> length (pick_runs ucb (Some b') tool ms sss) = length sss"
    using Cons.prems p b' by (intro Cons.IH) auto
  then show ?case using m p by (auto simp: un)
qed simp


definition demo_bandit :: bandit where
  "demo_bandit = \<lparr>Sig = [], BudgetCalls = 100, Off = False, Pinned = [], Skip = [], promoted = []\<rparr>"

definition tried_once :: stat where
  "tried_once = no_stat\<lparr>stN := 1, stReward := 1\<rparr>"


text \<open>Only a candidate is ever picked.\<close>

lemma PickModel_candidate:
  assumes "ms \<noteq> []"
  shows "fst (PickModel ucb bo so tool ms) \<in> set ms"
proof (cases "\<exists>b ss. bo = Some b \<and> so = Some ss \<and> \<not> Off b \<and> 2 \<le> length ms")
  case True
  then obtain b ss where b: "bo = Some b" "so = Some ss" "\<not> Off b" "2 \<le> length ms" by blast
  have "map (pair_arm tool) ms \<noteq> []" using assms by simp
  from ranking_hd(1) [OF this, of ucb b ss] show ?thesis
    using PickModel_rank [OF b(3,4)] by (auto simp: b(1,2) pair_arm_def)
next
  case False
  then show ?thesis using assms
    by (cases ms rule: remdups_adj.cases; cases bo; cases so) (auto simp: PickModel_def)
qed

end
