(* ===== verification/Diff.thy ===== *)
theory Diff
  imports Prelude "HOL-Library.Sublist"
begin

text \<open>
  \<^verbatim>\<open>internal/engine/diff.go\<close>: the line diff by a table of longest common subsequences, the hunks
  around its changes, and the text of a git-style patch.  Reading an item's versions from the
  database is not modelled.
\<close>

section \<open>Lines\<close>

definition nl :: char where "nl = char_of (10 :: nat)"

lemma nl_code: "nl = CHR 0x0A"
  by code_simp

lemma zero_code: "char_of (48 :: nat) = CHR ''0''"
  by code_simp

text \<open>\<^verbatim>\<open>splitLines\<close>: each line keeps its newline.\<close>

fun split_lines :: "string \<Rightarrow> string list" where
  "split_lines [] = []"
| "split_lines (c # s) =
     (if c = nl then [nl] # split_lines s
      else (case split_lines s of [] \<Rightarrow> [[c]] | l # ls \<Rightarrow> (c # l) # ls))"

lemma concat_split_lines [simp]: "concat (split_lines s) = s"
  by (induction s) (auto split: list.splits)

lemma split_lines_nonempty: "l \<in> set (split_lines s) \<Longrightarrow> l \<noteq> []"
proof (induction s arbitrary: l)
  case (Cons c s)
  then show ?case by (cases "split_lines s") (auto split: if_splits)
qed simp

section \<open>The table of longest common subsequences\<close>

text \<open>The reference definition.\<close>

fun lcs :: "'a list \<Rightarrow> 'a list \<Rightarrow> nat" where
  "lcs [] ys = 0"
| "lcs (x # xs) [] = 0"
| "lcs (x # xs) (y # ys) = (if x = y then Suc (lcs xs ys) else max (lcs xs (y # ys)) (lcs (x # xs) ys))"

text \<open>
  The code's table, filled from the last row up and each row from its last column: \<open>next\<close> is the
  row below.
\<close>

fun table_row :: "'a \<Rightarrow> 'a list \<Rightarrow> nat list \<Rightarrow> nat list" where
  "table_row x [] below = [0]"
| "table_row x (y # ys) below =
     (let r = table_row x ys (tl below) in
      (if x = y then hd (tl below) + 1 else max (hd below) (hd r)) # r)"

fun table :: "'a list \<Rightarrow> 'a list \<Rightarrow> nat list list" where
  "table [] ys = [replicate (length ys + 1) 0]"
| "table (x # xs) ys = (let t = table xs ys in table_row x ys (hd t) # t)"

lemma table_row_length [simp]: "length (table_row x ys below) = Suc (length ys)"
  by (induction x ys below rule: table_row.induct) (simp_all add: Let_def)

lemma table_nonempty [simp]: "table xs ys \<noteq> []"
  by (cases xs) (simp_all add: Let_def)

lemma table_hd_length [simp]: "length (hd (table xs ys)) = Suc (length ys)"
  by (cases xs) (simp_all add: Let_def)

lemma lcs_Nil2 [simp]: "lcs xs [] = 0"
  by (cases xs) simp_all

lemma table_row_nth:
  assumes "length below = Suc (length ys)" and "\<And>j. j \<le> length ys \<Longrightarrow> below ! j = lcs xs (drop j ys)"
  shows "j \<le> length ys \<Longrightarrow> table_row x ys below ! j = lcs (x # xs) (drop j ys)"
  using assms
proof (induction x ys below arbitrary: j rule: table_row.induct)
  case (2 x y ys below)
  obtain b0 bs where below: "below = b0 # bs" using "2.prems"(2) by (cases below) auto
  have bs: "length bs = Suc (length ys)" "bs ! k = lcs xs (drop k ys)" if "k \<le> length ys" for k
    using "2.prems"(2) "2.prems"(3) [of "Suc k"] that by (simp_all add: below)
  have row: "table_row x ys bs ! k = lcs (x # xs) (drop k ys)" if "k \<le> length ys" for k
    using "2.IH" [of k] that bs by (simp add: below)
  have hds: "hd bs = lcs xs ys" "b0 = lcs xs (y # ys)" "hd (table_row x ys bs) = lcs (x # xs) ys"
    using bs(1) [of 0] bs(2) [of 0] "2.prems"(3) [of 0] row [of 0] table_row_length [of x ys bs]
    by (auto simp: below hd_conv_nth simp flip: length_greater_0_conv)
  show ?case
  proof (cases j)
    case 0
    then show ?thesis by (simp add: Let_def below hds)
  next
    case (Suc k)
    then show ?thesis using row [of k] "2.prems"(1) by (simp add: Let_def below)
  qed
qed simp

text \<open>The table holds the reference values.\<close>

lemma table_nth:
  "i \<le> length xs \<Longrightarrow> j \<le> length ys \<Longrightarrow> table xs ys ! i ! j = lcs (drop i xs) (drop j ys)"
proof (induction xs arbitrary: i j)
  case Nil
  then show ?case by (simp add: nth_append less_Suc_eq_le del: replicate_Suc)
next
  case (Cons x xs)
  have hd: "hd (table xs ys) ! j = lcs xs (drop j ys)" if "j \<le> length ys" for j
    using Cons.IH [of 0 j] that by (simp add: hd_conv_nth)
  show ?case
  proof (cases i)
    case 0
    then show ?thesis using table_row_nth [OF table_hd_length hd, of j x] Cons.prems by (simp add: Let_def)
  next
    case (Suc k)
    then show ?thesis using Cons by (simp add: Let_def)
  qed
qed

section \<open>The diff\<close>

datatype op = Same | Removed | Added

record edit =
  eOp :: op
  eLine :: string

definition maxDiffCells :: nat where "maxDiffCells = 4000000"

function walk :: "nat list list \<Rightarrow> string list \<Rightarrow> string list \<Rightarrow> nat \<Rightarrow> nat \<Rightarrow> edit list" where
  "walk t a b i j =
     (if \<not> (i < length a \<or> j < length b) then []
      else if i < length a \<and> j < length b \<and> a ! i = b ! j
      then \<lparr>eOp = Same, eLine = a ! i\<rparr> # walk t a b (i + 1) (j + 1)
      else if i < length a \<and> (j = length b \<or> t ! (i + 1) ! j \<ge> t ! i ! (j + 1))
      then \<lparr>eOp = Removed, eLine = a ! i\<rparr> # walk t a b (i + 1) j
      else if j < length b then \<lparr>eOp = Added, eLine = b ! j\<rparr> # walk t a b i (j + 1)
      else [])"
  by pat_completeness auto
termination
  by (relation "measure (\<lambda>(t, a, b, i, j). (length a - i) + (length b - j))") auto

declare walk.simps [simp del]

definition line_diff :: "string list \<Rightarrow> string list \<Rightarrow> edit list" where
  "line_diff a b =
     (if length a * length b > maxDiffCells
      then map (\<lambda>l. \<lparr>eOp = Removed, eLine = l\<rparr>) a @ map (\<lambda>l. \<lparr>eOp = Added, eLine = l\<rparr>) b
      else walk (table a b) a b 0 0)"

text \<open>The two sides of a diff, and the lines it keeps.\<close>

definition old_side :: "edit list \<Rightarrow> string list" where
  "old_side es = map eLine (filter (\<lambda>e. eOp e \<noteq> Added) es)"

definition new_side :: "edit list \<Rightarrow> string list" where
  "new_side es = map eLine (filter (\<lambda>e. eOp e \<noteq> Removed) es)"

definition kept :: "edit list \<Rightarrow> nat" where
  "kept es = length (filter (\<lambda>e. eOp e = Same) es)"

lemma side_simps [simp]:
  "old_side [] = []" "new_side [] = []" "kept [] = 0"
  "old_side (\<lparr>eOp = Same, eLine = l\<rparr> # es) = l # old_side es"
  "old_side (\<lparr>eOp = Removed, eLine = l\<rparr> # es) = l # old_side es"
  "old_side (\<lparr>eOp = Added, eLine = l\<rparr> # es) = old_side es"
  "new_side (\<lparr>eOp = Same, eLine = l\<rparr> # es) = l # new_side es"
  "new_side (\<lparr>eOp = Removed, eLine = l\<rparr> # es) = new_side es"
  "new_side (\<lparr>eOp = Added, eLine = l\<rparr> # es) = l # new_side es"
  "kept (\<lparr>eOp = Same, eLine = l\<rparr> # es) = Suc (kept es)"
  "kept (\<lparr>eOp = Removed, eLine = l\<rparr> # es) = kept es"
  "kept (\<lparr>eOp = Added, eLine = l\<rparr> # es) = kept es"
  "old_side (es @ fs) = old_side es @ old_side fs" "new_side (es @ fs) = new_side es @ new_side fs"
  by (simp_all add: old_side_def new_side_def kept_def)

lemma walk_sides:
  "i \<le> length a \<Longrightarrow> j \<le> length b \<Longrightarrow>
     old_side (walk t a b i j) = drop i a \<and> new_side (walk t a b i j) = drop j b"
proof (induction t a b i j rule: walk.induct)
  case (1 t a b i j)
  consider (fin) "\<not> (i < length a \<or> j < length b)"
    | (same) "i < length a" "j < length b" "a ! i = b ! j"
    | (rem) "\<not> (i < length a \<and> j < length b \<and> a ! i = b ! j)" "i < length a"
        "j = length b \<or> t ! (i + 1) ! j \<ge> t ! i ! (j + 1)"
    | (add) "\<not> (i < length a \<and> j < length b \<and> a ! i = b ! j)" "j < length b"
        "\<not> (i < length a \<and> (j = length b \<or> t ! (i + 1) ! j \<ge> t ! i ! (j + 1)))"
    using "1.prems" by fastforce
  then show ?case
  proof cases
    case fin
    then show ?thesis by (subst (1 2) walk.simps) simp
  next
    case same
    then show ?thesis using "1.IH"(1) Cons_nth_drop_Suc [of i a] Cons_nth_drop_Suc [of j b]
      by (subst (1 2) walk.simps) simp
  next
    case rem
    then have ns: "\<not> (j < length b \<and> a ! i = b ! j)" by blast
    then show ?thesis using rem "1.IH"(2) "1.prems" Cons_nth_drop_Suc [of i a]
      by (subst (1 2) walk.simps) auto
  next
    case add
    then show ?thesis using "1.IH"(3) "1.prems" Cons_nth_drop_Suc [of j b]
      by (subst (1 2) walk.simps) auto
  qed
qed

lemma line_diff_sides: "old_side (line_diff a b) = a" "new_side (line_diff a b) = b"
proof -
  have r: "old_side (map (\<lambda>l. \<lparr>eOp = Removed, eLine = l\<rparr>) a) = a" "new_side (map (\<lambda>l. \<lparr>eOp = Removed, eLine = l\<rparr>) a) = []"
    "old_side (map (\<lambda>l. \<lparr>eOp = Added, eLine = l\<rparr>) b) = []" "new_side (map (\<lambda>l. \<lparr>eOp = Added, eLine = l\<rparr>) b) = b"
    by (simp_all add: old_side_def new_side_def filter_map comp_def)
  show "old_side (line_diff a b) = a" "new_side (line_diff a b) = b"
    using walk_sides [of 0 a 0 b "table a b"] r by (simp_all add: line_diff_def)
qed

lemma walk_kept:
  "i \<le> length a \<Longrightarrow> j \<le> length b \<Longrightarrow> t = table a b \<Longrightarrow> kept (walk t a b i j) = lcs (drop i a) (drop j b)"
proof (induction t a b i j rule: walk.induct)
  case (1 t a b i j)
  have tn: "t ! k ! l = lcs (drop k a) (drop l b)" if "k \<le> length a" "l \<le> length b" for k l
    using that "1.prems"(3) by (simp add: table_nth)
  consider (fin) "\<not> (i < length a \<and> j < length b)"
    | (same) "i < length a" "j < length b" "a ! i = b ! j"
    | (rem) "i < length a" "j < length b" "a ! i \<noteq> b ! j" "t ! (i + 1) ! j \<ge> t ! i ! (j + 1)"
    | (add) "i < length a" "j < length b" "a ! i \<noteq> b ! j" "\<not> t ! (i + 1) ! j \<ge> t ! i ! (j + 1)"
    by blast
  then show ?case
  proof cases
    case fin
    have nosame: "lcs (drop i a) (drop j b) = 0" using fin "1.prems" by (cases "i < length a") auto
    show ?thesis
    proof (cases "i < length a")
      case True
      then have "j = length b" using fin "1.prems"(2) by simp
      then show ?thesis using True "1.IH"(2) "1.prems" nosame by (subst walk.simps) simp
    next
      case False
      then have "i = length a" using "1.prems"(1) by simp
      then show ?thesis using "1.IH"(3) "1.prems" nosame by (subst walk.simps) auto
    qed
  next
    case same
    then show ?thesis using "1.IH"(1) "1.prems"(3) Cons_nth_drop_Suc [of i a, symmetric] Cons_nth_drop_Suc [of j b, symmetric]
      by (subst walk.simps) simp
  next
    case rem
    then show ?thesis using "1.IH"(2) "1.prems"(3) Cons_nth_drop_Suc [of i a, symmetric] Cons_nth_drop_Suc [of j b, symmetric]
        tn [of "i + 1" j] tn [of i "j + 1"]
      by (subst walk.simps) simp
  next
    case add
    then show ?thesis using "1.IH"(3) "1.prems"(3) Cons_nth_drop_Suc [of i a, symmetric] Cons_nth_drop_Suc [of j b, symmetric]
        tn [of "i + 1" j] tn [of i "j + 1"]
      by (subst walk.simps) simp
  qed
qed

text \<open>No common subsequence is longer than the reference value.\<close>

lemma subseq_lcs: "subseq zs xs \<Longrightarrow> subseq zs ys \<Longrightarrow> length zs \<le> lcs xs ys"
proof (induction xs ys arbitrary: zs rule: lcs.induct)
  case (3 x xs y ys)
  show ?case
  proof (cases zs)
    case (Cons z zs')
    show ?thesis
    proof (cases "x = y")
      case True
      have "subseq zs' xs" "subseq zs' ys"
        using "3.prems" Cons by (auto simp: subseq_Cons2_iff split: if_splits dest: subseq_Cons')
      then show ?thesis using "3.IH"(1) [OF True] True Cons by simp
    next
      case False
      then consider "z \<noteq> x" | "z \<noteq> y" by blast
      then show ?thesis
      proof cases
        case 1
        then have "subseq zs xs" using "3.prems"(1) Cons by (simp add: subseq_Cons2_iff)
        then show ?thesis using "3.IH"(2) [OF False, of zs] "3.prems"(2) False by simp
      next
        case 2
        then have "subseq zs ys" using "3.prems"(2) Cons by (simp add: subseq_Cons2_iff)
        then show ?thesis using "3.IH"(3) [OF False, of zs] "3.prems"(1) False by simp
      qed
    qed
  qed simp
qed auto

section \<open>Hunks\<close>

definition diffContext :: nat where "diffContext = 3"

text \<open>The end of the run of unchanged edits from an index.\<close>

function same_run :: "edit list \<Rightarrow> nat \<Rightarrow> nat" where
  "same_run es i = (if i < length es \<and> eOp (es ! i) = Same then same_run es (i + 1) else i)"
  by pat_completeness auto
termination by (relation "measure (\<lambda>(es, i). length es - i)") auto

declare same_run.simps [simp del]

lemma same_run_ge: "i \<le> same_run es i"
proof (induction es i rule: same_run.induct)
  case (1 es i)
  then show ?case by (subst same_run.simps) auto
qed

lemma same_run_le: "i \<le> length es \<Longrightarrow> same_run es i \<le> length es"
proof (induction es i rule: same_run.induct)
  case (1 es i)
  then show ?case by (subst same_run.simps) auto
qed

lemma same_run_gt: "i < length es \<Longrightarrow> eOp (es ! i) = Same \<Longrightarrow> i < same_run es i"
  using same_run_ge [of "i + 1" es] by (subst same_run.simps) simp

lemma same_run_same: "i \<le> k \<Longrightarrow> k < same_run es i \<Longrightarrow> eOp (es ! k) = Same"
proof (induction es i rule: same_run.induct)
  case (1 es i)
  show ?case
  proof (cases "i < length es \<and> eOp (es ! i) = Same")
    case True
    then have "k < same_run es (i + 1)" using "1.prems"(2) by (subst (asm) same_run.simps) simp
    then show ?thesis using "1.IH" True "1.prems"(1) by (cases "k = i") auto
  next
    case False
    then show ?thesis using "1.prems" by (subst (asm) same_run.simps) auto
  qed
qed

text \<open>
  The end of the hunk around a change: the context after the last change that is not followed by
  another within twice the context.
\<close>

function hunk_end :: "edit list \<Rightarrow> nat \<Rightarrow> nat" where
  "hunk_end es e =
     (if e \<ge> length es then e
      else if eOp (es ! e) \<noteq> Same then hunk_end es (e + 1)
      else (let run = same_run es e in
            if run = length es \<or> run - e > 2 * diffContext then min run (e + diffContext)
            else hunk_end es run))"
  by pat_completeness auto
termination
proof (relation "measure (\<lambda>(es, e). length es - e)", goal_cases)
  case (3 es e run)
  then show ?case using same_run_gt [of e es] by auto
qed auto

declare hunk_end.simps [simp del]

lemma hunk_end_ge: "e \<le> hunk_end es e"
proof (induction es e rule: hunk_end.induct)
  case (1 es e)
  show ?case
  proof (cases "e < length es \<and> eOp (es ! e) = Same")
    case True
    let ?run = "same_run es e"
    have "e \<le> hunk_end es ?run" if "\<not> (?run = length es \<or> ?run - e > 2 * diffContext)"
      using "1.IH"(2) [OF _ _ refl that] True same_run_ge [of e es] by simp
    then show ?thesis using True same_run_ge [of e es] by (subst hunk_end.simps) (auto simp: Let_def)
  next
    case False
    then show ?thesis using "1.IH"(1) by (subst hunk_end.simps) auto
  qed
qed

text \<open>A hunk: its first line in each text counted from 0, its lengths there, and its edits.\<close>

record hunk =
  hOld :: nat
  hOldLen :: nat
  hNew :: nat
  hNewLen :: nat
  hEdits :: "edit list"

definition slice :: "'a list \<Rightarrow> nat \<Rightarrow> nat \<Rightarrow> 'a list" where
  "slice xs i j = take (j - i) (drop i xs)"

definition hunk_at :: "edit list \<Rightarrow> nat \<Rightarrow> nat \<Rightarrow> hunk" where
  "hunk_at es start fin =
     \<lparr>hOld = length (old_side (take start es)), hOldLen = length (old_side (slice es start fin)),
      hNew = length (new_side (take start es)), hNewLen = length (new_side (slice es start fin)),
      hEdits = slice es start fin\<rparr>"

function hunks :: "edit list \<Rightarrow> nat \<Rightarrow> hunk list" where
  "hunks es k =
     (if k \<ge> length es then []
      else if eOp (es ! k) = Same then hunks es (k + 1)
      else (let fin = hunk_end es k in hunk_at es (k - diffContext) fin # hunks es fin))"
  by pat_completeness auto
termination
proof (relation "measure (\<lambda>(es, k). length es - k)", goal_cases)
  case (3 es k fin)
  have "hunk_end es k = hunk_end es (k + 1)" using 3 by (subst hunk_end.simps) simp
  then show ?case using 3 hunk_end_ge [of "k + 1" es] by auto
qed auto

declare hunks.simps [simp del]

text \<open>The text of a hunk.\<close>

definition hunk_range :: "nat \<Rightarrow> nat \<Rightarrow> string" where
  "hunk_range before n =
     (if n = 0 then digits_of before @ '',0''
      else if n = 1 then digits_of (before + 1)
      else digits_of (before + 1) @ '','' @ digits_of n)"

fun op_byte :: "op \<Rightarrow> char" where
  "op_byte Same = CHR '' ''"
| "op_byte Removed = CHR ''-''"
| "op_byte Added = CHR ''+''"

definition no_newline :: string where
  "no_newline = CHR 0x5C # '' No newline at end of file'' @ [nl]"

definition edit_text :: "edit \<Rightarrow> string" where
  "edit_text e = op_byte (eOp e) # trim_suffix (eLine e) [nl] @ [nl] @
     (if has_suffix (eLine e) [nl] then [] else no_newline)"

definition hunk_text :: "hunk \<Rightarrow> string" where
  "hunk_text h = ''@@ -'' @ hunk_range (hOld h) (hOldLen h) @ '' +'' @ hunk_range (hNew h) (hNewLen h) @
     '' @@'' @ [nl] @ concat (map edit_text (hEdits h))"

definition text_hunks :: "string \<Rightarrow> string \<Rightarrow> hunk list" where
  "text_hunks a b = hunks (line_diff (split_lines a) (split_lines b)) 0"

definition unified_hunks :: "string \<Rightarrow> string \<Rightarrow> string" where
  "unified_hunks a b = concat (map hunk_text (text_hunks a b))"

section \<open>Applying a patch\<close>

text \<open>
  What a patch program does with the hunks: it copies the lines before each hunk, checks that the
  hunk's old lines (context and removals) are the text's next lines, and writes its new lines.
\<close>

fun apply_hunks :: "hunk list \<Rightarrow> nat \<Rightarrow> string list \<Rightarrow> string list option" where
  "apply_hunks [] pos old = Some old"
| "apply_hunks (h # hs) pos old =
     (if hOld h < pos \<or> length old < hOld h - pos then None
      else (let rest = drop (hOld h - pos) old in
        if take (hOldLen h) rest = old_side (hEdits h) \<and> hOldLen h = length (old_side (hEdits h))
        then map_option (\<lambda>out. take (hOld h - pos) old @ new_side (hEdits h) @ out)
               (apply_hunks hs (hOld h + hOldLen h) (drop (hOldLen h) rest))
        else None))"

lemma sides_all_same:
  "(\<And>e. e \<in> set es \<Longrightarrow> eOp e = Same) \<Longrightarrow> old_side es = new_side es"
  by (simp add: old_side_def new_side_def filter_True)

lemma slice_split: "i \<le> j \<Longrightarrow> drop i xs = slice xs i j @ drop j xs"
  unfolding slice_def by (metis append_take_drop_id drop_drop le_add_diff_inverse2)

lemma take_slice: "i \<le> j \<Longrightarrow> take j xs = take i xs @ slice xs i j"
  unfolding slice_def by (metis le_add_diff_inverse take_add)

lemma set_slice: "set (slice xs i j) \<subseteq> {xs ! k | k. i \<le> k \<and> k < j \<and> k < length xs}"
proof
  fix x
  assume "x \<in> set (slice xs i j)"
  then obtain m where "m < length (slice xs i j)" "x = slice xs i j ! m" by (auto simp: in_set_conv_nth)
  then show "x \<in> {xs ! k | k. i \<le> k \<and> k < j \<and> k < length xs}"
    by (intro CollectI exI [of _ "i + m"]) (auto simp: slice_def)
qed

text \<open>After a hunk the next change is at least the context away.\<close>

lemma hunk_end_gap:
  "e \<le> length es \<Longrightarrow> hunk_end es e \<le> length es \<and>
     (\<forall>i. hunk_end es e \<le> i \<and> i < length es \<and> eOp (es ! i) \<noteq> Same \<longrightarrow> hunk_end es e + diffContext \<le> i)"
proof (induction es e rule: hunk_end.induct)
  case (1 es e)
  let ?run = "same_run es e"
  consider (fin) "e \<ge> length es" | (change) "e < length es" "eOp (es ! e) \<noteq> Same"
    | (last) "e < length es" "eOp (es ! e) = Same" "?run = length es \<or> ?run - e > 2 * diffContext"
    | (merge) "e < length es" "eOp (es ! e) = Same" "\<not> (?run = length es \<or> ?run - e > 2 * diffContext)"
    by linarith
  then show ?case
  proof cases
    case fin
    then show ?thesis using "1.prems" by (subst (1 2 3) hunk_end.simps) simp
  next
    case change
    then show ?thesis using "1.IH"(1) by (subst (1 2 3) hunk_end.simps) simp
  next
    case last
    have eq: "hunk_end es e = min ?run (e + diffContext)" using last by (subst hunk_end.simps) (simp add: Let_def)
    have far: "?run \<le> i" if "e \<le> i" "i < length es" "eOp (es ! i) \<noteq> Same" for i
      using that same_run_same [of e i es] by (meson not_less)
    have "hunk_end es e + diffContext \<le> i"
      if i: "hunk_end es e \<le> i" "i < length es" "eOp (es ! i) \<noteq> Same" for i
    proof -
      have "e \<le> i" using i(1) hunk_end_ge [of e es] by simp
      then have r: "?run \<le> i" using far i by blast
      then have "?run - e > 2 * diffContext" using last(3) i(2) by simp
      then show ?thesis using r eq by linarith
    qed
    moreover have "hunk_end es e \<le> length es" using eq same_run_le [of e es] last(1) by simp
    ultimately show ?thesis by blast
  next
    case merge
    have eq: "hunk_end es e = hunk_end es ?run" using merge by (subst hunk_end.simps) (simp add: Let_def)
    show ?thesis unfolding eq
      using "1.IH"(2) [OF _ _ refl merge(3)] merge same_run_le [of e es] by simp
  qed
qed

lemma hunk_end_gt: "k < length es \<Longrightarrow> eOp (es ! k) \<noteq> Same \<Longrightarrow> k < hunk_end es k"
  using hunk_end_ge [of "k + 1" es] by (subst hunk_end.simps) simp

lemma apply_hunks_hunks:
  assumes "p \<le> k"
    and "\<And>i. p \<le> i \<Longrightarrow> i < k \<Longrightarrow> i < length es \<Longrightarrow> eOp (es ! i) = Same"
    and "\<And>i. p \<le> i \<Longrightarrow> i < length es \<Longrightarrow> eOp (es ! i) \<noteq> Same \<Longrightarrow> p = 0 \<or> p + diffContext \<le> i"
  shows "apply_hunks (hunks es k) (length (old_side (take p es))) (old_side (drop p es)) = Some (new_side (drop p es))"
  using assms
proof (induction es k arbitrary: p rule: hunks.induct)
  case (1 es k)
  consider (fin) "k \<ge> length es" | (same) "k < length es" "eOp (es ! k) = Same"
    | (change) "k < length es" "eOp (es ! k) \<noteq> Same"
    by linarith
  then show ?case
  proof cases
    case fin
    have "old_side (drop p es) = new_side (drop p es)"
      using "1.prems"(2) fin by (intro sides_all_same) (auto simp: in_set_conv_nth)
    then show ?thesis using fin by (subst hunks.simps) simp
  next
    case same
    have ge: "p \<le> i \<Longrightarrow> i < k + 1 \<Longrightarrow> i < length es \<Longrightarrow> eOp (es ! i) = Same" for i
      using "1.prems"(2) [of i] same(2) by (cases "i = k") auto
    have step: "apply_hunks (hunks es (k + 1)) (length (old_side (take p es))) (old_side (drop p es)) = Some (new_side (drop p es))"
      using "1.prems"(1) by (intro "1.IH"(1) ge "1.prems"(3)) (use same in auto)
    show ?thesis using step same by (subst hunks.simps) simp
  next
    case change
    define start where "start = k - diffContext"
    define fin where "fin = hunk_end es k"
    have ps: "p \<le> start" "start \<le> k" using "1.prems"(3) [of k] "1.prems"(1) change by (auto simp: start_def)
    have kf: "k < fin" using change hunk_end_gt by (simp add: fin_def)
    have gap: "fin \<le> length es" "fin \<le> i \<Longrightarrow> i < length es \<Longrightarrow> eOp (es ! i) \<noteq> Same \<Longrightarrow> fin + diffContext \<le> i" for i
      using hunk_end_gap [of k es] change(1) by (auto simp: fin_def)
    define A where "A = slice es p start"
    define B where "B = slice es start fin"
    have split: "drop p es = A @ B @ drop fin es"
      using slice_split [OF ps(1), of es] slice_split [of start fin es] ps kf by (simp add: A_def B_def)
    have tk: "take start es = take p es @ A" "take fin es = take p es @ A @ B"
      using take_slice [OF ps(1), of es] take_slice [of start fin es] ps kf by (simp_all add: A_def B_def)
    have same: "old_side A = new_side A"
      using set_slice [of es p start] "1.prems"(2) ps by (intro sides_all_same) (force simp: A_def)
    have rest: "apply_hunks (hunks es fin) (length (old_side (take fin es))) (old_side (drop fin es)) = Some (new_side (drop fin es))"
      unfolding fin_def
      by (rule "1.IH"(2)) (use change gap kf in \<open>auto simp: fin_def\<close>)
    have hs: "hunks es k = hunk_at es start fin # hunks es fin"
      using change by (subst hunks.simps) (simp add: Let_def start_def fin_def)
    show ?thesis using rest same unfolding hs split
      by (simp add: hunk_at_def tk A_def [symmetric] B_def [symmetric] Let_def add.assoc)
  qed
qed

section \<open>Reading a patch\<close>

text \<open>What a patch program reads: the two ranges of a hunk's first line, and its lines by their first byte.\<close>

definition read_num :: "string \<Rightarrow> nat \<times> string" where
  "read_num s = (num_of (takeWhile is_digit_byte s), dropWhile is_digit_byte s)"

definition read_range :: "string \<Rightarrow> (nat \<times> nat) \<times> string" where
  "read_range s =
     (let (n, r) = read_num s in
      if has_prefix r '','' then (let (m, r') = read_num (tl r) in ((if m = 0 then n else n - 1, m), r'))
      else ((n - 1, 1), r))"

definition read_header :: "string \<Rightarrow> ((nat \<times> nat) \<times> (nat \<times> nat)) option" where
  "read_header s =
     (if has_prefix s ''@@ -''
      then (let (old, r) = read_range (drop 4 s) in
            if has_prefix r '' +''
            then (let (new, r') = read_range (drop 2 r) in
                  if has_prefix r' '' @@'' then Some (old, new) else None)
            else None)
      else None)"

definition op_of_line :: "string \<Rightarrow> op option" where
  "op_of_line l =
     (if has_prefix l '' '' then Some Same
      else if has_prefix l ''-'' then Some Removed
      else if has_prefix l ''+'' then Some Added else None)"

function read_edits :: "string list \<Rightarrow> edit list \<times> string list" where
  "read_edits [] = ([], [])"
| "read_edits (l # ls) =
     (case op_of_line l of
        None \<Rightarrow> ([], l # ls)
      | Some k \<Rightarrow>
          (let bare = (ls \<noteq> [] \<and> hd ls = no_newline);
               line = (if bare then butlast (tl l) else tl l);
               (es, rest) = read_edits (if bare then tl ls else ls) in
           (\<lparr>eOp = k, eLine = line\<rparr> # es, rest)))"
  by pat_completeness auto
termination by (relation "measure length") auto

lemma read_edits_shorter: "length (snd (read_edits ls)) \<le> length ls"
proof (induction ls rule: read_edits.induct)
  case (2 l ls)
  show ?case
  proof (cases "op_of_line l")
    case (Some k)
    let ?next = "if ls \<noteq> [] \<and> hd ls = no_newline then tl ls else ls"
    have "length (snd (read_edits ?next)) \<le> length ?next" using "2.IH" [OF Some refl] by simp
    moreover have "length ?next \<le> length ls" by simp
    ultimately show ?thesis using Some by (auto simp: Let_def split: prod.splits)
  qed simp
qed simp

function read_hunks :: "string list \<Rightarrow> hunk list option" where
  "read_hunks [] = Some []"
| "read_hunks (l # ls) =
     (case read_header l of
        None \<Rightarrow> None
      | Some ((a, al), (b, bl)) \<Rightarrow>
          map_option (\<lambda>hs. \<lparr>hOld = a, hOldLen = al, hNew = b, hNewLen = bl, hEdits = fst (read_edits ls)\<rparr> # hs)
            (read_hunks (snd (read_edits ls))))"
  by pat_completeness auto
termination by (relation "measure length") (auto simp: less_Suc_eq_le read_edits_shorter)

text \<open>Numbers read back.\<close>

lemma read_num_digits:
  assumes "r = [] \<or> \<not> is_digit_byte (hd r)"
  shows "read_num (digits_of n @ r) = (n, r)"
proof -
  have all: "takeWhile is_digit_byte (digits_of n) = digits_of n" "dropWhile is_digit_byte (digits_of n) = []"
    using digits_of_digit [of _ n] by (auto simp: takeWhile_eq_all_conv dropWhile_eq_Nil_conv)
  have "takeWhile is_digit_byte r = []" "dropWhile is_digit_byte r = r" using assms by (cases r; simp)+
  then show ?thesis using digits_of_digit [of _ n]
    by (simp add: read_num_def num_of_digits_of takeWhile_append dropWhile_append all)
qed

lemma read_range_text:
  assumes "r = [] \<or> \<not> is_digit_byte (hd r) \<and> hd r \<noteq> CHR '',''"
  shows "read_range (hunk_range a n @ r) = ((a, n), r)"
proof -
  have comma: "read_num (digits_of k @ CHR '','' # s) = (k, CHR '','' # s)" for k s
    by (rule read_num_digits) (simp add: is_digit_byte_def less_eq_char_def)
  have plain: "read_num (digits_of k @ r) = (k, r)" for k using assms by (intro read_num_digits) auto
  have zero: "read_num (CHR ''0'' # r) = (0, r)" using plain [of 0] by (simp add: digits_of.simps [of 0] zero_code)
  have nocomma: "\<not> has_prefix r '',''" using assms by (cases r) (auto simp: has_prefix_def)
  have pre: "has_prefix (CHR '','' # s) '',''" for s by (simp add: has_prefix_def)
  show ?thesis
    by (simp add: read_range_def hunk_range_def comma plain zero nocomma pre)
qed

text \<open>Lines read back.\<close>

definition is_line :: "string \<Rightarrow> bool" where
  "is_line l \<longleftrightarrow> l \<noteq> [] \<and> nl \<notin> set (butlast l)"

lemma split_lines_is_line: "l \<in> set (split_lines s) \<Longrightarrow> is_line l"
proof (induction s arbitrary: l)
  case (Cons c s)
  show ?case
  proof (cases "c = nl")
    case True
    then show ?thesis using Cons by (auto simp: is_line_def)
  next
    case False
    show ?thesis
    proof (cases "split_lines s")
      case Nil
      then show ?thesis using Cons False by (simp add: is_line_def)
    next
      case (Cons x xs)
      then have "is_line x" using Cons.IH [of x] by simp
      then have "is_line (c # x)" using False by (simp add: is_line_def)
      then show ?thesis using Cons.IH Cons.prems False Cons by auto
    qed
  qed
qed simp

lemma op_byte_not_nl [simp]: "op_byte k \<noteq> nl" "nl \<noteq> op_byte k"
  by (cases k; simp add: nl_code)+

lemma split_lines_line: "nl \<notin> set x \<Longrightarrow> split_lines (x @ nl # y) = (x @ [nl]) # split_lines y"
  by (induction x) auto

lemma has_suffix_nl: "has_suffix l [nl] \<longleftrightarrow> l \<noteq> [] \<and> last l = nl"
proof (cases l rule: rev_cases)
  case (snoc xs x)
  then show ?thesis by (simp add: has_suffix_def)
qed (simp add: has_suffix_def)

lemma edit_text_lines:
  assumes "is_line (eLine e)"
  shows "split_lines (edit_text e @ rest) =
     (if last (eLine e) = nl then [op_byte (eOp e) # eLine e]
      else [op_byte (eOp e) # eLine e @ [nl], no_newline]) @ split_lines rest"
proof (cases "last (eLine e) = nl")
  case True
  obtain b where b: "eLine e = b @ [nl]" using assms True by (metis append_butlast_last_id is_line_def)
  have "nl \<notin> set (op_byte (eOp e) # b)" using assms b by (auto simp: is_line_def)
  from split_lines_line [OF this, of rest] show ?thesis
    using b by (simp add: edit_text_def has_suffix_nl trim_suffix_def)
next
  case False
  have "set (eLine e) = insert (last (eLine e)) (set (butlast (eLine e)))"
    using assms by (metis append_butlast_last_id is_line_def list.simps(15) rotate1.simps(2) set_rotate1)
  then have n: "nl \<notin> set (op_byte (eOp e) # eLine e)"
    using assms False by (auto simp: is_line_def)
  have m: "split_lines (no_newline @ rest) = no_newline # split_lines rest"
    using split_lines_line [of "CHR 0x5C # '' No newline at end of file''" rest]
    by (simp add: no_newline_def nl_code)
  show ?thesis using split_lines_line [OF n, of "no_newline @ rest"] m False
    by (simp add: edit_text_def has_suffix_nl trim_suffix_def)
qed

lemma op_of_line_byte [simp]: "op_of_line (op_byte k # l) = Some k"
  by (cases k) (simp_all add: op_of_line_def has_prefix_def)

lemma read_edits_text:
  assumes "\<And>e. e \<in> set es \<Longrightarrow> is_line (eLine e)"
    and "split_lines rest = [] \<or> op_of_line (hd (split_lines rest)) = None \<and> hd (split_lines rest) \<noteq> no_newline"
  shows "read_edits (split_lines (concat (map edit_text es) @ rest)) = (es, split_lines rest)"
  using assms(1)
proof (induction es)
  case Nil
  show ?case using assms(2) by (cases "split_lines rest") auto
next
  case (Cons e es)
  let ?more = "split_lines (concat (map edit_text es) @ rest)"
  have IH: "read_edits ?more = (es, split_lines rest)" using Cons by simp
  have e: "is_line (eLine e)" using Cons.prems by simp
  have head: "?more = [] \<or> hd ?more \<noteq> no_newline"
  proof (cases es)
    case (Cons f fs)
    have "is_line (eLine f)" using Cons.prems Cons by simp
    then show ?thesis using edit_text_lines [of f "concat (map edit_text fs) @ rest"] Cons
      by (cases "eOp f") (auto simp: no_newline_def)
  qed (use assms(2) in auto)
  show ?case
  proof (cases "last (eLine e) = nl")
    case True
    have "split_lines (concat (map edit_text (e # es)) @ rest) = (op_byte (eOp e) # eLine e) # ?more"
      using edit_text_lines [OF e, of "concat (map edit_text es) @ rest"] True by simp
    then show ?thesis using IH head by (auto simp: Let_def)
  next
    case False
    have "split_lines (concat (map edit_text (e # es)) @ rest) =
        (op_byte (eOp e) # eLine e @ [nl]) # no_newline # ?more"
      using edit_text_lines [OF e, of "concat (map edit_text es) @ rest"] False by simp
    then show ?thesis using IH by (simp add: Let_def)
  qed
qed

lemma hunk_range_no_nl: "nl \<notin> set (hunk_range a n)"
proof -
  have d: "nl \<notin> set (digits_of k)" for k
    using digits_of_digit [of nl k] by (auto simp: is_digit_byte_def less_eq_char_def nl_code)
  show ?thesis using d by (simp add: hunk_range_def) (simp add: nl_code)
qed

definition header_line :: "hunk \<Rightarrow> string" where
  "header_line h = ''@@ -'' @ hunk_range (hOld h) (hOldLen h) @ '' +'' @ hunk_range (hNew h) (hNewLen h) @ '' @@'' @ [nl]"

lemma hunk_text_lines:
  "split_lines (hunk_text h @ rest) = header_line h # split_lines (concat (map edit_text (hEdits h)) @ rest)"
proof -
  have "nl \<notin> set (''@@ -'' @ hunk_range (hOld h) (hOldLen h) @ '' +'' @ hunk_range (hNew h) (hNewLen h) @ '' @@'')"
    by (simp add: hunk_range_no_nl) (simp add: nl_code)
  from split_lines_line [OF this, of "concat (map edit_text (hEdits h)) @ rest"] show ?thesis
    by (simp add: hunk_text_def header_line_def)
qed

lemma read_header_line: "read_header (header_line h) = Some ((hOld h, hOldLen h), (hNew h, hNewLen h))"
proof -
  have "read_range (hunk_range (hOld h) (hOldLen h) @ ('' +'' @ hunk_range (hNew h) (hNewLen h) @ '' @@'' @ [nl])) =
      ((hOld h, hOldLen h), '' +'' @ hunk_range (hNew h) (hNewLen h) @ '' @@'' @ [nl])"
    by (rule read_range_text) (simp add: is_digit_byte_def less_eq_char_def)
  moreover have "read_range (hunk_range (hNew h) (hNewLen h) @ ('' @@'' @ [nl])) = ((hNew h, hNewLen h), '' @@'' @ [nl])"
    by (rule read_range_text) (simp add: is_digit_byte_def less_eq_char_def)
  ultimately show ?thesis by (simp add: header_line_def read_header_def has_prefix_def)
qed

lemma read_hunks_text:
  "(\<And>h e. h \<in> set hs \<Longrightarrow> e \<in> set (hEdits h) \<Longrightarrow> is_line (eLine e)) \<Longrightarrow>
     read_hunks (split_lines (concat (map hunk_text hs))) = Some hs"
proof (induction hs)
  case (Cons h hs)
  let ?rest = "concat (map hunk_text hs)"
  have "split_lines ?rest = [] \<or> op_of_line (hd (split_lines ?rest)) = None \<and> hd (split_lines ?rest) \<noteq> no_newline"
  proof (cases hs)
    case (Cons g gs)
    then show ?thesis using hunk_text_lines [of g "concat (map hunk_text gs)"]
      by (simp add: header_line_def op_of_line_def has_prefix_def no_newline_def)
  qed simp
  then have "read_edits (split_lines (concat (map edit_text (hEdits h)) @ ?rest)) = (hEdits h, split_lines ?rest)"
    using Cons.prems by (intro read_edits_text) auto
  moreover have "read_hunks (split_lines ?rest) = Some hs"
    using Cons.prems by (intro Cons.IH) (meson list.set_intros(2))
  ultimately show ?case using hunk_text_lines [of h ?rest] by (simp add: read_header_line)
qed simp

text \<open>The edits of a hunk are edits of the diff, whose lines are lines of the texts.\<close>

lemma hunks_edits: "h \<in> set (hunks es k) \<Longrightarrow> set (hEdits h) \<subseteq> set es"
proof (induction es k rule: hunks.induct)
  case (1 es k)
  have sub: "set (slice es i j) \<subseteq> set es" for i j
    using set_slice [of es i j] nth_mem by fastforce
  then have here: "set (hEdits (hunk_at es i j)) \<subseteq> set es" for i j by (simp add: hunk_at_def)
  show ?case
  proof (cases "k < length es")
    case True
    show ?thesis
    proof (cases "eOp (es ! k) = Same")
      case True
      then show ?thesis using "1.IH"(1) "1.prems" \<open>k < length es\<close> by (subst (asm) (2) hunks.simps) simp
    next
      case False
      then have "h = hunk_at es (k - diffContext) (hunk_end es k) \<or> h \<in> set (hunks es (hunk_end es k))"
        using "1.prems" \<open>k < length es\<close> by (subst (asm) hunks.simps) (simp add: Let_def)
      then show ?thesis using "1.IH"(2) [OF _ False refl] \<open>k < length es\<close> here by auto
    qed
  qed (use "1.prems" in \<open>subst (asm) hunks.simps, simp\<close>)
qed

lemma line_diff_lines: "e \<in> set (line_diff a b) \<Longrightarrow> eLine e \<in> set a \<union> set b"
proof -
  assume e: "e \<in> set (line_diff a b)"
  have "eLine e \<in> set (old_side (line_diff a b)) \<union> set (new_side (line_diff a b))"
    using e by (cases "eOp e") (auto simp: old_side_def new_side_def)
  then show ?thesis by (simp add: line_diff_sides)
qed

lemma read_text_hunks: "read_hunks (split_lines (unified_hunks a b)) = Some (text_hunks a b)"
  unfolding unified_hunks_def
  by (rule read_hunks_text)
    (use hunks_edits line_diff_lines split_lines_is_line in \<open>fastforce simp: text_hunks_def\<close>)

lemma text_hunks_apply: "map_option concat (apply_hunks (text_hunks a b) 0 (split_lines a)) = Some b"
proof -
  have "apply_hunks (hunks es 0) (length (old_side (take 0 es))) (old_side (drop 0 es)) = Some (new_side (drop 0 es))" for es
    by (rule apply_hunks_hunks) auto
  from this [of "line_diff (split_lines a) (split_lines b)"] show ?thesis
    by (simp add: text_hunks_def line_diff_sides)
qed

text \<open>What \<^verbatim>\<open>patch\<close> does with a file's hunks.\<close>

definition patch_text :: "string \<Rightarrow> string \<Rightarrow> string option" where
  "patch_text p old =
     (case read_hunks (split_lines p) of
        None \<Rightarrow> None
      | Some hs \<Rightarrow> map_option concat (apply_hunks hs 0 (split_lines old)))"

text \<open>
  C5. The printed patch of two texts, read back and applied to the old text by its line numbers,
  gives the new text: every line a hunk shows or removes is where the hunk says, and texts without
  a final newline, empty texts and texts past the table's bound are no exception.
\<close>

theorem unified_hunks_apply: "patch_text (unified_hunks a b) a = Some b"
  by (simp add: patch_text_def read_text_hunks text_hunks_apply)

text \<open>
  C39. Within the table's bound the diff keeps as many lines as any common subsequence of the two
  texts' lines has, so no diff of them has fewer changes.
\<close>

theorem line_diff_optimal:
  assumes "length a * length b \<le> maxDiffCells" "subseq zs a" "subseq zs b"
  shows "length zs \<le> kept (line_diff a b)"
  using subseq_lcs [OF assms(2, 3)] walk_kept [of 0 a 0 b "table a b"] assms(1) by (simp add: line_diff_def)

theorem line_diff_optimal_witness:
  "kept (line_diff [''a'', ''b'', ''c''] [''b'', ''x'', ''c'']) \<ge> length [''b'', ''c'']"
  by (rule line_diff_optimal) (simp_all add: maxDiffCells_def)

section \<open>Patches of files\<close>

text \<open>\<^verbatim>\<open>filePatch\<close>: one file's patch, empty when nothing changed.\<close>

definition filePatch :: "string \<Rightarrow> string \<Rightarrow> string \<Rightarrow> bool \<Rightarrow> bool \<Rightarrow> string" where
  "filePatch p a b aExists bExists =
     (let h = unified_hunks a b in
      if h = [] \<and> aExists = bExists then []
      else (let head = ''diff --git a/'' @ p @ '' b/'' @ p @ [nl];
                (head, old, new) =
                  (if \<not> aExists then (head @ ''new file mode 100644'' @ [nl], ''/dev/null'', ''b/'' @ p)
                   else if \<not> bExists then (head @ ''deleted file mode 100644'' @ [nl], ''a/'' @ p, ''/dev/null'')
                   else (head, ''a/'' @ p, ''b/'' @ p)) in
            head @ ''--- '' @ old @ [nl] @ ''+++ '' @ new @ [nl] @ h))"

record file_diff =
  dPath :: string
  dPatch :: string

type_synonym file_set = "(string \<times> string) list"

definition text_of :: "file_set \<Rightarrow> string \<Rightarrow> string" where
  "text_of m p = (case map_of m p of Some x \<Rightarrow> x | None \<Rightarrow> [])"

definition diff_of :: "file_set \<Rightarrow> file_set \<Rightarrow> string \<Rightarrow> string" where
  "diff_of a b p = filePatch p (text_of a p) (text_of b p) (map_of a p \<noteq> None) (map_of b p \<noteq> None)"

definition diffFiles :: "file_set \<Rightarrow> file_set \<Rightarrow> file_diff list" where
  "diffFiles a b =
     map (\<lambda>p. \<lparr>dPath = p, dPatch = diff_of a b p\<rparr>)
       (filter (\<lambda>p. diff_of a b p \<noteq> []) (sort (remdups (map fst a @ map fst b))))"

definition Patch :: "file_set \<Rightarrow> file_set \<Rightarrow> string" where
  "Patch now built = concat (map dPatch (diffFiles built now))"

text \<open>Within the table's bound a text has no hunks against itself; past it, it is replaced whole.\<close>

lemma walk_self: "e \<in> set (walk t a a i i) \<Longrightarrow> eOp e = Same"
proof (induction "length a - i" arbitrary: i)
  case 0
  then show ?case by (subst (asm) walk.simps) simp
next
  case (Suc n)
  have "e \<in> set (walk t a a (Suc i) (Suc i)) \<Longrightarrow> eOp e = Same" using Suc.hyps by (intro Suc.hyps(1)) auto
  then show ?case using Suc by (subst (asm) (3) walk.simps) (auto split: if_splits)
qed

lemma hunks_same: "(\<And>e. e \<in> set es \<Longrightarrow> eOp e = Same) \<Longrightarrow> hunks es k = []"
proof (induction es k rule: hunks.induct)
  case (1 es k)
  then show ?case by (subst hunks.simps) simp
qed

lemma unified_hunks_none:
  "length (split_lines a) * length (split_lines a) \<le> maxDiffCells \<Longrightarrow> unified_hunks a a = []"
  using hunks_same [of "walk (table (split_lines a) (split_lines a)) (split_lines a) (split_lines a) 0 0" 0] walk_self
  by (simp add: unified_hunks_def text_hunks_def line_diff_def)

lemma unified_hunks_some: "a \<noteq> b \<Longrightarrow> unified_hunks a b \<noteq> []"
  using unified_hunks_apply [of a b] by (auto simp: patch_text_def)

lemma large_text_differs_from_itself:
  assumes "length (split_lines a) * length (split_lines a) > maxDiffCells"
  shows "unified_hunks a a \<noteq> []"
proof -
  obtain l ls where a: "split_lines a = l # ls" using assms by (cases "split_lines a") auto
  have "hunks (\<lparr>eOp = Removed, eLine = l\<rparr> # es) 0 \<noteq> []" for es
    by (subst hunks.simps) (simp add: Let_def)
  then show ?thesis using assms
    by (auto simp: unified_hunks_def text_hunks_def line_diff_def a hunk_text_def neq_Nil_conv)
qed

lemma diff_of_changed:
  assumes "length (split_lines (text_of a p)) * length (split_lines (text_of a p)) \<le> maxDiffCells"
  shows "diff_of a b p \<noteq> [] \<longleftrightarrow> map_of a p \<noteq> map_of b p"
proof (cases "text_of a p = text_of b p")
  case True
  then have none: "unified_hunks (text_of a p) (text_of b p) = []" using assms unified_hunks_none by simp
  have "map_of a p \<noteq> map_of b p \<longleftrightarrow> (map_of a p \<noteq> None) \<noteq> (map_of b p \<noteq> None)"
    using True by (auto simp: text_of_def split: option.splits)
  then show ?thesis by (simp add: diff_of_def filePatch_def none Let_def)
next
  case False
  then have "unified_hunks (text_of a p) (text_of b p) \<noteq> []" by (rule unified_hunks_some)
  moreover have "map_of a p \<noteq> map_of b p" using False by (auto simp: text_of_def)
  ultimately show ?thesis by (auto simp: diff_of_def filePatch_def Let_def)
qed

text \<open>
  The patch of two sets of files has one entry for each path whose file differs (a file that
  only one side has differs), in the order of the paths, when no file is past the table's bound.
\<close>

theorem diffFiles_paths:
  assumes "\<And>p. length (split_lines (text_of a p)) * length (split_lines (text_of a p)) \<le> maxDiffCells"
  shows "map dPath (diffFiles a b) = sorted_list_of_set {p. map_of a p \<noteq> map_of b p}"
proof -
  let ?P = "\<lambda>p. map_of a p \<noteq> map_of b p"
  have fin: "{p. ?P p} = {p \<in> set (map fst a @ map fst b). ?P p}"
    by (auto simp: set_map [symmetric] simp del: set_map) (metis map_of_eq_None_iff set_map)
  have "map dPath (diffFiles a b) = filter ?P (sort (remdups (map fst a @ map fst b)))"
    using assms by (simp add: diffFiles_def diff_of_changed comp_def)
  also have "\<dots> = sort (remdups (filter ?P (map fst a @ map fst b)))"
    by (simp add: filter_sort remdups_filter del: filter_append)
  also have "\<dots> = sorted_list_of_set {p. ?P p}"
    by (subst fin) (simp add: sorted_list_of_set_sort_remdups [symmetric] del: filter_append)
  finally show ?thesis .
qed

theorem diffFiles_paths_witness:
  "map dPath (diffFiles [(''b'', ''x''), (''a'', ''y'')] [(''a'', ''z''), (''c'', [])]) =
     sorted_list_of_set {p. map_of [(''b'', ''x''), (''a'', ''y'')] p \<noteq> map_of [(''a'', ''z''), (''c'', [])] p}"
proof (rule diffFiles_paths)
  fix p
  have "text_of [(''b'', ''x''), (''a'', ''y'')] p \<in> {[], ''x'', ''y''}" by (auto simp: text_of_def)
  moreover have "length (split_lines t) \<le> 1" if "t \<in> {[], ''x'', ''y''}" for t
    using that by (auto simp: nl_code)
  ultimately have "length (split_lines (text_of [(''b'', ''x''), (''a'', ''y'')] p)) \<le> 1" by blast
  then have "length (split_lines (text_of [(''b'', ''x''), (''a'', ''y'')] p)) *
      length (split_lines (text_of [(''b'', ''x''), (''a'', ''y'')] p)) \<le> 1"
    by (metis mult_le_mono nat_mult_1)
  then show "length (split_lines (text_of [(''b'', ''x''), (''a'', ''y'')] p)) *
      length (split_lines (text_of [(''b'', ''x''), (''a'', ''y'')] p)) \<le> maxDiffCells"
    by (simp add: maxDiffCells_def)
qed

end
