(* ===== verification/Client.thy ===== *)
theory Client
  imports Pricing
begin

text \<open>
  \<^verbatim>\<open>internal/model/client.go\<close>, \<^verbatim>\<open>embed.go\<close> and the failures of \<^verbatim>\<open>errors.go\<close>: the
  check of a request, the retried HTTP call, the reading of its answer, and the two calls built on
  them, \<^verbatim>\<open>Chat\<close> and \<^verbatim>\<open>Embed\<close>.  The network, the caller's context and the clock are the
  functions of a record that act on a state of their own; JSON texts are read and written, URLs are
  parsed and secrets are found by functions of a second record.  A wait is a rational number of
  seconds.
\<close>

section \<open>The world outside\<close>

datatype context_state = Live | CtxCanceled | CtxDeadline

text \<open>What Go's \<^verbatim>\<open>errors.As\<close> finds in a failed round trip.\<close>

record transport =
  tTimeout :: bool
  tDNS :: bool
  tRefused :: bool

record http_answer =
  hCode :: int
  hBody :: string
  hBodyErr :: "transport option"
  hRetryAfter :: string

datatype post_end = NotBuilt | NoAnswer transport | Got http_answer

record 'w wire =
  Post :: "string \<Rightarrow> string \<Rightarrow> string \<Rightarrow> 'w \<Rightarrow> (post_end \<times> rat) \<times> 'w"
  CtxOf :: "'w \<Rightarrow> context_state"
  TimeLeft :: "'w \<Rightarrow> rat option"
  Jitter :: "rat \<Rightarrow> 'w \<Rightarrow> rat \<times> 'w"
  WaitFor :: "rat \<Rightarrow> 'w \<Rightarrow> bool \<times> 'w"

text \<open>The chat body as \<^verbatim>\<open>json.Unmarshal\<close> fills \<^verbatim>\<open>parse\<close>'s struct, and the embeddings body.\<close>

record wire_choice =
  wcContent :: "string option"
  wcCalls :: "(string \<times> string \<times> raw_message) list"
  wcFinish :: string

record chat_body =
  cbChoices :: "wire_choice list"
  cbPrompt :: int
  cbComplete :: int
  cbCached :: int
  cbCacheWrite :: int

record embed_body =
  ebData :: "(int \<times> rat list option) list"
  ebPrompt :: "int option"

record url =
  uScheme :: string
  uHost :: string
  uHasUser :: bool
  uHostname :: string
  uPath :: string

record wire_request =
  wModel :: string
  wMessages :: "message list"
  wTools :: "tool_def list"
  wChoice :: "string option"
  wParallel :: "bool option"
  wTemperature :: "rat option"
  wMaxKey :: string
  wMax :: "int option"

record codec =
  ParseJson :: "string \<Rightarrow> json option"
  JsonText :: "json \<Rightarrow> string"
  ReadChat :: "string \<Rightarrow> chat_body option"
  ReadEmbed :: "string \<Rightarrow> embed_body option"
  ReadError :: "string \<Rightarrow> (string \<times> string option \<times> string) option"
  WriteChat :: "wire_request \<Rightarrow> string option"
  WriteEmbed :: "string \<Rightarrow> string list \<Rightarrow> string option"
  ParseUrl :: "string \<Rightarrow> url option"
  UrlText :: "url \<Rightarrow> string \<Rightarrow> string"
  LowerText :: "string \<Rightarrow> string"
  SecretFree :: "string \<Rightarrow> string"
  DottedParts :: "string \<Rightarrow> (bool \<times> string) list"

section \<open>The check of a request\<close>

text \<open>\<^verbatim>\<open>type Request struct\<close>, with the two fields the agent loop leaves unset.\<close>

record chat_request = request +
  rqParallel :: "bool option"
  rqTemperature :: "rat option"

text \<open>The regular expressions \<^verbatim>\<open>toolName\<close> and \<^verbatim>\<open>imageURL\<close>, and the tables.\<close>

definition upper_letter :: "char \<Rightarrow> bool" where
  "upper_letter c \<longleftrightarrow> CHR ''A'' \<le> c \<and> c \<le> CHR ''Z''"

definition name_char :: "char \<Rightarrow> bool" where
  "name_char c \<longleftrightarrow> upper_letter c \<or> lower_letter c \<or> is_digit_byte c \<or> c = CHR ''_'' \<or> c = CHR ''-''"

definition toolName :: "string \<Rightarrow> bool" where
  "toolName n \<longleftrightarrow> 1 \<le> length n \<and> length n \<le> 64 \<and> list_all name_char n"

definition base64_char :: "char \<Rightarrow> bool" where
  "base64_char c \<longleftrightarrow> upper_letter c \<or> lower_letter c \<or> is_digit_byte c \<or> c = CHR ''+'' \<or> c = CHR ''/''"

definition base64_text :: "string \<Rightarrow> bool" where
  "base64_text s = (let body = takeWhile base64_char s; pad = dropWhile base64_char s in
     body \<noteq> [] \<and> pad \<in> {[], ''='', ''==''})"

definition imageURL :: "string \<Rightarrow> bool" where
  "imageURL u = list_ex (\<lambda>k. let p = ''data:image/'' @ k @ '';base64,'' in
     has_prefix u p \<and> base64_text (drop (length p) u)) [''png'', ''jpeg'', ''webp'', ''gif'']"

definition msgRoles :: "string list" where
  "msgRoles = [''system'', ''user'', ''assistant'', ''tool'']"

definition choices :: "string list" where
  "choices = [[], ''auto'', ''none'', ''required'']"

datatype request_error = BadRequest | BadTool string | BadMessage nat | BadPart nat

fun check_tools :: "string list \<Rightarrow> tool_def list \<Rightarrow> request_error option" where
  "check_tools seen [] = None"
| "check_tools seen (t # ts) =
     (if \<not> toolName (dName t) \<or> dName t \<in> set seen then Some (BadTool (dName t))
      else check_tools (dName t # seen) ts)"

text \<open>A tool's parameters are a schema that \<^verbatim>\<open>Compile\<close> read, so they are a JSON object.\<close>

definition part_ok :: "part \<Rightarrow> bool" where
  "part_ok p \<longleftrightarrow>
     pType p = ''text'' \<and> pText p \<noteq> [] \<and> pImage p = None \<or>
     pType p = ''image_url'' \<and> pText p = [] \<and> (case pImage p of None \<Rightarrow> False | Some u \<Rightarrow> imageURL u)"

definition message_ok :: "message \<Rightarrow> bool" where
  "message_ok m \<longleftrightarrow>
     mRole m \<in> set msgRoles
     \<and> (case mContent m of CParts ps \<Rightarrow> mRole m = ''user'' \<and> ps \<noteq> [] | _ \<Rightarrow> True)
     \<and> (mCalls m \<noteq> [] \<longrightarrow> mRole m = ''assistant'')
     \<and> ((mCallID m \<noteq> []) = (mRole m = ''tool''))"

definition parts_of :: "message \<Rightarrow> part list" where
  "parts_of m = (case mContent m of CParts ps \<Rightarrow> ps | _ \<Rightarrow> [])"

fun check_messages :: "nat \<Rightarrow> message list \<Rightarrow> request_error option" where
  "check_messages i [] = None"
| "check_messages i (m # ms) =
     (if \<not> message_ok m then Some (BadMessage i)
      else if \<not> list_all part_ok (parts_of m) then Some (BadPart i)
      else check_messages (i + 1) ms)"

definition check_request :: "'a request_scheme \<Rightarrow> request_error option" where
  "check_request r =
     (if rqAgent r = [] \<or> rqMessages r = [] \<or> rqChoice r \<notin> set choices then Some BadRequest
      else (case check_tools [] (rqTools r) of
              Some e \<Rightarrow> Some e
            | None \<Rightarrow> check_messages 0 (rqMessages r)))"

text \<open>The text of a refused request.\<close>

definition request_error_text :: "request_error \<Rightarrow> string" where
  "request_error_text e = ''model: invalid request: '' @ (case e of
     BadRequest \<Rightarrow> ''it needs an Agent, messages, and a tool choice of auto, none or required''
   | BadTool n \<Rightarrow> ''tool '' @ quoted n @ '': the name is malformed or repeated, or the parameters are not a JSON object''
   | BadMessage i \<Rightarrow> ''message '' @ digits_of i @ '': unknown role, content not a string, nil or a non-empty user []Part, tool calls outside an assistant message, or a tool call id missing or misplaced''
   | BadPart i \<Rightarrow> ''message '' @ digits_of i @ '': a part is non-empty text or one base64 data:image/(png|jpeg|webp|gif) URL'')"

section \<open>The check of an answer's tool calls\<close>

record wire_call =
  wcID :: string
  wcName :: string
  wcArgs :: string

fun calls_ok :: "codec \<Rightarrow> string list \<Rightarrow> wire_call list \<Rightarrow> bool" where
  "calls_ok k seen [] = True"
| "calls_ok k seen (c # cs) =
     (let a = trim_space (wcArgs c) in
      toolName (wcName c) \<and> wcID c \<notin> set seen \<and> ParseJson k a \<noteq> None \<and> has_prefix a ''{'' \<and> valid_utf8 a
      \<and> calls_ok k (wcID c # seen) cs)"

definition checkCalls :: "codec \<Rightarrow> wire_call list \<Rightarrow> model_error option" where
  "checkCalls k cs = (if calls_ok k [] cs then None
     else Some (model_fail ErrUnavailable ''the answer has a tool call with a malformed name, a repeated id, or arguments that are not a JSON object''))"

section \<open>What an error answer may say\<close>

text \<open>
  \<^verbatim>\<open>redact\<close>: the regular expression \<^verbatim>\<open>secretish\<close> is \<open>SecretFree\<close>, and the matches of
  \<^verbatim>\<open>dotted\<close> are the flagged parts of \<open>DottedParts\<close>.
\<close>

definition redacted :: string where "redacted = ''[redacted]''"

definition tld :: "string \<Rightarrow> bool" where
  "tld l \<longleftrightarrow> 2 \<le> length l \<and> length l \<le> 24 \<and> list_all (\<lambda>c. upper_letter c \<or> lower_letter c) l"

definition hostLike :: "string \<Rightarrow> bool" where
  "hostLike m =
     (let labels = split_char CHR ''.'' (fst (str_cut m '':'')) in
      list_all (\<lambda>l. l \<noteq> [] \<and> \<not> list_all is_digit_byte l \<and> CHR ''_'' \<notin> set l) labels \<and> tld (last labels))"

definition redact :: "codec \<Rightarrow> string \<Rightarrow> string \<Rightarrow> string" where
  "redact k s key =
     (let s1 = (if key \<noteq> [] then str_replace key redacted s else s) in
      concat (map (\<lambda>(d, m). if d \<and> hostLike m then redacted else m) (DottedParts k (SecretFree k s1))))"

definition errType :: "string \<Rightarrow> bool" where
  "errType t \<longleftrightarrow> t \<noteq> [] \<and> length t \<le> 64 \<and> lower_letter (hd t)
     \<and> list_all (\<lambda>c. lower_letter c \<or> is_digit_byte c \<or> c = CHR ''_'') t"

definition is_control_rune :: "rune \<Rightarrow> bool" where
  "is_control_rune r \<longleftrightarrow> r < 32 \<or> 127 \<le> r \<and> r < 160"

definition ellipsis :: string where
  "ellipsis = [char_of (226 :: nat), char_of (128 :: nat), char_of (166 :: nat)]"

definition providerError :: "codec \<Rightarrow> string \<Rightarrow> string \<Rightarrow> string" where
  "providerError k body key =
     (case ReadError k (take 16384 body) of
        None \<Rightarrow> []
      | Some (typ, code, message) \<Rightarrow>
          (let t0 = (if typ = [] then (case code of Some c \<Rightarrow> c | None \<Rightarrow> []) else typ);
               t = (if errType t0 then t0 else []);
               msg = map_runes (\<lambda>r. if is_control_rune r then 32 else r) message;
               out = redact k (trim_space (trim_both (\<lambda>c. c = CHR '':'' \<or> c = CHR '' '')
                        (t @ '': '' @ str_join (str_fields msg) '' ''))) key in
           if length out > 240 then to_valid_utf8 (take 240 out) @ ellipsis else out))"

section \<open>Failures\<close>

definition ctxErr :: "context_state \<Rightarrow> err" where
  "ctxErr c = (if c = CtxCanceled then ECanceled
     else EModel (model_fail ErrTimeout ''the caller's deadline passed before the model answered''))"

definition transportErr :: "context_state \<Rightarrow> transport \<Rightarrow> err" where
  "transportErr c t =
     (if c \<noteq> Live then ctxErr c
      else if tTimeout t then EModel (model_fail ErrTimeout ''no answer within the client timeout'')
      else if tDNS t then EModel (model_fail ErrUnavailable ''could not reach the endpoint: DNS lookup failed'')
      else if tRefused t then EModel (model_fail ErrUnavailable ''could not reach the endpoint: connection refused'')
      else EModel (model_fail ErrUnavailable ''the connection failed or the answer is not valid HTTP''))"

text \<open>\<^verbatim>\<open>HTTPStatus\<close>: the status of a failure at the API.\<close>

fun kind_status :: "model_kind \<Rightarrow> int" where
  "kind_status ErrNotConfigured = 503"
| "kind_status ErrRateLimited = 503"
| "kind_status ErrTimeout = 504"
| "kind_status ErrNoContent = 422"
| "kind_status ErrUnavailable = 502"

definition HTTPStatus :: "err \<Rightarrow> int" where
  "HTTPStatus e = (if is_canceled e then 499 else (case as_model e of Some m \<Rightarrow> kind_status (eKind m) | None \<Rightarrow> 500))"

section \<open>One HTTP answer\<close>

definition maxResponse :: nat where "maxResponse = 33554432"

text \<open>\<^verbatim>\<open>strconv.ParseInt\<close>, 64 bits: an out-of-range text is the nearest bound, any other error 0.\<close>

definition parse_int64 :: "string \<Rightarrow> int" where
  "parse_int64 s =
     (let neg = has_prefix s ''-'';
          d = (if neg \<or> has_prefix s ''+'' then tl s else s);
          n = int (num_of d) in
      if d = [] \<or> \<not> list_all is_digit_byte d then 0
      else if neg then max (- n) (- (2 ^ 63)) else min n (2 ^ 63 - 1))"

definition http_answer_of :: "codec \<Rightarrow> string \<Rightarrow> context_state \<Rightarrow> http_answer \<Rightarrow> (err \<times> bool) + string" where
  "http_answer_of k key c a =
     (let code = hCode a in
      if code = 200
      then (let data = take (maxResponse + 1) (hBody a) in
            case (if length data \<le> maxResponse then hBodyErr a else None) of
              Some t \<Rightarrow> Inl (transportErr c t, False)
            | None \<Rightarrow> if length data > maxResponse
                      then Inl (EModel (model_fail ErrUnavailable ''the answer is over 32 MiB''), False)
                      else Inr data)
      else (let why = providerError k (hBody a) key;
                detail = ''HTTP '' @ itoa code @ (if why \<noteq> [] then '' ('' @ why @ '')'' else []) in
            if code = 429
            then (let s = parse_int64 (trim_space (hRetryAfter a)) in
                  Inl (EModel ((model_fail ErrRateLimited detail)
                    \<lparr>eRetryAfter := (if s > 0 then of_int (min s 86400) else 0)\<rparr>), True))
            else if code \<in> {401, 403, 404}
            then Inl (EModel (model_fail ErrNotConfigured (detail @ '': check BIGLAW_MODEL_KEY, that BIGLAW_MODEL_URL is the API base (usually ending in /v1), and the model id'')), False)
            else Inl (EModel ((model_fail ErrUnavailable detail)\<lparr>eStatus := code\<rparr>),
                      code \<in> {500, 502, 503, 504, 529})))"

section \<open>The client\<close>

record client =
  cEndpoint :: string
  cKey :: string
  cEmbeddings :: string
  cRoles :: roles
  cPrices :: prices
  cWatts :: rat
  cOpenAI :: bool
  cAttempts :: nat
  cBackoff :: rat

definition maxAttempts :: nat where "maxAttempts = 3"
definition maxWait :: rat where "maxWait = 30"

text \<open>\<^verbatim>\<open>New\<close>, with the built-in price table it falls back to.\<close>

definition New_client :: "codec \<Rightarrow> prices \<Rightarrow> string \<Rightarrow> string \<Rightarrow> roles \<Rightarrow> prices option \<Rightarrow> rat \<Rightarrow> (err, client) result" where
  "New_client k built URL key roles prices watts =
     (let c = \<lparr>cEndpoint = [], cKey = key, cEmbeddings = [], cRoles = roles,
               cPrices = (case prices of Some p \<Rightarrow> p | None \<Rightarrow> built), cWatts = watts, cOpenAI = False,
               cAttempts = maxAttempts, cBackoff = 1\<rparr> in
      if URL = [] then Inr c
      else (case ParseUrl k URL of
              None \<Rightarrow> Inl (EOther ''model: the endpoint must be an http(s) URL without credentials'')
            | Some u \<Rightarrow>
                if (uScheme u \<noteq> ''http'' \<and> uScheme u \<noteq> ''https'') \<or> uHost u = [] \<or> uHasUser u
                then Inl (EOther ''model: the endpoint must be an http(s) URL without credentials'')
                else (let base = trim_right (\<lambda>b. b = CHR ''/'') (uPath u) in
                      Inr (c\<lparr>cOpenAI := (map lower_byte (uHostname u) = ''api.openai.com''),
                             cEndpoint := UrlText k u (base @ ''/chat/completions''),
                             cEmbeddings := UrlText k u (base @ ''/embeddings'')\<rparr>))))"

section \<open>Sending with retries\<close>

datatype http_event = Posted post_end | Waited rat

record 'w conn =
  cxLog :: "http_event list"
  cxWorld :: 'w

definition auth_header :: "client \<Rightarrow> string" where
  "auth_header c = (if cKey c \<noteq> [] then ''Bearer '' @ cKey c else [])"

definition post_once :: "'w wire \<Rightarrow> client \<Rightarrow> string \<Rightarrow> string \<Rightarrow> 'w conn \<Rightarrow> (post_end \<times> rat) \<times> 'w conn" where
  "post_once net c endpoint body x =
     (let (r, w) = Post net endpoint (auth_header c) body (cxWorld x) in
      (r, \<lparr>cxLog = cxLog x @ [Posted (fst r)], cxWorld = w\<rparr>))"

definition retry_after :: "err \<Rightarrow> rat" where
  "retry_after e = (case e of EModel m \<Rightarrow> eRetryAfter m | _ \<Rightarrow> 0)"

text \<open>The wait before the next attempt, and whether it is worth waiting; \<open>None\<close> ends the call.\<close>

definition next_wait :: "'w wire \<Rightarrow> client \<Rightarrow> err \<Rightarrow> nat \<Rightarrow> 'w conn \<Rightarrow> rat option \<times> 'w conn" where
  "next_wait net c e attempt x =
     (let backoff = cBackoff c * 2 ^ (attempt - 1);
          (j, w) = Jitter net (backoff / 4) (cxWorld x);
          wait = (if retry_after e \<noteq> 0 then retry_after e else backoff + j) in
      (if wait > maxWait \<or> (case TimeLeft net w of None \<Rightarrow> False | Some d \<Rightarrow> d < wait) then None else Some wait,
       x\<lparr>cxWorld := w\<rparr>))"

definition wait_for :: "'w wire \<Rightarrow> rat \<Rightarrow> 'w conn \<Rightarrow> bool \<times> 'w conn" where
  "wait_for net d x = (let (full, w) = WaitFor net d (cxWorld x) in
     (full, \<lparr>cxLog = cxLog x @ [Waited d], cxWorld = w\<rparr>))"

function send ::
  "codec \<Rightarrow> 'w wire \<Rightarrow> client \<Rightarrow> string \<Rightarrow> string \<Rightarrow> nat \<Rightarrow> rat \<Rightarrow> 'w conn \<Rightarrow> (err, string \<times> rat) result \<times> 'w conn" where
  "send k net c endpoint body attempt took x =
     (let ((r, dt), x1) = post_once net c endpoint body x in
      case r of
        NotBuilt \<Rightarrow> (Inl (EOther ''model: cannot build the HTTP request''), x1)
      | NoAnswer t \<Rightarrow> (Inl (transportErr (CtxOf net (cxWorld x1)) t), x1)
      | Got a \<Rightarrow>
          (case http_answer_of k (cKey c) (CtxOf net (cxWorld x1)) a of
             Inr data \<Rightarrow> (Inr (data, took + dt), x1)
           | Inl (e, retry) \<Rightarrow>
               if \<not> retry \<or> attempt \<ge> cAttempts c then (Inl e, x1)
               else (case next_wait net c e attempt x1 of
                       (None, x2) \<Rightarrow> (Inl e, x2)
                     | (Some d, x2) \<Rightarrow>
                         (let (full, x3) = wait_for net d x2 in
                          if full then send k net c endpoint body (attempt + 1) (took + dt) x3
                          else (Inl (ctxErr (CtxOf net (cxWorld x3))), x3)))))"
  by pat_completeness auto
termination
  by (relation "measure (\<lambda>(k, net, c, endpoint, body, attempt, took, x). cAttempts c - attempt)") auto

declare send.simps [simp del]

section \<open>Reading a chat answer\<close>

text \<open>The arguments of a call: a JSON string's content, else the text itself, and \<open>{}\<close> when there is none.\<close>

definition call_args :: "codec \<Rightarrow> raw_message \<Rightarrow> string" where
  "call_args k a = or_str (trim_space (case a of
       Some (JStr s) \<Rightarrow> s
     | Some JNull \<Rightarrow> []
     | Some v \<Rightarrow> JsonText k v
     | None \<Rightarrow> [])) ''{}''"

fun calls_from :: "codec \<Rightarrow> nat \<Rightarrow> (string \<times> string \<times> raw_message) list \<Rightarrow> wire_call list" where
  "calls_from k i [] = []"
| "calls_from k i ((cid, n, a) # cs) =
     \<lparr>wcID = or_str cid (''call_'' @ digits_of i), wcName = n, wcArgs = call_args k a\<rparr> # calls_from k (i + 1) cs"

definition answer_usage :: "chat_body \<Rightarrow> model_usage" where
  "answer_usage b = \<lparr>InputTokens = max 0 (cbPrompt b - max 0 (cbCached b) - max 0 (cbCacheWrite b)),
     OutputTokens = max 0 (cbComplete b), CacheReadTokens = max 0 (cbCached b),
     CacheWriteTokens = max 0 (cbCacheWrite b), DurationHours = 0, CostUSD = None, WattHours = None\<rparr>"

definition call_of :: "codec \<Rightarrow> wire_call \<Rightarrow> tool_call" where
  "call_of k c = \<lparr>tcID = wcID c, tcName = wcName c, tcArgs = ParseJson k (wcArgs c)\<rparr>"

text \<open>\<^verbatim>\<open>parse\<close>: the error and the response, which is there once the usage is read.\<close>

definition parse_answer :: "codec \<Rightarrow> string \<Rightarrow> model_error option \<times> response option" where
  "parse_answer k raw =
     (case ReadChat k raw of
        None \<Rightarrow> (Some ((model_fail ErrUnavailable ''the answer is not OpenAI chat-completions JSON'')\<lparr>eStatus := 200\<rparr>), None)
      | Some b \<Rightarrow>
          (let r0 = \<lparr>respText = [], respCalls = [], respTruncated = False, respUsage = answer_usage b\<rparr> in
           case cbChoices b of
             [] \<Rightarrow> (Some (model_fail ErrNoContent ''the answer has no choices''), Some r0)
           | ch # _ \<Rightarrow>
               (let cut = (wcFinish ch = ''length'');
                    txt = (case wcContent ch of None \<Rightarrow> [] | Some t \<Rightarrow> t);
                    calls = calls_from k 0 (wcCalls ch);
                    r = r0\<lparr>respTruncated := cut, respText := txt, respCalls := map (call_of k) calls\<rparr> in
                case checkCalls k calls of
                  Some e \<Rightarrow> (Some e, Some r)
                | None \<Rightarrow>
                    if trim_space txt = [] \<and> calls = []
                    then (Some ((model_fail ErrNoContent (''the answer has neither text nor tool calls'' @
                              (if cut then '' (cut off at max_tokens)'' else [])))\<lparr>eTruncated := cut\<rparr>), Some r)
                    else (None, Some r))))"

section \<open>Chat\<close>

definition fill_content :: "message \<Rightarrow> message" where
  "fill_content m = (if mContent m = CNil \<and> mCalls m = [] then m\<lparr>mContent := CText []\<rparr> else m)"

definition wire_of :: "client \<Rightarrow> string \<Rightarrow> chat_request \<Rightarrow> wire_request" where
  "wire_of c m r =
     \<lparr>wModel = m, wMessages = map fill_content (rqMessages r),
      wTools = map (\<lambda>t. t\<lparr>dStrict := dStrict t \<and> cOpenAI c\<rparr>) (rqTools r),
      wChoice = (if rqChoice r \<noteq> [] then Some (rqChoice r) else None),
      wParallel = rqParallel r, wTemperature = rqTemperature r,
      wMaxKey = (if cOpenAI c then ''max_completion_tokens'' else ''max_tokens''),
      wMax = (if rqMaxTokens r > 0 then Some (rqMaxTokens r) else None)\<rparr>"

text \<open>The usage of an answer with its time and its price, and the client whose price table has warned.\<close>

definition charged :: "codec \<Rightarrow> client \<Rightarrow> string \<Rightarrow> rat \<Rightarrow> model_usage \<Rightarrow> model_usage \<times> client" where
  "charged k c m took u =
     (let (u', ps, _) = charge (LowerText k) (cPrices c) m (u\<lparr>DurationHours := took / 3600\<rparr>) (cWatts c) in
      (u', c\<lparr>cPrices := ps\<rparr>))"

definition chat_model :: "client \<Rightarrow> chat_request \<Rightarrow> (err, string) result" where
  "chat_model c r =
     (case check_request r of
        Some e \<Rightarrow> Inl (EOther (request_error_text e))
      | None \<Rightarrow>
          (case (if rqModel r \<noteq> [] then Inr (rqModel r) else Roles_Model (cRoles c) (rqRole r)) of
             Inl e \<Rightarrow> Inl (EModel e)
           | Inr m \<Rightarrow> if cEndpoint c = [] then Inl (EModel (model_fail ErrNotConfigured ''BIGLAW_MODEL_URL is not set''))
                      else Inr m))"

definition chat_answered :: "codec \<Rightarrow> client \<Rightarrow> string \<Rightarrow> string \<Rightarrow> rat \<Rightarrow> (err, response) result \<times> client" where
  "chat_answered k c m raw took =
     (case parse_answer k raw of
        (Some e, None) \<Rightarrow> (Inl (EModel e), c)
      | (eo, Some r) \<Rightarrow>
          (let (u, c') = charged k c m took (respUsage r) in
           (case eo of
              None \<Rightarrow> Inr (r\<lparr>respUsage := u\<rparr>)
            | Some e \<Rightarrow> Inl (EModel (e\<lparr>eUsage := Some u\<rparr>)), c'))
      | (None, None) \<Rightarrow> (Inl (EPanic ''no response''), c))"

definition Client_Chat ::
  "codec \<Rightarrow> 'w wire \<Rightarrow> client \<Rightarrow> chat_request \<Rightarrow> 'w conn \<Rightarrow> (err, response) result \<times> client \<times> 'w conn" where
  "Client_Chat k net c r x =
     (case chat_model c r of
        Inl e \<Rightarrow> (Inl e, c, x)
      | Inr m \<Rightarrow>
          (case WriteChat k (wire_of c m r) of
             None \<Rightarrow> (Inl (EOther ''model: encode request''), c, x)
           | Some body \<Rightarrow>
               (case send k net c (cEndpoint c) body 1 0 x of
                  (Inl e, x') \<Rightarrow> (Inl e, c, x')
                | (Inr (raw, took), x') \<Rightarrow> (let (res, c') = chat_answered k c m raw took in (res, c', x')))))"

section \<open>Embed\<close>

definition MaxEmbedInputs :: nat where "MaxEmbedInputs = 256"
definition MaxEmbedInput :: nat where "MaxEmbedInput = 16384"

record embed_request =
  erAgent :: string
  erInputs :: "string list"

record embeddings =
  emModel :: string
  emVectors :: "rat list list"
  emUsage :: model_usage

definition check_embed :: "embed_request \<Rightarrow> bool" where
  "check_embed r \<longleftrightarrow> erAgent r \<noteq> [] \<and> erInputs r \<noteq> [] \<and> length (erInputs r) \<le> MaxEmbedInputs
     \<and> list_all (\<lambda>s. trim_space s \<noteq> [] \<and> length s \<le> MaxEmbedInput \<and> valid_utf8 s) (erInputs r)"

text \<open>The loop that places the vectors: it goes on only while everything before it was placed.\<close>

definition place :: "bool \<times> rat list option list \<Rightarrow> int \<times> rat list option \<Rightarrow> bool \<times> rat list option list" where
  "place acc d = (let (good, vs) = acc; (i, v) = d in
     if good \<and> 0 \<le> i \<and> i < int (length vs) \<and> vs ! nat i = None then (True, vs[nat i := v]) else (False, vs))"

definition square_norm :: "rat list \<Rightarrow> rat" where
  "square_norm v = sum_list (map (\<lambda>f. f * f) v)"

definition vector_of :: "rat list option \<Rightarrow> rat list" where
  "vector_of v = (case v of None \<Rightarrow> [] | Some x \<Rightarrow> x)"

definition usable :: "rat list list \<Rightarrow> bool" where
  "usable vs \<longleftrightarrow> list_all (\<lambda>v. length v = length (hd vs) \<and> v \<noteq> [] \<and> length v \<le> 16000
     \<and> 1 / 10 ^ 12 \<le> square_norm v \<and> square_norm v \<le> 10 ^ 12) vs"

definition embed_answer :: "codec \<Rightarrow> client \<Rightarrow> string \<Rightarrow> string list \<Rightarrow> string \<Rightarrow> string \<Rightarrow> rat \<Rightarrow> (err, embeddings) result \<times> client" where
  "embed_answer k c m inputs body raw took =
     (case ReadEmbed k raw of
        None \<Rightarrow> (Inl (EModel (model_fail ErrUnavailable ''the answer is not OpenAI embeddings JSON'')), c)
      | Some a \<Rightarrow>
          (let u0 = \<lparr>InputTokens = (case ebPrompt a of None \<Rightarrow> 0 | Some p \<Rightarrow> min (int (length body)) (max 0 p)),
                     OutputTokens = 0, CacheReadTokens = 0, CacheWriteTokens = 0, DurationHours = 0,
                     CostUSD = None, WattHours = None\<rparr>;
               (u1, c') = charged k c m took u0;
               u = (if ebPrompt a = None then u1\<lparr>CostUSD := None\<rparr> else u1);
               (good, vs) = foldl place (length (ebData a) = length inputs, replicate (length inputs) None) (ebData a);
               vectors = map vector_of vs in
           if good \<and> usable vectors then (Inr \<lparr>emModel = m, emVectors = vectors, emUsage = u\<rparr>, c')
           else (Inl (EModel ((if ebData a = [] then model_fail ErrNoContent ''the answer has no vectors''
                     else model_fail ErrUnavailable ''the answer does not hold one vector per input, of one length (at most 16,000) and a norm of 1e-6 to 1e6'')
                   \<lparr>eUsage := Some u\<rparr>)), c')))"

definition Client_Embed ::
  "codec \<Rightarrow> 'w wire \<Rightarrow> client \<Rightarrow> embed_request \<Rightarrow> 'w conn \<Rightarrow> (err, embeddings) result \<times> client \<times> 'w conn" where
  "Client_Embed k net c r x =
     (if \<not> check_embed r
      then (Inl (EOther ''model: invalid embeddings request: it needs an Agent, 1 to 256 non-blank UTF-8 inputs of at most 16384 bytes''), c, x)
      else (case Roles_Model (cRoles c) ''embed'' of
        Inl e \<Rightarrow> (Inl (EModel e), c, x)
      | Inr m \<Rightarrow>
          if cEmbeddings c = [] then (Inl (EModel (model_fail ErrNotConfigured ''BIGLAW_MODEL_URL is not set'')), c, x)
          else (case WriteEmbed k m (erInputs r) of
             None \<Rightarrow> (Inl (EOther ''model: encode request''), c, x)
           | Some body \<Rightarrow>
               (case send k net c (cEmbeddings c) body 1 0 x of
                  (Inl e, x') \<Rightarrow> (Inl e, c, x')
                | (Inr (raw, took), x') \<Rightarrow>
                    (let (res, c') = embed_answer k c m (erInputs r) body raw took in (res, c', x'))))))"

section \<open>The discipline of retries\<close>

definition retried_code :: "int \<Rightarrow> bool" where
  "retried_code code \<longleftrightarrow> code \<in> {429, 500, 502, 503, 504, 529}"

text \<open>
  What a call may do on the wire with a number of attempts left: it posts, and posts again only
  after an answer with a retried status and a wait that is not too long.
\<close>

fun retry_log :: "nat \<Rightarrow> http_event list \<Rightarrow> bool" where
  "retry_log n [] = False"
| "retry_log 0 (_ # _) = False"
| "retry_log (Suc n) (Posted r # es) = (es = [] \<or>
     (case r of Got a \<Rightarrow> retried_code (hCode a) | _ \<Rightarrow> False) \<and>
     (case es of Waited d # es' \<Rightarrow> d \<le> maxWait \<and> (es' = [] \<or> retry_log n es') | _ \<Rightarrow> False))"
| "retry_log (Suc n) (Waited _ # es) = False"

definition posts :: "http_event list \<Rightarrow> nat" where
  "posts es = length (filter (\<lambda>e. case e of Posted _ \<Rightarrow> True | Waited _ \<Rightarrow> False) es)"

lemma retry_log_posts: "retry_log n es \<Longrightarrow> posts es \<le> n"
proof (induction n es rule: retry_log.induct)
  case (3 n r es)
  show ?case
  proof (cases es)
    case (Cons e es')
    then obtain d where d: "e = Waited d" "es' = [] \<or> retry_log n es'"
      using "3.prems" by (auto split: http_event.splits)
    then show ?thesis using "3.IH" Cons by (fastforce simp: posts_def)
  qed (simp add: posts_def)
qed simp_all

lemma http_answer_retry:
  "http_answer_of k key c a = Inl (e, True) \<Longrightarrow> retried_code (hCode a) \<and> (\<exists>m. e = EModel m)"
  by (auto simp: http_answer_of_def retried_code_def Let_def split: if_splits option.splits)

lemma next_wait_some:
  "next_wait net c e n x = (Some d, x') \<Longrightarrow> d \<le> maxWait \<and> cxLog x' = cxLog x"
  by (auto simp: next_wait_def Let_def split: prod.splits if_splits option.splits)

lemma next_wait_log: "next_wait net c e n x = (d, x') \<Longrightarrow> cxLog x' = cxLog x"
  by (auto simp: next_wait_def Let_def split: prod.splits)

text \<open>One step of the loop, by how the attempt ended.\<close>

lemma send_cases [consumes 1, case_names failed sent ended again]:
  assumes "send k net c endpoint body attempt took x = (res, x')"
  obtains (failed) r e where "cxLog x' = cxLog x @ [Posted r]" "res = Inl e"
    | (sent) a dt data where "cxLog x' = cxLog x @ [Posted (Got a)]" "res = Inr (data, took + dt)"
        "\<exists>ctx. http_answer_of k (cKey c) ctx a = Inr data"
    | (ended) a d e where "cxLog x' = cxLog x @ [Posted (Got a), Waited d]" "res = Inl e" "retried_code (hCode a)" "d \<le> maxWait"
        "attempt < cAttempts c" "e = ECanceled \<or> (\<exists>m. e = EModel m)"
    | (again) a d dt x3 where "cxLog x3 = cxLog x @ [Posted (Got a), Waited d]" "retried_code (hCode a)" "d \<le> maxWait"
        "attempt < cAttempts c" "send k net c endpoint body (attempt + 1) (took + dt) x3 = (res, x')"
proof -
  obtain r dt x1 where p: "post_once net c endpoint body x = ((r, dt), x1)" by (metis prod.exhaust)
  have l1: "cxLog x1 = cxLog x @ [Posted r]"
    using p by (auto simp: post_once_def Let_def split: prod.splits)
  show thesis
  proof (cases r)
    case NotBuilt
    then show ?thesis using assms p l1 by (intro failed) (auto simp: send.simps)
  next
    case (NoAnswer t)
    then show ?thesis using assms p l1 by (intro failed) (auto simp: send.simps)
  next
    case (Got a)
    show ?thesis
    proof (cases "http_answer_of k (cKey c) (CtxOf net (cxWorld x1)) a")
      case (Inr data)
      then show ?thesis using assms p l1 Got by (intro sent [of a data dt]) (auto simp: send.simps)
    next
      case (Inl er)
      obtain e retry where er: "er = (e, retry)" by (cases er)
      show ?thesis
      proof (cases "\<not> retry \<or> attempt \<ge> cAttempts c")
        case True
        then show ?thesis using assms p l1 Got Inl er by (intro failed) (auto simp: send.simps)
      next
        case False
        then have ret: "retried_code (hCode a)" using http_answer_retry [of k "cKey c" _ a e] Inl er by auto
        obtain w x2 where w: "next_wait net c e attempt x1 = (w, x2)" by (metis prod.exhaust)
        show ?thesis
        proof (cases w)
          case None
          then show ?thesis using assms p l1 Got Inl er False w next_wait_log [OF w]
            by (intro failed) (auto simp: send.simps)
        next
          case (Some d)
          obtain full x3 where f: "wait_for net d x2 = (full, x3)" by (metis prod.exhaust)
          have l3: "cxLog x3 = cxLog x @ [Posted (Got a), Waited d]"
            using f next_wait_log [OF w] l1 Got by (auto simp: wait_for_def Let_def split: prod.splits)
          have d: "d \<le> maxWait" using next_wait_some w Some by blast
          show ?thesis
          proof (cases full)
            case True
            then show ?thesis using assms p Got Inl er False w Some f l3 ret d
              by (intro again [of x3 a d dt]) (auto simp: send.simps [of _ _ _ _ _ attempt])
          next
            case False
            then show ?thesis using assms p Got Inl er \<open>\<not> (\<not> retry \<or> attempt \<ge> cAttempts c)\<close> w Some f l3 ret d
              by (intro ended [of a d "ctxErr (CtxOf net (cxWorld x3))"]) (auto simp: send.simps [of _ _ _ _ _ attempt] ctxErr_def)
          qed
        qed
      qed
    qed
  qed
qed

lemma http_answer_data:
  "http_answer_of k key c a = Inr data \<Longrightarrow> hCode a = 200 \<and> data = hBody a \<and> length data \<le> maxResponse"
  by (auto simp: http_answer_of_def Let_def split: if_splits option.splits)

definition sent_by :: "(err, string \<times> rat) result \<Rightarrow> http_event list \<Rightarrow> bool" where
  "sent_by res es \<longleftrightarrow> (case res of Inl _ \<Rightarrow> True
     | Inr (data, _) \<Rightarrow> es \<noteq> [] \<and> (case last es of Posted (Got a) \<Rightarrow> hCode a = 200 \<and> data = hBody a | _ \<Rightarrow> False))"

lemma sent_by_Cons: "es \<noteq> [] \<Longrightarrow> sent_by res (e # es) = sent_by res es"
  by (auto simp: sent_by_def split: sum.splits)

lemma send_log:
  assumes "send k net c endpoint body attempt took x = (res, x')" and "attempt \<le> cAttempts c"
  shows "\<exists>es. cxLog x' = cxLog x @ es \<and> retry_log (Suc (cAttempts c - attempt)) es \<and> sent_by res es"
  using assms
proof (induction "cAttempts c - attempt" arbitrary: attempt took x)
  case 0
  from "0.prems"(1) show ?case
  proof (cases rule: send_cases)
    case (sent a dt data)
    then show ?thesis using http_answer_data by (fastforce simp: sent_by_def)
  qed (use 0 in \<open>auto simp: sent_by_def\<close>)
next
  case (Suc n)
  from Suc.prems(1) show ?case
  proof (cases rule: send_cases)
    case (failed r e)
    then show ?thesis by (auto simp: sent_by_def)
  next
    case (sent a dt data)
    then show ?thesis using http_answer_data by (fastforce simp: sent_by_def)
  next
    case (ended a d e)
    then show ?thesis by (auto simp: sent_by_def)
  next
    case (again a d dt x3)
    have "n = cAttempts c - (attempt + 1)" using Suc.hyps(2) by simp
    from Suc.hyps(1) [OF this again(5)] again(4)
    obtain es where es: "cxLog x' = cxLog x3 @ es" "retry_log (Suc (cAttempts c - (attempt + 1))) es" "sent_by res es"
      by auto
    have n: "Suc (cAttempts c - (attempt + 1)) = cAttempts c - attempt" using again(4) by simp
    have ne: "es \<noteq> []" using es(2) by auto
    show ?thesis
      using again(1-3) es(1) es(2) [unfolded n] es(3) ne
      by (intro exI [of _ "Posted (Got a) # Waited d # es"]) (auto simp: sent_by_Cons)
  qed
qed

text \<open>
  A call on the wire posts at most as often as the client allows; it posts again only after an
  answer whose status is 429, 500, 502, 503, 504 or 529 and a wait of at most half a minute, never
  after a network failure; and what it returns is the whole body of the last answer, a 200.
\<close>

theorem send_disciplined:
  assumes "send k net c endpoint body 1 0 x = (res, x')" and "0 < cAttempts c"
  shows "\<exists>es. cxLog x' = cxLog x @ es \<and> retry_log (cAttempts c) es \<and> posts es \<le> cAttempts c \<and> sent_by res es"
  using send_log [OF assms(1)] assms(2) retry_log_posts by fastforce

definition demo_codec :: codec where
  "demo_codec = \<lparr>ParseJson = (\<lambda>s. if s = [] then None else Some (JObj [])), JsonText = (\<lambda>_. ''{}''),
     ReadChat = (\<lambda>s. if s = ''ok'' then Some \<lparr>cbChoices = [\<lparr>wcContent = Some ''yes'', wcCalls = [([], ''read'', Some (JObj []))],
        wcFinish = ''stop''\<rparr>], cbPrompt = 10, cbComplete = 2, cbCached = 4, cbCacheWrite = 0\<rparr> else None),
     ReadEmbed = (\<lambda>s. if s = ''ok'' then Some \<lparr>ebData = [(1, Some [1, 0]), (0, Some [3 / 5, 4 / 5])], ebPrompt = Some 7\<rparr> else None),
     ReadError = (\<lambda>_. None), WriteChat = (\<lambda>_. Some ''body''), WriteEmbed = (\<lambda>_ _. Some ''body''),
     ParseUrl = (\<lambda>_. None), UrlText = (\<lambda>_ p. p), LowerText = id, SecretFree = id, DottedParts = (\<lambda>s. [(False, s)])\<rparr>"

definition demo_client :: client where
  "demo_client = \<lparr>cEndpoint = ''http://m/v1/chat/completions'', cKey = ''k'', cEmbeddings = ''http://m/v1/embeddings'',
     cRoles = \<lparr>Lead = ''m'', Specialist = [], Critic = [], Vision = [], Embed = ''e''\<rparr>,
     cPrices = \<lparr>operator = [(''m'', Some \<lparr>rIn = 1, rOut = 2\<rparr>)], builtin = [], warned = []\<rparr>, cWatts = 0,
     cOpenAI = False, cAttempts = maxAttempts, cBackoff = 1\<rparr>"

text \<open>An endpoint that is overloaded once and then answers.\<close>

definition demo_wire :: "nat wire" where
  "demo_wire = \<lparr>Post = (\<lambda>_ _ _ n. ((Got \<lparr>hCode = (if n = 0 then 529 else 200), hBody = ''ok'', hBodyErr = None, hRetryAfter = []\<rparr>, 1), n + 1)),
     CtxOf = (\<lambda>_. Live), TimeLeft = (\<lambda>_. Some 100), Jitter = (\<lambda>_ n. (0, n)), WaitFor = (\<lambda>_ n. (True, n))\<rparr>"

definition demo_conn :: "nat conn" where "demo_conn = \<lparr>cxLog = [], cxWorld = 0\<rparr>"

lemma demo_send:
  "\<exists>x'. send demo_codec demo_wire demo_client e ''body'' 1 0 demo_conn = (Inr (''ok'', 2), x') \<and> posts (cxLog x') = 2"
  by (subst send.simps, simp add: demo_wire_def demo_conn_def post_once_def Let_def http_answer_of_def demo_client_def
      maxAttempts_def next_wait_def retry_after_def model_fail_def maxWait_def wait_for_def)
    (subst send.simps, simp add: post_once_def Let_def http_answer_of_def maxResponse_def posts_def)

theorem send_disciplined_witness:
  "\<exists>x' es. send demo_codec demo_wire demo_client (cEndpoint demo_client) ''body'' 1 0 demo_conn = (Inr (''ok'', 2), x')
     \<and> cxLog x' = es \<and> retry_log 3 es \<and> posts es = 2"
proof -
  obtain x' where x: "send demo_codec demo_wire demo_client (cEndpoint demo_client) ''body'' 1 0 demo_conn = (Inr (''ok'', 2), x')"
    "posts (cxLog x') = 2"
    using demo_send by blast
  have "0 < cAttempts demo_client" by (simp add: demo_client_def maxAttempts_def)
  from send_disciplined [OF x(1) this] x show ?thesis
    by (auto simp: demo_client_def maxAttempts_def demo_conn_def)
qed

section \<open>What a chat call returns\<close>

lemma calls_ok_all:
  "calls_ok k seen cs \<Longrightarrow> distinct (map wcID cs) \<and> set (map wcID cs) \<inter> set seen = {} \<and>
     (\<forall>c \<in> set cs. toolName (wcName c) \<and> ParseJson k (trim_space (wcArgs c)) \<noteq> None \<and> has_prefix (trim_space (wcArgs c)) ''{'')"
  by (induction k seen cs rule: calls_ok.induct) (auto simp: Let_def)

lemma calls_from_ids: "c \<in> set (calls_from k i cs) \<Longrightarrow> wcID c \<noteq> []"
  by (induction k i cs rule: calls_from.induct) (auto simp: or_str_def split: if_splits)

text \<open>An answer the loop can go on with.\<close>

definition answer_ok :: "response \<Rightarrow> bool" where
  "answer_ok r \<longleftrightarrow> (trim_space (respText r) \<noteq> [] \<or> respCalls r \<noteq> [])
     \<and> distinct (map tcID (respCalls r))
     \<and> (\<forall>c \<in> set (respCalls r). tcID c \<noteq> [] \<and> toolName (tcName c) \<and> (\<exists>fs. tcArgs c = Some (JObj fs)))"

definition counts_ok :: "model_usage \<Rightarrow> bool" where
  "counts_ok u \<longleftrightarrow> 0 \<le> InputTokens u \<and> 0 \<le> OutputTokens u \<and> 0 \<le> CacheReadTokens u \<and> 0 \<le> CacheWriteTokens u"

text \<open>What the loop relies on of Go's JSON reader: a valid text whose first byte is a brace is an object.\<close>

definition objects_parse :: "codec \<Rightarrow> bool" where
  "objects_parse k \<longleftrightarrow> (\<forall>s v. ParseJson k (trim_space s) = Some v \<longrightarrow> has_prefix (trim_space s) ''{'' \<longrightarrow>
     (\<exists>fs. v = JObj fs) \<and> ParseJson k s = Some v)"

lemma parse_answer_ok:
  assumes "parse_answer k raw = (None, Some r)" and "objects_parse k"
  shows "answer_ok r"
proof -
  obtain b ch rest where b: "ReadChat k raw = Some b" "cbChoices b = ch # rest"
    using assms(1) by (auto simp: parse_answer_def Let_def split: option.splits list.splits)
  define calls where "calls = calls_from k 0 (wcCalls ch)"
  have ok: "calls_ok k [] calls" and tx: "trim_space (respText r) \<noteq> [] \<or> calls \<noteq> []"
    and rc: "respCalls r = map (call_of k) calls"
    using assms(1) b by (auto simp: parse_answer_def Let_def checkCalls_def calls_def [symmetric] split: if_splits)
  have one: "tcID (call_of k c) \<noteq> [] \<and> toolName (tcName (call_of k c)) \<and> (\<exists>fs. tcArgs (call_of k c) = Some (JObj fs))"
    if c: "c \<in> set calls" for c
  proof -
    obtain v where v: "ParseJson k (trim_space (wcArgs c)) = Some v" "has_prefix (trim_space (wcArgs c)) ''{''" "toolName (wcName c)"
      using calls_ok_all [OF ok] c by blast
    then obtain fs where "v = JObj fs" "ParseJson k (wcArgs c) = Some v"
      using assms(2) unfolding objects_parse_def by blast
    moreover have "wcID c \<noteq> []" using calls_from_ids c unfolding calls_def by blast
    ultimately show ?thesis using v(3) by (simp add: call_of_def)
  qed
  have "map tcID (respCalls r) = map wcID calls" by (simp add: rc call_of_def)
  then have "distinct (map tcID (respCalls r))" using calls_ok_all [OF ok] by simp
  moreover have "respCalls r \<noteq> [] \<longleftrightarrow> calls \<noteq> []" by (simp add: rc)
  moreover have "tcID c \<noteq> [] \<and> toolName (tcName c) \<and> (\<exists>fs. tcArgs c = Some (JObj fs))" if "c \<in> set (respCalls r)" for c
    using that one by (auto simp: rc)
  ultimately show ?thesis using tx unfolding answer_ok_def by blast
qed

lemma parse_answer_counts: "parse_answer k raw = (e, Some r) \<Longrightarrow> counts_ok (respUsage r)"
  by (auto simp: parse_answer_def counts_ok_def answer_usage_def Let_def split: option.splits list.splits if_splits)

lemma parse_answer_total: "parse_answer k raw \<noteq> (None, None)"
  by (auto simp: parse_answer_def Let_def split: option.splits list.splits)

lemma charged_counts:
  "charged k c m took u = (u', c') \<Longrightarrow> counts_ok u \<Longrightarrow> counts_ok u' \<and>
     (fst (Lookup (LowerText k) (cPrices c) m) \<noteq> None \<longrightarrow> CostUSD u' \<noteq> None)"
  by (auto simp: charged_def charge_def counts_ok_def Let_def split: option.splits prod.splits if_splits)

text \<open>
  An answer that Chat returns is one the loop can go on with: it has text or tool calls, the
  calls' ids are distinct and not empty, their names are well formed and their arguments are JSON
  objects; its token counts are not negative; and it has a cost whenever the model has a price.
\<close>

theorem Chat_answer_ok:
  assumes "Client_Chat k net c r x = (Inr a, c', x')" and "objects_parse k"
  shows "answer_ok a \<and> counts_ok (respUsage a) \<and>
    (case chat_model c r of Inl _ \<Rightarrow> False
     | Inr m \<Rightarrow> fst (Lookup (LowerText k) (cPrices c) m) \<noteq> None \<longrightarrow> CostUSD (respUsage a) \<noteq> None)"
proof -
  obtain m raw took where m: "chat_model c r = Inr m" and ans: "chat_answered k c m raw took = (Inr a, c')"
    using assms(1) by (auto simp: Client_Chat_def Let_def split: sum.splits option.splits prod.splits)
  obtain r0 where p: "parse_answer k raw = (None, Some r0)"
    and a: "a = r0\<lparr>respUsage := fst (charged k c m took (respUsage r0))\<rparr>"
    using ans parse_answer_total by (auto simp: chat_answered_def Let_def split: option.splits prod.splits)
  have "answer_ok a" using parse_answer_ok [OF p assms(2)] a by (simp add: answer_ok_def)
  moreover have "counts_ok (respUsage a) \<and>
      (fst (Lookup (LowerText k) (cPrices c) m) \<noteq> None \<longrightarrow> CostUSD (respUsage a) \<noteq> None)"
    using charged_counts [of k c m took "respUsage r0"] parse_answer_counts [OF p] a
    by (cases "charged k c m took (respUsage r0)") auto
  ultimately show ?thesis using m by simp
qed

text \<open>What a failed call is.\<close>

definition typed_failure :: "err \<Rightarrow> bool" where
  "typed_failure e \<longleftrightarrow> e = ECanceled \<or> (\<exists>m. e = EModel m)"

lemma ctxErr_typed [simp]: "typed_failure (ctxErr c)"
  by (simp add: typed_failure_def ctxErr_def)

lemma transportErr_typed [simp]: "typed_failure (transportErr c t)"
  by (simp add: transportErr_def) (simp add: typed_failure_def)

lemma http_answer_typed: "http_answer_of k key c a = Inl (e, retry) \<Longrightarrow> typed_failure e"
  by (auto simp: http_answer_of_def Let_def split: if_splits option.splits) (simp_all add: typed_failure_def)

definition builds :: "'w wire \<Rightarrow> bool" where
  "builds net \<longleftrightarrow> (\<forall>ep au b w. fst (fst (Post net ep au b w)) \<noteq> NotBuilt)"

lemma send_failure:
  assumes "send k net c endpoint body attempt took x = (Inl e, x')" and "builds net"
  shows "typed_failure e"
  using assms(1)
proof (induction "cAttempts c - attempt" arbitrary: attempt took x rule: less_induct)
  case less
  obtain r dt x1 where p: "post_once net c endpoint body x = ((r, dt), x1)" by (metis prod.exhaust)
  have r: "r \<noteq> NotBuilt" using p assms(2) by (auto simp: post_once_def builds_def Let_def split: prod.splits) (metis fst_conv)
  show ?case
  proof (cases r)
    case NotBuilt
    then show ?thesis using r by simp
  next
    case (NoAnswer t)
    then show ?thesis using less.prems p by (auto simp: send.simps)
  next
    case (Got a)
    show ?thesis
    proof (cases "http_answer_of k (cKey c) (CtxOf net (cxWorld x1)) a")
      case (Inr data)
      then show ?thesis using less.prems p Got by (auto simp: send.simps)
    next
      case (Inl er)
      obtain e1 retry where er: "er = (e1, retry)" by (cases er)
      have e1: "typed_failure e1" using Inl er http_answer_typed by blast
      obtain w x2 where w: "next_wait net c e1 attempt x1 = (w, x2)" by (metis prod.exhaust)
      show ?thesis
      proof (cases "\<not> retry \<or> attempt \<ge> cAttempts c \<or> w = None")
        case True
        then show ?thesis using less.prems p Got Inl er w e1 by (auto simp: send.simps [of _ _ _ _ _ attempt] split: if_splits)
      next
        case False
        then obtain d where d: "w = Some d" by blast
        obtain full x3 where f: "wait_for net d x2 = (full, x3)" by (metis prod.exhaust)
        show ?thesis
        proof (cases full)
          case True
          have "send k net c endpoint body (attempt + 1) (took + dt) x3 = (Inl e, x')"
            using less.prems p Got Inl er w d f False True by (auto simp: send.simps [of _ _ _ _ _ attempt])
          moreover have "cAttempts c - (attempt + 1) < cAttempts c - attempt" using False by linarith
          ultimately show ?thesis using less.hyps by blast
        next
          case notfull: False
          then show ?thesis using less.prems p Got Inl er w d f False by (auto simp: send.simps [of _ _ _ _ _ attempt])
        qed
      qed
    qed
  qed
qed

text \<open>
  C37. A Chat call of a well-formed request that fails has one of the failure kinds (or was
  cancelled), so the API answers it with 499, 503, 504, 422 or 502 and never with an unknown error;
  and a failure whose answer was read carries its usage, priced like an answer's.
\<close>

theorem Chat_failure_typed:
  assumes "Client_Chat k net c r x = (Inl e, c', x')"
    and "check_request r = None" and "builds net" and "\<And>w. WriteChat k w \<noteq> None"
  shows "typed_failure e \<and> HTTPStatus e \<in> {499, 503, 504, 422, 502}"
proof -
  have "typed_failure e"
  proof (cases "chat_model c r")
    case (Inl e')
    then have "e = e'" using assms(1) by (simp add: Client_Chat_def)
    then show ?thesis using Inl assms(2)
      by (auto simp: chat_model_def typed_failure_def split: sum.splits if_splits)
  next
    case (Inr m)
    obtain body where body: "WriteChat k (wire_of c m r) = Some body" using assms(4) by blast
    obtain s x1 where s: "send k net c (cEndpoint c) body 1 0 x = (s, x1)" by (metis prod.exhaust)
    show ?thesis
    proof (cases s)
      case (Inl e')
      then have "e = e'" using assms(1) Inr body s by (simp add: Client_Chat_def)
      then show ?thesis using send_failure [of k net c "cEndpoint c" body 1 0 x e x1] s Inl assms(3) by simp
    next
      case sent: (Inr d)
      obtain raw took where d: "d = (raw, took)" by (cases d)
      have "fst (chat_answered k c m raw took) = Inl e"
        using assms(1) Inr body s sent d by (auto simp: Client_Chat_def Let_def split: prod.splits)
      then show ?thesis using parse_answer_total [of k raw]
        by (auto simp: chat_answered_def typed_failure_def Let_def split: option.splits prod.splits)
    qed
  qed
  moreover have "HTTPStatus e \<in> {499, 503, 504, 422, 502}" if "typed_failure e"
  proof -
    have "kind_status k \<in> {503, 504, 422, 502}" for k by (cases k) simp_all
    then show ?thesis using that by (fastforce simp: typed_failure_def HTTPStatus_def)
  qed
  ultimately show ?thesis by blast
qed

definition demo_chat :: chat_request where
  "demo_chat = \<lparr>rqAgent = ''lead'', rqRole = ''lead'', rqModel = [],
     rqMessages = [\<lparr>mRole = ''user'', mContent = CText ''hi'', mCalls = [], mCallID = []\<rparr>], rqTools = [], rqChoice = [],
     rqMaxTokens = 100, rqParallel = None, rqTemperature = None\<rparr>"

lemma demo_objects: "objects_parse demo_codec"
proof -
  have "trim_space [] = []" by (simp add: trim_space_id)
  then show ?thesis by (auto simp: objects_parse_def demo_codec_def split: if_splits)
qed

definition demo_answer :: response where
  "demo_answer = \<lparr>respText = ''yes'', respCalls = [\<lparr>tcID = ''call_0'', tcName = ''read'', tcArgs = Some (JObj [])\<rparr>],
     respTruncated = False, respUsage = \<lparr>InputTokens = 6, OutputTokens = 2, CacheReadTokens = 4, CacheWriteTokens = 0,
       DurationHours = 2 / 3600, CostUSD = Some (52 / 5000000), WattHours = None\<rparr>\<rparr>"

lemma demo_model: "chat_model demo_client demo_chat = Inr ''m''"
  by (simp add: chat_model_def demo_chat_def check_request_def choices_def message_ok_def msgRoles_def parts_of_def
      demo_client_def Roles_Model_def role_binding_def Let_def)

lemma demo_answered: "fst (chat_answered demo_codec demo_client ''m'' ''ok'' 2) = Inr demo_answer"
proof -
  have trims: "trim_space ''{}'' = ''{}''" "trim_space ''m'' = ''m''" "trim_space ''yes'' = ''yes''"
    by (rule trim_space_id; simp add: graphic_byte_def is_space_rune_def byte_val_def)+
  have d0: "digits_of 0 = ''0''" by code_simp
  have v1: "valid_utf8 ''{}''" by (rule valid_utf8_ascii) (auto simp: byte_val_def)
  have v2: "toolName ''read''"
    by (simp add: toolName_def name_char_def upper_letter_def lower_letter_def is_digit_byte_def less_eq_char_def)
  have calls: "calls_from demo_codec 0 [([], ''read'', Some (JObj []))] = [\<lparr>wcID = ''call_0'', wcName = ''read'', wcArgs = ''{}''\<rparr>]"
    by (simp add: call_args_def demo_codec_def trims d0 or_str_def)
  have check: "checkCalls demo_codec [\<lparr>wcID = ''call_0'', wcName = ''read'', wcArgs = ''{}''\<rparr>] = None"
    by (simp add: checkCalls_def trims v1 v2 demo_codec_def has_prefix_def)
  have look: "Lookup id (cPrices demo_client) ''m'' = (Some \<lparr>rIn = 1, rOut = 2\<rparr>, True, True)"
    by (simp add: Lookup_def trims bare_id_def has_prefix_def Let_def demo_client_def lookup_in_def)
  have read: "ReadChat demo_codec ''ok'' = Some \<lparr>cbChoices = [\<lparr>wcContent = Some ''yes'', wcCalls = [([], ''read'', Some (JObj []))],
        wcFinish = ''stop''\<rparr>], cbPrompt = 10, cbComplete = 2, cbCached = 4, cbCacheWrite = 0\<rparr>" "LowerText demo_codec = id"
    by (simp_all add: demo_codec_def)
  have call: "call_of demo_codec \<lparr>wcID = ''call_0'', wcName = ''read'', wcArgs = ''{}''\<rparr> =
      \<lparr>tcID = ''call_0'', tcName = ''read'', tcArgs = Some (JObj [])\<rparr>"
    by (simp add: call_of_def demo_codec_def)
  have w: "cWatts demo_client = 0" by (simp add: demo_client_def)
  show ?thesis
    by (simp add: chat_answered_def parse_answer_def read calls check trims call charged_def charge_def w look Let_def
        answer_usage_def Cost_def demo_answer_def del: calls_from.simps)
qed

theorem Chat_answer_ok_witness:
  "answer_ok demo_answer \<and> CostUSD (respUsage demo_answer) \<noteq> None"
proof -
  obtain x' where s: "send demo_codec demo_wire demo_client (cEndpoint demo_client) ''body'' 1 0 demo_conn = (Inr (''ok'', 2), x')"
    using demo_send by blast
  obtain c' where a: "chat_answered demo_codec demo_client ''m'' ''ok'' 2 = (Inr demo_answer, c')"
    using demo_answered by (metis prod.collapse)
  have "WriteChat demo_codec w = Some ''body''" for w by (simp add: demo_codec_def)
  then have "Client_Chat demo_codec demo_wire demo_client demo_chat demo_conn = (Inr demo_answer, c', x')"
    using demo_model s a by (simp add: Client_Chat_def)
  from Chat_answer_ok [OF this demo_objects] show ?thesis by (simp add: demo_answer_def)
qed

text \<open>The same client without an endpoint.\<close>

theorem Chat_failure_typed_witness:
  "HTTPStatus (EModel (model_fail ErrNotConfigured ''BIGLAW_MODEL_URL is not set'')) \<in> {499, 503, 504, 422, 502}"
proof -
  define c where "c = demo_client\<lparr>cEndpoint := []\<rparr>"
  have req: "check_request demo_chat = None"
    by (simp add: demo_chat_def check_request_def choices_def message_ok_def msgRoles_def parts_of_def)
  have "chat_model c demo_chat = Inl (EModel (model_fail ErrNotConfigured ''BIGLAW_MODEL_URL is not set''))"
    using req by (simp add: chat_model_def c_def demo_client_def demo_chat_def Roles_Model_def role_binding_def Let_def)
  then have run: "Client_Chat demo_codec demo_wire c demo_chat demo_conn =
      (Inl (EModel (model_fail ErrNotConfigured ''BIGLAW_MODEL_URL is not set'')), c, demo_conn)"
    by (simp add: Client_Chat_def)
  have "builds demo_wire" by (simp add: builds_def demo_wire_def)
  moreover have "WriteChat demo_codec w \<noteq> None" for w by (simp add: demo_codec_def)
  ultimately show ?thesis using Chat_failure_typed [OF run req] by blast
qed

section \<open>What an embeddings call returns\<close>

lemma place_length: "length (snd (foldl place acc ds)) = length (snd acc)"
  by (induction ds arbitrary: acc) (auto simp: place_def Let_def split: prod.splits)

lemma place_given:
  "foldl place acc ds = (g, vs) \<Longrightarrow> i < length vs \<Longrightarrow> vs ! i = Some v \<Longrightarrow>
     snd acc ! i = Some v \<or> (int i, Some v) \<in> set ds"
proof (induction ds arbitrary: acc)
  case (Cons d ds)
  obtain g0 us where acc: "acc = (g0, us)" by (cases acc)
  obtain j w where d: "d = (j, w)" by (cases d)
  have "length us = length vs"
    using place_length [of acc "d # ds"] Cons.prems(1) by (simp add: acc)
  then have step: "snd (place acc d) ! i = us ! i \<or> i = nat j \<and> 0 \<le> j \<and> snd (place acc d) ! i = w"
    using Cons.prems(2) by (auto simp: place_def acc d nth_list_update split: if_splits)
  have "snd (place acc d) ! i = Some v \<or> (int i, Some v) \<in> set ds"
    using Cons.IH [of "place acc d"] Cons.prems by simp
  then show ?case using step by (auto simp: acc d)
qed simp

text \<open>
  An embeddings call that succeeds has one vector for each input, each of them one the answer
  gave for that input's index, all of one length from 1 to 16,000 and of a norm that cosine distance
  can use.
\<close>

theorem Embed_vectors:
  assumes "Client_Embed k net c r x = (Inr e, c', x')"
  shows "length (emVectors e) = length (erInputs r) \<and> usable (emVectors e) \<and>
    (\<exists>raw a. ReadEmbed k raw = Some a \<and> (\<forall>i < length (erInputs r). (int i, Some (emVectors e ! i)) \<in> set (ebData a)))"
proof -
  obtain m body raw took where ans: "embed_answer k c m (erInputs r) body raw took = (Inr e, c')"
    using assms by (auto simp: Client_Embed_def Let_def split: sum.splits option.splits prod.splits if_splits)
  obtain a where a: "ReadEmbed k raw = Some a" using ans by (auto simp: embed_answer_def split: option.splits)
  let ?init = "(length (ebData a) = length (erInputs r), replicate (length (erInputs r)) None)"
  obtain g vs where f: "foldl place ?init (ebData a) = (g, vs)" by (metis prod.exhaust)
  have e: "emVectors e = map vector_of vs" "usable (map vector_of vs)"
    using ans a f by (auto simp: embed_answer_def Let_def split: prod.splits if_splits)
  have len: "length vs = length (erInputs r)" using place_length [of ?init "ebData a"] f by simp
  have "(int i, Some (vector_of (vs ! i))) \<in> set (ebData a)" if i: "i < length vs" for i
  proof -
    have "vector_of (vs ! i) \<noteq> []" using e(2) i by (auto simp: usable_def list_all_iff)
    then obtain v where v: "vs ! i = Some v" by (auto simp: vector_of_def split: option.splits)
    then show ?thesis using place_given [OF f i v] len i by (simp add: vector_of_def)
  qed
  then show ?thesis using e len a by auto
qed

lemma demo_send_embed:
  "\<exists>c' x'. Client_Embed demo_codec demo_wire demo_client \<lparr>erAgent = ''docs'', erInputs = [''p'', ''q'']\<rparr> demo_conn
     = (Inr \<lparr>emModel = ''e'', emVectors = [[3 / 5, 4 / 5], [1, 0]], emUsage = fst (charged demo_codec demo_client ''e'' 2
          \<lparr>InputTokens = 4, OutputTokens = 0, CacheReadTokens = 0, CacheWriteTokens = 0, DurationHours = 0,
           CostUSD = None, WattHours = None\<rparr>)\<rparr>, c', x')"
proof -
  obtain x' where s: "send demo_codec demo_wire demo_client (cEmbeddings demo_client) ''body'' (Suc 0) 0 demo_conn = (Inr (''ok'', 2), x')"
    using demo_send by auto
  have trims: "trim_space ''p'' = ''p''" "trim_space ''q'' = ''q''"
    by (rule trim_space_id; simp add: graphic_byte_def is_space_rune_def byte_val_def)+
  have v: "valid_utf8 ''p''" "valid_utf8 ''q''" by (rule valid_utf8_ascii; auto simp: byte_val_def)+
  have check: "check_embed \<lparr>erAgent = ''docs'', erInputs = [''p'', ''q'']\<rparr>"
    by (simp add: check_embed_def trims v MaxEmbedInputs_def MaxEmbedInput_def)
  have m: "Roles_Model (cRoles demo_client) ''embed'' = Inr ''e''" "cEmbeddings demo_client \<noteq> []"
    by (simp_all add: demo_client_def Roles_Model_def role_binding_def Let_def)
  have k: "ReadEmbed demo_codec ''ok'' = Some \<lparr>ebData = [(1, Some [1, 0]), (0, Some [3 / 5, 4 / 5])], ebPrompt = Some 7\<rparr>"
    "WriteEmbed demo_codec n is = Some ''body''" for n "is"
    by (simp_all add: demo_codec_def)
  have u: "usable [[3 / 5, 4 / 5], [1, 0]]" by (simp add: usable_def square_norm_def)
  show ?thesis
    by (auto simp: Client_Embed_def check m s k embed_answer_def Let_def place_def vector_of_def u split: prod.splits)
qed

theorem Embed_vectors_witness: "usable [[3 / 5, 4 / 5], [1, 0]]"
proof -
  obtain c' x' where r: "Client_Embed demo_codec demo_wire demo_client \<lparr>erAgent = ''docs'', erInputs = [''p'', ''q'']\<rparr> demo_conn
     = (Inr \<lparr>emModel = ''e'', emVectors = [[3 / 5, 4 / 5], [1, 0]], emUsage = fst (charged demo_codec demo_client ''e'' 2
          \<lparr>InputTokens = 4, OutputTokens = 0, CacheReadTokens = 0, CacheWriteTokens = 0, DurationHours = 0,
           CostUSD = None, WattHours = None\<rparr>)\<rparr>, c', x')"
    using demo_send_embed by blast
  from Embed_vectors [OF r] show ?thesis by simp
qed

end
