(* ===== verification/Encoded.thy ===== *)
theory Encoded
  imports Utf8
begin

text \<open>
  Texts that are encodings of lists of runes: decoding them, trimming them, and finding one inside
  another at a rune boundary.
\<close>

definition scalar :: "rune \<Rightarrow> bool" where
  "scalar r \<longleftrightarrow> r < 1114112 \<and> \<not> (55296 \<le> r \<and> r \<le> 57343)"

definition encode :: "rune list \<Rightarrow> string" where
  "encode rs = concat (map encode_rune rs)"

lemma encode_simps [simp]:
  "encode [] = []" "encode (r # rs) = encode_rune r @ encode rs" "encode (rs @ qs) = encode rs @ encode qs"
  by (simp_all add: encode_def)

lemma encode_eq_Nil [simp]: "encode rs = [] \<longleftrightarrow> rs = []"
  by (cases rs) simp_all

lemma byte_val_char_of [simp]: "n < 256 \<Longrightarrow> byte_val (char_of n) = n"
  by (simp add: byte_val_def)

section \<open>Decoding an encoding\<close>

lemma sixes3: "r = (r div 4096 * 64 + r div 64 mod 64) * 64 + r mod 64" for r :: nat
proof -
  have "r div 64 = r div 64 div 64 * 64 + r div 64 mod 64" by simp
  then have "r div 64 = r div 4096 * 64 + r div 64 mod 64" by (simp add: div_mult2_eq [symmetric])
  then show ?thesis by (metis div_mult_mod_eq)
qed

lemma sixes4: "r = ((r div 262144 * 64 + r div 4096 mod 64) * 64 + r div 64 mod 64) * 64 + r mod 64" for r :: nat
proof -
  have "r div 4096 = r div 4096 div 64 * 64 + r div 4096 mod 64" by simp
  then have "r div 4096 = r div 262144 * 64 + r div 4096 mod 64" by (simp add: div_mult2_eq [symmetric])
  then show ?thesis using sixes3 [of r] by simp
qed

lemma decode_encode:
  assumes "scalar r"
  shows "decode_rune (encode_rune r @ x) = (r, length (encode_rune r))"
proof -
  consider "r < 128" | "128 \<le> r" "r < 2048" | "2048 \<le> r" "r < 65536" | "65536 \<le> r" by linarith
  then show ?thesis
  proof cases
    case 1
    then show ?thesis by (simp add: encode_rune_def)
  next
    case 2
    have "2 \<le> r div 64" "r div 64 \<le> 31" using 2 by (simp_all add: div_le_mono less_eq_div_iff_mult_less_eq)
    then show ?thesis using 2 by (simp add: encode_rune_def decode2_def cont_byte_def)
  next
    case 3
    define a b c where "a = r div 4096" and "b = r div 64 mod 64" and "c = r mod 64"
    have r: "r = (a * 64 + b) * 64 + c" unfolding a_def b_def c_def by (rule sixes3)
    have lt: "b < 64" "c < 64" by (simp_all add: b_def c_def)
    have a: "a < 16" using 3 by (simp add: a_def less_mult_imp_div_less)
    have b1: "a = 0 \<longrightarrow> 32 \<le> b" using 3 r lt by (cases "a = 0") simp_all
    have b2: "a = 13 \<longrightarrow> b < 32" using assms r lt by (cases "a = 13") (simp_all add: scalar_def)
    have e: "encode_rune r = [char_of (224 + a), char_of (128 + b), char_of (128 + c)]"
      using 3 by (simp add: encode_rune_def a_def b_def c_def)
    show ?thesis unfolding e using a lt b1 b2 r
      by (auto simp: decode3_def byte_in_def cont_byte_def second_lo_def second_hi_def)
  next
    case 4
    define a b c d where "a = r div 262144" and "b = r div 4096 mod 64" and "c = r div 64 mod 64" and "d = r mod 64"
    have r: "r = ((a * 64 + b) * 64 + c) * 64 + d" unfolding a_def b_def c_def d_def by (rule sixes4)
    have lt: "b < 64" "c < 64" "d < 64" by (simp_all add: b_def c_def d_def)
    have a: "a < 5" using assms by (simp add: a_def scalar_def less_mult_imp_div_less)
    have b1: "a = 0 \<longrightarrow> 16 \<le> b" using 4 r lt by (cases "a = 0") simp_all
    have b2: "a = 4 \<longrightarrow> b < 16" using assms r lt by (cases "a = 4") (simp_all add: scalar_def)
    have e: "encode_rune r = [char_of (240 + a), char_of (128 + b), char_of (128 + c), char_of (128 + d)]"
      using 4 by (simp add: encode_rune_def a_def b_def c_def d_def)
    show ?thesis unfolding e using a lt b1 b2 r
      by (auto simp: decode4_def byte_in_def cont_byte_def second_lo_def second_hi_def)
  qed
qed

text \<open>The first byte of an encoding gives its length, and no other byte of it can start one.\<close>

definition lead_length :: "char \<Rightarrow> nat" where
  "lead_length c = (if byte_val c < 128 then 1 else if byte_val c < 224 then 2 else if byte_val c < 240 then 3 else 4)"

lemma encode_rune_bytes:
  assumes "scalar r"
  shows "\<not> cont_byte (hd (encode_rune r)) \<and> length (encode_rune r) = lead_length (hd (encode_rune r))
    \<and> (\<forall>c \<in> set (tl (encode_rune r)). cont_byte c)"
proof -
  have "r div 64 < 32" if "r < 2048" using that by (simp add: less_mult_imp_div_less)
  moreover have "2 \<le> r div 64" if "128 \<le> r" using that by (simp add: less_eq_div_iff_mult_less_eq)
  moreover have "r div 4096 < 16" if "r < 65536" using that by (simp add: less_mult_imp_div_less)
  moreover have "r div 262144 < 5" using assms by (simp add: scalar_def less_mult_imp_div_less)
  ultimately show ?thesis
    by (auto simp: encode_rune_def cont_byte_def lead_length_def)
qed

lemma encode_rune_prefix:
  assumes "scalar r" and "scalar q" and "encode_rune r @ x = encode_rune q @ y"
  shows "encode_rune r = encode_rune q \<and> r = q \<and> x = y"
proof -
  have "hd (encode_rune r) = hd (encode_rune q)" using assms(3) by (metis encode_rune_nonempty hd_append2)
  then have "length (encode_rune r) = length (encode_rune q)" using encode_rune_bytes assms(1,2) by metis
  then have same: "encode_rune r = encode_rune q" "x = y" using assms(3) by auto
  then have "r = q" using decode_encode [OF assms(1), of "[]"] decode_encode [OF assms(2), of "[]"] by simp
  then show ?thesis using same by simp
qed

lemma encode_prefix:
  "\<forall>r \<in> set rs \<union> set qs. scalar r \<Longrightarrow> encode rs = encode qs @ y \<Longrightarrow> \<exists>ps. rs = qs @ ps \<and> y = encode ps"
proof (induction qs arbitrary: rs)
  case (Cons q qs)
  obtain r rs' where rs: "rs = r # rs'" using Cons.prems(2) by (cases rs) auto
  have sc: "scalar r" "scalar q" "\<forall>r \<in> set rs' \<union> set qs. scalar r" using Cons.prems(1) rs by simp_all
  have "encode_rune r @ encode rs' = encode_rune q @ (encode qs @ y)" using Cons.prems(2) rs by simp
  from encode_rune_prefix [OF sc(1,2) this] have "r = q" "encode rs' = encode qs @ y" by blast+
  then show ?case using Cons.IH [OF sc(3)] rs by auto
qed simp

text \<open>An encoding found inside another is found at a rune boundary.\<close>

lemma encode_inside:
  "\<forall>r \<in> set rs \<union> set qs. scalar r \<Longrightarrow> qs \<noteq> [] \<Longrightarrow> encode rs = x @ encode qs @ y \<Longrightarrow>
     \<exists>as bs. rs = as @ qs @ bs \<and> x = encode as \<and> y = encode bs"
proof (induction rs arbitrary: x)
  case Nil
  then show ?case by (cases qs) auto
next
  case (Cons r rs)
  show ?case
  proof (cases "x = []")
    case True
    then obtain ps where "r # rs = qs @ ps" "y = encode ps"
      using encode_prefix [of "r # rs" qs y] Cons.prems by auto
    then show ?thesis using True by (intro exI [of _ "[]"] exI [of _ ps]) simp
  next
    case False
    let ?e = "encode_rune r"
    have eq: "?e @ encode rs = x @ encode qs @ y" using Cons.prems(3) by simp
    have "length ?e \<le> length x"
    proof (rule ccontr)
      assume "\<not> length ?e \<le> length x"
      then have lt: "length x < length ?e" by simp
      obtain q qs' where qs: "qs = q # qs'" using Cons.prems(2) by (cases qs) auto
      have "(?e @ encode rs) ! length x = hd (encode_rune q)"
        unfolding eq by (cases "encode_rune q") (simp_all add: qs nth_append)
      then have "?e ! length x = hd (encode_rune q)" using lt by (simp add: nth_append)
      moreover have "?e ! length x \<in> set (tl ?e)" using lt False
        by (metis length_greater_0_conv length_tl less_diff_conv nth_mem nth_tl Suc_pred' add.commute plus_1_eq_Suc)
      ultimately show False using encode_rune_bytes [of r] encode_rune_bytes [of q] Cons.prems(1) qs by auto
    qed
    then obtain x' where x: "x = ?e @ x'" using eq by (metis append_eq_append_conv_if append_take_drop_id)
    then have "encode rs = x' @ encode qs @ y" using eq by simp
    then obtain as bs where "rs = as @ qs @ bs" "x' = encode as" "y = encode bs"
      using Cons.IH [of x'] Cons.prems(1,2) by auto
    then show ?thesis using x by (intro exI [of _ "r # as"] exI [of _ bs]) simp
  qed
qed

section \<open>Trimming an encoding\<close>

lemma decode_last_encode:
  assumes "scalar r"
  shows "decode_last_rune (x @ encode_rune r) = (r, length (encode_rune r))"
proof -
  let ?e = "encode_rune r" and ?s = "x @ encode_rune r"
  have whole: "decode_rune (drop (length ?s - length ?e) ?s) = (r, length ?e)"
    using decode_encode [OF assms, of "[]"] by simp
  have inner: "snd (decode_rune (drop (length ?s - k) ?s)) = 1" if "1 \<le> k" "k < length ?e" for k
  proof -
    have "drop (length ?s - k) ?s = drop (length ?e - k) ?e" using that by simp
    also have "\<dots> = ?e ! (length ?e - k) # drop (Suc (length ?e - k)) ?e"
      using that by (intro Cons_nth_drop_Suc [symmetric]) simp
    finally have d: "drop (length ?s - k) ?s = ?e ! (length ?e - k) # drop (Suc (length ?e - k)) ?e" .
    have "Suc (length ?e - k - 1) = length ?e - k" using that by simp
    then have "?e ! (length ?e - k) = tl ?e ! (length ?e - k - 1)" using that by (subst nth_tl) (simp_all del: Suc_diff_Suc)
    moreover have "length ?e - k - 1 < length (tl ?e)" using that by simp
    ultimately have "cont_byte (?e ! (length ?e - k))" using encode_rune_bytes [OF assms] nth_mem by metis
    then show ?thesis unfolding d by (simp add: cont_byte_def)
  qed
  have last_cont: "\<not> byte_val (last ?s) < 128" if "128 \<le> r"
    using that by (auto simp: encode_rune_def byte_val_def of_char_of)
  consider "r < 128" | "length ?e = 2" "128 \<le> r" | "length ?e = 3" "128 \<le> r" | "length ?e = 4" "128 \<le> r"
    by (cases "r < 128"; cases "r < 2048"; cases "r < 65536") (simp_all add: encode_rune_def)
  then show ?thesis
  proof cases
    case 1
    then show ?thesis by (simp add: encode_rune_def decode_last_rune_def)
  next
    case 2
    then have "\<not> byte_val (last ?s) < 128" using last_cont by simp
    then show ?thesis using whole 2 by (simp add: decode_last_rune_def)
  next
    case 3
    then have "\<not> byte_val (last ?s) < 128" using last_cont by simp
    then show ?thesis using whole inner [of 2] 3 by (simp add: decode_last_rune_def)
  next
    case 4
    then have "\<not> byte_val (last ?s) < 128" using last_cont by simp
    then show ?thesis using whole inner [of 2] inner [of 3] 4 by (simp add: decode_last_rune_def)
  qed
qed

lemma trim_left_encode: "\<forall>r \<in> set rs. scalar r \<Longrightarrow> trim_left_space (encode rs) = encode (dropWhile is_space_rune rs)"
proof (induction rs)
  case (Cons r rs)
  then show ?case by (subst trim_left_space.simps) (simp add: decode_encode)
qed (simp add: trim_left_space.simps)

lemma trim_right_encode:
  "\<forall>r \<in> set rs. scalar r \<Longrightarrow> trim_right_space (encode rs) = encode (rev (dropWhile is_space_rune (rev rs)))"
proof (induction rs rule: rev_induct)
  case (snoc r rs)
  then show ?case by (subst trim_right_space.simps) (simp add: decode_last_encode)
qed (simp add: trim_right_space.simps)

lemma trim_space_encode:
  "\<forall>r \<in> set rs. scalar r \<Longrightarrow>
     trim_space (encode rs) = encode (rev (dropWhile is_space_rune (rev (dropWhile is_space_rune rs))))"
  by (simp add: trim_space_def trim_left_encode trim_right_encode) (metis set_dropWhileD trim_right_encode)

section \<open>What decoding gives\<close>

lemma decode_rune_scalar: "scalar (fst (decode_rune s))"
proof (cases s)
  case Nil
  then show ?thesis by (simp add: scalar_def rune_error_def)
next
  case (Cons a t)
  have err: "scalar rune_error" by (simp add: scalar_def rune_error_def)
  have two: "scalar (fst (decode2 a t))" if "194 \<le> byte_val a" "byte_val a \<le> 223"
    using decode2_range [of a t] that err by (cases "decode2 a t = (rune_error, 1)") (auto simp: scalar_def)
  have three: "scalar (fst (decode3 a t))" if r: "224 \<le> byte_val a" "byte_val a \<le> 239"
  proof (cases "decode3 a t = (rune_error, 1)")
    case False
    then obtain b c t' where t: "t = b # c # t'"
      and ok: "byte_in (second_lo (byte_val a)) (second_hi (byte_val a)) b \<and> cont_byte c"
      by (auto simp: decode3_def split: list.splits if_splits)
    obtain x y z where x: "byte_val a = 224 + x" and y: "byte_val b = 128 + y" and z: "byte_val c = 128 + z"
      using r(1) ok second_lo_ge [of "byte_val a"]
      by (auto simp: byte_in_def cont_byte_def dest!: le_Suc_ex)
    have "x \<le> 15" "y < 64" "z < 64" "x = 13 \<longrightarrow> y < 32"
      using r ok x y z by (auto simp: byte_in_def cont_byte_def second_hi_def split: if_splits)
    then have "scalar ((x * 64 + y) * 64 + z)" by (cases "x < 13"; cases "x = 13") (auto simp: scalar_def)
    then show ?thesis using ok x y z by (simp add: decode3_def t)
  qed (simp add: err)
  have four: "scalar (fst (decode4 a t))" if r: "240 \<le> byte_val a" "byte_val a \<le> 244"
  proof (cases "decode4 a t = (rune_error, 1)")
    case False
    then obtain b c d t' where t: "t = b # c # d # t'"
      and ok: "byte_in (second_lo (byte_val a)) (second_hi (byte_val a)) b \<and> cont_byte c \<and> cont_byte d"
      by (auto simp: decode4_def split: list.splits if_splits)
    obtain x y z w where x: "byte_val a = 240 + x" and y: "byte_val b = 128 + y" and z: "byte_val c = 128 + z"
      and w: "byte_val d = 128 + w"
      using r(1) ok second_lo_ge [of "byte_val a"]
      by (auto simp: byte_in_def cont_byte_def dest!: le_Suc_ex)
    have "x \<le> 4" "y < 64" "z < 64" "w < 64" "x = 4 \<longrightarrow> y < 16"
      using r ok x y z w by (auto simp: byte_in_def cont_byte_def second_hi_def split: if_splits)
    moreover have "65536 \<le> ((x * 64 + y) * 64 + z) * 64 + w"
      using decode4_range [OF r False] ok x y z w by (simp add: decode4_def t)
    ultimately have "scalar (((x * 64 + y) * 64 + z) * 64 + w)" by (cases "x < 4") (auto simp: scalar_def)
    then show ?thesis using ok x y z w by (simp add: decode4_def t)
  qed (simp add: err)
  show ?thesis using two three four err by (auto simp: Cons scalar_def)
qed

text \<open>A rune cut short decodes to an error.\<close>

lemma decode_rune_cut:
  assumes "0 < m" and "m < snd (decode_rune s)"
  shows "decode_rune (take m s) = (rune_error, 1)"
proof -
  obtain a t where s: "s = a # t" using assms by (cases s) auto
  obtain k where m: "m = Suc k" using assms(1) by (cases m) auto
  have "decode2 a (take k t) = (rune_error, 1)" if "Suc k < snd (decode2 a t)"
    using that by (cases k) (auto simp: decode2_def split: list.splits if_splits)
  moreover have "decode3 a (take k t) = (rune_error, 1)" if "Suc k < snd (decode3 a t)"
  proof -
    have "k < 2" using that by (auto simp: decode3_def split: list.splits if_splits)
    then show ?thesis by (cases t; cases k) (auto simp: decode3_def take_Cons' split: list.splits)
  qed
  moreover have "decode4 a (take k t) = (rune_error, 1)" if "Suc k < snd (decode4 a t)"
  proof -
    have "length (take k t) < 3" using that by (auto simp: decode4_def split: list.splits if_splits)
    then have "length (take k t) \<le> 2" by linarith
    then show ?thesis by (cases "take k t" rule: remdups_adj.cases; cases "tl (tl (take k t))") (auto simp: decode4_def split: list.splits)
  qed
  ultimately show ?thesis using assms by (auto simp: s m split: if_splits)
qed

end
