(* ===== verification/Verify.thy ===== *)
theory Verify
  imports Encoded Complex_Main
begin

text \<open>
  \<^verbatim>\<open>internal/docs/verify.go\<close>: the ladder that places a quote in a document's text.  A text is its
  bytes and every offset a byte offset; lower-casing, the letter and number classes of Unicode and
  the formatting of a confidence are functions of a record, the judge acts on a state of its own,
  and the database that names the section at an offset is a function.
\<close>

record unicode =
  LowerRune :: "rune \<Rightarrow> rune"
  WordRune :: "rune \<Rightarrow> bool"
  NumberRune :: "rune \<Rightarrow> bool"
  LetterOrDigit :: "rune \<Rightarrow> bool"
  Fmt2 :: "rat \<Rightarrow> string"

text \<open>What the model relies on of \<^verbatim>\<open>unicode.ToLower\<close>: it maps code points to code points.\<close>

definition lowers :: "unicode \<Rightarrow> bool" where
  "lowers u \<longleftrightarrow> (\<forall>r. scalar r \<longrightarrow> scalar (LowerRune u r))"

section \<open>Constants\<close>

definition ExactConfidence :: rat where "ExactConfidence = 1"
definition TolerantConfidence :: rat where "TolerantConfidence = 95 / 100"
definition CellConfidence :: rat where "CellConfidence = 9 / 10"
definition JudgeCap :: rat where "JudgeCap = 8 / 10"
definition ensembleBand :: rat where "ensembleBand = 75 / 100"
definition ensembleVotes :: nat where "ensembleVotes = 3"
definition ensembleScale :: rat where "ensembleScale = 75 / 100"
definition windowRadius :: nat where "windowRadius = 1500"
definition repairOverlap :: rat where "repairOverlap = 6 / 10"

section \<open>Normalisation\<close>

definition is_sep :: "bool \<Rightarrow> rune \<Rightarrow> bool" where
  "is_sep cells r \<longleftrightarrow> is_space_rune r \<or> cells \<and> r = 124"

text \<open>The length in bytes of the run of separators a text starts with.\<close>

function sep_run :: "bool \<Rightarrow> string \<Rightarrow> nat" where
  "sep_run cells s =
     (if s \<noteq> [] \<and> is_sep cells (fst (decode_rune s))
      then snd (decode_rune s) + sep_run cells (drop (snd (decode_rune s)) s) else 0)"
  by pat_completeness auto
termination
  by (relation "measure (\<lambda>(cells, s). length s)") (auto simp: decode_rune_shrinks)

declare sep_run.simps [simp del]

definition fold_rune :: "unicode \<Rightarrow> rune \<Rightarrow> rune" where
  "fold_rune u r =
     (if 8216 \<le> r \<and> r \<le> 8219 then 39
      else if 8220 \<le> r \<and> r \<le> 8223 then 34
      else if r = 8208 \<or> r = 8209 then 45
      else LowerRune u r)"

lemma fold_rune_code [code]:
  "fold_rune u r = (let i = int r in
     if 8216 \<le> i \<and> i \<le> 8219 then 39 else if 8220 \<le> i \<and> i \<le> 8223 then 34
     else if i = 8208 \<or> i = 8209 then 45 else LowerRune u r)"
  by (simp add: fold_rune_def Let_def)

lemma sep_run_pos: "s \<noteq> [] \<Longrightarrow> is_sep cells (fst (decode_rune s)) \<Longrightarrow> 0 < sep_run cells s"
  using decode_rune_width(1) [of s] by (subst sep_run.simps) simp

lemma sep_run_le: "sep_run cells s \<le> length s"
proof (induction cells s rule: sep_run.induct)
  case (1 cells s)
  then show ?case using decode_rune_width(2) [of s] by (subst sep_run.simps) auto
qed

text \<open>The runes the normalised text is written from, each with the offset it stands for.\<close>

function units :: "unicode \<Rightarrow> bool \<Rightarrow> nat \<Rightarrow> string \<Rightarrow> (nat \<times> rune) list" where
  "units u cells i s =
     (if s = [] then []
      else (let (r, n) = decode_rune s in
            if is_sep cells r
            then (i, 32) # units u cells (i + sep_run cells s) (drop (sep_run cells s) s)
            else if is_format_rune r then units u cells (i + n) (drop n s)
            else (i, fold_rune u r) # units u cells (i + n) (drop n s)))"
  by pat_completeness auto
termination
proof (relation "measure (\<lambda>(u, cells, i, s). length s)", goal_cases)
  case (2 u cells i s x r n)
  then have "0 < sep_run cells s" by (metis fst_conv sep_run_pos)
  then show ?case using 2(1) by simp
next
  case (3 u cells i s x r n)
  then show ?case using decode_rune_shrinks [of s] by (metis in_measure prod.case length_drop snd_conv)
next
  case (4 u cells i s x r n)
  then show ?case using decode_rune_shrinks [of s] by (metis in_measure prod.case length_drop snd_conv)
qed simp

declare units.simps [simp del]

lemma units_Nil [simp]: "units u cells i [] = []"
  by (simp add: units.simps)

lemma units_sep:
  "s \<noteq> [] \<Longrightarrow> is_sep cells (fst (decode_rune s)) \<Longrightarrow>
     units u cells i s = (i, 32) # units u cells (i + sep_run cells s) (drop (sep_run cells s) s)"
  by (subst units.simps) (simp add: split_beta)

lemma units_format:
  "s \<noteq> [] \<Longrightarrow> \<not> is_sep cells (fst (decode_rune s)) \<Longrightarrow> is_format_rune (fst (decode_rune s)) \<Longrightarrow>
     units u cells i s = units u cells (i + snd (decode_rune s)) (drop (snd (decode_rune s)) s)"
  by (subst units.simps) (simp add: split_beta)

lemma units_rune:
  "s \<noteq> [] \<Longrightarrow> \<not> is_sep cells (fst (decode_rune s)) \<Longrightarrow> \<not> is_format_rune (fst (decode_rune s)) \<Longrightarrow>
     units u cells i s = (i, fold_rune u (fst (decode_rune s))) #
       units u cells (i + snd (decode_rune s)) (drop (snd (decode_rune s)) s)"
  by (subst units.simps) (simp add: split_beta)

lemma units_induct [case_names empty sep format rune]:
  assumes "\<And>i. P i []"
    and "\<And>i s. s \<noteq> [] \<Longrightarrow> is_sep cells (fst (decode_rune s)) \<Longrightarrow>
      P (i + sep_run cells s) (drop (sep_run cells s) s) \<Longrightarrow> P i s"
    and "\<And>i s. s \<noteq> [] \<Longrightarrow> \<not> is_sep cells (fst (decode_rune s)) \<Longrightarrow> is_format_rune (fst (decode_rune s)) \<Longrightarrow>
      P (i + snd (decode_rune s)) (drop (snd (decode_rune s)) s) \<Longrightarrow> P i s"
    and "\<And>i s. s \<noteq> [] \<Longrightarrow> \<not> is_sep cells (fst (decode_rune s)) \<Longrightarrow> \<not> is_format_rune (fst (decode_rune s)) \<Longrightarrow>
      P (i + snd (decode_rune s)) (drop (snd (decode_rune s)) s) \<Longrightarrow> P i s"
  shows "P i s"
proof (induction "length s" arbitrary: i s rule: less_induct)
  case less
  show ?case
  proof (cases "s = []")
    case True
    then show ?thesis using assms(1) by simp
  next
    case False
    have n: "length (drop (snd (decode_rune s)) s) < length s" using decode_rune_shrinks [OF False] by simp
    show ?thesis
    proof (cases "is_sep cells (fst (decode_rune s))")
      case True
      have "length (drop (sep_run cells s) s) < length s" using sep_run_pos [OF False True] False by simp
      then show ?thesis using assms(2) [OF False True] less by blast
    next
      case ns: False
      then show ?thesis using assms(3,4) [OF False ns] less [OF n] by blast
    qed
  qed
qed

definition unit_text :: "(nat \<times> rune) list \<Rightarrow> string" where
  "unit_text us = concat (map (\<lambda>(i, r). encode_rune r) us)"

definition unit_back :: "(nat \<times> rune) list \<Rightarrow> nat list" where
  "unit_back us = concat (map (\<lambda>(i, r). replicate (length (encode_rune r)) i) us)"

definition normalizeCells :: "unicode \<Rightarrow> string \<Rightarrow> bool \<Rightarrow> string \<times> nat list" where
  "normalizeCells u s cells = (let us = units u cells 0 s in (unit_text us, unit_back us @ [length s]))"

definition normalize :: "unicode \<Rightarrow> string \<Rightarrow> string \<times> nat list" where
  "normalize u s = normalizeCells u s False"

section \<open>What a match in the normalised text is in the document\<close>

lemma units_offset_le: "(j, r) \<in> set (units u cells i s) \<Longrightarrow> i \<le> j \<and> j < i + length s"
proof (induction i s rule: units_induct [where cells = cells])
  case (sep i s)
  then show ?case using sep_run_le [of cells s] sep_run_pos [of s cells] by (auto simp: units_sep)
next
  case (format i s)
  then show ?case using decode_rune_width [of s] by (auto simp: units_format)
next
  case (rune i s)
  then show ?case using decode_rune_width [of s] by (auto simp: units_rune)
qed simp

lemma units_shift: "units u cells (i + k) s = map (\<lambda>(j, r). (j + k, r)) (units u cells i s)"
proof (induction i s rule: units_induct [where cells = cells])
  case (sep i s)
  then show ?case by (simp add: units_sep ac_simps)
next
  case (format i s)
  then show ?case by (simp add: units_format ac_simps)
next
  case (rune i s)
  then show ?case by (simp add: units_rune ac_simps)
qed simp

lemma units_runes_shift: "map snd (units u cells i s) = map snd (units u cells 0 s)"
  using units_shift [of u cells 0 i s] by (simp add: comp_def split_beta)

lemma sep_run_take: "sep_run cells s \<le> m \<Longrightarrow> sep_run cells (take m s) = sep_run cells s"
proof (induction cells s arbitrary: m rule: sep_run.induct)
  case (1 cells s)
  show ?case
  proof (cases "s \<noteq> [] \<and> is_sep cells (fst (decode_rune s))")
    case True
    let ?n = "snd (decode_rune s)"
    have run: "sep_run cells s = ?n + sep_run cells (drop ?n s)" using True by (subst sep_run.simps) simp
    have m: "?n \<le> m" "sep_run cells (drop ?n s) \<le> m - ?n" using "1.prems" run by auto
    have t: "decode_rune (take m s) = decode_rune s" "take m s \<noteq> []"
      using decode_rune_take [of s m] True m decode_rune_width(1) [of s] by auto
    have "sep_run cells (take m s) = ?n + sep_run cells (drop ?n (take m s))"
      using t True by (subst sep_run.simps) simp
    then show ?thesis using "1.IH" [OF True m(2)] run by (simp add: drop_take)
  next
    case False
    have "\<not> is_sep cells rune_error" by (simp add: is_sep_def is_space_rune_def rune_error_def)
    then have "take m s = [] \<or> \<not> is_sep cells (fst (decode_rune (take m s)))"
      using False decode_rune_cut [of m s] decode_rune_take [of s m] by (cases "m < snd (decode_rune s)"; cases "m = 0") auto
    then show ?thesis using False by (subst (1 2) sep_run.simps) auto
  qed
qed

text \<open>The offset of the k-th unit, and the end of the text past the last.\<close>

definition unit_offset :: "(nat \<times> rune) list \<Rightarrow> nat \<Rightarrow> nat \<Rightarrow> nat" where
  "unit_offset us e k = (if k < length us then fst (us ! k) else e)"

lemma unit_offset_Cons [simp]:
  "unit_offset (x # us) e (Suc k) = unit_offset us e k" "unit_offset (x # us) e 0 = fst x"
  by (simp_all add: unit_offset_def)

lemma unit_offset_range:
  "e = i + length s \<Longrightarrow> i \<le> unit_offset (units u cells i s) e k \<and> unit_offset (units u cells i s) e k \<le> e"
  using units_offset_le [of "fst (units u cells i s ! k)" "snd (units u cells i s ! k)" u cells i s] nth_mem [of k "units u cells i s"]
  by (auto simp: unit_offset_def)

lemma units_cut:
  "e = i + length s \<Longrightarrow> k \<le> length (units u cells i s) \<Longrightarrow> p = unit_offset (units u cells i s) e k \<Longrightarrow>
     units u cells i (take (p - i) s) = take k (units u cells i s) \<and>
     units u cells p (drop (p - i) s) = drop k (units u cells i s)"
proof (induction i s arbitrary: k p rule: units_induct [where cells = cells])
  case (empty i)
  then show ?case by simp
next
  case (sep i s)
  let ?n = "sep_run cells s"
  note us = units_sep [OF sep(1,2), of u i]
  show ?case
  proof (cases k)
    case 0
    then show ?thesis using sep.prems by (simp add: us)
  next
    case (Suc m)
    have e: "e = (i + ?n) + length (drop ?n s)" using sep.prems(1) sep_run_le [of cells s] by simp
    have p: "p = unit_offset (units u cells (i + ?n) (drop ?n s)) e m" using sep.prems(3) Suc by (simp add: us)
    have ge: "i + ?n \<le> p" using unit_offset_range [OF e, of u cells m] p by simp
    have IH: "units u cells (i + ?n) (take (p - (i + ?n)) (drop ?n s)) = take m (units u cells (i + ?n) (drop ?n s))"
      "units u cells p (drop (p - (i + ?n)) (drop ?n s)) = drop m (units u cells (i + ?n) (drop ?n s))"
      using sep.IH [OF e _ p] sep.prems(2) Suc by (simp_all add: us)
    have w: "snd (decode_rune s) \<le> ?n" using sep(1,2) by (subst sep_run.simps) simp
    have t: "decode_rune (take (p - i) s) = decode_rune s" "take (p - i) s \<noteq> []"
      using decode_rune_take [OF sep(1), of "p - i"] w ge decode_rune_width(1) [OF sep(1)] sep(1) by auto
    have "sep_run cells (take (p - i) s) = ?n" using ge by (intro sep_run_take) simp
    then have "units u cells i (take (p - i) s) = (i, 32) # units u cells (i + ?n) (drop ?n (take (p - i) s))"
      using t sep(2) by (simp add: units_sep)
    then show ?thesis using IH ge Suc by (simp add: us drop_take)
  qed
next
  case (format i s)
  let ?n = "snd (decode_rune s)"
  note us = units_format [OF format(1,2,3), of u i]
  have e: "e = (i + ?n) + length (drop ?n s)" using format.prems(1) decode_rune_width(2) [OF format(1)] by simp
  have p: "p = unit_offset (units u cells (i + ?n) (drop ?n s)) e k" using format.prems(3) by (simp add: us)
  have ge: "i + ?n \<le> p" using unit_offset_range [OF e, of u cells k] p by simp
  have IH: "units u cells (i + ?n) (take (p - (i + ?n)) (drop ?n s)) = take k (units u cells (i + ?n) (drop ?n s))"
    "units u cells p (drop (p - (i + ?n)) (drop ?n s)) = drop k (units u cells (i + ?n) (drop ?n s))"
    using format.IH [OF e _ p] format.prems(2) by (simp_all add: us)
  have t: "decode_rune (take (p - i) s) = decode_rune s" "take (p - i) s \<noteq> []"
    using decode_rune_take [OF format(1), of "p - i"] ge decode_rune_width(1) [OF format(1)] format(1) by auto
  have "units u cells i (take (p - i) s) = units u cells (i + ?n) (drop ?n (take (p - i) s))"
    using t format(2,3) by (simp add: units_format)
  then show ?case using IH ge by (simp add: us drop_take)
next
  case (rune i s)
  let ?n = "snd (decode_rune s)"
  note us = units_rune [OF rune(1,2,3), of u i]
  show ?case
  proof (cases k)
    case 0
    then show ?thesis using rune.prems by (simp add: us)
  next
    case (Suc m)
    have e: "e = (i + ?n) + length (drop ?n s)" using rune.prems(1) decode_rune_width(2) [OF rune(1)] by simp
    have p: "p = unit_offset (units u cells (i + ?n) (drop ?n s)) e m" using rune.prems(3) Suc by (simp add: us)
    have ge: "i + ?n \<le> p" using unit_offset_range [OF e, of u cells m] p by simp
    have IH: "units u cells (i + ?n) (take (p - (i + ?n)) (drop ?n s)) = take m (units u cells (i + ?n) (drop ?n s))"
      "units u cells p (drop (p - (i + ?n)) (drop ?n s)) = drop m (units u cells (i + ?n) (drop ?n s))"
      using rune.IH [OF e _ p] rune.prems(2) Suc by (simp_all add: us)
    have t: "decode_rune (take (p - i) s) = decode_rune s" "take (p - i) s \<noteq> []"
      using decode_rune_take [OF rune(1), of "p - i"] ge decode_rune_width(1) [OF rune(1)] rune(1) by auto
    have "units u cells i (take (p - i) s) = (i, fold_rune u (fst (decode_rune s))) # units u cells (i + ?n) (drop ?n (take (p - i) s))"
      using t rune(2,3) by (simp add: units_rune)
    then show ?thesis using IH ge Suc by (simp add: us drop_take)
  qed
qed

lemma units_scalar: "lowers u \<Longrightarrow> (j, r) \<in> set (units u cells i s) \<Longrightarrow> scalar r"
proof (induction i s rule: units_induct [where cells = cells])
  case (sep i s)
  then show ?case by (auto simp: units_sep scalar_def)
next
  case (format i s)
  then show ?case by (auto simp: units_format)
next
  case (rune i s)
  have "scalar (fold_rune u (fst (decode_rune s)))"
    using rune.prems(1) decode_rune_scalar [of s] by (auto simp: fold_rune_def lowers_def) (auto simp: scalar_def)
  then show ?case using rune by (auto simp: units_rune)
qed simp

lemma unit_text_encode: "unit_text us = encode (map snd us)"
  by (simp add: unit_text_def encode_def comp_def case_prod_unfold)

lemma unit_back_length [simp]: "length (unit_back us) = length (unit_text us)"
  by (induction us) (auto simp: unit_back_def unit_text_def)

lemma unit_back_nth:
  "k \<le> length us \<Longrightarrow> (unit_back us @ [e]) ! length (unit_text (take k us)) = unit_offset us e k"
proof (induction us arbitrary: k)
  case Nil
  then show ?case by (simp add: unit_back_def unit_text_def unit_offset_def)
next
  case (Cons x us)
  obtain i r where x: "x = (i, r)" by (cases x)
  show ?case
  proof (cases k)
    case 0
    then show ?thesis using x by (cases "encode_rune r") (auto simp: unit_back_def unit_text_def)
  next
    case (Suc m)
    have "unit_back (x # us) @ [e] = replicate (length (encode_rune r)) i @ (unit_back us @ [e])"
      "unit_text (take k (x # us)) = encode_rune r @ unit_text (take m us)"
      by (simp_all add: x Suc unit_back_def unit_text_def)
    then show ?thesis using Cons.IH [of m] Cons.prems Suc by (simp add: nth_append)
  qed
qed

text \<open>
  A text found in a document's normalisation is what the document's bytes between the two offsets
  normalise to.
\<close>

lemma normal_match:
  assumes "lowers u" and "normalizeCells u s cells = (nt, back)" and "nt = x @ encode qs @ y"
    and "qs \<noteq> []" and "\<forall>r \<in> set qs. scalar r"
  shows "back ! length x \<le> back ! (length x + length (encode qs)) \<and> back ! (length x + length (encode qs)) \<le> length s
    \<and> fst (normalizeCells u (take (back ! (length x + length (encode qs)) - back ! length x) (drop (back ! length x) s)) cells) = encode qs"
proof -
  define us where "us = units u cells 0 s"
  have nt: "nt = encode (map snd us)" and bk: "back = unit_back us @ [length s]"
    using assms(2) by (auto simp: normalizeCells_def us_def Let_def unit_text_encode)
  have sc: "\<forall>r \<in> set (map snd us) \<union> set qs. scalar r"
    using units_scalar [OF assms(1)] assms(5) by (auto simp: us_def)
  obtain ps bs where split: "map snd us = ps @ qs @ bs" "x = encode ps" "y = encode bs"
    using encode_inside [OF sc assms(4), of x y] assms(3) nt by metis
  define j k where "j = length ps" and "k = length ps + length qs"
  have len: "length us = length ps + length qs + length bs" using split(1) by (metis length_append length_map add.assoc)
  have jk: "j \<le> k" "k \<le> length us" using len by (simp_all add: j_def k_def)
  have tx: "unit_text (take j us) = x" "unit_text (take k us) = x @ encode qs"
    by (simp_all add: unit_text_encode take_map [symmetric] split j_def k_def)
  define st en where "st = back ! length x" and "en = back ! (length x + length (encode qs))"
  have st: "st = unit_offset us (length s) j" and en: "en = unit_offset us (length s) k"
    using unit_back_nth [of j us "length s"] unit_back_nth [of k us "length s"] jk tx
    by (simp_all add: st_def en_def bk)
  have eq0: "length s = 0 + length s" by simp
  have le: "st \<le> length s" "en \<le> length s"
    using unit_offset_range [OF eq0] by (simp_all add: st en us_def)
  have dj: "units u cells st (drop st s) = drop j us"
    using units_cut [OF eq0, of j u cells st] st jk by (simp add: us_def)
  have e': "length s = st + length (drop st s)" using le by simp
  have en': "en = unit_offset (units u cells st (drop st s)) (length s) (k - j)"
    using jk by (auto simp: en dj unit_offset_def)
  have "units u cells st (take (en - st) (drop st s)) = take (k - j) (drop j us)"
    using units_cut [OF e', of "k - j" u cells en] en' dj jk by simp
  then have "map snd (units u cells 0 (take (en - st) (drop st s))) = take (k - j) (drop j (map snd us))"
    by (metis units_runes_shift take_map drop_map)
  also have "\<dots> = qs" by (simp add: split j_def k_def)
  finally have "unit_text (units u cells 0 (take (en - st) (drop st s))) = encode qs" by (simp add: unit_text_encode)
  moreover have "st \<le> en" using unit_offset_range [OF e', of u cells "k - j"] en' by simp
  ultimately show ?thesis using le by (simp add: normalizeCells_def Let_def st_def [symmetric] en_def [symmetric])
qed

text \<open>The normalised quote, trimmed, is the encoding of a list of runes.\<close>

lemma trimmed_encode:
  assumes "lowers u"
  shows "\<exists>qs. trim_space (fst (normalizeCells u s cells)) = encode qs \<and> (\<forall>r \<in> set qs. scalar r)"
proof -
  define rs where "rs = map snd (units u cells 0 s)"
  have sc: "\<forall>r \<in> set rs. scalar r" using units_scalar [OF assms] by (auto simp: rs_def)
  have "trim_space (fst (normalizeCells u s cells)) = encode (rev (dropWhile is_space_rune (rev (dropWhile is_space_rune rs))))"
    using trim_space_encode [OF sc] by (simp add: normalizeCells_def Let_def unit_text_encode rs_def)
  moreover have "\<forall>r \<in> set (rev (dropWhile is_space_rune (rev (dropWhile is_space_rune rs)))). scalar r"
    using sc by (auto dest!: set_dropWhileD)
  ultimately show ?thesis by blast
qed

section \<open>The best-matching span\<close>

text \<open>The runs of letters and digits (\<^verbatim>\<open>wordRe\<close>), by their byte offsets.\<close>

function word_run :: "(rune \<Rightarrow> bool) \<Rightarrow> string \<Rightarrow> nat" where
  "word_run p s =
     (if s \<noteq> [] \<and> p (fst (decode_rune s))
      then snd (decode_rune s) + word_run p (drop (snd (decode_rune s)) s) else 0)"
  by pat_completeness auto
termination by (relation "measure (\<lambda>(p, s). length s)") (auto simp: decode_rune_shrinks)

declare word_run.simps [simp del]

lemma word_run_pos: "s \<noteq> [] \<Longrightarrow> p (fst (decode_rune s)) \<Longrightarrow> 0 < word_run p s"
  using decode_rune_width(1) [of s] by (subst word_run.simps) simp

function word_locs :: "(rune \<Rightarrow> bool) \<Rightarrow> nat \<Rightarrow> string \<Rightarrow> (nat \<times> nat) list" where
  "word_locs p i s =
     (if s = [] then []
      else if p (fst (decode_rune s))
      then (i, i + word_run p s) # word_locs p (i + word_run p s) (drop (word_run p s) s)
      else word_locs p (i + snd (decode_rune s)) (drop (snd (decode_rune s)) s))"
  by pat_completeness auto
termination
  by (relation "measure (\<lambda>(p, i, s). length s)") (auto simp: decode_rune_shrinks word_run_pos)

declare word_locs.simps [simp del]

definition words :: "(rune \<Rightarrow> bool) \<Rightarrow> string \<Rightarrow> string list" where
  "words p s = map (\<lambda>(i, j). subtext s i j) (word_locs p 0 s)"

text \<open>
  The sliding window: how often each wanted word is in it, how many of them are, and the best share
  so far with its offsets.
\<close>

record window =
  wCount :: "string \<Rightarrow> nat"
  wHits :: int
  wBest :: rat
  wStart :: nat
  wEnd :: nat

definition enter :: "string list \<Rightarrow> string \<Rightarrow> window \<Rightarrow> window" where
  "enter want w x =
     (if w \<in> set want
      then x\<lparr>wCount := (wCount x)(w := wCount x w + 1), wHits := wHits x + (if wCount x w + 1 = 1 then 1 else 0)\<rparr>
      else x)"

definition leave :: "string list \<Rightarrow> string \<Rightarrow> window \<Rightarrow> window" where
  "leave want w x =
     (if w \<in> set want
      then x\<lparr>wCount := (wCount x)(w := wCount x w - 1), wHits := wHits x - (if wCount x w - 1 = 0 then 1 else 0)\<rparr>
      else x)"

definition span_step :: "string list \<Rightarrow> string list \<Rightarrow> (nat \<times> nat) list \<Rightarrow> window \<Rightarrow> nat \<Rightarrow> window" where
  "span_step qw ws locs x k =
     (let x1 = enter qw (ws ! k) x;
          x2 = (if length qw \<le> k then leave qw (ws ! (k - length qw)) x1 else x1);
          ov = of_int (wHits x2) / of_nat (length (remdups qw)) in
      if ov > wBest x2
      then x2\<lparr>wBest := ov, wStart := fst (locs ! (k + 1 - length qw)), wEnd := snd (locs ! k)\<rparr> else x2)"

definition empty_window :: window where
  "empty_window = \<lparr>wCount = (\<lambda>_. 0), wHits = 0, wBest = 0, wStart = 0, wEnd = 0\<rparr>"

definition bestSpan :: "unicode \<Rightarrow> string \<Rightarrow> string \<Rightarrow> nat \<times> nat \<times> rat" where
  "bestSpan u txt quote =
     (let qw = words (WordRune u) (map_runes (LowerRune u) quote);
          locs = word_locs (WordRune u) 0 txt;
          ws = map (\<lambda>(i, j). map_runes (LowerRune u) (subtext txt i j)) locs;
          none = (0, min (length txt) (2 * windowRadius), 0) in
      if qw = [] \<or> locs = [] then none
      else (let x = foldl (span_step qw ws locs) empty_window [0..<length locs] in
            if wBest x = 0 then none else (wStart x, wEnd x, wBest x)))"

section \<open>The ladder\<close>

text \<open>\<^verbatim>\<open>runeStart\<close>.\<close>

fun back_to_start :: "string \<Rightarrow> nat \<Rightarrow> nat" where
  "back_to_start s 0 = 0"
| "back_to_start s (Suc i) =
     (if Suc i < length s \<and> \<not> rune_start_byte (s ! Suc i) then back_to_start s i else Suc i)"

definition runeStart :: "string \<Rightarrow> int \<Rightarrow> nat" where
  "runeStart s i = back_to_start s (nat (min (max i 0) (int (length s))))"

record verification =
  vVerified :: bool
  vMethod :: string
  vConfidence :: rat
  vStart :: nat
  vEnd :: nat
  vNote :: string

definition none :: "string \<Rightarrow> verification" where
  "none note = \<lparr>vVerified = False, vMethod = ''none'', vConfidence = 0, vStart = 0, vEnd = 0, vNote = note\<rparr>"

definition matched :: "string \<Rightarrow> rat \<Rightarrow> nat \<Rightarrow> nat \<Rightarrow> string \<Rightarrow> verification" where
  "matched m c i j note = \<lparr>vVerified = True, vMethod = m, vConfidence = c, vStart = i, vEnd = j, vNote = note\<rparr>"

text \<open>A judge: supported and how sure, or the failure of the call.\<close>

type_synonym 'w judge = "string \<Rightarrow> string \<Rightarrow> bool \<Rightarrow> 'w \<Rightarrow> (string + bool \<times> rat) \<times> 'w"

text \<open>The rungs that are string searches.\<close>

definition search_normal :: "unicode \<Rightarrow> bool \<Rightarrow> string \<Rightarrow> string \<Rightarrow> (nat \<times> nat) option" where
  "search_normal u cells txt quote =
     (let (nt, bk) = normalizeCells u txt cells;
          nq = trim_space (fst (normalizeCells u (trim_space quote) cells)) in
      if nq = [] \<or> cells \<and> \<not> list_ex (\<lambda>(r, _). LetterOrDigit u r) (runes_of nq) then None
      else (case str_index nt nq of None \<Rightarrow> None | Some i \<Rightarrow> Some (bk ! i, bk ! (i + length nq))))"

definition string_rungs :: "unicode \<Rightarrow> string \<Rightarrow> string \<Rightarrow> verification option" where
  "string_rungs u txt quote =
     (case str_index txt quote of
        Some i \<Rightarrow> Some (matched ''exact'' ExactConfidence i (i + length quote) [])
      | None \<Rightarrow>
          (case search_normal u False txt quote of
             Some (i, j) \<Rightarrow> Some (matched ''tolerant'' TolerantConfidence i j [])
           | None \<Rightarrow>
               if contains_str quote ''|''
               then (case search_normal u True txt quote of
                       Some (i, j) \<Rightarrow> Some (matched ''tolerant'' CellConfidence i j
                         (''matched as table cells (the quote's '' @ [CHR 0x22, CHR ''|'', CHR 0x22] @ '' separators stand for the document's)''))
                     | None \<Rightarrow> None)
               else None))"

text \<open>The ensemble's votes: how many support, or the first lost call.\<close>

fun votes :: "'w judge \<Rightarrow> string \<Rightarrow> string \<Rightarrow> nat \<Rightarrow> nat \<Rightarrow> 'w \<Rightarrow> (string + nat) \<times> 'w" where
  "votes j quote passage 0 n w = (Inr n, w)"
| "votes j quote passage (Suc k) n w =
     (case j quote passage True w of
        (Inl e, w') \<Rightarrow> (Inl e, w')
      | (Inr (good, _), w') \<Rightarrow> votes j quote passage k (if good then n + 1 else n) w')"

definition judged :: "unicode \<Rightarrow> string \<Rightarrow> string \<Rightarrow> 'w judge \<Rightarrow> 'w \<Rightarrow> (verification \<times> string option) \<times> 'w" where
  "judged u txt quote j w =
     (let (start, fin, overlap) = bestSpan u txt quote;
          lo = runeStart txt (int start - int windowRadius);
          hi = runeStart txt (int fin + int windowRadius);
          passage = subtext txt lo hi;
          (start, fin) = (if overlap < repairOverlap then (lo, hi) else (start, fin)) in
      case j quote passage False w of
        (Inl e, w') \<Rightarrow> ((none ''the paraphrase judge failed'', Some (''docs: verify: judge: '' @ e)), w')
      | (Inr (good, c), w') \<Rightarrow>
          (let conf = min (max c 0) 1 in
           if conf \<ge> ensembleBand
           then ((if good then matched ''judge'' (min conf JudgeCap) start fin []
                  else none (''the paraphrase judge found the quote unsupported (confidence '' @ Fmt2 u conf @ '')''), None), w')
           else (case votes j quote passage ensembleVotes 0 w' of
                   (Inl e, w'') \<Rightarrow> ((none ''an ensemble vote failed'', Some (''docs: verify: judge: '' @ e)), w'')
                 | (Inr n, w'') \<Rightarrow>
                     ((if n * 2 \<le> ensembleVotes
                       then none (''the ensemble found the quote unsupported ('' @ digits_of n @ '' of 3 votes)'')
                       else matched ''ensemble'' (ensembleScale * of_nat n / of_nat ensembleVotes) start fin [], None), w''))))"

definition Verify :: "unicode \<Rightarrow> string \<Rightarrow> string \<Rightarrow> 'w judge option \<Rightarrow> 'w \<Rightarrow> (verification \<times> string option) \<times> 'w" where
  "Verify u txt quote jg w =
     (if trim_space quote = [] then ((none ''the quote is empty'', None), w)
      else (case string_rungs u txt quote of
              Some v \<Rightarrow> ((v, None), w)
            | None \<Rightarrow>
                (case jg of
                   None \<Rightarrow> ((none ''the quote is not in the document, and no judge is configured for paraphrases'', None), w)
                 | Some j \<Rightarrow> judged u txt quote j w)))"

section \<open>What a verdict means\<close>

definition normal :: "unicode \<Rightarrow> bool \<Rightarrow> string \<Rightarrow> string" where
  "normal u cells s = fst (normalizeCells u s cells)"

text \<open>The bytes of a span hold a quote: as it is, or both alike once normalised.\<close>

definition holds_quote :: "unicode \<Rightarrow> string \<Rightarrow> string \<Rightarrow> nat \<Rightarrow> nat \<Rightarrow> bool" where
  "holds_quote u txt quote i j \<longleftrightarrow> i \<le> j \<and> j \<le> length txt \<and>
     (subtext txt i j = quote \<or>
      (\<exists>cells. normal u cells (subtext txt i j) = trim_space (normal u cells (trim_space quote))
         \<and> trim_space (normal u cells (trim_space quote)) \<noteq> []))"

lemma search_normal_holds:
  assumes "lowers u" and "search_normal u cells txt quote = Some (i, j)"
  shows "holds_quote u txt quote i j"
proof -
  obtain nt bk where n: "normalizeCells u txt cells = (nt, bk)" by (metis prod.exhaust)
  define nq where "nq = trim_space (normal u cells (trim_space quote))"
  obtain qs where qs: "nq = encode qs" "\<forall>r \<in> set qs. scalar r"
    using trimmed_encode [OF assms(1)] unfolding nq_def normal_def by blast
  obtain k where k: "nq \<noteq> []" "str_index nt nq = Some k" "i = bk ! k" "j = bk ! (k + length nq)"
    using assms(2) n by (auto simp: search_normal_def Let_def nq_def normal_def split: if_splits option.splits)
  note ix = str_index_Some [OF k(2)]
  have split: "nt = take k nt @ encode qs @ drop (k + length nq) nt" using ix qs(1) by simp
  have len: "length (take k nt) = k" using ix by simp
  have "qs \<noteq> []" using k(1) qs(1) by auto
  from normal_match [OF assms(1) n split this qs(2)]
  have m: "i \<le> j" "j \<le> length txt" "normal u cells (subtext txt i j) = nq"
    using k qs(1) len by (simp_all add: subtext_def normal_def)
  then show ?thesis using k(1) unfolding holds_quote_def nq_def by blast
qed

lemma string_rungs_holds:
  assumes "lowers u" and "string_rungs u txt quote = Some v"
  shows "holds_quote u txt quote (vStart v) (vEnd v) \<and> vVerified v \<and> JudgeCap < vConfidence v"
proof -
  have exact: "holds_quote u txt quote i (i + length quote)" if "str_index txt quote = Some i" for i
    using str_index_Some [OF that] by (auto simp: holds_quote_def subtext_def) (metis append_eq_conv_conj append_take_drop_id length_take min.absorb2 add_leD1)
  show ?thesis
    using assms(2) exact search_normal_holds [OF assms(1)]
    by (auto simp: string_rungs_def matched_def ExactConfidence_def TolerantConfidence_def CellConfidence_def JudgeCap_def
        split: option.splits if_splits)
qed

lemma votes_le: "votes j q p k n w = (Inr m, w') \<Longrightarrow> m \<le> n + k"
proof (induction j q p k n w rule: votes.induct)
  case (2 j quote passage k n w)
  then show ?case by (fastforce split: prod.splits sum.splits if_splits)
qed simp

lemma judged_verdict:
  assumes "judged u txt quote j w = ((v, e), w')"
  shows "(e \<noteq> None \<longrightarrow> \<not> vVerified v) \<and> (vVerified v \<longrightarrow> 1 / 2 \<le> vConfidence v \<and> vConfidence v \<le> JudgeCap)"
proof -
  have half: "ensembleScale * of_nat n / of_nat ensembleVotes \<le> JudgeCap \<and> 1 / 2 \<le> ensembleScale * of_nat n / of_nat ensembleVotes"
    if "\<not> n * 2 \<le> ensembleVotes" "n \<le> ensembleVotes" for n
  proof -
    have "n = 2 \<or> n = 3" using that by (auto simp: ensembleVotes_def)
    then show ?thesis by (auto simp: ensembleScale_def ensembleVotes_def JudgeCap_def)
  qed
  show ?thesis
    using assms half votes_le [of j quote _ ensembleVotes 0]
    by (fastforce simp: judged_def Let_def none_def matched_def ensembleBand_def JudgeCap_def split: prod.splits sum.splits if_splits)
qed

text \<open>
  C10. A verdict more confident than a judge may be is a string match: the bytes between its offsets
  are the quote, or both are alike once quotes and hyphens are straightened, case is folded, format
  characters are dropped and white space (for table rows, with the cell separators) is collapsed.
  And whenever a string rung matches, the verdict is that match: no judge is asked.
\<close>

theorem Verify_match:
  assumes "lowers u" and "Verify u txt quote jg w = ((v, e), w')"
  shows "(vVerified v \<and> JudgeCap < vConfidence v \<longrightarrow> e = None \<and> w' = w \<and> holds_quote u txt quote (vStart v) (vEnd v))
    \<and> (\<forall>s. trim_space quote \<noteq> [] \<and> string_rungs u txt quote = Some s \<longrightarrow> v = s \<and> w' = w)"
  using assms(2) string_rungs_holds [OF assms(1), of "txt" quote] judged_verdict [of u "txt" quote _ w v e w']
  by (auto simp: Verify_def none_def split: if_splits option.splits) blast+

text \<open>
  A judge's opinion never outranks a string match: a verdict that is not a string match has a
  confidence from one half to the judge's cap; and a failure of the judge is an error and never a
  verdict.
\<close>

theorem Verify_judged:
  assumes "Verify u txt quote jg w = ((v, e), w')"
  shows "(e \<noteq> None \<longrightarrow> \<not> vVerified v) \<and>
    (vVerified v \<and> string_rungs u txt quote = None \<longrightarrow> 1 / 2 \<le> vConfidence v \<and> vConfidence v \<le> JudgeCap)"
  using assms judged_verdict [of u "txt" quote _ w v e w']
  by (auto simp: Verify_def none_def string_rungs_def matched_def split: if_splits option.splits)

definition ascii_unicode :: unicode where
  "ascii_unicode = \<lparr>LowerRune = (\<lambda>r. if 65 \<le> r \<and> r \<le> 90 then r + 32 else r),
     WordRune = (\<lambda>r. 97 \<le> r \<and> r \<le> 122 \<or> 65 \<le> r \<and> r \<le> 90 \<or> 48 \<le> r \<and> r \<le> 57), NumberRune = (\<lambda>r. 48 \<le> r \<and> r \<le> 57),
     LetterOrDigit = (\<lambda>r. 97 \<le> r \<and> r \<le> 122 \<or> 65 \<le> r \<and> r \<le> 90 \<or> 48 \<le> r \<and> r \<le> 57), Fmt2 = (\<lambda>_. ''0.50'')\<rparr>"

lemma ascii_lowers: "lowers ascii_unicode"
  by (auto simp: lowers_def ascii_unicode_def scalar_def)

lemma demo_tolerant: "string_rungs ascii_unicode ''The  Fee is due'' ''the fee'' = Some (matched ''tolerant'' TolerantConfidence 0 8 [])"
  by code_simp

lemma demo_rungs_none: "string_rungs ascii_unicode ''The fee is due'' ''payable'' = None"
  by code_simp

definition sure_judge :: "unit judge" where
  "sure_judge = (\<lambda>_ _ vote w. (Inr (True, if vote then 0 else 1), w))"

definition unsure_judge :: "unit judge" where
  "unsure_judge = (\<lambda>_ _ vote w. (Inr (True, 0), w))"

lemma demo_trim: "trim_space ''the fee'' = ''the fee''" "trim_space ''payable'' = ''payable''"
  by (rule trim_space_id; simp add: graphic_byte_def is_space_rune_def byte_val_def)+

theorem Verify_match_witness:
  "holds_quote ascii_unicode ''The  Fee is due'' ''the fee'' 0 8"
proof -
  have "Verify ascii_unicode ''The  Fee is due'' ''the fee'' (Some sure_judge) () =
      ((matched ''tolerant'' TolerantConfidence 0 8 [], None), ())"
    by (simp add: Verify_def demo_tolerant demo_trim)
  from Verify_match [OF ascii_lowers this] show ?thesis
    by (simp add: matched_def TolerantConfidence_def JudgeCap_def)
qed

theorem Verify_judged_witness:
  "\<exists>v. fst (Verify ascii_unicode ''The fee is due'' ''payable'' (Some unsure_judge) ()) = (v, None)
     \<and> vVerified v \<and> 1 / 2 \<le> vConfidence v \<and> vConfidence v \<le> JudgeCap"
proof -
  obtain v e w' where r: "Verify ascii_unicode ''The fee is due'' ''payable'' (Some unsure_judge) () = ((v, e), w')"
    by (metis prod.exhaust)
  have "vVerified v \<and> e = None"
    using r by (auto simp: Verify_def demo_rungs_none demo_trim judged_def unsure_judge_def Let_def ensembleBand_def
        ensembleVotes_def numeral_3_eq_3 matched_def split: prod.splits)
  then show ?thesis using Verify_judged [OF r] r demo_rungs_none by simp
qed

section \<open>The best span has the most of the quote's words\<close>

text \<open>The words in the window that ends at a word, and their share of the wanted words.\<close>

definition window_at :: "string list \<Rightarrow> nat \<Rightarrow> nat \<Rightarrow> string list" where
  "window_at ws n K = drop (K - n) (take K ws)"

definition share :: "string list \<Rightarrow> string list \<Rightarrow> rat" where
  "share qw ws = of_nat (card (set qw \<inter> set ws)) / of_nat (card (set qw))"

definition counts :: "string list \<Rightarrow> window \<Rightarrow> string list \<Rightarrow> bool" where
  "counts qw x ws \<longleftrightarrow> (\<forall>w \<in> set qw. wCount x w = count_list ws w) \<and> wHits x = int (card (set qw \<inter> set ws))"

lemma counts_enter:
  assumes "counts qw x ws"
  shows "counts qw (enter qw w x) (ws @ [w])"
proof (cases "w \<in> set qw")
  case True
  have c: "wCount x w = 0 \<longleftrightarrow> w \<notin> set ws" using assms True by (simp add: counts_def count_list_0_iff)
  have "set qw \<inter> set (ws @ [w]) = insert w (set qw \<inter> set ws)" using True by auto
  then have "card (set qw \<inter> set (ws @ [w])) = card (set qw \<inter> set ws) + (if w \<in> set ws then 0 else 1)"
    using True by (simp add: card_insert_if)
  then show ?thesis using assms True c by (auto simp: counts_def enter_def)
next
  case False
  then have "set qw \<inter> set (ws @ [w]) = set qw \<inter> set ws" by auto
  then show ?thesis using assms False by (auto simp: counts_def enter_def)
qed

lemma counts_leave:
  assumes "counts qw x (w # ws)"
  shows "counts qw (leave qw w x) ws"
proof (cases "w \<in> set qw")
  case True
  have c: "wCount x w = Suc (count_list ws w)" using assms True by (simp add: counts_def)
  have "set qw \<inter> set (w # ws) = insert w (set qw \<inter> set ws)" using True by auto
  then have "card (set qw \<inter> set (w # ws)) = card (set qw \<inter> set ws) + (if w \<in> set ws then 0 else 1)"
    using True by (simp add: card_insert_if)
  then show ?thesis using assms True c count_list_0_iff [of ws w] by (auto simp: counts_def leave_def)
next
  case False
  then have "set qw \<inter> set (w # ws) = set qw \<inter> set ws" by auto
  then show ?thesis using assms False by (auto simp: counts_def leave_def)
qed

lemma window_at_Suc:
  assumes "K < length ws" and "0 < n"
  shows "window_at ws n (Suc K) = (if n \<le> K then tl (window_at ws n K) else window_at ws n K) @ [ws ! K]"
    and "n \<le> K \<Longrightarrow> window_at ws n K = ws ! (K - n) # tl (window_at ws n K)"
proof -
  have t: "take (Suc K) ws = take K ws @ [ws ! K]" using assms(1) by (rule take_Suc_conv_app_nth)
  show "n \<le> K \<Longrightarrow> window_at ws n K = ws ! (K - n) # tl (window_at ws n K)"
    using assms by (auto simp: window_at_def Cons_nth_drop_Suc [symmetric, of "K - n" "take K ws"])
  show "window_at ws n (Suc K) = (if n \<le> K then tl (window_at ws n K) else window_at ws n K) @ [ws ! K]"
    using assms by (auto simp: window_at_def t Suc_diff_le drop_Suc tl_drop)
qed

definition best_of :: "string list \<Rightarrow> string list \<Rightarrow> (nat \<times> nat) list \<Rightarrow> nat \<Rightarrow> window \<Rightarrow> bool" where
  "best_of qw ws locs K x \<longleftrightarrow>
     (\<forall>k < K. share qw (window_at ws (length qw) (Suc k)) \<le> wBest x) \<and>
     (wBest x = 0 \<or> (\<exists>k < K. wBest x = share qw (window_at ws (length qw) (Suc k)) \<and>
        wStart x = fst (locs ! (Suc k - length qw)) \<and> wEnd x = snd (locs ! k)))"

lemma enter_leave_keep [simp]:
  "wBest (enter q w x) = wBest x" "wStart (enter q w x) = wStart x" "wEnd (enter q w x) = wEnd x"
  "wBest (leave q w x) = wBest x" "wStart (leave q w x) = wStart x" "wEnd (leave q w x) = wEnd x"
  by (simp_all add: enter_def leave_def)

lemma spans_inv:
  assumes "qw \<noteq> []" and "K \<le> length ws"
  shows "counts qw (foldl (span_step qw ws locs) empty_window [0..<K]) (window_at ws (length qw) K)
    \<and> best_of qw ws locs K (foldl (span_step qw ws locs) empty_window [0..<K])"
  using assms(2)
proof (induction K)
  case 0
  show ?case by (simp add: counts_def empty_window_def window_at_def best_of_def)
next
  case (Suc K)
  define x where "x = foldl (span_step qw ws locs) empty_window [0..<K]"
  define n where "n = length qw"
  have n: "0 < n" using assms(1) by (simp add: n_def)
  have IH: "counts qw x (window_at ws n K)" "best_of qw ws locs K x" using Suc by (simp_all add: x_def n_def)
  have K: "K < length ws" using Suc.prems by simp
  define x1 where "x1 = enter qw (ws ! K) x"
  define x2 where "x2 = (if n \<le> K then leave qw (ws ! (K - n)) x1 else x1)"
  have c1: "counts qw x1 (window_at ws n K @ [ws ! K])" unfolding x1_def by (rule counts_enter) (rule IH)
  have c2: "counts qw x2 (window_at ws n (Suc K))"
  proof (cases "n \<le> K")
    case True
    have "counts qw x1 (ws ! (K - n) # tl (window_at ws n K) @ [ws ! K])"
      using c1 window_at_Suc(2) [OF K n True] by (metis append_Cons)
    then show ?thesis using counts_leave window_at_Suc(1) [OF K n] True by (simp add: x2_def)
  next
    case False
    then show ?thesis using c1 window_at_Suc(1) [OF K n] by (simp add: x2_def)
  qed
  have ov: "of_int (wHits x2) / of_nat (length (remdups qw)) = share qw (window_at ws n (Suc K))"
    using c2 by (simp add: counts_def share_def length_remdups_card_conv)
  have keep: "wBest x2 = wBest x" "wStart x2 = wStart x" "wEnd x2 = wEnd x" by (simp_all add: x2_def x1_def)
  have step: "foldl (span_step qw ws locs) empty_window [0..<Suc K] =
      (if share qw (window_at ws n (Suc K)) > wBest x
       then x2\<lparr>wBest := share qw (window_at ws n (Suc K)), wStart := fst (locs ! (Suc K - n)), wEnd := snd (locs ! K)\<rparr> else x2)"
  proof -
    have "span_step qw ws locs x K = (if of_int (wHits x2) / of_nat (length (remdups qw)) > wBest x2
       then x2\<lparr>wBest := of_int (wHits x2) / of_nat (length (remdups qw)), wStart := fst (locs ! (K + 1 - n)), wEnd := snd (locs ! K)\<rparr> else x2)"
      unfolding span_step_def Let_def x2_def x1_def n_def by (rule refl)
    then show ?thesis unfolding ov keep(1) by (simp add: x_def)
  qed
  have cs: "counts qw (x2\<lparr>wBest := b, wStart := st, wEnd := en\<rparr>) ws' = counts qw x2 ws'" for b st en ws'
    by (simp add: counts_def)
  have "best_of qw ws locs (Suc K) (foldl (span_step qw ws locs) empty_window [0..<Suc K])"
    using IH(2) keep unfolding step best_of_def n_def [symmetric]
    by (cases "share qw (window_at ws n (Suc K)) > wBest x") (force simp: less_Suc_eq)+
  then show ?case using c2 cs unfolding step n_def [symmetric] by simp
qed

text \<open>
  The span a judge is shown is the best there is: no run of the document's words as long as the
  quote's holds a larger share of the quote's distinct words than the span bestSpan returns, and its
  offsets are those of a run with that share.
\<close>

theorem bestSpan_best:
  assumes "bestSpan u txt quote = (i, j, ov)" and "0 < ov"
    and "qw = words (WordRune u) (map_runes (LowerRune u) quote)" and "locs = word_locs (WordRune u) 0 txt"
    and "ws = map (\<lambda>(a, b). map_runes (LowerRune u) (subtext txt a b)) locs"
  shows "(\<forall>k < length ws. share qw (window_at ws (length qw) (Suc k)) \<le> ov)
    \<and> (\<exists>k < length ws. ov = share qw (window_at ws (length qw) (Suc k)) \<and> i = fst (locs ! (Suc k - length qw)) \<and> j = snd (locs ! k))"
proof -
  define x where "x = foldl (span_step qw ws locs) empty_window [0..<length locs]"
  have res: "qw \<noteq> []" "(i, j, ov) = (wStart x, wEnd x, wBest x)"
    using assms(1,2) unfolding bestSpan_def Let_def assms(3-5) [symmetric] x_def [symmetric]
    by (auto split: if_splits)
  have "length ws = length locs" by (simp add: assms(5))
  then show ?thesis using spans_inv [OF res(1), of "length ws" ws locs] res(2) assms(2)
    by (auto simp: best_of_def x_def [symmetric])
qed

lemma demo_span: "bestSpan ascii_unicode ''The fee is due'' ''fee due'' = (0, 7, 1 / 2)"
  by code_simp

lemma demo_words:
  "words (WordRune ascii_unicode) (map_runes (LowerRune ascii_unicode) ''fee due'') = [''fee'', ''due'']"
  "map (\<lambda>(a, b). map_runes (LowerRune ascii_unicode) (subtext ''The fee is due'' a b)) (word_locs (WordRune ascii_unicode) 0 ''The fee is due'')
     = [''the'', ''fee'', ''is'', ''due'']"
  by code_simp+

theorem bestSpan_best_witness:
  "share [''fee'', ''due''] [''is'', ''due''] \<le> 1 / 2"
proof -
  have pos: "(0 :: rat) < 1 / 2" by simp
  have "share [''fee'', ''due''] (window_at [''the'', ''fee'', ''is'', ''due''] (length [''fee'', ''due'']) (Suc 3)) \<le> 1 / 2"
    by (rule bestSpan_best [OF demo_span pos demo_words(1) [symmetric] refl demo_words(2) [symmetric], THEN conjunct1, rule_format]) simp
  then show ?thesis by (simp add: window_at_def)
qed

section \<open>Find\<close>

text \<open>\<^verbatim>\<open>type Text\<close>, \<^verbatim>\<open>NewText\<close> and \<^verbatim>\<open>Find\<close>, which searches a part of a prepared text.\<close>

record prepared =
  tRaw :: string
  tNorm :: string
  tBack :: "nat list"

definition NewText :: "unicode \<Rightarrow> string \<Rightarrow> prepared" where
  "NewText u s = (let (n, b) = normalize u s in \<lparr>tRaw = s, tNorm = n, tBack = b\<rparr>)"

text \<open>\<^verbatim>\<open>sort.SearchInts\<close> on a sorted list.\<close>

definition search_ints :: "nat list \<Rightarrow> nat \<Rightarrow> nat" where
  "search_ints xs x = length (takeWhile (\<lambda>y. y < x) xs)"

definition Find :: "unicode \<Rightarrow> prepared \<Rightarrow> string \<Rightarrow> int \<Rightarrow> int \<Rightarrow> (nat \<times> nat) option" where
  "Find u t quote f0 t0 =
     (let f = max f0 0; e = min t0 (int (length (tRaw t))) in
      if f > e \<or> trim_space quote = [] then None
      else (let a = nat f; b = nat e;
                exact = map_option (\<lambda>i. (a + i, a + i + length quote)) (str_index (subtext (tRaw t) a b) quote);
                nq = trim_space (fst (normalize u (trim_space quote)));
                lo = search_ints (tBack t) a; hi = search_ints (tBack t) b in
            if nq \<noteq> [] \<and> lo \<le> hi \<and> hi \<le> length (tNorm t)
            then (case str_index (subtext (tNorm t) lo hi) nq of
                    None \<Rightarrow> exact
                  | Some i \<Rightarrow>
                      (let start = tBack t ! (lo + i); fin = tBack t ! (lo + i + length nq) in
                       case exact of
                         Some (s, _) \<Rightarrow> if start < s then Some (start, fin) else exact
                       | None \<Rightarrow> Some (start, fin)))
            else exact))"

lemma search_ints_ge: "i < length xs \<Longrightarrow> sorted xs \<Longrightarrow> search_ints xs x \<le> i \<Longrightarrow> x \<le> xs ! i"
proof -
  assume a: "i < length xs" "sorted xs" "search_ints xs x \<le> i"
  let ?n = "length (takeWhile (\<lambda>y. y < x) xs)"
  have n: "?n < length xs" "?n \<le> i" using a by (simp_all add: search_ints_def)
  then have "\<not> xs ! ?n < x" using nth_length_takeWhile by blast
  then show ?thesis using sorted_nth_mono [OF a(2) n(2) a(1)] by simp
qed

lemma unit_back_sorted: "sorted (unit_back (units u cells i s) @ [i + length s])"
proof -
  have "sorted (unit_back (units u cells i s)) \<and> (\<forall>x \<in> set (unit_back (units u cells i s)). i \<le> x \<and> x \<le> i + length s)"
  proof (induction i s rule: units_induct [where cells = cells])
    case (sep i s)
    then show ?case using sep_run_le [of cells s] by (force simp: units_sep unit_back_def encode_rune_def)
  next
    case (format i s)
    then show ?case using decode_rune_width(2) [of s] by (force simp: units_format)
  next
    case (rune i s)
    then show ?case using decode_rune_width(2) [of s]
      by (force simp: units_rune unit_back_def sorted_append)
  qed (simp add: unit_back_def)
  then show ?thesis by (auto simp: sorted_append)
qed

text \<open>
  What Find places in a document is there: its offsets are inside the text and do not start
  before the part it was to search, and the bytes between them are the quote or normalise to what the
  quote normalises to.
\<close>

theorem Find_holds:
  assumes "lowers u" and "Find u (NewText u s) quote f t = Some (i, j)"
  shows "holds_quote u s quote i j \<and> f \<le> int i"
proof -
  obtain nt bk where n: "normalizeCells u s False = (nt, bk)" by (metis prod.exhaust)
  have parts: "tRaw (NewText u s) = s" "tNorm (NewText u s) = nt" "tBack (NewText u s) = bk"
    by (simp_all add: NewText_def normalize_def n)
  have bk: "sorted bk" "length bk = length nt + 1"
    using n unit_back_sorted [of u False 0 s] by (auto simp: normalizeCells_def Let_def)
  define a b where "a = nat (max f 0)" and "b = nat (min t (int (length s)))"
  define nq where "nq = trim_space (normal u False (trim_space quote))"
  define lo hi where "lo = search_ints bk a" and "hi = search_ints bk b"
  define ex where "ex = map_option (\<lambda>i. (a + i, a + i + length quote)) (str_index (subtext s a b) quote)"
  have ab: "a \<le> b" "b \<le> length s" "f \<le> int a"
  proof -
    have le: "max f 0 \<le> min t (int (length s))"
    proof (rule ccontr)
      assume "\<not> max f 0 \<le> min t (int (length s))"
      then have c: "(max f 0 > min t (int (length s)) \<or> trim_space quote = []) = True" unfolding not_le by blast
      have "Find u (NewText u s) quote f t = None" unfolding Find_def Let_def parts c if_True by (rule refl)
      then show False using assms(2) by simp
    qed
    show "a \<le> b" unfolding a_def b_def using le by (rule nat_mono)
    show "b \<le> length s" "f \<le> int a" by (simp_all add: a_def b_def)
  qed
  have exact: "holds_quote u s quote x y \<and> f \<le> int x" if "ex = Some (x, y)" for x y
  proof -
    obtain k where k: "str_index (subtext s a b) quote = Some k" "x = a + k" "y = a + k + length quote"
      using \<open>ex = Some (x, y)\<close> by (auto simp: ex_def)
    note ix = str_index_Some [OF k(1)]
    have len: "length (subtext s a b) = b - a" using ab by (simp add: subtext_def)
    have "s = (take a s @ take k (subtext s a b)) @ quote @ (drop (k + length quote) (subtext s a b) @ drop b s)"
      using subtext_split [OF ab(1), of s] ix by (metis append.assoc)
    moreover have "length (take a s @ take k (subtext s a b)) = a + k" using ab ix len by simp
    ultimately have "subtext s x y = quote" unfolding k(2,3) by (rule subtext_mid)
    moreover have "y \<le> length s" using ix ab k len by linarith
    ultimately show ?thesis using ab k by (simp add: holds_quote_def)
  qed
  have toler: "holds_quote u s quote (bk ! (lo + k)) (bk ! (lo + k + length nq)) \<and> f \<le> int (bk ! (lo + k))"
    if "str_index (subtext nt lo hi) nq = Some k" "nq \<noteq> []" "lo \<le> hi" "hi \<le> length nt" for k
  proof -
    note ix = str_index_Some [OF that(1)]
    have len: "length (subtext nt lo hi) = hi - lo" using that by (simp add: subtext_def)
    obtain qs where qs: "nq = encode qs" "\<forall>r \<in> set qs. scalar r"
      using trimmed_encode [OF assms(1)] unfolding nq_def normal_def by blast
    have split: "nt = (take lo nt @ take k (subtext nt lo hi)) @ encode qs @ (drop (k + length nq) (subtext nt lo hi) @ drop hi nt)"
      using subtext_split [OF that(3), of nt] ix qs(1) by (metis append.assoc)
    have len2: "length (take lo nt @ take k (subtext nt lo hi)) = lo + k" using ix len that by simp
    have "qs \<noteq> []" using that(2) qs(1) by auto
    from normal_match [OF assms(1) n split this qs(2)] len2 qs(1)
    have m: "bk ! (lo + k) \<le> bk ! (lo + k + length nq)" "bk ! (lo + k + length nq) \<le> length s"
      "normal u False (subtext s (bk ! (lo + k)) (bk ! (lo + k + length nq))) = nq"
      by (simp_all add: subtext_def normal_def)
    have "lo + k < length bk" using ix len that(3,4) bk(2) by linarith
    then have "a \<le> bk ! (lo + k)" using search_ints_ge [of "lo + k" bk a] bk(1) by (simp add: lo_def)
    then show ?thesis using m that(2) ab(3) unfolding holds_quote_def nq_def by fastforce
  qed
  have "ex = Some (i, j) \<or> (\<exists>k. str_index (subtext nt lo hi) nq = Some k \<and> nq \<noteq> [] \<and> lo \<le> hi \<and> hi \<le> length nt \<and>
      i = bk ! (lo + k) \<and> j = bk ! (lo + k + length nq))"
    using assms(2) unfolding Find_def Let_def parts normalize_def normal_def [symmetric] a_def [symmetric] b_def [symmetric]
      nq_def [symmetric] lo_def [symmetric] hi_def [symmetric] ex_def [symmetric]
    by (auto split: if_splits option.splits)
  then show ?thesis using exact toler by blast
qed

lemma demo_find:
  "Find ascii_unicode (NewText ascii_unicode ''a fee; the  Fee'') ''the fee'' 2 15 = Some (7, 15)"
  by code_simp

theorem Find_holds_witness: "holds_quote ascii_unicode ''a fee; the  Fee'' ''the fee'' 7 15"
  using Find_holds [OF ascii_lowers demo_find] by simp

text \<open>
  The comment of Find promises a quote within text[from:to]; the end can be past \<open>to\<close>, by the format
  characters that follow the last character of the match.
\<close>

definition zero_width_text :: string where
  "zero_width_text = [CHR ''A'', CHR 0xE2, CHR 0x80, CHR 0x8B, CHR ''b'']"

lemma zero_width_units: "units ascii_unicode False 0 zero_width_text = [(0, 97), (4, 98)]" "units ascii_unicode False 0 ''a'' = [(0, 97)]"
  by (simp_all add: units.simps zero_width_text_def byte_val_def is_sep_def is_space_rune_def is_format_rune_def fold_rune_def
      ascii_unicode_def decode3_def byte_in_def second_lo_def second_hi_def cont_byte_def)

lemma Find_past_end:
  "Find ascii_unicode (NewText ascii_unicode zero_width_text) ''a'' 0 1 = Some (0, 4)"
proof -
  have t: "trim_space ''a'' = ''a''" by (rule trim_space_id) (simp add: graphic_byte_def is_space_rune_def byte_val_def)
  have ab: "char_of (97 :: nat) = CHR ''a''" "char_of (98 :: nat) = CHR ''b''" by code_simp+
  have n: "normalize ascii_unicode zero_width_text = (''ab'', [0, 4, 5])" "normalize ascii_unicode ''a'' = (''a'', [0, 1])"
    by (simp_all add: normalize_def normalizeCells_def zero_width_units unit_text_def unit_back_def encode_rune_def Let_def)
      (simp_all add: zero_width_text_def ab)
  have p: "NewText ascii_unicode zero_width_text = \<lparr>tRaw = zero_width_text, tNorm = ''ab'', tBack = [0, 4, 5]\<rparr>"
    by (simp add: NewText_def n)
  show ?thesis
    unfolding p by (simp add: Find_def n t Let_def subtext_def search_ints_def zero_width_text_def has_prefix_def)
qed

section \<open>The passage nearest to a quote\<close>

text \<open>\<^verbatim>\<open>sentenceStart\<close> and \<^verbatim>\<open>sentenceEnd\<close>.\<close>

definition sentence_mark :: "char \<Rightarrow> bool" where
  "sentence_mark c \<longleftrightarrow> c \<in> set ''.!?''"

definition blank_byte :: "char \<Rightarrow> bool" where
  "blank_byte c \<longleftrightarrow> c = CHR '' '' \<or> c = CHR 0x09"

fun sentence_start_from :: "string \<Rightarrow> nat \<Rightarrow> nat" where
  "sentence_start_from s 0 = 0"
| "sentence_start_from s (Suc j) =
     (if s ! j = CHR 0x0A \<or> 1 \<le> j \<and> sentence_mark (s ! (j - 1)) \<and> blank_byte (s ! j) then Suc j
      else sentence_start_from s j)"

definition sentenceStart :: "string \<Rightarrow> int \<Rightarrow> nat" where
  "sentenceStart s i = sentence_start_from s (runeStart s i)"

function sentence_end_from :: "string \<Rightarrow> nat \<Rightarrow> nat" where
  "sentence_end_from s j =
     (if j \<ge> length s then length s
      else if s ! j = CHR 0x0A then j
      else if sentence_mark (s ! (j - 1)) \<and> blank_byte (s ! j) then j
      else sentence_end_from s (j + 1))"
  by pat_completeness auto
termination by (relation "measure (\<lambda>(s, j). length s - j)") auto

declare sentence_end_from.simps [simp del]

definition sentenceEnd :: "string \<Rightarrow> int \<Rightarrow> nat" where
  "sentenceEnd s i = sentence_end_from s (max (runeStart s i) 1)"

text \<open>\<^verbatim>\<open>strings.LastIndexFunc\<close> with \<^verbatim>\<open>unicode.IsSpace\<close>: the offset of the last space rune, -1 for none.\<close>

function last_space :: "nat \<Rightarrow> int \<Rightarrow> string \<Rightarrow> int" where
  "last_space i found s =
     (if s = [] then found
      else last_space (i + snd (decode_rune s)) (if is_space_rune (fst (decode_rune s)) then int i else found)
             (drop (snd (decode_rune s)) s))"
  by pat_completeness auto
termination by (relation "measure (\<lambda>(i, f, s). length s)") (auto simp: decode_rune_shrinks)

declare last_space.simps [simp del]

text \<open>The span \<^verbatim>\<open>Nearest\<close> copies; the section that holds it comes from the database.\<close>

definition Nearest_span :: "unicode \<Rightarrow> string \<Rightarrow> string \<Rightarrow> nat \<Rightarrow> (nat \<times> nat) option" where
  "Nearest_span u s quote mx =
     (let (start, fin, overlap) = bestSpan u s quote in
      if overlap = 0 then None
      else (let ls = sentenceStart s (int start); le = sentenceEnd s (int fin) in
            if int le - int ls \<le> int mx then Some (ls, le)
            else if fin - start > mx
            then (let cut = last_space 0 (-1) (subtext s start (start + mx + 1)) in
                  Some (start, runeStart s (int start + (if cut > 0 then cut else int mx))))
            else Some (start, fin)))"

definition Nearest :: "unicode \<Rightarrow> string \<Rightarrow> (nat \<Rightarrow> string \<times> string) \<Rightarrow> string \<Rightarrow> nat \<Rightarrow> (string \<times> string \<times> string) option" where
  "Nearest u s locate quote mx =
     map_option (\<lambda>(i, j). let (sec, number) = locate (rune_count (take i s)) in (sec, number, trim_space (subtext s i j)))
       (Nearest_span u s quote mx)"

section \<open>Quotes in transcribed text\<close>

text \<open>\<^verbatim>\<open>vision.go\<close>: a transcript's pages and the one a span overlaps.\<close>

record page_read =
  prPage :: nat
  prStart :: nat
  prEnd :: nat
  prAgreement :: rat
  prDisputed :: "string list"

record transcript =
  trModel :: string
  trPages :: "page_read list"

definition TranscriptCap :: rat where "TranscriptCap = 85 / 100"
definition lowBelow :: rat where "lowBelow = 9 / 10"

definition low :: "page_read \<Rightarrow> bool" where
  "low p \<longleftrightarrow> prAgreement p < lowBelow \<or> prDisputed p \<noteq> []"

definition cover_step :: "nat \<Rightarrow> nat \<Rightarrow> page_read option \<Rightarrow> page_read \<Rightarrow> page_read option" where
  "cover_step start fin acc q =
     (if prStart q < fin \<and> start < prEnd q \<and>
         (case acc of None \<Rightarrow> True | Some p \<Rightarrow> low q \<or> \<not> low p \<and> prAgreement q < prAgreement p)
      then Some q else acc)"

definition covers :: "transcript option \<Rightarrow> nat \<Rightarrow> nat \<Rightarrow> page_read option" where
  "covers t start fin = (case t of None \<Rightarrow> None | Some t' \<Rightarrow> foldl (cover_step start fin) None (trPages t'))"

text \<open>\<^verbatim>\<open>edgeRe\<close> on the runes around a copy of the quote, which stands as a zero.\<close>

fun edge_here :: "unicode \<Rightarrow> rune list \<Rightarrow> bool" where
  "edge_here u (a # b # rest) \<longleftrightarrow>
     WordRune u a \<and> b = 0 \<or> a = 0 \<and> WordRune u b
     \<or> (case rest of c # _ \<Rightarrow> a = 0 \<and> (b = 46 \<or> b = 44) \<and> NumberRune u c
                           \<or> NumberRune u a \<and> (b = 46 \<or> b = 44 \<or> b = 32) \<and> c = 0
        | [] \<Rightarrow> False)"
| "edge_here u _ \<longleftrightarrow> False"

fun edge_match :: "unicode \<Rightarrow> rune list \<Rightarrow> bool" where
  "edge_match u [] \<longleftrightarrow> False"
| "edge_match u (r # rs) \<longleftrightarrow> edge_here u (r # rs) \<or> edge_match u rs"

definition whole_word :: "unicode \<Rightarrow> string \<Rightarrow> nat \<Rightarrow> nat \<Rightarrow> bool" where
  "whole_word u s i n =
     (\<not> edge_match u (map fst (runes_of (subtext s (i - 4) i @ [char_of (0 :: nat)] @ subtext s (i + n) (i + n + 4)))))"

text \<open>The search for a later whole-word copy outside the transcript.\<close>

function later_copy :: "unicode \<Rightarrow> string \<Rightarrow> transcript option \<Rightarrow> string \<Rightarrow> nat \<Rightarrow> nat \<times> nat \<Rightarrow> nat \<times> nat" where
  "later_copy u s t quote i sp =
     (if covers t (fst sp) (snd sp) = None then sp
      else (case str_index (drop i s) quote of
              None \<Rightarrow> sp
            | Some k \<Rightarrow>
                if length s \<le> i + k then (if whole_word u s (i + k) (length quote) then (i + k, i + k + length quote) else sp)
                else later_copy u s t quote (i + k + 1)
                       (if whole_word u s (i + k) (length quote) then (i + k, i + k + length quote) else sp)))"
  by pat_completeness auto
termination by (relation "measure (\<lambda>(u, s, t, quote, i, sp). length s - i)") auto

declare later_copy.simps [simp del]

record verified_quote =
  vqVerification :: verification
  vqSection :: string
  vqNumber :: string
  vqTranscribedBy :: string
  vqLow :: bool
  vqMatch :: string

definition unlocated :: "verification \<Rightarrow> verified_quote" where
  "unlocated v = \<lparr>vqVerification = v, vqSection = [], vqNumber = [], vqTranscribedBy = [], vqLow = False, vqMatch = []\<rparr>"

text \<open>\<^verbatim>\<open>VerifyQuote\<close> on a document's text and transcript; \<open>locate\<close> is the database.\<close>

definition VerifyQuote ::
  "unicode \<Rightarrow> string \<Rightarrow> transcript option \<Rightarrow> (nat \<Rightarrow> string \<times> string) \<Rightarrow> string \<Rightarrow> 'w judge option \<Rightarrow> 'w \<Rightarrow>
   (verified_quote \<times> string option) \<times> 'w" where
  "VerifyQuote u s t locate quote jg w =
     (case Verify u s quote jg w of
        ((v0, e), w') \<Rightarrow>
          if e \<noteq> None \<or> \<not> vVerified v0 then ((unlocated v0, e), w')
          else (let (i, j) = (if vMethod v0 = ''exact'' then later_copy u s t quote (vStart v0 + 1) (vStart v0, vEnd v0)
                              else (vStart v0, vEnd v0));
                    v = v0\<lparr>vStart := i, vEnd := j\<rparr>;
                    (sec, number) = locate (rune_count (take i s));
                    out = \<lparr>vqVerification = v, vqSection = sec, vqNumber = number, vqTranscribedBy = [],
                           vqLow = False, vqMatch = subtext s i j\<rparr> in
                ((case covers t i j of
                    None \<Rightarrow> out
                  | Some p \<Rightarrow> out
                      \<lparr>vqVerification := v\<lparr>vMethod := vMethod v @ ''@transcript'', vConfidence := min (vConfidence v) TranscriptCap,
                         vNote := ''machine transcription of an image ('' @ (case t of None \<Rightarrow> [] | Some t' \<Rightarrow> trModel t') @
                           ''): check against the original''\<rparr>,
                       vqTranscribedBy := (case t of None \<Rightarrow> [] | Some t' \<Rightarrow> trModel t'), vqLow := low p\<rparr>, None), w')))"

lemma later_copy_quote:
  "quote \<noteq> [] \<Longrightarrow> subtext s (fst sp) (snd sp) = quote \<Longrightarrow> fst sp \<le> snd sp \<Longrightarrow> snd sp \<le> length s \<Longrightarrow>
   later_copy u s t quote i sp = (a, b) \<Longrightarrow> subtext s a b = quote \<and> a \<le> b \<and> b \<le> length s"
proof (induction u s t quote i sp rule: later_copy.induct)
  case (1 u s t quote i sp)
  show ?case
  proof (cases "covers t (fst sp) (snd sp) = None \<or> str_index (drop i s) quote = None")
    case True
    then show ?thesis using "1.prems" by (subst (asm) later_copy.simps) (auto split: if_splits)
  next
    case False
    then obtain k where k: "str_index (drop i s) quote = Some k" by auto
    note ix = str_index_Some [OF k]
    let ?sp = "if whole_word u s (i + k) (length quote) then (i + k, i + k + length quote) else sp"
    have "0 < length quote" using "1.prems"(1) by simp
    then have le: "i \<le> length s" "i + k + length quote \<le> length s"
      using ix [THEN conjunct2] unfolding length_drop by linarith+
    then have lt: "\<not> length s \<le> i + k" using \<open>0 < length quote\<close> by linarith
    have "s = (take i s @ take k (drop i s)) @ quote @ drop (k + length quote) (drop i s)"
      using ix by (metis append.assoc append_take_drop_id)
    moreover have "length (take i s @ take k (drop i s)) = i + k" using ix le by simp
    ultimately have "subtext s (i + k) (i + k + length quote) = quote" by (rule subtext_mid)
    then have sp: "subtext s (fst ?sp) (snd ?sp) = quote" "fst ?sp \<le> snd ?sp" "snd ?sp \<le> length s"
      using "1.prems" le by auto
    have "later_copy u s t quote i sp = later_copy u s t quote (i + k + 1) ?sp"
      using False k lt by (subst later_copy.simps) auto
    then show ?thesis using "1.IH" [OF _ k lt "1.prems"(1) sp] False "1.prems"(5) by simp
  qed
qed

text \<open>
  A quote verified by a string match is quoted from the document: the match it reports is the
  document's bytes between its offsets, which hold the quote (for an exact match they are the quote,
  also when a later copy outside transcribed text is preferred); and a match that overlaps a
  transcribed page says so, with a confidence of at most the transcript's cap.
\<close>

theorem VerifyQuote_match:
  assumes "lowers u" and "VerifyQuote u s t locate quote jg w = ((out, None), w')"
    and "vVerified (vqVerification out)" and "trim_space quote \<noteq> []" and "string_rungs u s quote \<noteq> None"
    and "i = vStart (vqVerification out)" and "j = vEnd (vqVerification out)"
  shows "vqMatch out = subtext s i j \<and> holds_quote u s quote i j
    \<and> (contains_str s quote \<longrightarrow> vqMatch out = quote)
    \<and> (covers t i j \<noteq> None \<longrightarrow> vConfidence (vqVerification out) \<le> TranscriptCap \<and>
         has_suffix (vMethod (vqVerification out)) ''@transcript'')"
proof -
  obtain v0 where v0: "string_rungs u s quote = Some v0" using assms(5) by blast
  have V: "Verify u s quote jg w = ((v0, None), w)" using v0 assms(4) by (simp add: Verify_def)
  have h: "holds_quote u s quote (vStart v0) (vEnd v0)" "vVerified v0" using string_rungs_holds [OF assms(1) v0] by auto
  have quote: "quote \<noteq> []" using assms(4) by (auto simp: trim_space_id)
  define sp where "sp = (if vMethod v0 = ''exact'' then later_copy u s t quote (vStart v0 + 1) (vStart v0, vEnd v0)
                              else (vStart v0, vEnd v0))"
  obtain a b where ab: "sp = (a, b)" by (cases sp)
  obtain sec number where loc: "locate (rune_count (take a s)) = (sec, number)" by (metis prod.exhaust)
  have out: "vStart (vqVerification out) = a" "vEnd (vqVerification out) = b" "vqMatch out = subtext s a b"
    "covers t a b \<noteq> None \<longrightarrow> vConfidence (vqVerification out) \<le> TranscriptCap \<and>
       vMethod (vqVerification out) = vMethod v0 @ ''@transcript''"
    using assms(2) V h(2) ab loc unfolding VerifyQuote_def sp_def by (auto simp: Let_def split: option.splits)
  have exact: "vMethod v0 = ''exact'' \<longleftrightarrow> contains_str s quote"
    using v0 by (auto simp: string_rungs_def contains_str_def matched_def split: option.splits if_splits)
  have sub: "subtext s a b = quote \<and> a \<le> b \<and> b \<le> length s" if "contains_str s quote"
  proof -
    obtain k where k: "str_index s quote = Some k" using \<open>contains_str s quote\<close> by (auto simp: contains_str_def)
    then have "vStart v0 = k" "vEnd v0 = k + length quote" using v0 by (auto simp: string_rungs_def matched_def)
    then have "subtext s (vStart v0) (vEnd v0) = quote" "vStart v0 \<le> vEnd v0" "vEnd v0 \<le> length s"
      using str_index_Some [OF k] subtext_mid [of s "take k s" quote _ k] by auto
    then show ?thesis using later_copy_quote [of quote s "(vStart v0, vEnd v0)" u t "vStart v0 + 1" a b] quote ab exact that
      by (simp add: sp_def)
  qed
  have "holds_quote u s quote a b"
  proof (cases "contains_str s quote")
    case True
    then show ?thesis using sub by (simp add: holds_quote_def)
  next
    case False
    then show ?thesis using h(1) ab exact by (simp add: sp_def)
  qed
  moreover have "has_suffix (m @ ''@transcript'') ''@transcript''" for m by (simp add: has_suffix_def)
  ultimately show ?thesis using out sub assms(6,7) by auto
qed

lemma demo_rungs_exact: "string_rungs ascii_unicode ''The fee is due'' ''fee'' = Some (matched ''exact'' ExactConfidence 4 7 [])"
  by code_simp

definition demo_transcript :: transcript where
  "demo_transcript = \<lparr>trModel = ''eye'', trPages = [\<lparr>prPage = 1, prStart = 0, prEnd = 6, prAgreement = 1, prDisputed = []\<rparr>]\<rparr>"

theorem VerifyQuote_match_witness:
  "\<exists>out. fst (VerifyQuote ascii_unicode ''The fee is due'' (Some demo_transcript) (\<lambda>_. ([], [])) ''fee'' None ()) = (out, None)
     \<and> vqMatch out = ''fee'' \<and> vConfidence (vqVerification out) \<le> TranscriptCap"
proof -
  have t: "trim_space ''fee'' \<noteq> []" by (subst trim_space_id) (simp_all add: graphic_byte_def is_space_rune_def byte_val_def)
  obtain out e w' where r: "VerifyQuote ascii_unicode ''The fee is due'' (Some demo_transcript) (\<lambda>_. ([], [])) ''fee'' None () = ((out, e), w')"
    by (metis prod.exhaust)
  have lc: "later_copy ascii_unicode ''The fee is due'' (Some demo_transcript) ''fee'' 5 (4, 7) = (4, 7)"
    by (subst later_copy.simps) (simp add: has_prefix_def)
  have cov: "\<exists>p. covers (Some demo_transcript) 4 7 = Some p" by (simp add: covers_def cover_step_def demo_transcript_def)
  have o: "e = None \<and> vVerified (vqVerification out) \<and> vStart (vqVerification out) = 4 \<and> vEnd (vqVerification out) = 7"
    using r t cov by (auto simp: VerifyQuote_def Verify_def demo_rungs_exact matched_def Let_def lc)
  have c: "contains_str ''The fee is due'' ''fee''" "covers (Some demo_transcript) 4 7 \<noteq> None"
    by (simp_all add: contains_str_def has_prefix_def covers_def cover_step_def demo_transcript_def)
  have s: "string_rungs ascii_unicode ''The fee is due'' ''fee'' \<noteq> None" by (simp add: demo_rungs_exact)
  have e: "e = None" using o by simp
  show ?thesis
    using VerifyQuote_match [OF ascii_lowers r [unfolded e] _ t s refl refl] o c r by auto
qed

end
