(* ===== verification/PageIndex.thy ===== *)
theory PageIndex
  imports Utf8
begin

text \<open>
  \<^verbatim>\<open>internal/docs/pageindex.go\<close>: the section tree of a document's text.  The regular expressions of
  the source are functions of a record that give the groups of a match, as are the Unicode tables.
\<close>

section \<open>Sections\<close>

record sect =
  sNumber :: string
  sTitle :: string
  sScheme :: string
  sLevel :: nat
  sDefs :: bool
  sStart :: nat
  sBodyEnd :: nat
  sEnd :: nat

definition MaxSections :: nat where "MaxSections = 10000"
definition maxTitle :: nat where "maxTitle = 120"
definition maxNumber :: nat where "maxNumber = 24"

record patterns =
  reMarkdown :: "string \<Rightarrow> (string \<times> string) option"
  reDecimal :: "string \<Rightarrow> (string \<times> string) option"
  reAlpha :: "string \<Rightarrow> (string \<times> string) option"
  reRoman :: "string \<Rightarrow> (string \<times> string) option"
  reArticle :: "string \<Rightarrow> (string \<times> string) option"
  reSection :: "string \<Rightarrow> (string \<times> string) option"
  reSchedule :: "string \<Rightarrow> (string \<times> string \<times> string) option"
  reRecitals :: "string \<Rightarrow> bool"
  reWhereas :: "string \<Rightarrow> string option"
  reNowTherefore :: "string \<Rightarrow> bool"
  reDefinitions :: "string \<Rightarrow> bool"
  reStreet :: "string \<Rightarrow> bool"
  LowerCase :: "rune \<Rightarrow> bool"
  PunctRune :: "rune \<Rightarrow> bool"
  ToUpperText :: "string \<Rightarrow> string"
  ToLowerText :: "string \<Rightarrow> string"

section \<open>Lines\<close>

definition line_end :: "string \<Rightarrow> nat \<Rightarrow> nat \<Rightarrow> nat" where
  "line_end s start limit =
     (case str_index (subtext s start limit) [CHR 0x0A] of None \<Rightarrow> limit | Some i \<Rightarrow> start + i + 1)"

lemma line_end_range: "start < limit \<Longrightarrow> limit \<le> length s \<Longrightarrow> start < line_end s start limit \<and> line_end s start limit \<le> limit"
  using str_index_Some [of "subtext s start limit" "[CHR 0x0A]"]
  by (auto simp: line_end_def subtext_def split: option.splits)

text \<open>\<^verbatim>\<open>isTableRow\<close>: at least two tabs.\<close>

definition count_byte :: "char \<Rightarrow> string \<Rightarrow> nat" where
  "count_byte c s = length (filter (\<lambda>b. b = c) s)"

definition isTableRow :: "string \<Rightarrow> bool" where
  "isTableRow l \<longleftrightarrow> 2 \<le> count_byte CHR 0x09 l"

section \<open>Headings\<close>

definition is_control :: "rune \<Rightarrow> bool" where
  "is_control r \<longleftrightarrow> r < 32 \<or> 127 \<le> r \<and> r < 160"

text \<open>\<^verbatim>\<open>clip\<close> (\<^verbatim>\<open>chunk.go\<close>).\<close>

definition clip :: "string \<Rightarrow> nat \<Rightarrow> string" where
  "clip s n = (if length s \<le> n then s else to_valid_utf8 (take n s) @ [CHR 0xE2, CHR 0x80, CHR 0xA6])"

definition startsLower :: "patterns \<Rightarrow> string \<Rightarrow> bool" where
  "startsLower p s \<longleftrightarrow> LowerCase p (fst (decode_rune s))"

definition startsPunct :: "patterns \<Rightarrow> string \<Rightarrow> bool" where
  "startsPunct p s \<longleftrightarrow> (let r = fst (decode_rune s) in
     PunctRune p r \<and> r \<notin> {40, 91, 34, 8220, 8216, 39, 8212, 8211, 45, 58, 46})"

definition isRomanItem :: "string \<Rightarrow> bool" where
  "isRomanItem tok \<longleftrightarrow> (if length tok = 1 then hd tok \<in> set ''ivxIVX'' else True)"

text \<open>The replacer that drops \<open>**\<close> and \<open>__\<close>, left to right.\<close>

fun drop_marks :: "string \<Rightarrow> string" where
  "drop_marks (a # b # s) =
     (if (a = CHR ''*'' \<and> b = CHR ''*'') \<or> (a = CHR ''_'' \<and> b = CHR ''_'') then drop_marks s else a # drop_marks (b # s))"
| "drop_marks s = s"

definition mark_byte :: "char \<Rightarrow> bool" where
  "mark_byte c \<longleftrightarrow> c = CHR ''*'' \<or> c = CHR ''_''"

text \<open>\<^verbatim>\<open>strings.Trim\<close> with a cutset of runes, and the cutset of a title.\<close>

function trim_runes_left :: "(rune \<Rightarrow> bool) \<Rightarrow> string \<Rightarrow> string" where
  "trim_runes_left p s =
     (if s \<noteq> [] \<and> p (fst (decode_rune s)) then trim_runes_left p (drop (snd (decode_rune s)) s) else s)"
  by pat_completeness auto
termination by (relation "measure (\<lambda>(p, s). length s)") (auto simp: decode_rune_shrinks)

function trim_runes_right :: "(rune \<Rightarrow> bool) \<Rightarrow> string \<Rightarrow> string" where
  "trim_runes_right p s =
     (if s \<noteq> [] \<and> p (fst (decode_last_rune s))
      then trim_runes_right p (take (length s - snd (decode_last_rune s)) s) else s)"
  by pat_completeness auto
termination
proof (relation "measure (\<lambda>(p, s). length s)", goal_cases)
  case (2 p s)
  then show ?case using decode_last_rune_width(1) [of s] by (cases s) auto
qed simp

declare trim_runes_left.simps [simp del] trim_runes_right.simps [simp del]

definition title_cut :: "rune \<Rightarrow> bool" where
  "title_cut r \<longleftrightarrow> r \<in> {32, 9, 42, 95, 8212, 8211, 45, 58, 46}"

definition keep_runes :: "(rune \<Rightarrow> bool) \<Rightarrow> string \<Rightarrow> string" where
  "keep_runes p s = concat (map (\<lambda>(r, w). if p r then encode_rune r else []) (runes_of s))"

definition sec ::
  "patterns \<Rightarrow> string \<Rightarrow> string \<Rightarrow> string \<Rightarrow> nat \<Rightarrow> sect option" where
  "sec p scheme number title0 level =
     (let raw = trim_left (\<lambda>c. c = CHR '' '' \<or> c = CHR 0x09 \<or> mark_byte c) (drop_marks title0);
          title = keep_runes (\<lambda>r. \<not> is_control r \<and> \<not> is_format_rune r)
                    (trim_runes_right title_cut (trim_runes_left title_cut (drop_marks title0))) in
      if length number > maxNumber \<or> scheme = ''decimal'' \<and> (level > 6 \<or> startsLower p title)
         \<or> (scheme = ''article'' \<or> scheme = ''section'' \<or> scheme = ''schedule'') \<and> (startsLower p raw \<or> startsPunct p raw)
      then None
      else Some \<lparr>sNumber = number, sTitle = clip title maxTitle, sScheme = scheme, sLevel = level,
                 sDefs = reDefinitions p (clip title maxTitle), sStart = 0, sBodyEnd = 0, sEnd = 0\<rparr>)"

text \<open>\<^verbatim>\<open>classify\<close>, its cases in the code's order.\<close>

definition numbered :: "patterns \<Rightarrow> string \<Rightarrow> (string \<times> string) option \<Rightarrow> sect option" where
  "numbered p s md =
     (case reSection p s of Some (n, t) \<Rightarrow> sec p ''section'' (''Section '' @ n) t 2
      | None \<Rightarrow>
     (case (case reRoman p s of Some (n, t) \<Rightarrow> (if isRomanItem n then Some (n, t) else None) | None \<Rightarrow> None) of
        Some (n, t) \<Rightarrow> sec p ''roman'' (''('' @ n @ '')'') t 5
      | None \<Rightarrow>
     (case reAlpha p s of Some (n, t) \<Rightarrow> sec p ''alpha'' (''('' @ n @ '')'') t 4
      | None \<Rightarrow>
     (case (case reDecimal p s of
              Some (n, t) \<Rightarrow>
                (if length s > length n \<and> s ! length n \<noteq> CHR ''.'' \<and> \<not> contains_str n ''.'' \<and> reStreet p t
                 then None else Some (n, t))
            | None \<Rightarrow> None) of
        Some (n, t) \<Rightarrow> sec p ''decimal'' n t (count_byte CHR ''.'' n + 2)
      | None \<Rightarrow>
     (case md of Some (hashes, _) \<Rightarrow> if s \<noteq> [] then sec p ''heading'' [] s (length hashes) else None
      | None \<Rightarrow> None)))))"

definition classify :: "patterns \<Rightarrow> string \<Rightarrow> sect option" where
  "classify p line =
     (if isTableRow line then None
      else (let s0 = trim_space line;
                md = reMarkdown p s0;
                s1 = (case md of Some (_, t) \<Rightarrow> t | None \<Rightarrow> s0);
                s = trim_space (trim_both mark_byte s1) in
            if reRecitals p s then sec p ''recital'' [] s 1
            else if reNowTherefore p s then sec p ''recital'' ''NOW, THEREFORE'' [] 2
            else (case reWhereas p s of Some t \<Rightarrow> sec p ''recital'' ''WHEREAS'' t 2
                  | None \<Rightarrow>
                 (case reArticle p s of Some (n, t) \<Rightarrow> sec p ''article'' (''ARTICLE '' @ n) t 1
                  | None \<Rightarrow>
                 (case reSchedule p s of
                    Some (k, n, t) \<Rightarrow> sec p ''schedule'' (ToUpperText p (take 1 k) @ ToLowerText p (drop 1 k) @ '' '' @ n) t 1
                  | None \<Rightarrow> numbered p s md)))))"

section \<open>The tree\<close>

definition line_text :: "string \<Rightarrow> string" where
  "line_text l = trim_suffix (trim_suffix l [CHR 0x0A]) [CHR 0x0D]"

definition preface :: "nat \<Rightarrow> sect" where
  "preface e = \<lparr>sNumber = [], sTitle = [], sScheme = [], sLevel = 0, sDefs = False, sStart = 0, sBodyEnd = e, sEnd = e\<rparr>"

definition line_step :: "(string \<Rightarrow> sect option) \<Rightarrow> string \<Rightarrow> nat \<Rightarrow> nat \<Rightarrow> sect list \<times> bool \<Rightarrow> sect list \<times> bool" where
  "line_step cls txt start fin acc =
     (let (secs, capped) = acc in
      case cls (line_text (subtext txt start fin)) of
        None \<Rightarrow> (secs, capped)
      | Some s \<Rightarrow>
          (let room = int MaxSections - int (length secs) in
           if room < 1 \<or> room < 2 \<and> secs = [] \<and> start > 0 then (secs, True)
           else ((if secs = [] \<and> start > 0 then [preface start] else secs) @ [s\<lparr>sStart := start\<rparr>], capped)))"

function parse_lines :: "(string \<Rightarrow> sect option) \<Rightarrow> string \<Rightarrow> nat \<Rightarrow> sect list \<times> bool \<Rightarrow> sect list \<times> bool" where
  "parse_lines cls txt start acc =
     (if start < length txt
      then (let fin = line_end txt start (length txt) in parse_lines cls txt fin (line_step cls txt start fin acc))
      else acc)"
  by pat_completeness auto
termination
proof (relation "measure (\<lambda>(cls, txt, start, acc). length txt - start)", goal_cases)
  case (2 cls t start acc fin)
  then show ?case using line_end_range [of start "length t" t] by auto
qed simp

declare parse_lines.simps [simp del]

definition subtree_end :: "nat \<Rightarrow> sect list \<Rightarrow> nat \<Rightarrow> nat" where
  "subtree_end n rest level = (case find (\<lambda>s. sLevel s \<le> level) rest of Some s \<Rightarrow> sStart s | None \<Rightarrow> n)"

fun fill_ends :: "nat \<Rightarrow> sect list \<Rightarrow> sect list" where
  "fill_ends n [] = []"
| "fill_ends n (s # rest) =
     (if sLevel s = 0 then s
      else s\<lparr>sBodyEnd := (case rest of r # _ \<Rightarrow> sStart r | [] \<Rightarrow> n), sEnd := subtree_end n rest (sLevel s)\<rparr>)
     # fill_ends n rest"

definition parseTree :: "(string \<Rightarrow> sect option) \<Rightarrow> string \<Rightarrow> sect list \<times> bool" where
  "parseTree cls txt =
     (let (secs, capped) = parse_lines cls txt 0 ([], False) in
      if secs = [] then ([preface (length txt)], False)
      else (fill_ends (length txt) secs, capped))"

definition Parse :: "patterns \<Rightarrow> string \<Rightarrow> sect list" where
  "Parse p txt = fst (parseTree (classify p) txt)"

section \<open>What a tree is\<close>

text \<open>
  The bodies of the sections follow each other and cover the text, a section ends where the next one
  as shallow begins, and only a first section can be a preface.
\<close>

fun tiles :: "nat \<Rightarrow> nat \<Rightarrow> sect list \<Rightarrow> bool" where
  "tiles a n [] \<longleftrightarrow> a = n"
| "tiles a n (s # rest) \<longleftrightarrow> sStart s = a \<and> a \<le> sBodyEnd s \<and> tiles (sBodyEnd s) n rest"

text \<open>What the loop over the lines keeps: the starts grow and lie before the line.\<close>

definition lined :: "nat \<Rightarrow> sect list \<Rightarrow> bool" where
  "lined start secs \<longleftrightarrow> sorted_wrt (<) (map sStart secs) \<and> (\<forall>s \<in> set secs. sStart s < start)
     \<and> (secs \<noteq> [] \<longrightarrow> sStart (hd secs) = 0 \<and> (sLevel (hd secs) = 0 \<longrightarrow> tl secs \<noteq> [] \<and> sBodyEnd (hd secs) = sStart (hd (tl secs)) \<and> sEnd (hd secs) = sBodyEnd (hd secs)))
     \<and> (\<forall>s \<in> set (tl secs). 1 \<le> sLevel s) \<and> length secs \<le> MaxSections"

definition levels_ok :: "(string \<Rightarrow> sect option) \<Rightarrow> bool" where
  "levels_ok cls \<longleftrightarrow> (\<forall>l s. cls l = Some s \<longrightarrow> 1 \<le> sLevel s)"

lemma lined_step:
  assumes "levels_ok cls" and "lined start (fst acc)" and "start < fin"
  shows "lined fin (fst (line_step cls txt start fin acc))"
proof -
  obtain secs capped where acc: "acc = (secs, capped)" by (cases acc)
  have later: "lined fin secs" using assms(2,3) unfolding lined_def acc by fastforce
  show ?thesis
  proof (cases "cls (line_text (subtext txt start fin))")
    case None
    then show ?thesis using later by (simp add: line_step_def acc)
  next
    case (Some s)
    have lv: "1 \<le> sLevel s" using assms(1) Some by (auto simp: levels_ok_def)
    show ?thesis
    proof (cases "int MaxSections - int (length secs) < 1 \<or> int MaxSections - int (length secs) < 2 \<and> secs = [] \<and> start > 0")
      case True
      then show ?thesis using later Some by (simp add: line_step_def acc Let_def)
    next
      case False
      then have room: "length secs + 1 \<le> MaxSections" "secs = [] \<and> start > 0 \<Longrightarrow> 2 \<le> MaxSections" by auto
      show ?thesis
      proof (cases secs)
        case Nil
        then show ?thesis using False Some lv room assms(3)
          by (auto simp: line_step_def acc Let_def lined_def preface_def MaxSections_def)
      next
        case (Cons x xs)
        have l: "lined start (x # xs)" using assms(2) by (simp add: acc Cons)
        then have "sorted_wrt (<) (map sStart (x # xs @ [s\<lparr>sStart := start\<rparr>]))"
          by (auto simp: lined_def sorted_wrt_append)
        then show ?thesis using False Some lv room assms(3) l
          by (cases xs) (auto simp: line_step_def acc Let_def lined_def Cons)
      qed
    qed
  qed
qed

lemma lined_parse: "levels_ok cls \<Longrightarrow> lined start (fst acc) \<Longrightarrow> start \<le> length txt \<Longrightarrow>
   lined (length txt) (fst (parse_lines cls txt start acc))"
proof (induction cls "txt" start acc rule: parse_lines.induct)
  case (1 cls t start acc)
  show ?case
  proof (cases "start < length t")
    case True
    note le = line_end_range [OF True order_refl]
    show ?thesis using "1.IH" [OF True refl "1.prems"(1) lined_step [OF "1.prems"(1,2)]] le True
      by (subst parse_lines.simps) (simp add: Let_def)
  next
    case False
    then show ?thesis using "1.prems" by (subst parse_lines.simps) simp
  qed
qed

lemma fill_ends_length [simp]: "length (fill_ends n secs) = length secs"
  by (induction secs) auto

lemma fill_ends_starts [simp]: "map sStart (fill_ends n secs) = map sStart secs" "map sLevel (fill_ends n secs) = map sLevel secs"
  by (induction secs) auto

lemma fill_tiles:
  "sorted_wrt (<) (map sStart secs) \<Longrightarrow> (\<forall>s \<in> set secs. sStart s < n \<and> 1 \<le> sLevel s) \<Longrightarrow> secs \<noteq> [] \<Longrightarrow>
     tiles (sStart (hd secs)) n (fill_ends n secs)"
proof (induction secs)
  case (Cons s rest)
  show ?case
  proof (cases rest)
    case Nil
    then show ?thesis using Cons.prems by auto
  next
    case (Cons r rest')
    then show ?thesis using Cons.IH Cons.prems by auto
  qed
qed simp

text \<open>Where a section's subtree ends: at the next section as shallow, or at the end of the text.\<close>

definition ends_right :: "nat \<Rightarrow> sect list \<Rightarrow> bool" where
  "ends_right n secs \<longleftrightarrow> (\<forall>i < length secs. 1 \<le> sLevel (secs ! i) \<longrightarrow>
     sEnd (secs ! i) = subtree_end n (drop (Suc i) secs) (sLevel (secs ! i)))"

lemma subtree_end_fill: "subtree_end n (fill_ends n rest) l = subtree_end n rest l"
  by (induction rest) (auto simp: subtree_end_def)

lemma fill_ends_right: "ends_right n (fill_ends n secs)"
proof (induction secs)
  case (Cons s rest)
  show ?case unfolding ends_right_def
  proof (intro allI impI)
    fix i
    assume "i < length (fill_ends n (s # rest))" "1 \<le> sLevel (fill_ends n (s # rest) ! i)"
    then show "sEnd (fill_ends n (s # rest) ! i) = subtree_end n (drop (Suc i) (fill_ends n (s # rest))) (sLevel (fill_ends n (s # rest) ! i))"
      using Cons by (cases i) (auto simp: ends_right_def subtree_end_fill)
  qed
qed (simp add: ends_right_def)

text \<open>
  The section tree of a text covers it: the sections' own bodies follow each other from the first
  byte to the last, the subtree of each ends where the next section as shallow or shallower begins
  (or with the text), and there are at most 10,000 sections, whatever the headings.
\<close>

theorem parseTree_tiles:
  assumes "levels_ok cls" and "parseTree cls txt = (secs, capped)"
  shows "tiles 0 (length txt) secs \<and> ends_right (length txt) secs \<and> secs \<noteq> [] \<and> length secs \<le> MaxSections"
proof -
  obtain ss c where p: "parse_lines cls txt 0 ([], False) = (ss, c)" by (metis prod.exhaust)
  have "lined 0 (fst ([], False))" by (simp add: lined_def)
  then have l: "lined (length txt) ss" using lined_parse [OF assms(1), of 0 "([], False)" "txt"] p by simp
  show ?thesis
  proof (cases ss)
    case Nil
    then show ?thesis using assms(2) p
      by (auto simp: parseTree_def preface_def ends_right_def MaxSections_def)
  next
    case (Cons s rest)
    have secs: "secs = fill_ends (length txt) ss" using assms(2) p Cons by (simp add: parseTree_def)
    have "tiles 0 (length txt) secs"
    proof (cases "sLevel s = 0")
      case True
      have r: "rest \<noteq> []" "sBodyEnd s = sStart (hd rest)" "sStart s = 0" using l True by (auto simp: lined_def Cons)
      have "tiles (sStart (hd rest)) (length txt) (fill_ends (length txt) rest)"
        using l r(1) by (intro fill_tiles) (auto simp: lined_def Cons)
      then show ?thesis using True r by (simp add: secs Cons)
    next
      case False
      then show ?thesis using l fill_tiles [of ss "length txt"] by (auto simp: secs lined_def Cons)
    qed
    moreover have "ends_right (length txt) secs" using fill_ends_right secs by simp
    moreover have "secs \<noteq> []" "length secs \<le> MaxSections" using l secs Cons by (simp_all add: lined_def)
    ultimately show ?thesis by blast
  qed
qed

text \<open>The levels of the code's own headings: a Markdown heading has at least one hash.\<close>

lemma sec_level: "sec p scheme number title level = Some s \<Longrightarrow> sLevel s = level"
  by (auto simp: sec_def Let_def split: if_splits)

lemma classify_levels:
  assumes "\<And>l h t. reMarkdown p l = Some (h, t) \<Longrightarrow> h \<noteq> []"
  shows "levels_ok (classify p)"
proof -
  have n: "1 \<le> sLevel s" if "numbered p l md = Some s" "\<And>h t. md = Some (h, t) \<Longrightarrow> h \<noteq> []" for s l md
    using that by (auto simp: numbered_def dest!: sec_level split: option.splits if_splits) (simp add: Suc_leI)+
  show ?thesis
    using assms by (auto simp: levels_ok_def classify_def Let_def dest!: sec_level n split: option.splits if_splits)
qed

definition hash_heading :: "string \<Rightarrow> sect option" where
  "hash_heading l = (if has_prefix l ''#'' then Some ((preface 0)\<lparr>sTitle := tl l, sLevel := 1\<rparr>) else None)"

definition demo_doc :: string where
  "demo_doc = ''a'' @ [CHR 0x0A] @ ''#b'' @ [CHR 0x0A] @ ''c''"

theorem parseTree_tiles_witness:
  "tiles 0 6 (fst (parseTree hash_heading demo_doc)) \<and> length (fst (parseTree hash_heading demo_doc)) = 2"
proof -
  have lv: "levels_ok hash_heading" by (auto simp: levels_ok_def hash_heading_def split: if_splits)
  have len: "length demo_doc = 6" "length (fst (parseTree hash_heading demo_doc)) = 2" by code_simp+
  show ?thesis using parseTree_tiles [OF lv, of demo_doc "fst (parseTree hash_heading demo_doc)"] len
    by (metis prod.collapse)
qed

end
