(* ===== verification/Chunk.thy ===== *)
theory Chunk
  imports PageIndex
begin

text \<open>
  \<^verbatim>\<open>internal/docs/chunk.go\<close>: the search chunks of a document's sections, prose cut at sentences and
  tables cut at rows, and the pages of a table.  A text that a section reaches past the end of panics
  in Go and has no chunks here.
\<close>

definition ChunkTokens :: nat where "ChunkTokens = 400"
definition minTableChunk :: nat where "minTableChunk = 1024"
definition maxContext :: nat where "maxContext = 256"
definition chunkRunes :: nat where "chunkRunes = 1400"
definition maxColumns :: nat where "maxColumns = 1401"
definition TablePageRows :: nat where "TablePageRows = 25"

lemma chunk_bounds: "chunkRunes = ChunkTokens * 7 div 2" "maxColumns = ChunkTokens * 7 div 2 + 1"
  by (simp_all add: chunkRunes_def maxColumns_def ChunkTokens_def)

record chunk =
  cSection :: nat
  cLocator :: string
  cText :: string
  cSearch :: string
  cContext :: string
  cStart :: nat
  cEnd :: nat

definition newline_byte :: char where "newline_byte = CHR 0x0A"

definition tokens :: "string \<Rightarrow> nat" where
  "tokens s = (rune_count s * 2 + 6) div 7"

section \<open>Trimming a span\<close>

definition runeLen :: "string \<Rightarrow> nat \<Rightarrow> nat" where
  "runeLen s i = snd (decode_rune (drop i s))"

definition isSpaceAt :: "string \<Rightarrow> nat \<Rightarrow> bool" where
  "isSpaceAt s i \<longleftrightarrow> is_space_rune (fst (decode_rune (drop i s)))"

definition isSpaceBefore :: "string \<Rightarrow> nat \<Rightarrow> bool" where
  "isSpaceBefore s i \<longleftrightarrow> is_space_rune (fst (decode_last_rune (take i s)))"

lemma error_not_space [simp]: "\<not> is_space_rune rune_error"
  by (simp add: is_space_rune_def rune_error_def)

lemma isSpaceAt_inside: "isSpaceAt s i \<Longrightarrow> i < length s \<and> 1 \<le> runeLen s i \<and> i + runeLen s i \<le> length s"
  using decode_rune_width [of "drop i s"] by (cases "drop i s = []") (auto simp: isSpaceAt_def runeLen_def)

lemma isSpaceBefore_inside: "isSpaceBefore s i \<Longrightarrow> take i s \<noteq> [] \<and> 1 \<le> snd (decode_last_rune (take i s))"
  using decode_last_rune_width [of "take i s"] by (cases "take i s = []") (auto simp: isSpaceBefore_def decode_last_rune_def)

function trim_start :: "string \<Rightarrow> nat \<Rightarrow> nat \<Rightarrow> nat" where
  "trim_start s i j = (if i < j \<and> isSpaceAt s i then trim_start s (i + runeLen s i) j else i)"
  by pat_completeness auto
termination
  by (relation "measure (\<lambda>(s, i, j). j - i)") (auto dest!: isSpaceAt_inside)

function trim_end :: "string \<Rightarrow> nat \<Rightarrow> nat \<Rightarrow> nat" where
  "trim_end s i j = (if i < j \<and> isSpaceBefore s j then trim_end s i (j - snd (decode_last_rune (take j s))) else j)"
  by pat_completeness auto
termination
  by (relation "measure (\<lambda>(s, i, j). j)") (auto dest!: isSpaceBefore_inside)

declare trim_start.simps [simp del] trim_end.simps [simp del]

text \<open>A span with its search text (empty: its own) and its context; the chunk of a span that is not blank.\<close>

type_synonym span = "nat \<times> nat \<times> string \<times> string"

definition add_chunk :: "string \<Rightarrow> nat \<Rightarrow> string \<Rightarrow> span \<Rightarrow> chunk list" where
  "add_chunk s i path sp =
     (let (start0, fin0, search, context) = sp;
          start = trim_start s start0 fin0;
          fin = trim_end s start fin0 in
      if start < fin
      then [\<lparr>cSection = i, cLocator = path, cText = subtext s start fin,
             cSearch = (if search = [] then subtext s start fin else search), cContext = context,
             cStart = start, cEnd = fin\<rparr>]
      else [])"

section \<open>Prose\<close>

fun last_any :: "string \<Rightarrow> string \<Rightarrow> nat option" where
  "last_any cs [] = None"
| "last_any cs (c # s) =
     (case last_any cs s of Some j \<Rightarrow> Some (Suc j) | None \<Rightarrow> if c \<in> set cs then Some 0 else None)"

fun advance :: "string \<Rightarrow> nat \<Rightarrow> nat \<Rightarrow> nat \<Rightarrow> nat" where
  "advance s pos limit 0 = pos"
| "advance s pos limit (Suc n) = (if pos < limit then advance s (pos + runeLen s pos) limit n else pos)"

definition capEnd :: "string \<Rightarrow> nat \<Rightarrow> nat \<Rightarrow> nat" where
  "capEnd s start limit =
     (let maxBytes = advance s start limit chunkRunes in
      if maxBytes \<ge> limit then limit
      else (let seg = subtext s start maxBytes in
            case last_any ''.!?'' seg of
              Some j \<Rightarrow> if j > length seg div 2 then start + j + 1
                        else (case last_any [CHR '' '', newline_byte, CHR 0x09] seg of Some j \<Rightarrow> if j > 0 then start + j else maxBytes | None \<Rightarrow> maxBytes)
            | None \<Rightarrow> (case last_any [CHR '' '', newline_byte, CHR 0x09] seg of Some j \<Rightarrow> if j > 0 then start + j else maxBytes | None \<Rightarrow> maxBytes)))"

lemma last_any_less: "last_any cs s = Some j \<Longrightarrow> j < length s"
  by (induction s arbitrary: j) (auto split: option.splits if_splits)

lemma last_any_in: "last_any cs s = Some j \<Longrightarrow> s ! j \<in> set cs"
  by (induction s arbitrary: j) (auto split: option.splits if_splits)

lemma advance_ge: "pos \<le> advance s pos limit n"
proof (induction n arbitrary: pos)
  case (Suc n)
  show ?case using Suc [of "pos + runeLen s pos"] by simp
qed simp

lemma advance_gt: "pos < limit \<Longrightarrow> limit \<le> length s \<Longrightarrow> 0 < n \<Longrightarrow> pos < advance s pos limit n"
  using decode_rune_width(1) [of "drop pos s"] advance_ge [of "pos + runeLen s pos" s limit "n - 1"]
  by (cases n) (auto simp: runeLen_def)

lemma capEnd_range: "start < limit \<Longrightarrow> limit \<le> length s \<Longrightarrow> start < capEnd s start limit \<and> capEnd s start limit \<le> limit"
proof -
  assume a: "start < limit" "limit \<le> length s"
  let ?m = "advance s start limit chunkRunes"
  have m: "start < ?m" using advance_gt [OF a] by (simp add: chunkRunes_def)
  have l: "length (subtext s start ?m) \<le> ?m - start" by (simp add: subtext_def)
  show ?thesis
    using a m l by (auto simp: capEnd_def Let_def split: option.splits dest!: last_any_less)
qed

function prose_spans :: "string \<Rightarrow> nat \<Rightarrow> nat \<Rightarrow> span list" where
  "prose_spans s start limit =
     (if start < limit \<and> limit \<le> length s
      then (start, capEnd s start limit, [], []) # prose_spans s (capEnd s start limit) limit else [])"
  by pat_completeness auto
termination
  by (relation "measure (\<lambda>(s, i, j). j - i)") (use capEnd_range in \<open>auto intro!: diff_less_mono2\<close>)

declare prose_spans.simps [simp del]

section \<open>Tables\<close>

definition isTabular :: "string \<Rightarrow> bool" where
  "isTabular body \<longleftrightarrow> 2 \<le> length (filter isTableRow (split_char newline_byte body))"

definition headerCells :: "string \<Rightarrow> string list" where
  "headerCells line = take maxColumns (split_char CHR 0x09 line)"

fun pair_cells :: "string list \<Rightarrow> nat \<Rightarrow> nat \<Rightarrow> string list \<Rightarrow> string list" where
  "pair_cells header k budget [] = []"
| "pair_cells header k budget (c0 # cs) =
     (let c = trim_space c0 in
      if c = [] then pair_cells header (k + 1) budget cs
      else if k < length header
      then (let h = trim_space (header ! k) in
            if h \<noteq> [] \<and> length h + 2 \<le> budget
            then (h @ '': '' @ c) # pair_cells header (k + 1) (budget - (length h + 2)) cs
            else c # pair_cells header (k + 1) budget cs)
      else c # pair_cells header (k + 1) budget cs)"

definition pairCells :: "string \<Rightarrow> string list \<Rightarrow> string" where
  "pairCells line header = str_join (pair_cells header 0 (length line div 2) (split_char CHR 0x09 line)) [CHR 0x09]"

text \<open>The state of \<^verbatim>\<open>tableRows\<close> between two lines.\<close>

record table_state =
  tbHeader :: "string list option"
  tbSheet :: string
  tbColumns :: string
  tbStart :: "nat option"
  tbRunes :: nat
  tbContext :: string
  tbSearch :: string

definition flush :: "nat \<Rightarrow> table_state \<Rightarrow> span list \<times> table_state" where
  "flush pos st =
     ((case tbStart st of
         None \<Rightarrow> []
       | Some s \<Rightarrow> [(s, pos, trim_prefix (tbContext st @ [newline_byte]) [newline_byte] @ tbSearch st, tbContext st)]),
      st\<lparr>tbStart := None, tbRunes := 0, tbContext := [], tbSearch := []\<rparr>)"

definition table_columns :: "string \<Rightarrow> string list \<Rightarrow> string" where
  "table_columns sheet header =
     (let cols = filter (\<lambda>h. h \<noteq> []) (map trim_space header);
          columns = ''columns: '' @ str_join cols '', '' in
      clip (if sheet \<noteq> [] then ''Sheet: '' @ sheet @ ''; '' @ columns else columns) maxContext)"

text \<open>The marker or header a line may be, and whether it is a data row.\<close>

definition read_line :: "string \<Rightarrow> table_state \<Rightarrow> bool \<times> table_state" where
  "read_line line st =
     (let row = isTableRow line; t = trim_space line in
      if \<not> row \<and> has_prefix t ''#''
      then (row, st\<lparr>tbSheet := trim_space (trim_prefix (trim_left (\<lambda>c. c = CHR ''#'' \<or> c = CHR '' '') t) ''Sheet:''), tbHeader := None\<rparr>)
      else if row \<and> tbHeader st = None
      then (False, st\<lparr>tbHeader := Some (headerCells line), tbColumns := table_columns (tbSheet st) (headerCells line)\<rparr>)
      else (row, st))"

definition line_of :: "string \<Rightarrow> string" where
  "line_of s = trim_right (\<lambda>c. c = CHR 0x0D \<or> c = newline_byte) s"

definition keep_line :: "nat \<Rightarrow> nat \<Rightarrow> bool \<Rightarrow> string \<Rightarrow> table_state \<Rightarrow> table_state" where
  "keep_line pos n row line st =
     (let st1 = (if tbStart st = None then st\<lparr>tbStart := Some pos\<rparr> else st);
          st2 = st1\<lparr>tbRunes := tbRunes st1 + n\<rparr> in
      if row
      then st2\<lparr>tbContext := (if tbContext st2 = [] then tbColumns st2 else tbContext st2),
               tbSearch := tbSearch st2 @ pairCells line (case tbHeader st2 of Some h \<Rightarrow> h | None \<Rightarrow> []) @ [newline_byte]\<rparr>
      else st2\<lparr>tbSearch := tbSearch st2 @ line @ [newline_byte]\<rparr>)"

definition table_line :: "string \<Rightarrow> nat \<Rightarrow> nat \<Rightarrow> table_state \<Rightarrow> span list \<times> table_state" where
  "table_line s pos fin st =
     (let line = line_of (subtext s pos fin); n = rune_count (subtext s pos fin);
          (row, st1) = read_line line st in
      if n > chunkRunes
      then (let (out, st2) = flush pos st1 in (out @ prose_spans s pos fin, st2))
      else (let (out, st2) = (case tbStart st1 of
                     Some start \<Rightarrow> if pos - start \<ge> minTableChunk \<or> tbRunes st1 + n > chunkRunes then flush pos st1 else ([], st1)
                   | None \<Rightarrow> ([], st1)) in
            (out, keep_line pos n row line st2)))"

function table_spans :: "string \<Rightarrow> nat \<Rightarrow> nat \<Rightarrow> table_state \<Rightarrow> span list" where
  "table_spans s pos limit st =
     (if pos < limit \<and> limit \<le> length s
      then (let fin = line_end s pos limit; (out, st') = table_line s pos fin st in out @ table_spans s fin limit st')
      else fst (flush limit st))"
  by pat_completeness auto
termination
  by (relation "measure (\<lambda>(s, i, j, st). j - i)") (use line_end_range in \<open>auto intro!: diff_less_mono2\<close>)

declare table_spans.simps [simp del]

definition empty_table :: table_state where
  "empty_table = \<lparr>tbHeader = None, tbSheet = [], tbColumns = [], tbStart = None, tbRunes = 0, tbContext = [], tbSearch = []\<rparr>"

definition tableRows :: "string \<Rightarrow> nat \<Rightarrow> nat \<Rightarrow> span list" where
  "tableRows s start limit = table_spans s start limit empty_table"

section \<open>The chunks of a document\<close>

definition pop :: "nat \<Rightarrow> (nat \<times> string) list \<Rightarrow> (nat \<times> string) list" where
  "pop level stack = dropWhile (\<lambda>(l, _). l \<ge> level) stack"

definition section_path :: "sect \<Rightarrow> (nat \<times> string) list \<Rightarrow> string" where
  "section_path s stack =
     (let own = trim_space (sNumber s @ '' '' @ sTitle s) in
      case stack of
        [] \<Rightarrow> own
      | (_, path) # _ \<Rightarrow> if own \<noteq> [] then path @ '' > '' @ own else path)"

definition section_spans :: "string \<Rightarrow> sect \<Rightarrow> span list" where
  "section_spans s sc =
     (if isTabular (subtext s (sStart sc) (sBodyEnd sc)) then tableRows s (sStart sc) (sBodyEnd sc)
      else prose_spans s (sStart sc) (sBodyEnd sc))"

fun chunk_sections :: "string \<Rightarrow> nat \<Rightarrow> (nat \<times> string) list \<Rightarrow> sect list \<Rightarrow> chunk list" where
  "chunk_sections s i stack [] = []"
| "chunk_sections s i stack (sc # secs) =
     (let stack1 = pop (sLevel sc) stack;
          path = section_path sc stack1;
          stack2 = (if sLevel sc > 0 then (sLevel sc, path) # stack1 else stack1) in
      concat (map (add_chunk s i path) (section_spans s sc)) @ chunk_sections s (i + 1) stack2 secs)"

definition Chunkify :: "string \<Rightarrow> sect list \<Rightarrow> chunk list" where
  "Chunkify s secs = chunk_sections s 0 [] secs"

section \<open>The spans follow each other\<close>

fun spans_tile :: "nat \<Rightarrow> nat \<Rightarrow> span list \<Rightarrow> bool" where
  "spans_tile a b [] \<longleftrightarrow> a = b"
| "spans_tile a b ((i, j, _) # sps) \<longleftrightarrow> i = a \<and> a \<le> j \<and> spans_tile j b sps"

lemma spans_tile_append: "spans_tile a b xs \<Longrightarrow> spans_tile b c ys \<Longrightarrow> spans_tile a c (xs @ ys)"
  by (induction a b xs rule: spans_tile.induct) auto

lemma spans_tile_le: "spans_tile a b xs \<Longrightarrow> a \<le> b"
  by (induction a b xs rule: spans_tile.induct) auto

lemma prose_tile: "start \<le> limit \<Longrightarrow> limit \<le> length s \<Longrightarrow> spans_tile start limit (prose_spans s start limit)"
proof (induction s start limit rule: prose_spans.induct)
  case (1 s start limit)
  show ?case
  proof (cases "start < limit")
    case True
    then show ?thesis using "1.IH" "1.prems" capEnd_range [OF True "1.prems"(2)] by (subst prose_spans.simps) simp
  next
    case False
    then show ?thesis using "1.prems" by (subst prose_spans.simps) simp
  qed
qed

definition pending_from :: "nat \<Rightarrow> table_state \<Rightarrow> nat" where
  "pending_from pos st = (case tbStart st of Some s \<Rightarrow> s | None \<Rightarrow> pos)"

lemma flush_tile:
  "flush pos st = (out, st') \<Longrightarrow> pending_from pos st \<le> pos \<Longrightarrow>
     spans_tile (pending_from pos st) pos out \<and> tbStart st' = None"
  by (auto simp: flush_def pending_from_def split: option.splits)

lemma read_line_start [simp]: "read_line l st = (row, st') \<Longrightarrow> tbStart st' = tbStart st"
  by (auto simp: read_line_def Let_def split: if_splits)

lemma keep_line_start [simp]: "tbStart (keep_line pos n row l st) = Some (pending_from pos st)"
  by (auto simp: keep_line_def pending_from_def Let_def split: option.splits)

lemma table_line_tile:
  assumes "table_line s pos fin st = (out, st')" and "pending_from pos st \<le> pos" and "pos \<le> fin" and "fin \<le> length s"
  shows "spans_tile (pending_from pos st) (pending_from fin st') out \<and> pending_from fin st' \<le> fin"
proof -
  obtain row st1 where r: "read_line (line_of (subtext s pos fin)) st = (row, st1)" by (metis prod.exhaust)
  have p1: "pending_from pos st1 = pending_from pos st" using read_line_start [OF r] by (simp add: pending_from_def)
  obtain o2 st2 where f: "flush pos st1 = (o2, st2)" by (metis prod.exhaust)
  have t: "spans_tile (pending_from pos st) pos o2" "tbStart st2 = None"
    using flush_tile [OF f] assms(2) p1 by simp_all
  show ?thesis
  proof (cases "rune_count (subtext s pos fin) > chunkRunes")
    case True
    then show ?thesis using assms r f t prose_tile [OF assms(3,4)] spans_tile_append [OF t(1)]
      by (auto simp: table_line_def Let_def pending_from_def)
  next
    case False
    then show ?thesis using assms r f t p1
      by (auto simp: table_line_def Let_def pending_from_def split: option.splits if_splits)
  qed
qed

lemma table_tile:
  "pending_from pos st \<le> pos \<Longrightarrow> pos \<le> limit \<Longrightarrow> limit \<le> length s \<Longrightarrow>
     spans_tile (pending_from pos st) limit (table_spans s pos limit st)"
proof (induction s pos limit st rule: table_spans.induct)
  case (1 s pos limit st)
  show ?case
  proof (cases "pos < limit")
    case True
    note le = line_end_range [OF True "1.prems"(3)]
    obtain out st' where t: "table_line s pos (line_end s pos limit) st = (out, st')" by (metis prod.exhaust)
    have ti: "spans_tile (pending_from pos st) (pending_from (line_end s pos limit) st') out"
      "pending_from (line_end s pos limit) st' \<le> line_end s pos limit"
      using table_line_tile [OF t "1.prems"(1)] le "1.prems"(3) by auto
    have "spans_tile (pending_from (line_end s pos limit) st') limit (table_spans s (line_end s pos limit) limit st')"
      using "1.IH" [OF _ refl t [symmetric] refl ti(2)] True "1.prems"(3) le by simp
    then show ?thesis using ti(1) spans_tile_append t True "1.prems"(3) by (subst table_spans.simps) (auto simp: Let_def)
  next
    case False
    then have "pos = limit" using "1.prems"(2) by simp
    moreover obtain out st' where f: "flush limit st = (out, st')" by (metis prod.exhaust)
    ultimately show ?thesis using flush_tile [OF f] "1.prems"(1) by (subst table_spans.simps) simp
  qed
qed

lemma section_tile:
  "sStart sc \<le> sBodyEnd sc \<Longrightarrow> sBodyEnd sc \<le> length s \<Longrightarrow> spans_tile (sStart sc) (sBodyEnd sc) (section_spans s sc)"
  using prose_tile table_tile [of "sStart sc" empty_table "sBodyEnd sc" s]
  by (auto simp: section_spans_def tableRows_def pending_from_def empty_table_def)

section \<open>What the chunks cover\<close>

text \<open>A byte of a white-space rune.\<close>

definition blank_at :: "string \<Rightarrow> nat \<Rightarrow> bool" where
  "blank_at s p \<longleftrightarrow> (\<exists>q w. q \<le> p \<and> p < q + w \<and> q + w \<le> length s \<and>
     snd (decode_rune (subtext s q (q + w))) = w \<and> is_space_rune (fst (decode_rune (subtext s q (q + w)))))"

lemma space_at_blank:
  assumes "isSpaceAt s i" and "i \<le> p" and "p < i + runeLen s i"
  shows "blank_at s p"
proof -
  have w: "i < length s" "1 \<le> runeLen s i" "i + runeLen s i \<le> length s" using isSpaceAt_inside [OF assms(1)] by auto
  have "decode_rune (subtext s i (i + runeLen s i)) = decode_rune (drop i s)"
    using w by (simp add: subtext_def runeLen_def decode_rune_take)
  then show ?thesis using assms w unfolding blank_at_def isSpaceAt_def runeLen_def
    by (intro exI [of _ i] exI [of _ "snd (decode_rune (drop i s))"]) auto
qed

lemma decode_last_decodes:
  assumes "s \<noteq> []" and "is_space_rune (fst (decode_last_rune s))"
  shows "decode_rune (drop (length s - snd (decode_last_rune s)) s) = decode_last_rune s"
proof (cases "byte_val (last s) < 128")
  case True
  have "drop (length s - 1) s = [last s]" using assms(1) by (metis One_nat_def append_butlast_last_id append_eq_conv_conj length_butlast)
  then show ?thesis using True assms(1) by (simp add: decode_last_rune_def)
next
  case False
  let ?P = "\<lambda>k. k \<le> length s \<and> snd (decode_rune (drop (length s - k) s)) = k"
  show ?thesis
  proof (cases "filter ?P [2, 3, 4]")
    case Nil
    then have "fst (decode_last_rune s) = rune_error" using False assms(1) by (simp add: decode_last_rune_def)
    then show ?thesis using assms(2) by simp
  next
    case (Cons k ks)
    then have "k \<in> set (filter ?P [2, 3, 4])" by simp
    then have "?P k" by (auto split: if_splits)
    then show ?thesis using False assms(1) Cons by (simp add: decode_last_rune_def prod_eq_iff)
  qed
qed

lemma space_before_blank:
  assumes "isSpaceBefore s j" and "j \<le> length s" and "j - snd (decode_last_rune (take j s)) \<le> p" and "p < j"
  shows "blank_at s p"
proof -
  let ?w = "snd (decode_last_rune (take j s))"
  have t: "take j s \<noteq> []" "1 \<le> ?w" using isSpaceBefore_inside [OF assms(1)] by auto
  have w: "?w \<le> j" using decode_last_rune_width(2) [OF t(1)] assms(2) by simp
  have "decode_rune (drop (j - ?w) (take j s)) = decode_last_rune (take j s)"
    using decode_last_decodes [OF t(1)] assms(1,2) by (simp add: isSpaceBefore_def min_absorb2)
  moreover have "subtext s (j - ?w) (j - ?w + ?w) = drop (j - ?w) (take j s)" using w by (simp add: subtext_def drop_take)
  ultimately show ?thesis using assms w unfolding blank_at_def isSpaceBefore_def
    by (intro exI [of _ "j - ?w"] exI [of _ ?w]) auto
qed

lemma trim_start_spec: "i \<le> trim_start s i j \<and> (\<forall>p. i \<le> p \<and> p < trim_start s i j \<longrightarrow> blank_at s p)"
proof (induction s i j rule: trim_start.induct)
  case (1 s i j)
  show ?case
  proof (cases "i < j \<and> isSpaceAt s i")
    case True
    then have IH: "i + runeLen s i \<le> trim_start s (i + runeLen s i) j"
      "\<And>p. i + runeLen s i \<le> p \<Longrightarrow> p < trim_start s (i + runeLen s i) j \<Longrightarrow> blank_at s p"
      using "1.IH" by auto
    have eq: "trim_start s i j = trim_start s (i + runeLen s i) j" using True by (subst trim_start.simps) simp
    show ?thesis unfolding eq using IH space_at_blank [of s i] True by (meson le_add1 le_trans not_le)
  next
    case False
    then show ?thesis by (subst (1 2) trim_start.simps) auto
  qed
qed

lemma trim_end_spec: "j \<le> length s \<Longrightarrow> trim_end s i j \<le> j \<and> (\<forall>p. trim_end s i j \<le> p \<and> p < j \<longrightarrow> blank_at s p)"
proof (induction s i j rule: trim_end.induct)
  case (1 s i j)
  show ?case
  proof (cases "i < j \<and> isSpaceBefore s j")
    case True
    let ?j = "j - snd (decode_last_rune (take j s))"
    have IH: "trim_end s i ?j \<le> ?j" "\<And>p. trim_end s i ?j \<le> p \<Longrightarrow> p < ?j \<Longrightarrow> blank_at s p"
      using "1.IH" [OF True] "1.prems" by auto
    have eq: "trim_end s i j = trim_end s i ?j" using True by (subst trim_end.simps) simp
    show ?thesis unfolding eq using IH space_before_blank [of s j] True "1.prems" by (meson diff_le_self le_trans not_le)
  next
    case False
    then show ?thesis by (subst (1 2) trim_end.simps) auto
  qed
qed

text \<open>
  Chunks of a range of the text: they are its slices, in order and apart, and what no chunk holds is
  white space.
\<close>

definition chunked :: "string \<Rightarrow> nat \<Rightarrow> nat \<Rightarrow> chunk list \<Rightarrow> bool" where
  "chunked s a b cs \<longleftrightarrow>
     (\<forall>c \<in> set cs. a \<le> cStart c \<and> cStart c < cEnd c \<and> cEnd c \<le> b \<and> cText c = subtext s (cStart c) (cEnd c))
     \<and> sorted_wrt (\<lambda>c d. cEnd c \<le> cStart d) cs
     \<and> (\<forall>p. a \<le> p \<and> p < b \<and> (\<forall>c \<in> set cs. \<not> (cStart c \<le> p \<and> p < cEnd c)) \<longrightarrow> blank_at s p)"

lemma chunked_append:
  assumes "chunked s a b xs" and "chunked s b c ys" and "a \<le> b" and "b \<le> c"
  shows "chunked s a c (xs @ ys)"
  unfolding chunked_def
proof (intro conjI allI impI ballI)
  show "sorted_wrt (\<lambda>c d. cEnd c \<le> cStart d) (xs @ ys)"
    using assms(1,2) unfolding chunked_def sorted_wrt_append by (meson le_trans)
  fix p
  assume "a \<le> p \<and> p < c \<and> (\<forall>c \<in> set (xs @ ys). \<not> (cStart c \<le> p \<and> p < cEnd c))"
  then show "blank_at s p" using assms(1,2) unfolding chunked_def by (cases "p < b") auto
qed (use assms in \<open>auto simp: chunked_def\<close>)

lemma chunked_empty: "chunked s a a []"
  by (auto simp: chunked_def)

lemma add_chunked:
  assumes "start \<le> fin" and "fin \<le> length s"
  shows "chunked s start fin (add_chunk s i path (start, fin, x))"
proof -
  obtain search ctx where x: "x = (search, ctx)" by (cases x)
  define a b where "a = trim_start s start fin" and "b = trim_end s a fin"
  have ab: "start \<le> a" "b \<le> fin" "\<And>p. start \<le> p \<Longrightarrow> p < a \<Longrightarrow> blank_at s p" "\<And>p. b \<le> p \<Longrightarrow> p < fin \<Longrightarrow> blank_at s p"
    using trim_start_spec [of start s fin] trim_end_spec [OF assms(2), of a] by (auto simp: a_def b_def)
  show ?thesis
  proof (cases "a < b")
    case True
    then show ?thesis using ab
      by (auto simp: add_chunk_def x Let_def a_def [symmetric] b_def [symmetric] chunked_def not_le not_less)
  next
    case False
    have "blank_at s p" if "start \<le> p" "p < fin" for p
      using ab(3,4) [of p] that False by (cases "p < a") auto
    then show ?thesis using False
      by (auto simp: add_chunk_def x Let_def a_def [symmetric] b_def [symmetric] chunked_def)
  qed
qed

lemma spans_chunked:
  "spans_tile a b sps \<Longrightarrow> b \<le> length s \<Longrightarrow> chunked s a b (concat (map (add_chunk s i path) sps))"
proof (induction a b sps rule: spans_tile.induct)
  case (2 a b k j x sps)
  have le: "a \<le> j" "j \<le> b" using "2.prems"(1) spans_tile_le by auto
  then show ?case using "2.IH" "2.prems" add_chunked [of a j s i path x] chunked_append [of s a j _ b] by auto
qed (simp add: chunked_empty)

lemma tiles_le: "tiles a n secs \<Longrightarrow> a \<le> n"
  by (induction a n secs rule: tiles.induct) auto

lemma sections_chunked:
  "tiles a n secs \<Longrightarrow> n \<le> length s \<Longrightarrow> chunked s a n (chunk_sections s i stack secs)"
proof (induction secs arbitrary: a i stack)
  case (Cons sc secs)
  have t: "sStart sc = a" "a \<le> sBodyEnd sc" "tiles (sBodyEnd sc) n secs" using Cons.prems(1) by auto
  have n: "sBodyEnd sc \<le> n" using tiles_le [OF t(3)] .
  have "spans_tile a (sBodyEnd sc) (section_spans s sc)" using section_tile [of sc s] t n Cons.prems(2) by simp
  then have "chunked s a (sBodyEnd sc) (concat (map (add_chunk s j path) (section_spans s sc)))" for j path
    using n Cons.prems(2) by (intro spans_chunked) auto
  then have "chunked s a n (concat (map (add_chunk s j path) (section_spans s sc)) @ chunk_sections s k stk secs)" for j path k stk
    using Cons.IH [OF t(3) Cons.prems(2)] t(2) n by (intro chunked_append) auto
  then show ?case by (simp add: Let_def)
qed (simp add: chunked_empty)

text \<open>
  C38. Nothing of a document is lost to the search: the chunks of a text along its section tree are
  slices of it, in order and apart, and every byte that no chunk holds belongs to a white-space
  character, in prose and in tables.
\<close>

theorem Chunkify_covers:
  assumes "levels_ok cls"
  shows "chunked s 0 (length s) (Chunkify s (fst (parseTree cls s)))"
  using parseTree_tiles [OF assms, of s "fst (parseTree cls s)" "snd (parseTree cls s)"]
  by (simp add: Chunkify_def sections_chunked)

theorem Chunkify_covers_witness:
  "chunked demo_doc 0 6 (Chunkify demo_doc (fst (parseTree hash_heading demo_doc)))"
proof -
  have "levels_ok hash_heading" by (auto simp: levels_ok_def hash_heading_def split: if_splits)
  moreover have "length demo_doc = 6" by code_simp
  ultimately show ?thesis using Chunkify_covers [of hash_heading demo_doc] by simp
qed

section \<open>Pages of a table\<close>

text \<open>\<^verbatim>\<open>tablePage\<close>: whole lines, up to a number of rows and of characters.\<close>

function table_page_from :: "string \<Rightarrow> nat \<Rightarrow> nat \<Rightarrow> nat \<Rightarrow> nat \<Rightarrow> nat" where
  "table_page_from s mx rows runes e =
     (if e < length s \<and> rows < TablePageRows
      then (let (nxt, whole) = (case str_index (drop e s) [newline_byte] of
                  Some i \<Rightarrow> (e + i + 1, True) | None \<Rightarrow> (length s, rune_count s \<le> mx));
                n = rune_count (subtext s e nxt) in
            if \<not> whole \<or> runes + n > mx then e
            else table_page_from s mx (rows + (if isTableRow (subtext s e nxt) then 1 else 0)) (runes + n) nxt)
      else e)"
  by pat_completeness auto
termination
proof (relation "measure (\<lambda>(s, mx, rows, runes, e). length s - e)", goal_cases)
  case (2 s mx rows runes e x nxt whole n)
  then have "e < nxt" by (auto split: option.splits)
  then show ?case using 2(1) by auto
qed simp

declare table_page_from.simps [simp del]

definition tablePage :: "string \<Rightarrow> nat \<Rightarrow> string option" where
  "tablePage s mx =
     (if \<not> isTabular s then None
      else (let e = table_page_from s mx 0 0 0 in if e > 0 then Some (take e s) else None))"

text \<open>\<^verbatim>\<open>tableHeader\<close>: the first row of the run of rows the text's last whole line is in.\<close>

record header_state =
  hsRow :: string
  hsAt :: nat
  hsOk :: bool
  hsBounded :: bool
  hsChars :: nat
  hsFirst :: bool

definition header_step :: "header_state \<Rightarrow> string \<Rightarrow> header_state" where
  "header_step h ln =
     (let h1 = (if isTableRow ln
                then (if \<not> hsOk h
                      then h\<lparr>hsRow := trim_right (\<lambda>c. c = CHR 0x0D) ln, hsAt := hsChars h, hsOk := True, hsBounded := \<not> hsFirst h\<rparr>
                      else h)
                else h\<lparr>hsRow := [], hsAt := 0, hsOk := False\<rparr>) in
      h1\<lparr>hsChars := hsChars h + rune_count ln + 1, hsFirst := False\<rparr>)"

definition tableHeader :: "string \<Rightarrow> string \<times> nat \<times> bool \<times> bool" where
  "tableHeader s =
     (case str_last_index s [newline_byte] of
        None \<Rightarrow> ([], 0, False, False)
      | Some i \<Rightarrow>
          (let h = foldl header_step \<lparr>hsRow = [], hsAt = 0, hsOk = False, hsBounded = False, hsChars = 0, hsFirst = True\<rparr>
                     (split_char newline_byte (take i s)) in
           (hsRow h, hsAt h, hsOk h, hsBounded h)))"

text \<open>A page of a table ends at a line's end and is within its bound.\<close>

lemma table_page_from_le: "e \<le> length s \<Longrightarrow> e \<le> table_page_from s mx rows runes e \<and> table_page_from s mx rows runes e \<le> length s"
proof (induction s mx rows runes e rule: table_page_from.induct)
  case (1 s mx rows runes e)
  define w where "w = (case str_index (drop e s) [newline_byte] of
                  Some i \<Rightarrow> (e + i + 1, True) | None \<Rightarrow> (length s, rune_count s \<le> mx))"
  obtain nxt whole where n: "w = (nxt, whole)" by (cases w)
  have r: "e \<le> nxt" "nxt \<le> length s" if "e < length s"
    using n that str_index_Some [of "drop e s" "[newline_byte]"] by (auto simp: w_def split: option.splits)
  show ?case
  proof (cases "e < length s \<and> rows < TablePageRows \<and> \<not> (\<not> whole \<or> runes + rune_count (subtext s e nxt) > mx)")
    case True
    then show ?thesis using "1.IH" [OF _ w_def n [symmetric] refl] n r
      by (subst (1 2) table_page_from.simps) (auto simp: w_def [symmetric] Let_def)
  next
    case False
    then show ?thesis using "1.prems" n
      by (subst (1 2) table_page_from.simps) (auto simp: w_def [symmetric] Let_def)
  qed
qed

lemma tablePage_prefix: "tablePage s mx = Some pg \<Longrightarrow> pg \<noteq> [] \<and> has_prefix s pg"
  using table_page_from_le [of 0 s mx 0 0] by (auto simp: tablePage_def Let_def has_prefix_def split: if_splits)

end
