(* ===== verification/Matter.thy ===== *)
theory Matter
  imports Bandit
begin

text \<open>
  What a matter's ledger holds: the findings, issues and figures of \<^verbatim>\<open>internal/analysis\<close> and the
  rows of \<^verbatim>\<open>internal/engine/ledger.go\<close>.  A row's data is the value itself, one constructor per kind
  of row: the JSON the code stores is written and read back by the standard library and by the
  database's \<^verbatim>\<open>jsonb\<close> column.
\<close>

section \<open>Findings\<close>

record quote =
  qDocument :: string
  qQuote :: string
  qLocator :: string

text \<open>\<^verbatim>\<open>type Reading struct\<close> (\<^verbatim>\<open>figread.go\<close>).\<close>

record reading =
  rdSpan :: string
  rdText :: string
  rdStart :: int
  rdEnd :: int
  rdKind :: string
  rdCurrency :: string
  rdAmount :: string
  rdParty :: string
  rdScale :: string
  rdScaleFrom :: string
  rdMeasures :: string
  rdPeriod :: string
  rdTypedEntity :: string
  rdCounterparty :: string
  rdUnit :: string
  rdUnitFrom :: string
  rdRangeWith :: string
  rdUnclear :: bool
  rdWhy :: string
  rdStated :: string

definition Clear :: "reading \<Rightarrow> bool" where
  "Clear r \<longleftrightarrow> \<not> rdUnclear r \<and> rdAmount r \<noteq> []
     \<and> rdKind r \<in> {''money'', ''count'', ''percent'', ''number''}"

record typed_value =
  vEntity :: string
  vMetric :: string
  vValue :: string
  vUnit :: string
  vDate :: string
  vClass :: string
  vFig :: "reading option"

record entity =
  enName :: string
  enClass :: string

record relation =
  relSubject :: string
  relPredicate :: string
  relObject :: string

text \<open>\<^verbatim>\<open>type Citation struct\<close> and \<^verbatim>\<open>type Finding struct\<close> (\<^verbatim>\<open>ledger.go\<close>), the latter with the
  fields it embeds from \<^verbatim>\<open>analysis.Finding\<close>.\<close>

record citation =
  ciDocument :: string
  ciQuote :: string
  ciLocator :: string
  ciSection :: string
  ciMethod :: string
  ciConfidence :: rat
  ciMatch :: string
  ciNote :: string
  ciLow :: bool

record finding =
  FID :: string
  fIssue :: string
  fClaim :: string
  fVerified :: bool
  fQuotes :: "quote list"
  fValues :: "typed_value list"
  fEntities :: "entity list"
  fRelations :: "relation list"

record full_finding = finding +
  fCitations :: "citation list"
  fSeverity :: string
  fArm :: arm
  fCheck :: raw_message
  fLow :: bool
  fValueNotes :: "string list"
  fHookBlocked :: string
  fFigures :: "reading list"
  fUnread :: bool

text \<open>\<^verbatim>\<open>(Finding).ok\<close>: whether a finding may reach a drafter, a read or the memo.\<close>

definition finding_ok :: "full_finding \<Rightarrow> bool" where
  "finding_ok f \<longleftrightarrow> fVerified f \<and> fHookBlocked f = []"

section \<open>The other rows\<close>

record issue =
  isID :: string
  isQuestion :: string
  isClass :: string
  isPractice :: string

record analysis =
  anRule :: string
  anApplication :: string
  anConclusion :: string

record cover =
  cvAnalysed :: "string list"
  cvMissing :: "string list"
  cvLeftOut :: "string list"
  cvUnaddressed :: int
  cvUnadmitted :: "string list"

record critic =
  crID :: string
  crCycle :: int
  crCritic :: string
  crSeverity :: string
  crFID :: string
  crFIDs :: "string list"
  crText :: string
  crStatus :: string
  crNote :: string
  crResolved :: int

record fig =
  figHandle :: string
  figFID :: string
  figValue :: string

record section_read =
  srHash :: string
  srFigs :: "reading list"
  srUnread :: string

record draft =
  drIssue :: string
  drMarkdown :: string
  drSummary :: string
  drHandles :: "fig list"
  drVersion :: int
  drRead :: "section_read option"

record cycle =
  cyN :: int
  cyVersion :: int
  cyCalls :: int

record person =
  peID :: string
  peName :: string
  peEmail :: string

record gate =
  gID :: string
  gKind :: string
  gFinding :: string
  gHook :: string
  gSubject :: string
  gDetail :: string
  gInput :: raw_message
  gUsed :: bool
  gNoted :: bool
  gDecision :: string
  gReason :: string
  gDecidedAt :: string
  gDecidedBy :: "person option"

text \<open>\<^verbatim>\<open>type ReaderStats struct\<close> (\<^verbatim>\<open>figures.go\<close>).\<close>

record reader_stats =
  rsCalls :: int
  rsFailed :: int
  rsUnfunded :: int
  rsReasons :: "(string \<times> int) list"
  rsSpans :: int
  rsUnread :: int
  rsSweep :: usage

definition no_reader_stats :: reader_stats where
  "no_reader_stats = \<lparr>rsCalls = 0, rsFailed = 0, rsUnfunded = 0, rsReasons = [], rsSpans = 0, rsUnread = 0,
     rsSweep = no_usage\<rparr>"

definition new_gate :: "string \<Rightarrow> string \<Rightarrow> string \<Rightarrow> gate" where
  "new_gate gid kind f = \<lparr>gID = gid, gKind = kind, gFinding = f, gHook = [], gSubject = [], gDetail = [], gInput = None,
     gUsed = False, gNoted = False, gDecision = [], gReason = [], gDecidedAt = [], gDecidedBy = None\<rparr>"

section \<open>Kinds and data\<close>

definition kIssue :: string where "kIssue = ''issue''"
definition kFinding :: string where "kFinding = ''finding''"
definition kCritic :: string where "kCritic = ''critic''"
definition kSection :: string where "kSection = ''section''"
definition kGate :: string where "kGate = ''gate''"
definition kCycle :: string where "kCycle = ''cycle''"
definition kNote :: string where "kNote = ''note''"
definition kAnalysis :: string where "kAnalysis = ''analysis''"
definition kCover :: string where "kCover = ''cover''"
definition kRead :: string where "kRead = ''figread''"
definition kReadStat :: string where "kReadStat = ''figstats''"

lemmas kind_defs = kIssue_def kFinding_def kCritic_def kSection_def kGate_def kCycle_def kNote_def
  kAnalysis_def kCover_def kRead_def kReadStat_def

datatype row_data =
    DIssue issue
  | DFinding full_finding
  | DCritic critic
  | DSection draft
  | DGate gate
  | DCycle cycle
  | DNote string
  | DAnalysis analysis
  | DCover cover
  | DCalls int
  | DStats reader_stats
  | DOther json

text \<open>What each kind of row decodes to.\<close>

fun as_issue :: "row_data \<Rightarrow> issue option" where
  "as_issue (DIssue x) = Some x"
| "as_issue _ = None"

fun as_finding :: "row_data \<Rightarrow> full_finding option" where
  "as_finding (DFinding x) = Some x"
| "as_finding _ = None"

fun as_critic :: "row_data \<Rightarrow> critic option" where
  "as_critic (DCritic x) = Some x"
| "as_critic _ = None"

fun as_section :: "row_data \<Rightarrow> draft option" where
  "as_section (DSection x) = Some x"
| "as_section _ = None"

fun as_gate :: "row_data \<Rightarrow> gate option" where
  "as_gate (DGate x) = Some x"
| "as_gate _ = None"

fun as_cycle :: "row_data \<Rightarrow> cycle option" where
  "as_cycle (DCycle x) = Some x"
| "as_cycle _ = None"

fun as_note :: "row_data \<Rightarrow> string option" where
  "as_note (DNote x) = Some x"
| "as_note _ = None"

fun as_analysis :: "row_data \<Rightarrow> analysis option" where
  "as_analysis (DAnalysis x) = Some x"
| "as_analysis _ = None"

fun as_cover :: "row_data \<Rightarrow> cover option" where
  "as_cover (DCover x) = Some x"
| "as_cover _ = None"

fun as_calls :: "row_data \<Rightarrow> int option" where
  "as_calls (DCalls x) = Some x"
| "as_calls _ = None"

fun as_stats :: "row_data \<Rightarrow> reader_stats option" where
  "as_stats (DStats x) = Some x"
| "as_stats _ = None"

end
