(* ===== verification/Ledger.thy ===== *)
theory Ledger
  imports Matter Budget
begin

text \<open>
  The durable run of \<^verbatim>\<open>internal/engine/steps.go\<close>, \<^verbatim>\<open>ledger.go\<close> and \<^verbatim>\<open>ledgercache.go\<close>: the tables
  of the database as lists, the statements of the code as functions on them, a run's buffer of
  writes, the journal that commits a step with its writes, and typed reads of the ledger.

  A statement either does what its SQL says or fails; a transaction is committed, rolled back, or
  committed with the answer lost on the way back (\<open>tx_end\<close>).  What fails is an argument.
\<close>

section \<open>The tables\<close>

datatype task_status = Queued | Running | AwaitingGate | Complete | FailedTask | Cancelled

datatype stop_reason =
  StopFinished | StopBudget | StopMaxSteps | StopAwaitingGate | StopCancelled | StopFailed

text \<open>\<^verbatim>\<open>type Snapshot\<close> (\<^verbatim>\<open>specset.go\<close>): an item's version and its files.\<close>

type_synonym snapshot = "(string \<times> int \<times> (string \<times> string) list) list"

record task =
  tID :: string
  tDescription :: string
  tWorkflow :: string
  tJurisdiction :: string
  tMatter :: string
  tDocs :: "string list"
  tMaxSteps :: int
  tBandit :: bool
  tSpecs :: snapshot
  tLeadModel :: string
  tStatus :: task_status
  tStop :: "stop_reason option"
  tOutput :: "string option"
  tAlert :: string
  tError :: string
  tCreated :: int
  tSubmittedBy :: "person option"

text \<open>A row of \<^verbatim>\<open>tasks\<close>: the task, what crashes cost it, and its lease.\<close>

record task_row = task +
  tLost :: usage
  tOwner :: "string option"
  tUntil :: "int option"

record ledger_row =
  lrTask :: string
  lrKind :: string
  lrKey :: string
  lrData :: row_data
  lrStep :: int

text \<open>A row of \<^verbatim>\<open>spec_versions\<close>: no files is the built-in again.\<close>

record spec_version =
  svItem :: string
  svVersion :: int
  svFiles :: "(string \<times> string) list option"

record db =
  dbTasks :: "task_row list"
  dbSteps :: "(string \<times> step) list"
  dbLedger :: "ledger_row list"
  dbStats :: "((string \<times> arm) \<times> stat) list"
  dbVersions :: "spec_version list"
  dbNow :: int

section \<open>A step's writes\<close>

datatype buf_op =
    LedgerOp string string row_data bool
  | StatOp string arm stat

text \<open>\<^verbatim>\<open>type run struct\<close>: one task's run held by a process.\<close>

record task_run =
  ruTask :: task
  ruBuf :: "buf_op list"
  ruBudget :: tree
  ruCycleUSD :: rat
  ruForced :: string
  ruCollapse :: string
  ruStep :: int
  ruHeld :: string

definition errLease :: err where
  "errLease = EOther ''engine: the run's lease was lost (cancelled, or another process took it)''"
definition errMaxSteps :: err where
  "errMaxSteps = EOther ''engine: the run reached its maxSteps''"
definition errCollapse :: err where
  "errCollapse = EOther ''engine: grounding collapse''"
definition errHeld :: err where
  "errHeld = EOther ''engine: the run waits at a configurable hook's gate for a lawyer''"

lemmas run_errors = errLease_def errMaxSteps_def errCollapse_def errHeld_def

lemma run_errors_distinct [simp]:
  "errLease \<noteq> errMaxSteps" "errLease \<noteq> errCollapse" "errLease \<noteq> errHeld"
  "errMaxSteps \<noteq> errCollapse" "errMaxSteps \<noteq> errHeld" "errCollapse \<noteq> errHeld"
  by (simp_all add: run_errors)

definition hold :: "string \<Rightarrow> task_run \<Rightarrow> task_run" where
  "hold gid r = r\<lparr>ruHeld := (if ruHeld r = [] then gid else ruHeld r)\<rparr>"

definition find_run :: "(string \<times> task_run) list \<Rightarrow> string \<Rightarrow> task_run option" where
  "find_run runs tid = map_of runs tid"

definition stepOf :: "(string \<times> task_run) list \<Rightarrow> string \<Rightarrow> int" where
  "stepOf runs tid = (case find_run runs tid of Some r \<Rightarrow> ruStep r | None \<Rightarrow> 0)"

subsection \<open>The ledger table\<close>

definition is_row :: "string \<Rightarrow> string \<Rightarrow> string \<Rightarrow> ledger_row \<Rightarrow> bool" where
  "is_row tid kind key r \<longleftrightarrow> lrTask r = tid \<and> lrKind r = kind \<and> lrKey r = key"

text \<open>\<^verbatim>\<open>upsertSQL\<close>: insert, or on the primary key's conflict set the data or do nothing.\<close>

fun upsert :: "bool \<Rightarrow> string \<Rightarrow> string \<Rightarrow> string \<Rightarrow> row_data \<Rightarrow> int \<Rightarrow> ledger_row list \<Rightarrow> ledger_row list" where
  "upsert upd tid kind key d n [] =
     [\<lparr>lrTask = tid, lrKind = kind, lrKey = key, lrData = d, lrStep = n\<rparr>]"
| "upsert upd tid kind key d n (r # rs) =
     (if is_row tid kind key r then (if upd then r\<lparr>lrData := d\<rparr> else r) # rs
      else r # upsert upd tid kind key d n rs)"

text \<open>The committed rows of one kind, in insertion order.\<close>

definition committed_rows :: "ledger_row list \<Rightarrow> string \<Rightarrow> string \<Rightarrow> (string \<times> row_data) list" where
  "committed_rows L tid kind =
     map (\<lambda>r. (lrKey r, lrData r)) (filter (\<lambda>r. lrTask r = tid \<and> lrKind r = kind) L)"

text \<open>A buffered write as the running step reads it: a new key is added, a known one replaced when
  the write is an update.\<close>

fun put_row :: "bool \<Rightarrow> string \<Rightarrow> row_data \<Rightarrow> (string \<times> row_data) list \<Rightarrow> (string \<times> row_data) list" where
  "put_row upd key d [] = [(key, d)]"
| "put_row upd key d ((k, x) # rs) =
     (if k = key then (k, if upd then d else x) # rs else (k, x) # put_row upd key d rs)"

fun overlay :: "string \<Rightarrow> buf_op list \<Rightarrow> (string \<times> row_data) list \<Rightarrow> (string \<times> row_data) list" where
  "overlay kind [] rs = rs"
| "overlay kind (LedgerOp k key d upd # buf) rs =
     overlay kind buf (if k = kind then put_row upd key d rs else rs)"
| "overlay kind (StatOp _ _ _ # buf) rs = overlay kind buf rs"

text \<open>\<^verbatim>\<open>(*Engine).rows\<close>: the query fails, or gives the committed rows with the running step's writes.\<close>

definition rows :: "err option \<Rightarrow> db \<Rightarrow> task_run option \<Rightarrow> string \<Rightarrow> string \<Rightarrow> (err, (string \<times> row_data) list) result" where
  "rows fault D r tid kind =
     (case fault of
        Some e \<Rightarrow> Inl e
      | None \<Rightarrow> Inr (overlay kind (case r of Some r' \<Rightarrow> ruBuf r' | None \<Rightarrow> [])
                       (committed_rows (dbLedger D) tid kind)))"

text \<open>\<^verbatim>\<open>(*Engine).write\<close>: buffered in the running step, or at once when no step runs.\<close>

definition write_row ::
  "err option \<Rightarrow> string \<Rightarrow> string \<Rightarrow> string \<Rightarrow> row_data \<Rightarrow> bool \<Rightarrow> task_run option \<times> db \<Rightarrow> err option \<times> task_run option \<times> db" where
  "write_row fault tid kind key d upd w =
     (case w of (r, D) \<Rightarrow>
       (case r of
          Some r' \<Rightarrow> (None, Some (r'\<lparr>ruBuf := ruBuf r' @ [LedgerOp kind key d upd]\<rparr>), D)
        | None \<Rightarrow>
            (case fault of
               Some e \<Rightarrow> (Some e, None, D)
             | None \<Rightarrow> (None, None, D\<lparr>dbLedger := upsert upd tid kind key d 0 (dbLedger D)\<rparr>))))"

subsection \<open>The bandit's table\<close>

text \<open>\<^verbatim>\<open>addStat\<close>: insert the additions, or add them to the arm's row.\<close>

fun addStat :: "string \<Rightarrow> arm \<Rightarrow> stat \<Rightarrow> ((string \<times> arm) \<times> stat) list \<Rightarrow> ((string \<times> arm) \<times> stat) list" where
  "addStat sig a d [] = [((sig, a), d)]"
| "addStat sig a d ((k, s) # rs) =
     (if k = (sig, a) then (k, plus_stat s d) # rs else (k, s) # addStat sig a d rs)"

definition sig_stats :: "((string \<times> arm) \<times> stat) list \<Rightarrow> string \<Rightarrow> stats" where
  "sig_stats S sig = map (\<lambda>((g, a), s). (a, s)) (filter (\<lambda>((g, a), s). g = sig) S)"

fun buffer_stats :: "string \<Rightarrow> buf_op list \<Rightarrow> stats \<Rightarrow> stats" where
  "buffer_stats sig [] ss = ss"
| "buffer_stats sig (StatOp g a d # buf) ss =
     buffer_stats sig buf (if g = sig then AList.update a (plus_stat (stat_of ss a) d) ss else ss)"
| "buffer_stats sig (LedgerOp _ _ _ _ # buf) ss = buffer_stats sig buf ss"

definition stats_Load :: "err option \<Rightarrow> db \<Rightarrow> task_run \<Rightarrow> string \<Rightarrow> (err, stats) result" where
  "stats_Load fault D r sig =
     (case fault of
        Some e \<Rightarrow> Inl e
      | None \<Rightarrow> Inr (buffer_stats sig (ruBuf r) (sig_stats (dbStats D) sig)))"

definition stats_Add :: "string \<Rightarrow> arm \<Rightarrow> stat \<Rightarrow> task_run \<Rightarrow> task_run" where
  "stats_Add sig a d r = r\<lparr>ruBuf := ruBuf r @ [StatOp sig a d]\<rparr>"

subsection \<open>The step log\<close>

text \<open>What a second record of a started step sets; the kind, the tool and the input stay.\<close>

definition settle :: "step \<Rightarrow> step \<Rightarrow> step" where
  "settle old s = old\<lparr>Status := Status s, sOutput := sOutput s, sUsage := sUsage s, sModel := sModel s,
     sFinal := sFinal s, Note := Note s, Grant := (if Status s = Started then Grant s else Grant old)\<rparr>"

text \<open>The insert of a step: the new log, and whether a row was written.\<close>

fun log_step :: "string \<Rightarrow> step \<Rightarrow> (string \<times> step) list \<Rightarrow> (string \<times> step) list \<times> bool" where
  "log_step tid s [] = ([(tid, s)], True)"
| "log_step tid s ((t, old) # rs) =
     (if t = tid \<and> N old = N s
      then (if Status old = Started then ((t, settle old s) # rs, True) else ((t, old) # rs, False))
      else (case log_step tid s rs of (rs', ok) \<Rightarrow> ((t, old) # rs', ok)))"

fun apply_op :: "string \<Rightarrow> int \<Rightarrow> buf_op \<Rightarrow> db \<Rightarrow> db" where
  "apply_op tid n (LedgerOp kind key d upd) D = D\<lparr>dbLedger := upsert upd tid kind key d n (dbLedger D)\<rparr>"
| "apply_op tid n (StatOp sig a d) D = D\<lparr>dbStats := addStat sig a d (dbStats D)\<rparr>"

definition apply_ops :: "string \<Rightarrow> int \<Rightarrow> buf_op list \<Rightarrow> db \<Rightarrow> db" where
  "apply_ops tid n buf D = foldl (\<lambda>D x. apply_op tid n x D) D buf"

definition writes_finding :: "buf_op list \<Rightarrow> bool" where
  "writes_finding buf \<longleftrightarrow> (\<exists>x \<in> set buf. case x of LedgerOp kind _ _ _ \<Rightarrow> kind = kFinding | StatOp _ _ _ \<Rightarrow> False)"

definition holds_lease :: "string \<Rightarrow> string \<Rightarrow> db \<Rightarrow> bool" where
  "holds_lease owner tid D \<longleftrightarrow>
     (\<exists>t \<in> set (dbTasks D). tID t = tid \<and> tOwner t = Some owner \<and> tStatus t = Running)"

section \<open>Typed reads\<close>

definition bad_row :: err where "bad_row = EOther ''json: cannot unmarshal a ledger row''"

fun decode_rows :: "(row_data \<Rightarrow> 'a option) \<Rightarrow> (string \<times> row_data) list \<Rightarrow> (err, 'a list) result" where
  "decode_rows dec [] = Inr []"
| "decode_rows dec ((k, d) # rs) =
     (case dec d of
        None \<Rightarrow> Inl bad_row
      | Some v \<Rightarrow> bind_result (decode_rows dec rs) (\<lambda>vs. Inr (v # vs)))"

text \<open>\<^verbatim>\<open>load\<close> as a caller sees it: every row of the kind, decoded, or the first error.\<close>

definition load ::
  "(row_data \<Rightarrow> 'a option) \<Rightarrow> err option \<Rightarrow> db \<Rightarrow> task_run option \<Rightarrow> string \<Rightarrow> string \<Rightarrow> (err, 'a list) result" where
  "load dec fault D r tid kind = bind_result (rows fault D r tid kind) (decode_rows dec)"

text \<open>
  \<^verbatim>\<open>load\<close> with the run's cache of decoded rows (\<^verbatim>\<open>rowCache\<close>), for one kind and type: a row decoded
  before is reused when its bytes are unchanged, and what is published is the rows just read.
  Values are immutable here, so the deep copies the code hands out are the values themselves.
\<close>

type_synonym 'a memo = "(string \<times> row_data \<times> 'a) list"

definition decode_with :: "(row_data \<Rightarrow> 'a option) \<Rightarrow> 'a memo \<Rightarrow> string \<Rightarrow> row_data \<Rightarrow> 'a option" where
  "decode_with dec m k d =
     (case map_of m k of
        Some (raw, v) \<Rightarrow> if raw = d then Some v else dec d
      | None \<Rightarrow> dec d)"

fun decode_cached ::
  "(row_data \<Rightarrow> 'a option) \<Rightarrow> 'a memo \<Rightarrow> 'a memo \<Rightarrow> (string \<times> row_data) list \<Rightarrow> (err, 'a list \<times> 'a memo) result" where
  "decode_cached dec m nx [] = Inr ([], nx)"
| "decode_cached dec m nx ((k, d) # rs) =
     (case decode_with dec m k d of
        None \<Rightarrow> Inl bad_row
      | Some v \<Rightarrow> bind_result (decode_cached dec m (AList.update k (d, v) nx) rs)
                    (\<lambda>(vs, nx'). Inr (v # vs, nx')))"

definition load_cached ::
  "(row_data \<Rightarrow> 'a option) \<Rightarrow> err option \<Rightarrow> db \<Rightarrow> task_run \<Rightarrow> string \<Rightarrow> string \<Rightarrow> 'a memo \<Rightarrow> (err, 'a list) result \<times> 'a memo" where
  "load_cached dec fault D r tid kind m =
     (case rows fault D (Some r) tid kind of
        Inl e \<Rightarrow> (Inl e, m)
      | Inr rs \<Rightarrow>
          (case decode_cached dec m [] rs of
             Inl e \<Rightarrow> (Inl e, m)
           | Inr (vs, nx) \<Rightarrow> (Inr vs, nx)))"

section \<open>Grounding collapse\<close>

definition minCollapseSample :: int where "minCollapseSample = 8"

text \<open>\<^verbatim>\<open>Collapse\<close>: the alert (\<^const>\<open>None\<close> for none) and whether the task fails; \<open>fmt0\<close> writes a number
  without decimals (\<^verbatim>\<open>%.0f\<close>).\<close>

definition Collapse :: "(rat \<Rightarrow> string) \<Rightarrow> int \<Rightarrow> int \<Rightarrow> rat \<Rightarrow> string \<Rightarrow> string option \<times> bool" where
  "Collapse fmt0 verified tot threshold action =
     (if tot < minCollapseSample \<or> of_int (tot - verified) < threshold * of_int tot then (None, False)
      else
        let alert = ''grounding collapse: '' @ itoa (tot - verified) @ '' of '' @ itoa tot @ '' findings (''
              @ fmt0 (100 * of_int (tot - verified) / of_int tot) @ ''%) failed quote verification''
        in if action = ''warn''
           then (Some (alert @ ''; the run went on (the warn setting), and every unverified finding stays quarantined, out of the memo''), False)
           else (Some (alert @ ''; the task failed rather than deliver a memo on unchecked evidence (the strict setting, BIGLAW_COLLAPSE_ACTION)''), True))"

text \<open>The findings that count: a quarantined one is a policy's, not a failed quote's.\<close>

definition counted :: "full_finding list \<Rightarrow> full_finding list" where
  "counted fs = filter (\<lambda>f. fHookBlocked f = []) fs"

definition set_alert :: "string \<Rightarrow> string \<Rightarrow> db \<Rightarrow> db" where
  "set_alert tid a D = D\<lparr>dbTasks := map (\<lambda>t. if tID t = tid \<and> tAlert t = [] then t\<lparr>tAlert := a\<rparr> else t) (dbTasks D)\<rparr>"

record config =
  cfgCalls :: int
  cfgUSD :: rat
  cfgThreshold :: rat
  cfgAction :: string

text \<open>What the database answers while a step is recorded: the read of the findings, the update of
  the alert.\<close>

record faults =
  ftRead :: "string \<Rightarrow> err option"
  ftAlert :: "err option"

definition no_faults :: faults where
  "no_faults = \<lparr>ftRead = (\<lambda>_. None), ftAlert = None\<rparr>"

definition checkCollapse ::
  "config \<Rightarrow> (rat \<Rightarrow> string) \<Rightarrow> faults \<Rightarrow> task_run \<Rightarrow> db \<Rightarrow> err option \<times> task_run \<times> db" where
  "checkCollapse cfg fmt0 flt r D =
     (case load as_finding (ftRead flt kFinding) D (Some r) (tID (ruTask r)) kFinding of
        Inl e \<Rightarrow> (Some e, r, D)
      | Inr fs \<Rightarrow>
          let tot = int (length (counted fs));
              bad = int (length (filter (\<lambda>f. \<not> fVerified f) (counted fs)))
          in (case Collapse fmt0 (tot - bad) tot (cfgThreshold cfg) (cfgAction cfg) of
                (None, _) \<Rightarrow> (None, r, D)
              | (Some alert, True) \<Rightarrow> (Some errCollapse, r\<lparr>ruCollapse := alert\<rparr>, D)
              | (Some alert, False) \<Rightarrow>
                  (case ftAlert flt of
                     Some e \<Rightarrow> (Some e, r, D)
                   | None \<Rightarrow>
                       (None,
                        if tAlert (ruTask r) = [] then r\<lparr>ruTask := (ruTask r)\<lparr>tAlert := alert\<rparr>\<rparr> else r,
                        set_alert (tID (ruTask r)) alert D))))"

section \<open>The journal\<close>

datatype tx_end = TxCommitted | TxFailed err | TxUnknown err

text \<open>The transaction of a record: what it leaves, and whether the step's writes were in it.\<close>

definition record_tx :: "string \<Rightarrow> task_run \<Rightarrow> step \<Rightarrow> buf_op list \<Rightarrow> db \<Rightarrow> (err, db \<times> bool) result" where
  "record_tx owner r s buf D =
     (let tid = tID (ruTask r) in
      if \<not> holds_lease owner tid D then Inl errLease
      else
        case log_step tid s (dbSteps D) of
          (steps, wrote) \<Rightarrow>
            if \<not> wrote \<or> Status s = Started then Inr (D\<lparr>dbSteps := steps\<rparr>, False)
            else Inr (apply_ops tid (N s) buf (D\<lparr>dbSteps := steps\<rparr>), True))"

definition give_back :: "step \<Rightarrow> buf_op list \<Rightarrow> task_run \<Rightarrow> task_run" where
  "give_back s buf r = (if Status s = Started then r else r\<lparr>ruBuf := buf @ ruBuf r\<rparr>)"

text \<open>The end of a record that was let through, with the step's writes taken from the buffer.\<close>

definition record_end ::
  "config \<Rightarrow> (rat \<Rightarrow> string) \<Rightarrow> string \<Rightarrow> faults \<Rightarrow> tx_end \<Rightarrow> step \<Rightarrow> buf_op list \<Rightarrow> task_run \<Rightarrow> db \<Rightarrow> err option \<times> task_run \<times> db" where
  "record_end cfg fmt0 owner flt tx s buf r D =
     (case tx of
        TxFailed e \<Rightarrow> (Some e, give_back s buf r, D)
      | _ \<Rightarrow>
          (case record_tx owner r s buf D of
             Inl e \<Rightarrow> (Some e, give_back s buf r, D)
           | Inr (D', wrote) \<Rightarrow>
               (case tx of
                  TxUnknown e \<Rightarrow> (Some e, give_back s buf r, D')
                | _ \<Rightarrow>
                    if wrote \<and> writes_finding buf then checkCollapse cfg fmt0 flt r D'
                    else (None, r, D'))))"

text \<open>The run once a record is let through: the step that is running, the buffer a commit takes.\<close>

definition recording :: "step \<Rightarrow> task_run \<Rightarrow> task_run" where
  "recording s r = (if Status s = Started then r\<lparr>ruStep := N s\<rparr> else r\<lparr>ruBuf := []\<rparr>)"

text \<open>\<^verbatim>\<open>(*run).Record\<close>.\<close>

definition Record_step ::
  "config \<Rightarrow> (rat \<Rightarrow> string) \<Rightarrow> string \<Rightarrow> faults \<Rightarrow> tx_end \<Rightarrow> step \<Rightarrow> task_run \<Rightarrow> db \<Rightarrow> err option \<times> task_run \<times> db" where
  "Record_step cfg fmt0 owner flt tx s r D =
     (if Status s = Started \<and> ruHeld r \<noteq> [] then (Some errHeld, r, D)
      else if Status s = Started \<and> N s > tMaxSteps (ruTask r) \<and> ruForced r = [] then (Some errMaxSteps, r, D)
      else record_end cfg fmt0 owner flt tx s (ruBuf r) (recording s r) D)"

end
