(* ===== verification/LedgerProofs.thy ===== *)
theory LedgerProofs
  imports Ledger
begin

text \<open>
  What a step reads is what it commits: the running step's view of the ledger and of the bandit's
  record, the journal's commit, its retry, and the cache of decoded rows.
\<close>

section \<open>Statements and buffered writes agree\<close>

lemma committed_rows_simps [simp]:
  "committed_rows [] tid kind = []"
  "committed_rows (r # rs) tid kind =
     (if lrTask r = tid \<and> lrKind r = kind then (lrKey r, lrData r) # committed_rows rs tid kind
      else committed_rows rs tid kind)"
  by (simp_all add: committed_rows_def)

lemma committed_upsert:
  "committed_rows (upsert upd tid kind key d n L) tid' kind' =
     (if tid' = tid \<and> kind' = kind then put_row upd key d (committed_rows L tid' kind')
      else committed_rows L tid' kind')"
  by (induction L) (auto simp: is_row_def)

lemma apply_op_same [simp]:
  "dbTasks (apply_op tid n x D) = dbTasks D" "dbSteps (apply_op tid n x D) = dbSteps D"
  "dbVersions (apply_op tid n x D) = dbVersions D" "dbNow (apply_op tid n x D) = dbNow D"
  by (cases x; simp)+

lemma apply_ops_simps [simp]:
  "apply_ops tid n [] D = D" "apply_ops tid n (x # buf) D = apply_ops tid n buf (apply_op tid n x D)"
  by (simp_all add: apply_ops_def)

lemma apply_ops_same [simp]:
  "dbTasks (apply_ops tid n buf D) = dbTasks D" "dbSteps (apply_ops tid n buf D) = dbSteps D"
  "dbVersions (apply_ops tid n buf D) = dbVersions D" "dbNow (apply_ops tid n buf D) = dbNow D"
  by (induction buf arbitrary: D) simp_all

lemma committed_apply_ops:
  "committed_rows (dbLedger (apply_ops tid n buf D)) tid kind = overlay kind buf (committed_rows (dbLedger D) tid kind)"
proof (induction buf arbitrary: D)
  case (Cons x buf)
  then show ?case by (cases x) (auto simp: committed_upsert)
qed simp

lemma committed_apply_ops_other:
  "tid' \<noteq> tid \<Longrightarrow> committed_rows (dbLedger (apply_ops tid n buf D)) tid' kind = committed_rows (dbLedger D) tid' kind"
proof (induction buf arbitrary: D)
  case (Cons x buf)
  then show ?case by (cases x) (auto simp: committed_upsert)
qed simp

lemma plus_no_stat [simp]: "plus_stat no_stat d = d"
  by (simp add: plus_stat_def no_stat_def)

lemma sig_stats_simps [simp]:
  "sig_stats [] sig = []"
  "sig_stats (((g, a), s) # S) sig = (if g = sig then (a, s) # sig_stats S sig else sig_stats S sig)"
  by (simp_all add: sig_stats_def)

lemma stat_of_simps [simp]:
  "stat_of [] a = no_stat" "stat_of ((b, s) # ss) a = (if b = a then s else stat_of ss a)"
  by (simp_all add: stat_of_def)

lemma sig_stats_add:
  "sig_stats (addStat g a d S) sig =
     (if g = sig then AList.update a (plus_stat (stat_of (sig_stats S sig) a) d) (sig_stats S sig) else sig_stats S sig)"
  by (induction S) (auto split: prod.splits)

lemma sig_stats_apply_ops:
  "sig_stats (dbStats (apply_ops tid n buf D)) sig = buffer_stats sig buf (sig_stats (dbStats D) sig)"
proof (induction buf arbitrary: D)
  case (Cons x buf)
  then show ?case by (cases x) (auto simp: sig_stats_add)
qed simp

section \<open>Reading a buffer twice\<close>

text \<open>What the buffer makes of one key's data.\<close>

fun key_value :: "string \<Rightarrow> string \<Rightarrow> buf_op list \<Rightarrow> row_data option \<Rightarrow> row_data option" where
  "key_value kind key [] v = v"
| "key_value kind key (LedgerOp k q d upd # buf) v =
     key_value kind key buf (if k = kind \<and> q = key then Some (case v of Some x \<Rightarrow> if upd then d else x | None \<Rightarrow> d) else v)"
| "key_value kind key (StatOp _ _ _ # buf) v = key_value kind key buf v"

fun last_update :: "string \<Rightarrow> string \<Rightarrow> buf_op list \<Rightarrow> row_data option" where
  "last_update kind key [] = None"
| "last_update kind key (LedgerOp k q d upd # buf) =
     (case last_update kind key buf of
        Some d' \<Rightarrow> Some d'
      | None \<Rightarrow> if k = kind \<and> q = key \<and> upd then Some d else None)"
| "last_update kind key (StatOp _ _ _ # buf) = last_update kind key buf"

lemma key_value_Some:
  "key_value kind key buf (Some x) = Some (case last_update kind key buf of Some d \<Rightarrow> d | None \<Rightarrow> x)"
  by (induction buf arbitrary: x rule: last_update.induct) (auto split: option.splits)

lemma key_value_twice: "key_value kind key buf (key_value kind key buf v) = key_value kind key buf v"
proof (cases v)
  case (Some x)
  then show ?thesis by (auto simp: key_value_Some split: option.splits)
next
  case None
  have "key_value kind key buf' (Some x) = Some x \<Longrightarrow> True" for buf' x by simp
  show ?thesis unfolding None
  proof (induction buf rule: last_update.induct)
    case (2 kind key k q d upd buf)
    then show ?case by (cases "key_value kind key buf None") (auto simp: key_value_Some split: option.splits)
  qed auto
qed

lemma map_of_put_row:
  "map_of (put_row upd key d rs) = (map_of rs)(key \<mapsto> (case map_of rs key of Some x \<Rightarrow> if upd then d else x | None \<Rightarrow> d))"
  by (induction rs) (auto simp: fun_eq_iff)

lemma keys_set_put_row: "fst ` set (put_row upd key d rs) = insert key (fst ` set rs)"
  by (induction upd key d rs rule: put_row.induct) (simp_all add: insert_commute)

lemma keys_put_row:
  "map fst (put_row upd key d rs) = (if key \<in> fst ` set rs then map fst rs else map fst rs @ [key])"
  by (induction upd key d rs rule: put_row.induct) simp_all

lemma map_of_overlay: "map_of (overlay kind buf rs) key = key_value kind key buf (map_of rs key)"
  by (induction kind buf rs rule: overlay.induct) (auto simp: map_of_put_row)

fun ops_keys :: "string \<Rightarrow> buf_op list \<Rightarrow> string set" where
  "ops_keys kind [] = {}"
| "ops_keys kind (LedgerOp k q d upd # buf) = (if k = kind then insert q (ops_keys kind buf) else ops_keys kind buf)"
| "ops_keys kind (StatOp _ _ _ # buf) = ops_keys kind buf"

lemma overlay_keys_set: "fst ` set (overlay kind buf rs) = fst ` set rs \<union> ops_keys kind buf"
  by (induction kind buf rs rule: overlay.induct) (simp_all add: keys_set_put_row)

lemma overlay_keys_kept: "ops_keys kind buf \<subseteq> fst ` set rs \<Longrightarrow> map fst (overlay kind buf rs) = map fst rs"
  by (induction kind buf rs rule: overlay.induct) (auto simp: keys_put_row keys_set_put_row split: if_splits)

lemma overlay_distinct: "distinct (map fst rs) \<Longrightarrow> distinct (map fst (overlay kind buf rs))"
  by (induction kind buf rs rule: overlay.induct) (simp_all add: keys_put_row)

lemma alist_eqI:
  assumes "map fst xs = map fst ys" and "distinct (map fst xs)" and "\<And>k. map_of xs k = map_of ys k"
  shows "xs = ys"
proof (rule nth_equalityI)
  show len: "length xs = length ys" using arg_cong [OF assms(1), of length] by simp
  fix i assume i: "i < length xs"
  have f: "fst (xs ! i) = fst (ys ! i)" using assms(1) i len by (metis nth_map)
  have "map_of xs (fst (xs ! i)) = Some (snd (xs ! i))" using assms(2) i by (simp add: map_of_is_SomeI)
  moreover have "map_of ys (fst (ys ! i)) = Some (snd (ys ! i))" using assms(1,2) i len by (simp add: map_of_is_SomeI)
  ultimately show "xs ! i = ys ! i" using f assms(3) by (simp add: prod_eq_iff)
qed

lemma overlay_twice:
  assumes "distinct (map fst rs)"
  shows "overlay kind buf (overlay kind buf rs) = overlay kind buf rs"
proof (rule alist_eqI)
  show "map fst (overlay kind buf (overlay kind buf rs)) = map fst (overlay kind buf rs)"
    by (rule overlay_keys_kept) (simp add: overlay_keys_set)
  show "distinct (map fst (overlay kind buf (overlay kind buf rs)))"
    using assms by (intro overlay_distinct)
  show "map_of (overlay kind buf (overlay kind buf rs)) k = map_of (overlay kind buf rs) k" for k
    by (simp add: map_of_overlay key_value_twice)
qed

text \<open>The ledger's primary key.\<close>

definition ledger_keys :: "ledger_row list \<Rightarrow> bool" where
  "ledger_keys L \<longleftrightarrow> distinct (map (\<lambda>r. (lrTask r, lrKind r, lrKey r)) L)"

lemma committed_rows_key:
  "k \<in> fst ` set (committed_rows L tid kind) \<Longrightarrow> (tid, kind, k) \<in> (\<lambda>r. (lrTask r, lrKind r, lrKey r)) ` set L"
  by (auto simp: committed_rows_def)

lemma ledger_keys_rows: "ledger_keys L \<Longrightarrow> distinct (map fst (committed_rows L tid kind))"
proof (induction L)
  case (Cons r L)
  then show ?case using committed_rows_key [of "lrKey r" L tid kind] by (auto simp: ledger_keys_def)
qed simp

lemma upsert_keys:
  "map (\<lambda>r. (lrTask r, lrKind r, lrKey r)) (upsert upd tid kind key d n L) =
     (if (tid, kind, key) \<in> (\<lambda>r. (lrTask r, lrKind r, lrKey r)) ` set L
      then map (\<lambda>r. (lrTask r, lrKind r, lrKey r)) L
      else map (\<lambda>r. (lrTask r, lrKind r, lrKey r)) L @ [(tid, kind, key)])"
  by (induction L) (auto simp: is_row_def)

lemma ledger_keys_upsert: "ledger_keys L \<Longrightarrow> ledger_keys (upsert upd tid kind key d n L)"
  unfolding ledger_keys_def upsert_keys by simp

lemma ledger_keys_apply_ops: "ledger_keys (dbLedger D) \<Longrightarrow> ledger_keys (dbLedger (apply_ops tid n buf D))"
proof (induction buf arbitrary: D)
  case (Cons x buf)
  then show ?case by (cases x) (auto simp: ledger_keys_upsert)
qed simp

section \<open>The step log\<close>

text \<open>The row of a step, if it has one.\<close>

definition find_step :: "(string \<times> step) list \<Rightarrow> string \<Rightarrow> int \<Rightarrow> step option" where
  "find_step L tid n = map_option snd (find (\<lambda>(t, s). t = tid \<and> N s = n) L)"

lemma find_step_simps [simp]:
  "find_step [] tid n = None"
  "find_step ((t, s) # L) tid n = (if t = tid \<and> N s = n then Some s else find_step L tid n)"
  by (simp_all add: find_step_def)

lemma settle_simps [simp]:
  "N (settle old s) = N old" "Status (settle old s) = Status s" "sUsage (settle old s) = sUsage s"
  "sKind (settle old s) = sKind old" "sTool (settle old s) = sTool old"
  by (simp_all add: settle_def)

lemma log_step_wrote:
  "snd (log_step tid s L) \<longleftrightarrow> (case find_step L tid (N s) of None \<Rightarrow> True | Some old \<Rightarrow> Status old = Started)"
  by (induction tid s L rule: log_step.induct) (auto split: prod.splits option.splits)

lemma log_step_unwritten: "\<not> snd (log_step tid s L) \<Longrightarrow> fst (log_step tid s L) = L"
  by (induction tid s L rule: log_step.induct) (auto split: prod.splits if_splits)

lemma log_step_again:
  "Status s \<noteq> Started \<Longrightarrow> log_step tid s (fst (log_step tid s L)) = (fst (log_step tid s L), False)"
  by (induction tid s L rule: log_step.induct) (auto split: prod.splits)

section \<open>Recording a step\<close>

lemma checkCollapse_same:
  assumes "checkCollapse cfg fmt0 flt r D = (e, r', D')"
  shows "dbLedger D' = dbLedger D" and "dbStats D' = dbStats D" and "dbSteps D' = dbSteps D" and "ruBuf r' = ruBuf r"
    and "tID (ruTask r') = tID (ruTask r)"
  using assms by (auto simp: checkCollapse_def set_alert_def Let_def split: sum.splits option.splits bool.splits prod.splits if_splits)

lemma record_tx_InrD:
  assumes "record_tx owner r s buf D = Inr (D', wrote)"
  shows "holds_lease owner (tID (ruTask r)) D"
    and "dbSteps D' = fst (log_step (tID (ruTask r)) s (dbSteps D))"
    and "wrote \<longleftrightarrow> Status s \<noteq> Started \<and> snd (log_step (tID (ruTask r)) s (dbSteps D))"
    and "D' = (if wrote then apply_ops (tID (ruTask r)) (N s) buf (D\<lparr>dbSteps := dbSteps D'\<rparr>) else D\<lparr>dbSteps := dbSteps D'\<rparr>)"
  using assms by (auto simp: record_tx_def Let_def split: prod.splits if_splits)

text \<open>What a record can do: nothing but give an error back, or commit the transaction.\<close>

lemma Record_cases:
  assumes "Record_step cfg fmt0 owner flt tx s r D = (e, r', D')"
  obtains (refused) "D' = D" "ruBuf r' = ruBuf r" "tID (ruTask r') = tID (ruTask r)" "e \<noteq> None"
  | (unknown) wrote where "record_tx owner r s (ruBuf r) D = Inr (D', wrote)" "ruBuf r' = ruBuf r"
      "tID (ruTask r') = tID (ruTask r)" "tx \<noteq> TxCommitted" "e \<noteq> None"
  | (committed) D1 wrote where "record_tx owner r s (ruBuf r) D = Inr (D1, wrote)" "tx = TxCommitted"
      "ruBuf r' = (if Status s = Started then ruBuf r else [])" "tID (ruTask r') = tID (ruTask r)"
      "dbLedger D' = dbLedger D1" "dbStats D' = dbStats D1" "dbSteps D' = dbSteps D1"
proof -
  define r2 where "r2 = recording s r"
  have r2: "tID (ruTask r2) = tID (ruTask r)" "ruBuf r2 = (if Status s = Started then ruBuf r else [])"
    "ruBuf (give_back s (ruBuf r) r2) = ruBuf r" "tID (ruTask (give_back s (ruBuf r) r2)) = tID (ruTask r)"
    by (simp_all add: r2_def give_back_def recording_def)
  have tx': "record_tx owner r2 s buf D = record_tx owner r s buf D" for buf
    by (simp add: record_tx_def r2)
  show thesis
  proof (cases "Status s = Started \<and> (ruHeld r \<noteq> [] \<or> N s > tMaxSteps (ruTask r) \<and> ruForced r = [])")
    case True
    then show thesis using assms refused by (auto simp: Record_step_def split: if_splits)
  next
    case go: False
    then have body: "record_end cfg fmt0 owner flt tx s (ruBuf r) r2 D = (e, r', D')"
      using assms by (auto simp: Record_step_def r2_def split: if_splits)
    show thesis
    proof (cases tx)
      case TxFailed
      then show thesis using body r2 by (intro refused) (auto simp: record_end_def)
    next
      case (TxUnknown e0)
      then show thesis using body r2 refused unknown
        by (cases "record_tx owner r s (ruBuf r) D") (auto simp: record_end_def tx' split: prod.splits)
    next
      case TxCommitted
      show thesis
      proof (cases "record_tx owner r s (ruBuf r) D")
        case (Inl e0)
        then show thesis using body TxCommitted r2 by (intro refused) (auto simp: record_end_def tx')
      next
        case (Inr x)
        obtain D1 wrote where x: "x = (D1, wrote)" by (cases x)
        show thesis
        proof (cases "wrote \<and> writes_finding (ruBuf r)")
          case True
          then have c: "checkCollapse cfg fmt0 flt r2 D1 = (e, r', D')"
            using body TxCommitted Inr x by (simp add: record_end_def tx')
          show thesis using committed [of D1 wrote] Inr x TxCommitted checkCollapse_same [OF c] r2 by simp
        next
          case False
          then have "(None, r2, D1) = (e, r', D')" using body TxCommitted Inr x by (auto simp: record_end_def tx')
          then show thesis using committed [of D1 wrote] Inr x TxCommitted r2 by simp
        qed
      qed
    qed
  qed
qed

lemma record_tx_reads:
  assumes "record_tx owner r s buf D = Inr (D', wrote)"
    and "Status s = Started \<or> snd (log_step (tID (ruTask r)) s (dbSteps D))"
  shows "committed_rows (dbLedger D') (tID (ruTask r)) kind =
      (if Status s = Started then committed_rows (dbLedger D) (tID (ruTask r)) kind
       else overlay kind buf (committed_rows (dbLedger D) (tID (ruTask r)) kind))"
    and "sig_stats (dbStats D') sig =
      (if Status s = Started then sig_stats (dbStats D) sig else buffer_stats sig buf (sig_stats (dbStats D) sig))"
  using record_tx_InrD [OF assms(1)] assms(2)
  by (auto simp: committed_apply_ops sig_stats_apply_ops split: if_splits)

definition demo_task :: task where
  "demo_task = \<lparr>tID = ''t1'', tDescription = ''a memo'', tWorkflow = ''memo'', tJurisdiction = ''US'', tMatter = ''M-1'',
     tDocs = [''d1''], tMaxSteps = 400, tBandit = True, tSpecs = [], tLeadModel = ''m'', tStatus = Running, tStop = None,
     tOutput = None, tAlert = [], tError = [], tCreated = 1, tSubmittedBy = None\<rparr>"

definition demo_row :: task_row where
  "demo_row = task.extend demo_task \<lparr>tLost = no_usage, tOwner = Some ''p1'', tUntil = Some 100\<rparr>"

definition demo_db :: db where
  "demo_db = \<lparr>dbTasks = [demo_row], dbSteps = [],
     dbLedger = [\<lparr>lrTask = ''t1'', lrKind = kNote, lrKey = ''plan'', lrData = DNote ''old'', lrStep = 1\<rparr>],
     dbStats = [], dbVersions = [], dbNow = 10\<rparr>"

definition demo_step :: step where
  "demo_step = \<lparr>N = 1, sKind = ToolCallStep, sTool = ''ledger'', Status = Committed, sInput = None, sOutput = NoOutput,
     Grant = no_grant, sUsage = no_usage, Note = [], sModel = [], sFinal = False\<rparr>"

definition demo_run :: task_run where
  "demo_run = \<lparr>ruTask = demo_task,
     ruBuf = [LedgerOp kNote ''plan'' (DNote ''new'') True, LedgerOp kNote ''x'' (DNote ''y'') False],
     ruBudget = [], ruCycleUSD = 0, ruForced = [], ruCollapse = [], ruStep = 0, ruHeld = []\<rparr>"

definition demo_config :: config where
  "demo_config = \<lparr>cfgCalls = 400, cfgUSD = 5, cfgThreshold = 1 / 2, cfgAction = ''strict''\<rparr>"

lemma demo_lease: "holds_lease ''p1'' ''t1'' demo_db"
  by (simp add: holds_lease_def demo_db_def demo_row_def demo_task_def task.defs)

lemma demo_keys: "ledger_keys (dbLedger demo_db)"
  by (simp add: ledger_keys_def demo_db_def)

lemmas demo_record = demo_run_def demo_step_def demo_task_def

text \<open>
  C2. A step reads its own writes, and what it reads is what it commits: whatever becomes of a
  step's record (refused, rolled back, lease lost, committed, or committed with the answer lost),
  the run reads the same rows of every kind after it as before it, and after a clean commit the same
  bandit statistics.  So a crash or an error between a step's writes and its commit is invisible to
  the code that reads the ledger, except for writes that are gone with the whole step.
\<close>

theorem Record_keeps_reads:
  assumes "ledger_keys (dbLedger D)"
    and "Status s = Started \<or> snd (log_step (tID (ruTask r)) s (dbSteps D))"
    and "Record_step cfg fmt0 owner flt tx s r D = (e, r', D')"
  shows "rows None D' (Some r') (tID (ruTask r)) kind = rows None D (Some r) (tID (ruTask r)) kind
    \<and> (tx = TxCommitted \<longrightarrow> stats_Load None D' r' sig = stats_Load None D r sig)"
  using assms(3)
proof (cases rule: Record_cases)
  case refused
  then show ?thesis by (simp add: rows_def stats_Load_def)
next
  case (unknown wrote)
  then show ?thesis
    using record_tx_reads [OF unknown(1) assms(2)] overlay_twice [OF ledger_keys_rows [OF assms(1)]]
    by (simp add: rows_def)
next
  case (committed D1 wrote)
  then show ?thesis using record_tx_reads [OF committed(1) assms(2)]
    by (simp add: rows_def stats_Load_def)
qed

theorem Record_keeps_reads_witness:
  "rows None (snd (snd (Record_step demo_config (\<lambda>_. []) ''p1'' no_faults (TxUnknown ECanceled) demo_step demo_run demo_db)))
     (Some (fst (snd (Record_step demo_config (\<lambda>_. []) ''p1'' no_faults (TxUnknown ECanceled) demo_step demo_run demo_db))))
     ''t1'' kNote = Inr [(''plan'', DNote ''new''), (''x'', DNote ''y'')]"
proof -
  obtain e r' D' where r: "Record_step demo_config (\<lambda>_. []) ''p1'' no_faults (TxUnknown ECanceled) demo_step demo_run demo_db = (e, r', D')"
    by (metis prod.exhaust)
  have "rows None demo_db (Some demo_run) ''t1'' kNote = Inr [(''plan'', DNote ''new''), (''x'', DNote ''y'')]"
    by (simp add: rows_def demo_db_def demo_run_def kind_defs)
  moreover have "tID (ruTask demo_run) = ''t1''" "snd (log_step ''t1'' demo_step (dbSteps demo_db))"
    by (simp_all add: demo_record demo_db_def)
  ultimately show ?thesis using Record_keeps_reads [OF demo_keys _ r, of kNote "[]"] by (simp add: r)
qed

text \<open>
  C14. A commit whose answer was lost is safe to record again: the first record left exactly one
  step's transaction in the database, the second finds the step settled, writes nothing more, gives
  no error and clears the buffer.
\<close>

theorem Record_retry_once:
  assumes "Status s \<noteq> Started" and "holds_lease owner (tID (ruTask r)) D"
    and "Record_step cfg fmt0 owner flt (TxUnknown e) s r D = (e1, r1, D1)"
  shows "e1 = Some e
    \<and> record_tx owner r s (ruBuf r) D = Inr (D1, snd (log_step (tID (ruTask r)) s (dbSteps D)))
    \<and> Record_step cfg fmt0 owner flt TxCommitted s r1 D1 = (None, r1\<lparr>ruBuf := []\<rparr>, D1)"
proof -
  let ?tid = "tID (ruTask r)"
  have rec: "tID (ruTask (recording s r)) = ?tid" "ruBuf (recording s r) = []"
    using assms(1) by (simp_all add: recording_def)
  have tx: "record_tx owner (recording s r) s (ruBuf r) D = record_tx owner r s (ruBuf r) D"
    by (simp add: record_tx_def rec)
  obtain D2 w where D2: "record_tx owner r s (ruBuf r) D = Inr (D2, w)"
    using assms(1,2) by (cases "log_step ?tid s (dbSteps D)"; cases "snd (log_step ?tid s (dbSteps D))") (auto simp: record_tx_def Let_def)
  have one: "e1 = Some e" "r1 = r" "D1 = D2"
    using assms(1,3) D2 tx by (auto simp: Record_step_def record_end_def give_back_def recording_def)
  note D2' = record_tx_InrD [OF D2]
  have steps: "log_step ?tid s (dbSteps D2) = (dbSteps D2, False)"
    unfolding D2'(2) by (rule log_step_again [OF assms(1)])
  have "dbTasks D2 = dbTasks D" using D2'(4) by (cases w) (auto dest: arg_cong [of _ _ dbTasks])
  then have lease: "holds_lease owner ?tid D2" using assms(2) by (simp add: holds_lease_def)
  have "record_tx owner (recording s r1) s (ruBuf r1) D1 = Inr (D2, False)"
    using lease steps one rec by (simp add: record_tx_def Let_def)
  then have "Record_step cfg fmt0 owner flt TxCommitted s r1 D1 = (None, recording s r1, D2)"
    using assms(1) by (simp add: Record_step_def record_end_def)
  then show ?thesis using one D2 D2'(3) assms(1) by (simp add: recording_def)
qed

theorem Record_retry_once_witness:
  "fst (Record_step demo_config (\<lambda>_. []) ''p1'' no_faults TxCommitted demo_step
      (fst (snd (Record_step demo_config (\<lambda>_. []) ''p1'' no_faults (TxUnknown ECanceled) demo_step demo_run demo_db)))
      (snd (snd (Record_step demo_config (\<lambda>_. []) ''p1'' no_faults (TxUnknown ECanceled) demo_step demo_run demo_db)))) = None"
proof -
  obtain e r' D' where r: "Record_step demo_config (\<lambda>_. []) ''p1'' no_faults (TxUnknown ECanceled) demo_step demo_run demo_db = (e, r', D')"
    by (metis prod.exhaust)
  have "holds_lease ''p1'' (tID (ruTask demo_run)) demo_db" using demo_lease by (simp add: demo_record)
  then show ?thesis using Record_retry_once [OF _ _ r] by (simp add: r) (simp add: demo_record)
qed

section \<open>The cache of decoded rows\<close>

definition memo_ok :: "(row_data \<Rightarrow> 'a option) \<Rightarrow> 'a memo \<Rightarrow> bool" where
  "memo_ok dec m \<longleftrightarrow> (\<forall>x \<in> set m. dec (fst (snd x)) = Some (snd (snd x)))"

lemma memo_ok_Nil [simp]: "memo_ok dec []"
  by (simp add: memo_ok_def)

lemma memo_ok_update: "memo_ok dec m \<Longrightarrow> dec d = Some v \<Longrightarrow> memo_ok dec (AList.update k (d, v) m)"
  by (induction m) (auto simp: memo_ok_def)

lemma decode_with_eq: "memo_ok dec m \<Longrightarrow> decode_with dec m k d = dec d"
  by (auto simp: decode_with_def memo_ok_def split: option.splits dest!: map_of_SomeD)

lemma decode_cached_eq:
  assumes "memo_ok dec m" and "memo_ok dec nx"
  shows "case decode_cached dec m nx rs of
      Inl e \<Rightarrow> decode_rows dec rs = Inl e
    | Inr (vs, nx') \<Rightarrow> decode_rows dec rs = Inr vs \<and> memo_ok dec nx'"
  using assms(2)
proof (induction rs arbitrary: "nx")
  case (Cons x rs)
  obtain k d where x: "x = (k, d)" by (cases x)
  show ?case
  proof (cases "dec d")
    case None
    then show ?thesis using assms(1) by (simp add: x decode_with_eq)
  next
    case (Some v)
    have "memo_ok dec (AList.update k (d, v) nx)" using Cons.prems Some by (rule memo_ok_update)
    from Cons.IH [OF this] show ?thesis using assms(1) Some
      by (cases "decode_cached dec m (AList.update k (d, v) nx) rs") (auto simp: x decode_with_eq split: prod.splits)
  qed
qed simp

text \<open>
  The cache of decoded rows is never seen: whatever it holds, a read through it gives what
  decoding every row again gives, errors included, and leaves a cache of the same kind.
\<close>

theorem load_cached_eq_load:
  assumes "memo_ok dec m"
  shows "fst (load_cached dec fault D r tid kind m) = load dec fault D (Some r) tid kind
    \<and> memo_ok dec (snd (load_cached dec fault D r tid kind m))"
proof (cases "rows fault D (Some r) tid kind")
  case (Inr rs)
  then show ?thesis using decode_cached_eq [OF assms memo_ok_Nil, of rs] assms
    by (auto simp: load_cached_def load_def split: sum.splits)
qed (use assms in \<open>simp add: load_cached_def load_def\<close>)

theorem load_cached_eq_load_witness:
  "fst (load_cached as_note None demo_db demo_run ''t1'' kNote [(''plan'', DNote ''old'', ''old''), (''x'', DNote ''y'', ''y'')])
     = Inr [''new'', ''y'']"
proof -
  have "rows None demo_db (Some demo_run) ''t1'' kNote = Inr [(''plan'', DNote ''new''), (''x'', DNote ''y'')]"
    by (simp add: rows_def demo_db_def demo_run_def kind_defs)
  then show ?thesis
    using load_cached_eq_load [of as_note "[(''plan'', DNote ''old'', ''old''), (''x'', DNote ''y'', ''y'')]" None demo_db demo_run "''t1''" kNote]
    by (simp add: memo_ok_def load_def)
qed

end
