(* ===== verification/Tasks.thy ===== *)
theory Tasks
  imports LedgerProofs Page
begin

text \<open>
  A task's life: \<^verbatim>\<open>internal/engine/runner.go\<close> (submit, claim, renew and release a lease),
  \<^verbatim>\<open>run.go\<close> (resume, finish, fail, pause) and \<^verbatim>\<open>views.go\<close> (cancel, decide a gate).  Each
  operation is the function its SQL statement or transaction is; which rows it changes, and whether
  it changed any, are values.  Time is the database's clock in milliseconds.  The columns
  \<^verbatim>\<open>updated_at\<close>, which nothing reads, are left out.
\<close>

section \<open>Errors of the engine\<close>

text \<open>The sentinel errors of the package and the errors that wrap them, with their whole text.\<close>

datatype sentinel = BadTask | NotFound | Conflict | Forbidden | Invalid

datatype engine_error = Wraps sentinel string | RunError err

definition errNotFound :: engine_error where
  "errNotFound = Wraps NotFound ''engine: not found''"

text \<open>\<^verbatim>\<open>ErrorType\<close>: the HTTP status, the type and the fixed message of a failure.\<close>

definition kind_type :: "model_kind \<Rightarrow> int \<times> string \<times> string" where
  "kind_type k =
     (case k of
        ErrNotConfigured \<Rightarrow> (503, ''model_not_configured'', ''no AI model is set up for this step yet: ask whoever set up BigLaw to add one (BIGLAW_MODEL_URL and BIGLAW_MODELS)'')
      | ErrRateLimited \<Rightarrow> (503, ''model_rate_limited'', ''the model endpoint is rate limiting BigLaw; try again later'')
      | ErrTimeout \<Rightarrow> (504, ''model_timeout'', ''the model endpoint did not answer in time'')
      | ErrNoContent \<Rightarrow> (422, ''no_content'', ''the model returned no usable answer'')
      | ErrUnavailable \<Rightarrow> (502, ''model_unavailable'', ''the model endpoint failed''))"

definition sentinel_type :: "sentinel \<Rightarrow> int \<times> string \<times> string" where
  "sentinel_type s =
     (case s of
        BadTask \<Rightarrow> (400, ''bad_request'', [])
      | NotFound \<Rightarrow> (404, ''not_found'', ''not found'')
      | Conflict \<Rightarrow> (409, ''conflict'', [])
      | Forbidden \<Rightarrow> (403, ''forbidden'', [])
      | Invalid \<Rightarrow> (422, ''invalid'', []))"

fun is_error :: "err \<Rightarrow> err \<Rightarrow> bool" where
  "is_error (EJournal e) t = (EJournal e = t \<or> is_error e t)"
| "is_error e t = (e = t)"

definition collapse_type :: "int \<times> string \<times> string" where
  "collapse_type = (422, ''grounding_collapse'', ''too many findings failed quote verification, so the task failed rather than deliver a memo on unchecked evidence'')"

definition internal_type :: "int \<times> string \<times> string" where
  "internal_type = (500, ''internal'', ''internal error: something went wrong inside BigLaw (logged for whoever runs it)'')"

fun ErrorType :: "engine_error \<Rightarrow> int \<times> string \<times> string" where
  "ErrorType (Wraps s text) =
     (case sentinel_type s of (code, kind, msg) \<Rightarrow>
        if msg = [] then (code, kind, trim_prefix text ''engine: '') else (code, kind, msg))"
| "ErrorType (RunError e) =
     (case as_model e of
        Some me \<Rightarrow>
          (case kind_type (eKind me) of (code, kind, msg) \<Rightarrow>
             if contains_str (eDetail me) ''('' then (code, kind, msg @ '': '' @ eDetail me) else (code, kind, msg))
      | None \<Rightarrow>
          if is_error e errCollapse then collapse_type
          else if is_canceled e then (499, ''cancelled'', ''the request was cancelled'')
          else internal_type)"

section \<open>Rows of tasks\<close>

text \<open>\<^verbatim>\<open>UPDATE tasks SET ... WHERE id = ... AND ...\<close>: the new table, and whether a row matched.\<close>

definition update_task :: "string \<Rightarrow> (task_row \<Rightarrow> bool) \<Rightarrow> (task_row \<Rightarrow> task_row) \<Rightarrow> db \<Rightarrow> db" where
  "update_task tid P f D = D\<lparr>dbTasks := map (\<lambda>t. if tID t = tid \<and> P t then f t else t) (dbTasks D)\<rparr>"

definition some_task :: "string \<Rightarrow> (task_row \<Rightarrow> bool) \<Rightarrow> db \<Rightarrow> bool" where
  "some_task tid P D \<longleftrightarrow> (\<exists>t \<in> set (dbTasks D). tID t = tid \<and> P t)"

definition find_task :: "string \<Rightarrow> db \<Rightarrow> task_row option" where
  "find_task tid D = find (\<lambda>t. tID t = tid) (dbTasks D)"

text \<open>The condition of every statement a process makes about a task it runs.\<close>

definition mine :: "string \<Rightarrow> task_row \<Rightarrow> bool" where
  "mine owner t \<longleftrightarrow> tOwner t = Some owner \<and> tStatus t = Running"

section \<open>Submitting\<close>

text \<open>\<^verbatim>\<open>snapshotSQL\<close>: each item's latest version, unless it is the built-in again.\<close>

definition latest :: "spec_version list \<Rightarrow> string \<Rightarrow> spec_version option" where
  "latest vs item =
     foldl (\<lambda>b v. if svItem v \<noteq> item then b
                 else case b of None \<Rightarrow> Some v | Some w \<Rightarrow> if svVersion w < svVersion v then Some v else b) None vs"

definition snapshot_of :: "spec_version list \<Rightarrow> snapshot" where
  "snapshot_of vs =
     List.map_filter (\<lambda>i. case latest vs i of
         Some v \<Rightarrow> (case svFiles v of Some fs \<Rightarrow> Some (i, svVersion v, fs) | None \<Rightarrow> None)
       | None \<Rightarrow> None) (remdups (map svItem vs))"

text \<open>\<^verbatim>\<open>(*Engine).Submit\<close>: \<open>lead\<close> is the lead's model or why there is none, \<open>doc\<close> tells whether a
  document exists, \<open>uuid\<close> is the new row's id.\<close>

definition Submit ::
  "config \<Rightarrow> (err, string) result \<Rightarrow> (string \<Rightarrow> bool) \<Rightarrow> err option \<Rightarrow> string \<Rightarrow> task \<Rightarrow> db \<Rightarrow> (engine_error, task_row) result \<times> db" where
  "Submit cfg lead doc fault uuid t D =
     (case lead of
        Inl e \<Rightarrow> (Inl (RunError e), D)
      | Inr m \<Rightarrow>
          if tWorkflow t \<noteq> ''memo'' then
            (Inl (Wraps BadTask (''engine: bad task: workflowType '' @ quoted (tWorkflow t) @ '' is not built yet: this build runs memo (diligence and contract_review come in later PRs)'')), D)
          else if tDocs t = [] then
            (Inl (Wraps BadTask ''engine: bad task: documentIds is empty: a task reads only the documents it names''), D)
          else
            case find (\<lambda>d. \<not> doc d) (tDocs t) of
              Some d \<Rightarrow> (Inl (Wraps BadTask (''engine: bad task: document '' @ d @ '' does not exist'')), D)
            | None \<Rightarrow>
                (case fault of
                   Some e \<Rightarrow> (Inl (RunError e), D)
                 | None \<Rightarrow>
                     let row = task.extend
                           (t\<lparr>tID := uuid,
                              tMaxSteps := (if tMaxSteps t \<noteq> 0 then tMaxSteps t else max 400 (2 * cfgCalls cfg)),
                              tSpecs := snapshot_of (dbVersions D), tLeadModel := m, tStatus := Queued, tStop := None,
                              tOutput := None, tAlert := [], tError := [], tCreated := dbNow D\<rparr>)
                           \<lparr>tLost = no_usage, tOwner = None, tUntil = None\<rparr>
                     in (Inr row, D\<lparr>dbTasks := dbTasks D @ [row]\<rparr>)))"

section \<open>Leases\<close>

definition leaseFor :: int where "leaseFor = 30000"
definition maxRuns :: nat where "maxRuns = 4"

definition runnable :: "int \<Rightarrow> task_row \<Rightarrow> bool" where
  "runnable now t \<longleftrightarrow> (tStatus t = Queued \<or> tStatus t = Running)
     \<and> (case tUntil t of None \<Rightarrow> True | Some u \<Rightarrow> u < now)"

text \<open>The oldest runnable task (the first of equals).\<close>

definition next_task :: "db \<Rightarrow> task_row option" where
  "next_task D = (case filter (runnable (dbNow D)) (dbTasks D) of
      [] \<Rightarrow> None
    | t # ts \<Rightarrow> Some (foldl (\<lambda>b x. if tCreated x < tCreated b then x else b) t ts))"

definition new_run :: "task_row \<Rightarrow> task_run" where
  "new_run t = \<lparr>ruTask = task.truncate t, ruBuf = [], ruBudget = [], ruCycleUSD = 0, ruForced = [], ruCollapse = [],
     ruStep = 0, ruHeld = []\<rparr>"

text \<open>\<^verbatim>\<open>(*Engine).claim\<close>.\<close>

definition take_lease :: "string \<Rightarrow> int \<Rightarrow> task_row \<Rightarrow> task_row" where
  "take_lease owner now t = t\<lparr>tOwner := Some owner, tUntil := Some (now + leaseFor), tStatus := Running\<rparr>"

definition claim :: "string \<Rightarrow> db \<Rightarrow> task_run option \<times> db" where
  "claim owner D =
     (case next_task D of
        None \<Rightarrow> (None, D)
      | Some t \<Rightarrow>
          (Some (new_run (take_lease owner (dbNow D) t)),
           update_task (tID t) (runnable (dbNow D)) (take_lease owner (dbNow D)) D))"

text \<open>A renewal (\<^verbatim>\<open>drive\<close>): whether the lease is still held, and the release at the end of a run.\<close>

definition renew :: "string \<Rightarrow> string \<Rightarrow> db \<Rightarrow> bool \<times> db" where
  "renew owner tid D =
     (some_task tid (mine owner) D, update_task tid (mine owner) (\<lambda>t. t\<lparr>tUntil := Some (dbNow D + leaseFor)\<rparr>) D)"

definition drop_lease :: "task_row \<Rightarrow> task_row" where
  "drop_lease t = t\<lparr>tOwner := None, tUntil := None\<rparr>"

definition release_lease :: "string \<Rightarrow> string \<Rightarrow> db \<Rightarrow> db" where
  "release_lease owner tid D = update_task tid (\<lambda>t. tOwner t = Some owner \<and> tStatus t \<noteq> Running) drop_lease D"

section \<open>Ends of a run\<close>

definition deliverable_of :: "(string \<times> row_data) list \<Rightarrow> string" where
  "deliverable_of rs = foldl (\<lambda>acc (k, d). if k = ''deliverable''
      then (case as_note d of Some s \<Rightarrow> s | None \<Rightarrow> acc) else acc) [] rs"

definition forced_stop :: "string \<Rightarrow> stop_reason" where
  "forced_stop s = (if s = ''budget_exhausted'' then StopBudget else if s = ''max_steps'' then StopMaxSteps else StopFinished)"

text \<open>\<^verbatim>\<open>(*Engine).finished\<close>: the deliverable and the gate the run now waits at.\<close>

definition finished_stop :: "string \<Rightarrow> gate list \<Rightarrow> stop_reason" where
  "finished_stop forced gs =
     (if \<exists>g \<in> set gs. (gKind g = ''finding'' \<or> gKind g = ''hook'') \<and> gDecision g = [] then StopAwaitingGate
      else forced_stop forced)"

definition finish_run :: "string \<Rightarrow> stop_reason \<Rightarrow> string \<Rightarrow> string \<Rightarrow> db \<Rightarrow> db" where
  "finish_run owner stp out tid D = update_task tid (mine owner)
     (\<lambda>t. drop_lease (t\<lparr>tStatus := AwaitingGate, tStop := Some stp, tOutput := Some out\<rparr>)) D"

definition finished :: "(string \<Rightarrow> err option) \<Rightarrow> string \<Rightarrow> task_run \<Rightarrow> db \<Rightarrow> err option \<times> db" where
  "finished flt owner r D =
     (let tid = tID (ruTask r);
          out = (case rows (flt kNote) D (Some r) tid kNote of Inr rs \<Rightarrow> deliverable_of rs | Inl _ \<Rightarrow> [])
      in case load as_gate (flt kGate) D (Some r) tid kGate of
           Inl e \<Rightarrow> (Some e, D)
         | Inr gs \<Rightarrow>
             (case flt ''tasks'' of
                Some e \<Rightarrow> (Some e, D)
              | None \<Rightarrow> (None, finish_run owner (finished_stop (ruForced r) gs) out tid D)))"

text \<open>\<^verbatim>\<open>(*Engine).fail\<close> and \<^verbatim>\<open>(*Engine).pauseForGate\<close>.\<close>

definition fail_text :: "string \<Rightarrow> engine_error \<Rightarrow> string" where
  "fail_text alert cause =
     (if alert \<noteq> [] then alert else case ErrorType cause of (_, kind, msg) \<Rightarrow> kind @ '': '' @ msg)"

definition fail_run :: "string \<Rightarrow> string \<Rightarrow> string \<Rightarrow> engine_error \<Rightarrow> db \<Rightarrow> db" where
  "fail_run owner tid alert cause D = update_task tid (mine owner)
     (\<lambda>t. drop_lease (t\<lparr>tStatus := FailedTask, tStop := Some StopFailed, tError := fail_text alert cause,
        tAlert := (if alert \<noteq> [] then alert else tAlert t)\<rparr>)) D"

definition pauseForGate :: "string \<Rightarrow> string \<Rightarrow> db \<Rightarrow> db" where
  "pauseForGate owner tid D = update_task tid (mine owner)
     (\<lambda>t. drop_lease (t\<lparr>tStatus := AwaitingGate, tStop := Some StopAwaitingGate\<rparr>)) D"

section \<open>Resuming\<close>

text \<open>
  The first transaction of \<^verbatim>\<open>execute\<close>: every step that was in flight is charged at its grant and
  dropped, what was spent is added up, and the settled steps are what the run replays.
\<close>

definition task_steps :: "string \<Rightarrow> db \<Rightarrow> step list" where
  "task_steps tid D = sort_key N (map snd (filter (\<lambda>(t, s). t = tid) (dbSteps D)))"

definition grant_usage :: "grant \<Rightarrow> usage" where
  "grant_usage g = no_usage\<lparr>uCalls := Calls g, uUSD := USD g\<rparr>"

definition total_usage :: "usage list \<Rightarrow> usage" where
  "total_usage us = foldl usage_add no_usage us"

definition lost_after :: "usage \<Rightarrow> step list \<Rightarrow> usage" where
  "lost_after l ss = foldl usage_add l (map (\<lambda>s. grant_usage (Grant s)) (filter (\<lambda>s. Status s = Started) ss))"

definition settled :: "step list \<Rightarrow> step list" where
  "settled ss = filter (\<lambda>s. Status s \<noteq> Started) ss"

record resumed =
  reSpent :: usage
  reReplay :: "step list"

definition recover :: "string \<Rightarrow> db \<Rightarrow> (err, resumed \<times> db) result" where
  "recover tid D =
     (case find_task tid D of
        None \<Rightarrow> Inl (EOther ''sql: no rows in result set'')
      | Some t \<Rightarrow>
          let ss = task_steps tid D;
              l = lost_after (tLost t) ss;
              re = \<lparr>reSpent = usage_add (total_usage (map sUsage (settled ss))) l, reReplay = settled ss\<rparr>
          in if settled ss = ss then Inr (re, D)
             else Inr (re, update_task tid (\<lambda>_. True) (\<lambda>t. t\<lparr>tLost := l\<rparr>)
                    (D\<lparr>dbSteps := filter (\<lambda>(t, s). \<not> (t = tid \<and> Status s = Started)) (dbSteps D)\<rparr>)))"

section \<open>What a lawyer may do\<close>

definition cancellable :: "task_row \<Rightarrow> bool" where
  "cancellable t \<longleftrightarrow> tStatus t = Queued \<or> tStatus t = Running \<or> tStatus t = AwaitingGate"

definition status_text :: "task_status \<Rightarrow> string" where
  "status_text s = (case s of Queued \<Rightarrow> ''queued'' | Running \<Rightarrow> ''running'' | AwaitingGate \<Rightarrow> ''awaiting_gate''
     | Complete \<Rightarrow> ''complete'' | FailedTask \<Rightarrow> ''failed'' | Cancelled \<Rightarrow> ''cancelled'')"

definition Cancel :: "string \<Rightarrow> db \<Rightarrow> engine_error option \<times> db" where
  "Cancel tid D =
     (case find_task tid D of
        None \<Rightarrow> (Some errNotFound, D)
      | Some t \<Rightarrow>
          if some_task tid cancellable D
          then (None, update_task tid cancellable (\<lambda>t. t\<lparr>tStatus := Cancelled, tStop := Some StopCancelled\<rparr>) D)
          else (Some (Wraps Conflict (''engine: conflict: the task has already ended ('' @ status_text (tStatus t) @ '')'')), D))"

text \<open>\<^verbatim>\<open>(*Engine).Decide\<close>: the gates of a task, and the note the lead reads when the run resumes.\<close>

definition zero_gate :: gate where "zero_gate = new_gate [] [] []"

definition gate_of :: "row_data \<Rightarrow> gate" where
  "gate_of d = (case as_gate d of Some g \<Rightarrow> g | None \<Rightarrow> zero_gate)"

definition gate_rows :: "string \<Rightarrow> db \<Rightarrow> gate list" where
  "gate_rows tid D = map (\<lambda>(k, d). gate_of d) (committed_rows (dbLedger D) tid kGate)"

definition find_gate :: "string \<Rightarrow> string \<Rightarrow> db \<Rightarrow> gate option" where
  "find_gate tid gid D = map_option gate_of (map_of (committed_rows (dbLedger D) tid kGate) gid)"

definition unnoted :: "gate \<Rightarrow> bool" where
  "unnoted g \<longleftrightarrow> (gKind g = ''finding'' \<or> gKind g = ''hook'') \<and> \<not> gNoted g"

definition gate_line :: "gate \<Rightarrow> string" where
  "gate_line x =
     (let what = (if gKind x = ''hook''
          then ''the call of '' @ gSubject x @ '' held by hook '' @ gHook x @ '' (gate '' @ gID x @ '')''
          else gFinding x)
      in newline # ''- '' @ what @ '' '' @ gDecision x @ (if gReason x \<noteq> [] then '': '' @ gReason x else []))"

definition gates_note :: "gate list \<Rightarrow> string" where
  "gates_note gs =
     (let lines = ''The lawyer decided the gates:'' @ concat (map gate_line gs);
          redraft = (if contains_str lines (newline # ''- F'')
            then lines @ newline # ''Rejected findings are out of the memo: redraft what cited them, then call finish again.'' else lines)
      in if \<exists>g \<in> set gs. gKind g = ''hook''
         then redraft @ '' An approved call goes through once, when you make it again with exactly the same input; a rejected one must not be made: do the work without it, or disclose what it would have found.''
         else redraft)"

definition rejected_note :: "string \<Rightarrow> string" where
  "rejected_note reason =
     ''The lawyer rejected the deliverable. Their reason: '' @ reason @ newline # ''Revise the memo to address it (more evidence, a redraft, a committee) and call finish again.''"

definition mark_noted :: "string \<Rightarrow> db \<Rightarrow> db" where
  "mark_noted tid D = D\<lparr>dbLedger := map (\<lambda>r. if lrTask r = tid \<and> lrKind r = kGate \<and> unnoted (gate_of (lrData r))
     then r\<lparr>lrData := DGate ((gate_of (lrData r))\<lparr>gNoted := True\<rparr>)\<rparr> else r) (dbLedger D)\<rparr>"

definition last_step :: "string \<Rightarrow> db \<Rightarrow> int" where
  "last_step tid D = foldl max 0 (map (\<lambda>(t, s). N s) (filter (\<lambda>(t, s). t = tid) (dbSteps D)))"

definition note_step :: "int \<Rightarrow> string \<Rightarrow> step" where
  "note_step n text = \<lparr>N = n, sKind = NoteStep, sTool = ''gate'', Status = Committed, sInput = None,
     sOutput = NoteText text, Grant = no_grant, sUsage = no_usage, Note = [], sModel = [], sFinal = False\<rparr>"

definition resume_task :: "string \<Rightarrow> string \<Rightarrow> db \<Rightarrow> db" where
  "resume_task tid note D = update_task tid (\<lambda>_. True)
     (\<lambda>t. drop_lease (t\<lparr>tStatus := Running, tStop := None\<rparr>))
     (D\<lparr>dbSteps := dbSteps D @ [(tid, note_step (last_step tid D + 1) note)]\<rparr>)"

definition decided :: "bool \<Rightarrow> string \<Rightarrow> string \<Rightarrow> person \<Rightarrow> gate \<Rightarrow> gate" where
  "decided approve reason now by g = g\<lparr>gDecision := (if approve then ''approved'' else ''rejected''),
     gReason := trim_space reason, gDecidedAt := now, gDecidedBy := Some by\<rparr>"

definition decide_tx :: "string \<Rightarrow> string \<Rightarrow> bool \<Rightarrow> string \<Rightarrow> string \<Rightarrow> person \<Rightarrow> task_row \<Rightarrow> db \<Rightarrow> (engine_error, db) result" where
  "decide_tx tid gid approve reason now by t D =
     (case find_gate tid gid D of
        None \<Rightarrow> Inl errNotFound
      | Some g0 \<Rightarrow>
          if gDecision g0 \<noteq> [] \<or> tStatus t \<noteq> AwaitingGate
          then Inl (Wraps Conflict (''engine: conflict: gate '' @ gid @ '' is not open''))
          else
            let g = decided approve reason now by g0;
                D1 = D\<lparr>dbLedger := upsert True tid kGate gid (DGate g) 0 (dbLedger D)\<rparr>
            in if gKind g = ''deliverable'' \<and> approve
               then Inr (update_task tid (\<lambda>_. True) (\<lambda>t. t\<lparr>tStatus := Complete\<rparr>) D1)
               else if gKind g = ''deliverable'' then Inr (resume_task tid (rejected_note (gReason g)) D1)
               else if \<exists>x \<in> set (gate_rows tid D1). gDecision x = [] then Inr D1
               else Inr (resume_task tid (gates_note (filter unnoted (gate_rows tid D1))) (mark_noted tid D1)))"

definition Decide ::
  "string \<Rightarrow> string \<Rightarrow> bool \<Rightarrow> string \<Rightarrow> string \<Rightarrow> person \<Rightarrow> err option \<Rightarrow> db \<Rightarrow> engine_error option \<times> db" where
  "Decide tid gid approve reason now by fault D =
     (case find_task tid D of
        None \<Rightarrow> (Some errNotFound, D)
      | Some t \<Rightarrow>
          if \<not> approve \<and> trim_space reason = []
          then (Some (Wraps BadTask ''engine: bad task: a rejection needs a reason: it is what the lead is asked to fix''), D)
          else (case fault of
              Some e \<Rightarrow> (Some (RunError e), D)
            | None \<Rightarrow>
                (case decide_tx tid gid approve reason now by t D of
                   Inl e \<Rightarrow> (Some e, D)
                 | Inr D' \<Rightarrow> (None, D'))))"

end
