(* ===== verification/Lifecycle.thy ===== *)
theory Lifecycle
  imports Tasks
begin

text \<open>
  Processes and lawyers over one database: any number of processes claim, run, lose and finish
  tasks, crash, and are late; a lawyer cancels and decides at any time.  One statement or
  transaction of the code is one transition, so a sequence of actions is an interleaving.
\<close>

record system =
  sysDb :: db
  sysRuns :: "string \<times> string \<Rightarrow> task_run option"

datatype action =
    Tick | Submitted | Claimed string | Renewed string | Recorded_by string string step
  | Wrote string string | Learned_by string string | Recovered string string
  | Finished_by string string | Failed_by string string | Paused_by string string
  | Released string string | Crashed string | Written_now | Cancelled_by_user | Decided_by_user

text \<open>\<open>sys_step cfg fmt0 S a S'\<close>: in state \<open>S\<close> the action \<open>a\<close> can lead to \<open>S'\<close>.\<close>

inductive sys_step :: "config \<Rightarrow> (rat \<Rightarrow> string) \<Rightarrow> system \<Rightarrow> action \<Rightarrow> system \<Rightarrow> bool"
  for cfg :: config and fmt0 :: "rat \<Rightarrow> string"
where
  tick: "sys_step cfg fmt0 S Tick (S\<lparr>sysDb := (sysDb S)\<lparr>dbNow := now\<rparr>\<rparr>)"
    if "dbNow (sysDb S) \<le> now"
| submit: "sys_step cfg fmt0 S Submitted (S\<lparr>sysDb := D'\<rparr>)"
    if "Submit cfg lead doc fault uuid t (sysDb S) = (res, D')" and "find_task uuid (sysDb S) = None"
| claim: "sys_step cfg fmt0 S (Claimed p) \<lparr>sysDb = D', sysRuns = (sysRuns S)((p, tID (ruTask r)) := Some r)\<rparr>"
    if "claim p (sysDb S) = (Some r, D')"
| renew: "sys_step cfg fmt0 S (Renewed p) (S\<lparr>sysDb := D'\<rparr>)"
    if "renew p tid (sysDb S) = (held, D')"
| record_step: "sys_step cfg fmt0 S (Recorded_by p tid s) \<lparr>sysDb = D', sysRuns = (sysRuns S)((p, tid) := Some r')\<rparr>"
    if "sysRuns S (p, tid) = Some r" and "tID (ruTask r) = tid"
      and "Record_step cfg fmt0 p flt tx s r (sysDb S) = (e, r', D')"
| write_op: "sys_step cfg fmt0 S (Wrote p tid) (S\<lparr>sysRuns := (sysRuns S)((p, tid) := r')\<rparr>)"
    if "sysRuns S (p, tid) = Some r"
      and "write_row fault tid kind key d upd (Some r, sysDb S) = (e, r', D')"
| learn: "sys_step cfg fmt0 S (Learned_by p tid) (S\<lparr>sysRuns := (sysRuns S)((p, tid) := Some (stats_Add sig a d r))\<rparr>)"
    if "sysRuns S (p, tid) = Some r"
| recover: "sys_step cfg fmt0 S (Recovered p tid) (S\<lparr>sysDb := D'\<rparr>)"
    if "sysRuns S (p, tid) = Some r" and "recover tid (sysDb S) = Inr (re, D')"
| finish: "sys_step cfg fmt0 S (Finished_by p tid) (S\<lparr>sysDb := D'\<rparr>)"
    if "sysRuns S (p, tid) = Some r" and "finished flts p r (sysDb S) = (e, D')"
| fail: "sys_step cfg fmt0 S (Failed_by p tid) (S\<lparr>sysDb := fail_run p tid alert cause (sysDb S)\<rparr>)"
    if "sysRuns S (p, tid) = Some r"
| pause: "sys_step cfg fmt0 S (Paused_by p tid) (S\<lparr>sysDb := pauseForGate p tid (sysDb S)\<rparr>)"
    if "sysRuns S (p, tid) = Some r"
| release: "sys_step cfg fmt0 S (Released p tid) \<lparr>sysDb = release_lease p tid (sysDb S), sysRuns = (sysRuns S)((p, tid) := None)\<rparr>"
    if "sysRuns S (p, tid) = Some r"
| crash: "sys_step cfg fmt0 S (Crashed p) (S\<lparr>sysRuns := (\<lambda>(q, tid). if q = p then None else sysRuns S (q, tid))\<rparr>)"
| written: "sys_step cfg fmt0 S Written_now (S\<lparr>sysDb := D'\<rparr>)"
    if "write_row fault tid kind key d upd (None, sysDb S) = (e, None, D')"
| cancel: "sys_step cfg fmt0 S Cancelled_by_user (S\<lparr>sysDb := D'\<rparr>)"
    if "Cancel tid (sysDb S) = (e, D')"
| decide: "sys_step cfg fmt0 S Decided_by_user (S\<lparr>sysDb := D'\<rparr>)"
    if "Decide tid gid approve reason now by fault (sysDb S) = (e, D')"

inductive sys_steps :: "config \<Rightarrow> (rat \<Rightarrow> string) \<Rightarrow> system \<Rightarrow> action list \<Rightarrow> system \<Rightarrow> bool"
  for cfg :: config and fmt0 :: "rat \<Rightarrow> string"
where
  none: "sys_steps cfg fmt0 S [] S"
| more: "sys_steps cfg fmt0 S (a # acts) S''"
    if "sys_step cfg fmt0 S a S'" and "sys_steps cfg fmt0 S' acts S''"

lemma sys_steps_one: "sys_step cfg fmt0 S a S' \<Longrightarrow> sys_steps cfg fmt0 S [a] S'"
  by (auto intro: sys_steps.intros)

inductive_cases sys_stepE: "sys_step cfg fmt0 S a S'"
inductive_cases sys_claimE: "sys_step cfg fmt0 S (Claimed p) S'"

section \<open>How a task's row may change\<close>

definition terminal :: "task_status \<Rightarrow> bool" where
  "terminal s \<longleftrightarrow> s = Complete \<or> s = FailedTask \<or> s = Cancelled"

fun successors :: "task_status \<Rightarrow> task_status set" where
  "successors Queued = {Queued, Running, Cancelled}"
| "successors Running = {Running, AwaitingGate, FailedTask, Cancelled}"
| "successors AwaitingGate = {AwaitingGate, Running, Complete, Cancelled}"
| "successors s = {s}"

lemma successors_self [simp]: "s \<in> successors s"
  by (cases s) simp_all

lemma terminal_successors: "terminal s \<Longrightarrow> s' \<in> successors s \<Longrightarrow> s' = s"
  by (auto simp: terminal_def)

definition row_evolves :: "task_row \<Rightarrow> task_row \<Rightarrow> bool" where
  "row_evolves t t' \<longleftrightarrow> tID t' = tID t \<and> tStatus t' \<in> successors (tStatus t)
     \<and> (terminal (tStatus t) \<longrightarrow> tStop t' = tStop t \<and> tOutput t' = tOutput t \<and> tError t' = tError t)
     \<and> tSpecs t' = tSpecs t \<and> tDocs t' = tDocs t"

lemma row_evolves_refl [simp]: "row_evolves t t"
  by (simp add: row_evolves_def)

text \<open>A lease is held on a running task, or on one cancelled under its process.\<close>

definition lease_ok :: "task_row \<Rightarrow> bool" where
  "lease_ok t \<longleftrightarrow> (tOwner t \<noteq> None \<longrightarrow> tStatus t = Running \<or> tStatus t = Cancelled)"

definition db_ok :: "db \<Rightarrow> bool" where
  "db_ok D \<longleftrightarrow> distinct (map tID (dbTasks D)) \<and> (\<forall>t \<in> set (dbTasks D). lease_ok t)
     \<and> ledger_keys (dbLedger D)"

text \<open>A step once settled stays, and the row of a ledger key stays.\<close>

definition log_grows :: "db \<Rightarrow> db \<Rightarrow> bool" where
  "log_grows D D' \<longleftrightarrow> (\<forall>tid n s. find_step (dbSteps D) tid n = Some s \<longrightarrow> Status s \<noteq> Started \<longrightarrow>
     find_step (dbSteps D') tid n = Some s)"

definition db_evolves :: "db \<Rightarrow> db \<Rightarrow> bool" where
  "db_evolves D D' \<longleftrightarrow> db_ok D' \<and> log_grows D D'
     \<and> (\<forall>t \<in> set (dbTasks D). \<exists>t' \<in> set (dbTasks D'). row_evolves t t')"

lemma log_grows_refl [simp]: "dbSteps D' = dbSteps D \<Longrightarrow> log_grows D D'"
  by (simp add: log_grows_def)

lemma db_evolves_same:
  assumes "db_ok D" and "dbTasks D' = dbTasks D" and "log_grows D D'" and "ledger_keys (dbLedger D')"
  shows "db_evolves D D'"
  using assms row_evolves_refl unfolding db_evolves_def db_ok_def by (metis (no_types, lifting))

lemma update_task_same [simp]:
  "dbSteps (update_task tid P f D) = dbSteps D" "dbLedger (update_task tid P f D) = dbLedger D"
  "dbStats (update_task tid P f D) = dbStats D" "dbVersions (update_task tid P f D) = dbVersions D"
  "dbNow (update_task tid P f D) = dbNow D"
  by (simp_all add: update_task_def)

text \<open>One statement on one task: it is enough to look at the rows it touches.\<close>

definition touches_well :: "string \<Rightarrow> (task_row \<Rightarrow> bool) \<Rightarrow> (task_row \<Rightarrow> task_row) \<Rightarrow> db \<Rightarrow> bool" where
  "touches_well tid P f D \<longleftrightarrow>
     (\<forall>t \<in> set (dbTasks D). tID t = tid \<longrightarrow> P t \<longrightarrow> lease_ok t \<longrightarrow> row_evolves t (f t) \<and> lease_ok (f t))"

lemma update_task_ids:
  assumes "db_ok D" and "touches_well tid P f D"
  shows "map tID (dbTasks (update_task tid P f D)) = map tID (dbTasks D)"
  using assms by (auto simp: update_task_def touches_well_def db_ok_def row_evolves_def)

lemma db_evolves_update:
  assumes ok: "db_ok D" and f: "touches_well tid P f D"
  shows "db_evolves D (update_task tid P f D)"
proof -
  have rows: "row_evolves t (if tID t = tid \<and> P t then f t else t)"
    "lease_ok (if tID t = tid \<and> P t then f t else t)" if "t \<in> set (dbTasks D)" for t
    using that ok f by (auto simp: touches_well_def db_ok_def)
  have tasks: "dbTasks (update_task tid P f D) = map (\<lambda>t. if tID t = tid \<and> P t then f t else t) (dbTasks D)"
    by (simp add: update_task_def)
  have "\<forall>t \<in> set (dbTasks (update_task tid P f D)). lease_ok t"
    unfolding tasks set_map using rows(2) by blast
  then have ok': "db_ok (update_task tid P f D)"
    using ok by (simp add: db_ok_def update_task_ids [OF ok f])
  show ?thesis unfolding db_evolves_def
  proof (intro conjI ballI ok')
    show "log_grows D (update_task tid P f D)" by simp
    fix t assume t: "t \<in> set (dbTasks D)"
    show "\<exists>t' \<in> set (dbTasks (update_task tid P f D)). row_evolves t t'"
      using rows(1) [OF t] t unfolding tasks by (intro bexI [of _ "if tID t = tid \<and> P t then f t else t"]) auto
  qed
qed

lemma row_evolves_id: "row_evolves t t' \<Longrightarrow> tID t' = tID t"
  by (simp add: row_evolves_def)

lemma log_grows_trans: "log_grows D D1 \<Longrightarrow> log_grows D1 D2 \<Longrightarrow> log_grows D D2"
  by (simp add: log_grows_def)

text \<open>A transaction that writes steps and ledger rows and then one task.\<close>

lemma db_evolves_tx:
  assumes "db_ok D" and "dbTasks D1 = dbTasks D" and "log_grows D D1" and "ledger_keys (dbLedger D1)"
    and "touches_well tid P f D"
  shows "db_evolves D (update_task tid P f D1)"
proof -
  have ok1: "db_ok D1" using assms(1,2,4) by (simp add: db_ok_def)
  have "touches_well tid P f D1" using assms(2,5) by (simp add: touches_well_def)
  then have ev: "db_evolves D1 (update_task tid P f D1)" by (rule db_evolves_update [OF ok1])
  then show ?thesis using log_grows_trans [OF assms(3)] assms(2) by (auto simp: db_evolves_def)
qed

lemma db_evolves_refl: "db_ok D \<Longrightarrow> db_evolves D D"
  by (rule db_evolves_same) (auto simp: db_ok_def)

section \<open>Every operation evolves the database\<close>

lemma mine_well:
  assumes "\<And>t. tOwner t = Some p \<Longrightarrow> tStatus t = Running \<Longrightarrow> row_evolves t (f t) \<and> lease_ok (f t)"
  shows "touches_well tid (mine p) f D"
  using assms by (auto simp: touches_well_def mine_def)

lemma finish_run_evolves: "db_ok D \<Longrightarrow> db_evolves D (finish_run p st out tid D)"
  unfolding finish_run_def
  by (intro db_evolves_update mine_well) (simp_all add: row_evolves_def lease_ok_def drop_lease_def terminal_def)

lemma finished_evolves: "db_ok D \<Longrightarrow> finished flts p r D = (e, D') \<Longrightarrow> db_evolves D D'"
  by (auto simp: finished_def Let_def split: sum.splits option.splits intro: finish_run_evolves db_evolves_refl)

lemma fail_run_evolves: "db_ok D \<Longrightarrow> db_evolves D (fail_run p tid alert cause D)"
  unfolding fail_run_def
  by (intro db_evolves_update mine_well) (simp_all add: row_evolves_def lease_ok_def drop_lease_def terminal_def)

lemma pause_evolves: "db_ok D \<Longrightarrow> db_evolves D (pauseForGate p tid D)"
  unfolding pauseForGate_def
  by (intro db_evolves_update mine_well) (simp_all add: row_evolves_def lease_ok_def drop_lease_def terminal_def)

lemma release_evolves: "db_ok D \<Longrightarrow> db_evolves D (release_lease p tid D)"
  unfolding release_lease_def
  by (intro db_evolves_update) (auto simp: touches_well_def row_evolves_def lease_ok_def drop_lease_def)

lemma renew_evolves: "db_ok D \<Longrightarrow> renew p tid D = (held, D') \<Longrightarrow> db_evolves D D'"
  unfolding renew_def prod.inject
  by (elim conjE, hypsubst) (intro db_evolves_update mine_well, auto simp: row_evolves_def lease_ok_def)

lemma claim_evolves: "db_ok D \<Longrightarrow> claim p D = (r, D') \<Longrightarrow> db_evolves D D'"
  by (auto simp: claim_def touches_well_def row_evolves_def lease_ok_def take_lease_def runnable_def terminal_def
      split: option.splits intro!: db_evolves_update db_evolves_refl)

lemma Cancel_evolves: "db_ok D \<Longrightarrow> Cancel tid D = (e, D') \<Longrightarrow> db_evolves D D'"
  by (auto simp: Cancel_def touches_well_def row_evolves_def lease_ok_def cancellable_def terminal_def
      split: option.splits if_splits intro!: db_evolves_update db_evolves_refl)

lemma Submit_evolves:
  assumes "db_ok D" and "Submit cfg lead doc fault uuid t D = (res, D')" and "find_task uuid D = None"
  shows "db_evolves D D'"
proof (cases "D' = D")
  case True
  then show ?thesis using assms(1) by (simp add: db_evolves_refl)
next
  case False
  then obtain row where D': "D' = D\<lparr>dbTasks := dbTasks D @ [row]\<rparr>" and row: "tID row = uuid" "tOwner row = None"
    using assms(2) by (auto simp: Submit_def Let_def task.defs split: sum.splits if_splits option.splits)
  have "uuid \<notin> tID ` set (dbTasks D)" using assms(3) by (auto simp: find_task_def find_None_iff)
  then have "db_ok D'" using assms(1) row by (auto simp: db_ok_def D' lease_ok_def)
  moreover have "\<exists>t' \<in> set (dbTasks D'). row_evolves t t'" if "t \<in> set (dbTasks D)" for t
    using that by (intro bexI [of _ t]) (simp_all add: D')
  ultimately show ?thesis by (simp add: db_evolves_def D')
qed

lemma find_log_step:
  "find_step L tid n = Some st \<Longrightarrow> Status st \<noteq> Started \<Longrightarrow> find_step (fst (log_step t s L)) tid n = Some st"
  by (induction t s L rule: log_step.induct) (auto split: prod.splits if_splits)

lemma set_alert_update: "set_alert tid a D = update_task tid (\<lambda>t. tAlert t = []) (\<lambda>t. t\<lparr>tAlert := a\<rparr>) D"
  by (simp add: set_alert_def update_task_def)

lemma checkCollapse_db:
  "checkCollapse cfg fmt0 flt r D = (e, r', D') \<Longrightarrow>
     D' = D \<or> (\<exists>a. D' = update_task (tID (ruTask r)) (\<lambda>t. tAlert t = []) (\<lambda>t. t\<lparr>tAlert := a\<rparr>) D)"
  by (auto simp: checkCollapse_def set_alert_update Let_def split: sum.splits option.splits bool.splits prod.splits if_splits)

lemma record_tx_evolves:
  assumes "db_ok D" and "record_tx p r s buf D = Inr (D', wrote)"
  shows "dbTasks D' = dbTasks D" and "log_grows D D'" and "ledger_keys (dbLedger D')"
proof -
  note d = record_tx_InrD [OF assms(2)]
  show "dbTasks D' = dbTasks D" using d(4) by (cases wrote) (auto dest: arg_cong [of _ _ dbTasks])
  show "log_grows D D'" by (simp add: log_grows_def d(2) find_log_step)
  have "ledger_keys (dbLedger D)" using assms(1) by (simp add: db_ok_def)
  then show "ledger_keys (dbLedger D')" using d(4) ledger_keys_apply_ops [of "D\<lparr>dbSteps := dbSteps D'\<rparr>"]
    by (cases wrote) (auto dest: arg_cong [of _ _ dbLedger])
qed

lemma record_tx_recording: "record_tx p (recording s r) s buf D = record_tx p r s buf D"
  by (simp add: record_tx_def recording_def)

lemma Record_db:
  assumes "Record_step cfg fmt0 p flt tx s r D = (e, r', D')"
  shows "D' = D \<or> (\<exists>D1 wrote. record_tx p r s (ruBuf r) D = Inr (D1, wrote) \<and>
     (D' = D1 \<or> (\<exists>a. D' = update_task (tID (ruTask r)) (\<lambda>t. tAlert t = []) (\<lambda>t. t\<lparr>tAlert := a\<rparr>) D1)))"
proof (cases "D' = D")
  case False
  then have body: "record_end cfg fmt0 p flt tx s (ruBuf r) (recording s r) D = (e, r', D')"
    using assms by (auto simp: Record_step_def split: if_splits)
  have tid: "tID (ruTask (recording s r)) = tID (ruTask r)" by (simp add: recording_def)
  obtain D1 wrote where D1: "record_tx p r s (ruBuf r) D = Inr (D1, wrote)"
    using body False by (auto simp: record_end_def record_tx_recording split: tx_end.splits sum.splits)
  have "D' = D1 \<or> (\<exists>e r0 r1. checkCollapse cfg fmt0 flt r0 D1 = (e, r1, D') \<and> tID (ruTask r0) = tID (ruTask r))"
    using body False D1 tid
    by (auto simp: record_end_def record_tx_recording split: tx_end.splits if_splits)
  then show ?thesis using D1 by (metis checkCollapse_db)
qed simp

lemma alert_well: "touches_well tid (\<lambda>t. tAlert t = []) (\<lambda>t. t\<lparr>tAlert := a\<rparr>) D"
  by (simp add: touches_well_def row_evolves_def lease_ok_def)

lemma Record_evolves:
  assumes "db_ok D" and "Record_step cfg fmt0 p flt tx s r D = (e, r', D')"
  shows "db_evolves D D'"
  using Record_db [OF assms(2)]
proof (elim disjE exE conjE)
  assume "D' = D"
  then show ?thesis using assms(1) by (simp add: db_evolves_refl)
next
  fix D1 wrote
  assume "record_tx p r s (ruBuf r) D = Inr (D1, wrote)" and "D' = D1"
  then show ?thesis using record_tx_evolves [OF assms(1)] by (auto intro: db_evolves_same [OF assms(1)])
next
  fix D1 wrote a
  assume tx: "record_tx p r s (ruBuf r) D = Inr (D1, wrote)"
    and D': "D' = update_task (tID (ruTask r)) (\<lambda>t. tAlert t = []) (\<lambda>t. t\<lparr>tAlert := a\<rparr>) D1"
  show ?thesis unfolding D' using record_tx_evolves [OF assms(1) tx]
    by (intro db_evolves_tx [OF assms(1)] alert_well)
qed

lemma write_row_evolves:
  assumes "db_ok D" and "write_row fault tid kind key d upd (None, D) = (e, r, D')"
  shows "db_evolves D D'"
  using assms by (auto simp: write_row_def db_ok_def ledger_keys_upsert split: option.splits
      intro!: db_evolves_same [of D] db_evolves_refl)

lemma find_step_filter:
  "find_step L tid n = Some st \<Longrightarrow> Status st \<noteq> Started \<Longrightarrow>
     find_step (filter (\<lambda>(t, s). t = x \<longrightarrow> Status s \<noteq> Started) L) tid n = Some st"
  by (induction L) (auto split: if_splits)

lemma lost_well: "touches_well tid (\<lambda>_. True) (\<lambda>t. t\<lparr>tLost := l\<rparr>) D"
  by (simp add: touches_well_def row_evolves_def lease_ok_def)

lemma recover_evolves:
  assumes "db_ok D" and "recover tid D = Inr (re, D')"
  shows "db_evolves D D'"
proof (cases "D' = D")
  case False
  then obtain l where D': "D' = update_task tid (\<lambda>_. True) (\<lambda>t. t\<lparr>tLost := l\<rparr>)
      (D\<lparr>dbSteps := filter (\<lambda>(t, s). \<not> (t = tid \<and> Status s = Started)) (dbSteps D)\<rparr>)"
    using assms(2) by (auto simp: recover_def Let_def split: option.splits if_splits)
  show ?thesis unfolding D' using assms(1)
    by (intro db_evolves_tx lost_well) (auto simp: log_grows_def find_step_filter db_ok_def)
qed (use assms(1) in \<open>simp add: db_evolves_refl\<close>)

text \<open>A decision touches the task that waits at the gate, which is the row it read.\<close>

lemma find_task_row:
  "db_ok D \<Longrightarrow> find_task tid D = Some t \<Longrightarrow> x \<in> set (dbTasks D) \<Longrightarrow> tID x = tid \<Longrightarrow> x = t"
  unfolding find_task_def db_ok_def by (auto simp: find_Some_iff distinct_map inj_on_def)

lemma find_step_append: "find_step L tid n = Some st \<Longrightarrow> find_step (L @ xs) tid n = Some st"
  by (induction L) (auto split: if_splits)

lemma mark_noted_keys: "ledger_keys (dbLedger (mark_noted tid D)) = ledger_keys (dbLedger D)"
proof -
  have "(\<lambda>r. (lrTask r, lrKind r, lrKey r)) \<circ> (\<lambda>r. if Q r then r\<lparr>lrData := d r\<rparr> else r)
      = (\<lambda>r. (lrTask r, lrKind r, lrKey r))" for Q :: "ledger_row \<Rightarrow> bool" and d
    by (simp add: fun_eq_iff)
  then show ?thesis by (simp add: mark_noted_def ledger_keys_def)
qed

lemma mark_noted_same [simp]:
  "dbTasks (mark_noted tid D) = dbTasks D" "dbSteps (mark_noted tid D) = dbSteps D"
  by (simp_all add: mark_noted_def)

lemma waiting_well:
  assumes "db_ok D" and "find_task tid D = Some t" and "tStatus t = AwaitingGate"
    and "\<And>x. tStatus x = AwaitingGate \<Longrightarrow> tOwner x = None \<Longrightarrow> row_evolves x (f x) \<and> lease_ok (f x)"
  shows "touches_well tid (\<lambda>_. True) f D"
  unfolding touches_well_def
proof (intro ballI impI)
  fix x assume x: "x \<in> set (dbTasks D)" "tID x = tid" and "lease_ok x"
  moreover have "x = t" by (rule find_task_row [OF assms(1,2) x])
  ultimately show "row_evolves x (f x) \<and> lease_ok (f x)"
    using assms(3) by (intro assms(4)) (auto simp: lease_ok_def)
qed

lemma resume_evolves:
  assumes ok: "db_ok D" and "find_task tid D = Some t" and "tStatus t = AwaitingGate"
    and "dbTasks D1 = dbTasks D" and "dbSteps D1 = dbSteps D" and "ledger_keys (dbLedger D1)"
  shows "db_evolves D (resume_task tid note D1)"
  unfolding resume_task_def
proof (rule db_evolves_tx [OF ok])
  show "touches_well tid (\<lambda>_. True) (\<lambda>t. drop_lease (t\<lparr>tStatus := Running, tStop := None\<rparr>)) D"
    using assms(1-3) by (rule waiting_well) (simp add: row_evolves_def lease_ok_def drop_lease_def terminal_def)
qed (use assms in \<open>auto simp: log_grows_def find_step_append\<close>)

lemma Decide_evolves:
  assumes ok: "db_ok D" and "Decide tid gid approve reason now u fault D = (e, D')"
  shows "db_evolves D D'"
proof (cases "D' = D")
  case True
  then show ?thesis using ok by (simp add: db_evolves_refl)
next
  case False
  then obtain t where t: "find_task tid D = Some t" and tx: "decide_tx tid gid approve reason now u t D = Inr D'"
    using assms(2) by (auto simp: Decide_def split: option.splits if_splits sum.splits)
  then obtain g0 where g0: "find_gate tid gid D = Some g0" and wait: "tStatus t = AwaitingGate"
    by (auto simp: decide_tx_def split: option.splits if_splits)
  let ?g = "decided approve reason now u g0"
  define D1 where "D1 = D\<lparr>dbLedger := upsert True tid kGate gid (DGate ?g) 0 (dbLedger D)\<rparr>"
  have D1: "dbTasks D1 = dbTasks D" "dbSteps D1 = dbSteps D" "ledger_keys (dbLedger D1)"
    using ok by (simp_all add: D1_def db_ok_def ledger_keys_upsert)
  have well: "touches_well tid (\<lambda>_. True) (\<lambda>t. t\<lparr>tStatus := Complete\<rparr>) D"
    using ok t wait by (rule waiting_well) (simp add: row_evolves_def lease_ok_def terminal_def)
  consider "D' = update_task tid (\<lambda>_. True) (\<lambda>t. t\<lparr>tStatus := Complete\<rparr>) D1"
    | nt where "D' = resume_task tid nt D1" | "D' = D1"
    | nt where "D' = resume_task tid nt (mark_noted tid D1)"
    using tx g0 wait by (auto simp: decide_tx_def Let_def D1_def split: if_splits)
  then show ?thesis
  proof cases
    case 1
    then show ?thesis using D1 well by (auto intro: db_evolves_tx [OF ok])
  next
    case 2
    then show ?thesis using resume_evolves [OF ok t wait D1] by simp
  next
    case 3
    then show ?thesis using D1 by (auto intro: db_evolves_same [OF ok])
  next
    case 4
    then show ?thesis using resume_evolves [OF ok t wait] D1 by (simp add: mark_noted_keys)
  qed
qed

section \<open>Runs of the system\<close>

lemma sys_step_evolves: "sys_step cfg fmt0 S a S' \<Longrightarrow> db_ok (sysDb S) \<Longrightarrow> db_evolves (sysDb S) (sysDb S')"
proof (induction rule: sys_step.induct)
  case (tick S now)
  then show ?case by (intro db_evolves_same) (auto simp: db_ok_def)
qed (auto intro: Submit_evolves claim_evolves renew_evolves Record_evolves recover_evolves finished_evolves
      fail_run_evolves pause_evolves release_evolves write_row_evolves Cancel_evolves Decide_evolves db_evolves_refl)

lemma sys_step_ok: "sys_step cfg fmt0 S a S' \<Longrightarrow> db_ok (sysDb S) \<Longrightarrow> db_ok (sysDb S')"
  using sys_step_evolves by (auto simp: db_evolves_def)

lemma sys_steps_ok: "sys_steps cfg fmt0 S acts S' \<Longrightarrow> db_ok (sysDb S) \<Longrightarrow> db_ok (sysDb S')"
  by (induction rule: sys_steps.induct) (auto dest: sys_step_ok)

text \<open>What a row keeps along any run.\<close>

definition row_kept :: "task_row \<Rightarrow> task_row \<Rightarrow> bool" where
  "row_kept t t' \<longleftrightarrow> tID t' = tID t \<and> tSpecs t' = tSpecs t \<and> tDocs t' = tDocs t
     \<and> (terminal (tStatus t) \<longrightarrow> tStatus t' = tStatus t \<and> tStop t' = tStop t \<and> tOutput t' = tOutput t \<and> tError t' = tError t)"

lemma row_evolves_kept: "row_evolves t t' \<Longrightarrow> row_kept t t'"
  by (auto simp: row_evolves_def row_kept_def dest: terminal_successors)

lemma row_kept_trans: "row_kept t t' \<Longrightarrow> row_kept t' t'' \<Longrightarrow> row_kept t t''"
  by (auto simp: row_kept_def)

lemma sys_steps_kept:
  assumes "sys_steps cfg fmt0 S acts S'" and "db_ok (sysDb S)"
  shows "(\<forall>t \<in> set (dbTasks (sysDb S)). \<exists>t' \<in> set (dbTasks (sysDb S')). row_kept t t') \<and> log_grows (sysDb S) (sysDb S')"
  using assms
proof (induction rule: sys_steps.induct)
  case (none S)
  show ?case by (auto intro: bexI [of "row_kept t" t for t] simp: row_kept_def)
next
  case (more S a S' acts S'')
  have ev: "db_evolves (sysDb S) (sysDb S')" by (rule sys_step_evolves [OF more.hyps(1) more.prems])
  then have IH: "\<forall>t \<in> set (dbTasks (sysDb S')). \<exists>t' \<in> set (dbTasks (sysDb S'')). row_kept t t'" "log_grows (sysDb S') (sysDb S'')"
    using more.IH by (auto simp: db_evolves_def)
  show ?case using ev IH log_grows_trans unfolding db_evolves_def
    by (metis row_evolves_kept row_kept_trans)
qed

subsection \<open>Leases\<close>

definition no_new_lease :: "string \<Rightarrow> db \<Rightarrow> db \<Rightarrow> bool" where
  "no_new_lease p D D' \<longleftrightarrow> (\<forall>t' \<in> set (dbTasks D'). mine p t' \<longrightarrow> (\<exists>t \<in> set (dbTasks D). tID t = tID t' \<and> mine p t))"

lemma no_new_same [simp]: "dbTasks D' = dbTasks D \<Longrightarrow> no_new_lease p D D'"
  by (auto simp: no_new_lease_def)

lemma no_new_update:
  assumes "dbTasks D1 = dbTasks D" and "\<And>t. P t \<Longrightarrow> mine p (f t) \<Longrightarrow> mine p t" and "\<And>t. tID (f t) = tID t"
  shows "no_new_lease p D (update_task tid P f D1)"
  unfolding no_new_lease_def
proof (intro ballI impI)
  fix t' assume "t' \<in> set (dbTasks (update_task tid P f D1))" and m: "mine p t'"
  then obtain t where t: "t \<in> set (dbTasks D)" "t' = (if tID t = tid \<and> P t then f t else t)"
    using assms(1) by (auto simp: update_task_def)
  then show "\<exists>t \<in> set (dbTasks D). tID t = tID t' \<and> mine p t"
    using m assms(2,3) by (intro bexI [of _ t]) (auto split: if_splits)
qed

lemma drop_lease_mine [simp]: "\<not> mine p (drop_lease t)" "tID (drop_lease t) = tID t"
  by (simp_all add: mine_def drop_lease_def)

lemma Record_no_new: "db_ok D \<Longrightarrow> Record_step cfg fmt0 q flt tx s r D = (e, r', D') \<Longrightarrow> no_new_lease p D D'"
proof -
  assume ok: "db_ok D" and "Record_step cfg fmt0 q flt tx s r D = (e, r', D')"
  from Record_db [OF this(2)] show ?thesis
  proof (elim disjE exE conjE)
    fix D1 wrote a
    assume "record_tx q r s (ruBuf r) D = Inr (D1, wrote)"
      and D': "D' = update_task (tID (ruTask r)) (\<lambda>t. tAlert t = []) (\<lambda>t. t\<lparr>tAlert := a\<rparr>) D1"
    then show ?thesis unfolding D' using record_tx_evolves(1) [OF ok] by (intro no_new_update) (auto simp: mine_def)
  qed (auto simp: record_tx_evolves(1) [OF ok])
qed

lemma recover_no_new: "recover tid D = Inr (re, D') \<Longrightarrow> no_new_lease p D D'"
  by (auto simp: recover_def Let_def mine_def split: option.splits if_splits intro!: no_new_update)

lemma Decide_no_new: "Decide tid gid approve reason now u fault D = (e, D') \<Longrightarrow> no_new_lease p D D'"
  by (auto simp: Decide_def decide_tx_def Let_def resume_task_def mine_def drop_lease_def split: option.splits if_splits sum.splits
      intro!: no_new_update)

lemma finished_no_new: "finished flts q r D = (e, D') \<Longrightarrow> no_new_lease p D D'"
  by (auto simp: finished_def finish_run_def Let_def split: sum.splits option.splits intro!: no_new_update)

lemma claim_no_new: "claim q D = (r, D') \<Longrightarrow> q \<noteq> p \<Longrightarrow> no_new_lease p D D'"
  by (auto simp: claim_def take_lease_def mine_def split: option.splits intro!: no_new_update)

lemma Cancel_no_new: "Cancel tid D = (e, D') \<Longrightarrow> no_new_lease p D D'"
  by (auto simp: Cancel_def mine_def split: option.splits if_splits intro!: no_new_update)

lemma Submit_no_new: "Submit cfg lead doc fault uuid t D = (res, D') \<Longrightarrow> no_new_lease p D D'"
  by (auto simp: Submit_def Let_def task.defs no_new_lease_def mine_def split: sum.splits if_splits option.splits)

lemma write_row_no_new: "write_row fault tid kind key d upd (None, D) = (e, r, D') \<Longrightarrow> no_new_lease p D D'"
  by (auto simp: write_row_def split: option.splits)

lemma sys_step_no_new:
  "sys_step cfg fmt0 S a S' \<Longrightarrow> db_ok (sysDb S) \<Longrightarrow> a \<noteq> Claimed p \<Longrightarrow> no_new_lease p (sysDb S) (sysDb S')"
proof (induction rule: sys_step.induct)
  case (renew q tid S held D')
  then show ?case by (auto simp: renew_def mine_def intro!: no_new_update)
next
  case (fail S q tid r alert cause)
  then show ?case by (auto simp: fail_run_def intro!: no_new_update)
next
  case (pause S q tid r)
  then show ?case by (auto simp: pauseForGate_def intro!: no_new_update)
next
  case (release S q tid r)
  then show ?case by (auto simp: release_lease_def intro!: no_new_update)
qed (auto intro: Submit_no_new claim_no_new Record_no_new recover_no_new finished_no_new write_row_no_new Cancel_no_new Decide_no_new)

lemma holds_lease_mine: "holds_lease p tid D \<longleftrightarrow> (\<exists>t \<in> set (dbTasks D). tID t = tid \<and> mine p t)"
  by (simp add: holds_lease_def mine_def)

lemma no_new_lease_holds: "no_new_lease p D D' \<Longrightarrow> holds_lease p tid D' \<Longrightarrow> holds_lease p tid D"
  by (fastforce simp: no_new_lease_def holds_lease_mine)

lemma sys_steps_no_lease:
  "sys_steps cfg fmt0 S acts S' \<Longrightarrow> db_ok (sysDb S) \<Longrightarrow> Claimed p \<notin> set acts \<Longrightarrow> \<not> holds_lease p tid (sysDb S) \<Longrightarrow>
     \<not> holds_lease p tid (sysDb S')"
proof (induction rule: sys_steps.induct)
  case (more S a S' acts S'')
  then show ?case using sys_step_no_new [OF more.hyps(1) more.prems(1)] sys_step_ok [OF more.hyps(1) more.prems(1)]
    no_new_lease_holds by (metis list.set_intros)
qed simp

section \<open>The properties\<close>

definition demo_system :: system where
  "demo_system = \<lparr>sysDb = demo_db, sysRuns = (\<lambda>x. if x = (''p2'', ''t1'') then Some demo_run else None)\<rparr>"

lemma demo_ok: "db_ok (sysDb demo_system)"
  using demo_keys by (simp add: demo_system_def db_ok_def demo_db_def lease_ok_def demo_row_def demo_task_def task.defs)

lemma demo_cancel:
  "sys_step demo_config (\<lambda>_. []) demo_system Cancelled_by_user (demo_system\<lparr>sysDb := snd (Cancel ''t1'' demo_db)\<rparr>)"
  by (rule sys_step.cancel [where tid = "''t1''" and e = "fst (Cancel ''t1'' demo_db)"]) (simp add: demo_system_def)

lemma demo_pause:
  "sys_steps demo_config (\<lambda>_. []) (demo_system\<lparr>sysDb := snd (Cancel ''t1'' demo_db)\<rparr>) [Paused_by ''p2'' ''t1'']
     (demo_system\<lparr>sysDb := pauseForGate ''p2'' ''t1'' (snd (Cancel ''t1'' demo_db))\<rparr>)"
proof -
  have "sys_step demo_config (\<lambda>_. []) (demo_system\<lparr>sysDb := snd (Cancel ''t1'' demo_db)\<rparr>) (Paused_by ''p2'' ''t1'')
      ((demo_system\<lparr>sysDb := snd (Cancel ''t1'' demo_db)\<rparr>)\<lparr>sysDb := pauseForGate ''p2'' ''t1''
        (sysDb (demo_system\<lparr>sysDb := snd (Cancel ''t1'' demo_db)\<rparr>))\<rparr>)"
    by (rule sys_step.pause [where r = demo_run]) (simp add: demo_system_def)
  then show ?thesis by (intro sys_steps_one) simp
qed

lemmas demo_paused = sys_steps.more [OF demo_cancel demo_pause]

lemma demo_cancelled:
  "dbTasks (snd (Cancel ''t1'' demo_db)) = [demo_row\<lparr>tStatus := Cancelled, tStop := Some StopCancelled\<rparr>]"
  by (simp add: Cancel_def find_task_def some_task_def cancellable_def update_task_def demo_db_def demo_row_def
      demo_task_def task.defs)

text \<open>
  Whatever processes and lawyers do, in whatever order, a task's status only moves along the
  life of a task: queued to running, running to a gate or to its failure, a gate back to running or
  to completion, and any of these to cancelled; and a lease is held only on a running task or one
  cancelled under its process.
\<close>

theorem status_moves:
  assumes "sys_step cfg fmt0 S a S'" and "db_ok (sysDb S)" and "t \<in> set (dbTasks (sysDb S))"
  shows "(\<exists>t' \<in> set (dbTasks (sysDb S')). tID t' = tID t \<and> tStatus t' \<in> successors (tStatus t))
    \<and> db_ok (sysDb S')"
  using sys_step_evolves [OF assms(1,2)] assms(3) by (auto simp: db_evolves_def row_evolves_def)

theorem status_moves_witness:
  "\<exists>t' \<in> set (dbTasks (snd (Cancel ''t1'' demo_db))). tID t' = ''t1'' \<and> tStatus t' \<in> successors Running"
  using status_moves [OF demo_cancel demo_ok, of demo_row]
  by (simp add: demo_system_def demo_db_def demo_row_def demo_task_def task.defs)

text \<open>
  C6. What has ended stays ended and what is settled stays settled: along any run of the system a
  complete, failed or cancelled task keeps its status, stop reason, output and error, every task keeps
  the snapshot of the specifications it was submitted with, and a step that was committed, refused or
  failed keeps its record, unchanged, so a resumed run never does it again.
\<close>

theorem ended_stays_ended:
  assumes "sys_steps cfg fmt0 S acts S'" and "db_ok (sysDb S)"
  shows "(\<forall>t \<in> set (dbTasks (sysDb S)). \<exists>t' \<in> set (dbTasks (sysDb S')). tID t' = tID t \<and> tSpecs t' = tSpecs t
      \<and> (terminal (tStatus t) \<longrightarrow> tStatus t' = tStatus t \<and> tStop t' = tStop t \<and> tOutput t' = tOutput t \<and> tError t' = tError t))
    \<and> (\<forall>tid n s. find_step (dbSteps (sysDb S)) tid n = Some s \<longrightarrow> Status s \<noteq> Started \<longrightarrow>
         find_step (dbSteps (sysDb S')) tid n = Some s)"
proof (intro conjI ballI)
  note kept = sys_steps_kept [OF assms]
  show "\<exists>t' \<in> set (dbTasks (sysDb S')). tID t' = tID t \<and> tSpecs t' = tSpecs t
      \<and> (terminal (tStatus t) \<longrightarrow> tStatus t' = tStatus t \<and> tStop t' = tStop t \<and> tOutput t' = tOutput t \<and> tError t' = tError t)"
    if "t \<in> set (dbTasks (sysDb S))" for t
    using kept that by (fastforce simp: row_kept_def)
  show "\<forall>tid n s. find_step (dbSteps (sysDb S)) tid n = Some s \<longrightarrow> Status s \<noteq> Started \<longrightarrow>
      find_step (dbSteps (sysDb S')) tid n = Some s"
    using kept by (simp add: log_grows_def)
qed

theorem ended_stays_ended_witness:
  "\<exists>t' \<in> set (dbTasks (pauseForGate ''p2'' ''t1'' (snd (Cancel ''t1'' demo_db)))). tID t' = ''t1'' \<and> tStatus t' = Cancelled"
  using ended_stays_ended [OF demo_pause sys_step_ok [OF demo_cancel demo_ok]]
  by (simp add: demo_cancelled terminal_def) (auto simp: demo_row_def demo_task_def task.defs)

text \<open>
  C8. A process that lost its lease is fenced off: however long it goes on and whatever happens
  meanwhile, until it claims again no record of its steps writes anything, and each one gives an error.
\<close>

theorem stale_process_is_fenced:
  assumes "sys_steps cfg fmt0 S acts S'" and "db_ok (sysDb S)" and "\<not> holds_lease p tid (sysDb S)"
    and "Claimed p \<notin> set acts" and "tID (ruTask r) = tid"
  shows "fst (Record_step cfg fmt0 p flt tx s r (sysDb S')) \<noteq> None
    \<and> snd (snd (Record_step cfg fmt0 p flt tx s r (sysDb S'))) = sysDb S'"
proof -
  have no: "\<not> holds_lease p tid (sysDb S')" by (rule sys_steps_no_lease [OF assms(1,2,4,3)])
  have "record_tx p r s (ruBuf r) (sysDb S') = Inl errLease"
    using no assms(5) by (simp add: record_tx_def)
  then show ?thesis by (auto simp: Record_step_def record_end_def record_tx_recording split: tx_end.splits)
qed

theorem stale_process_is_fenced_witness:
  "fst (Record_step demo_config (\<lambda>_. []) ''p2'' no_faults TxCommitted demo_step demo_run
     (pauseForGate ''p2'' ''t1'' (snd (Cancel ''t1'' demo_db)))) \<noteq> None"
proof -
  have "\<not> holds_lease ''p2'' ''t1'' (sysDb demo_system)"
    by (simp add: holds_lease_def demo_system_def demo_db_def demo_row_def demo_task_def task.defs)
  then show ?thesis
    using stale_process_is_fenced [OF demo_paused demo_ok, of "''p2''" "''t1''" demo_run no_faults TxCommitted demo_step]
    by (simp add: demo_record)
qed

end
