(* ===== verification/Resume.thy ===== *)
theory Resume
  imports Lifecycle
begin

text \<open>
  What a resumed run has spent, and what a decision does: the accounting of the first transaction of
  \<^verbatim>\<open>execute\<close> and the gates of \<^verbatim>\<open>Decide\<close>.
\<close>

section \<open>What a resumed run has spent\<close>

text \<open>What a row of the step log costs its task: its usage once settled, its whole grant while it
  is in flight.\<close>

definition step_cost :: "step \<Rightarrow> usage" where
  "step_cost s = (if Status s = Started then grant_usage (Grant s) else sUsage s)"

text \<open>What a task has cost, in the order of its log: what crashes lost, and every step.\<close>

definition task_cost :: "string \<Rightarrow> db \<Rightarrow> usage" where
  "task_cost tid D =
     foldl usage_add (case find_task tid D of Some t \<Rightarrow> tLost t | None \<Rightarrow> no_usage)
       (map step_cost (map snd (filter (\<lambda>(t, s). t = tid) (dbSteps D))))"

lemma usage_add_comm: "usage_add u v = usage_add v u"
  by (simp add: usage_add_def)

lemma usage_add_left: "usage_add u (usage_add v w) = usage_add v (usage_add u w)"
  by (simp add: usage_add_def)

lemmas usage_ac = usage_add_assoc usage_add_comm usage_add_left

lemma total_usage_Nil [simp]: "total_usage [] = no_usage"
  by (simp add: total_usage_def)

lemma foldl_usage: "foldl usage_add v us = usage_add v (total_usage us)"
proof (induction us arbitrary: v)
  case (Cons w us)
  have "total_usage (w # us) = usage_add w (total_usage us)"
    unfolding total_usage_def using Cons.IH [of w] by (simp add: total_usage_def)
  then show ?case using Cons.IH [of "usage_add v w"] by (simp add: usage_add_assoc)
qed simp

lemma total_usage_Cons [simp]: "total_usage (u # us) = usage_add u (total_usage us)"
  using foldl_usage [of u us] by (simp add: total_usage_def)

lemma total_usage_append [simp]: "total_usage (us @ vs) = usage_add (total_usage us) (total_usage vs)"
  by (induction us) (simp_all add: usage_add_assoc)

lemma total_usage_insort: "total_usage (map c (insort_key f x xs)) = usage_add (c x) (total_usage (map c xs))"
  by (induction xs) (simp_all add: usage_add_left)

lemma total_usage_sort: "total_usage (map c (sort_key f xs)) = total_usage (map c xs)"
  by (induction xs) (simp_all add: total_usage_insort)

lemma total_usage_split:
  "total_usage (map c xs) = usage_add (total_usage (map c (filter P xs))) (total_usage (map c (filter (\<lambda>x. \<not> P x) xs)))"
proof (induction xs)
  case (Cons x xs)
  then show ?case by (cases "P x") (simp_all add: usage_add_left usage_add_assoc)
qed simp

text \<open>The settled and the unsettled part of a log.\<close>

lemma settled_cost: "total_usage (map step_cost (settled ss)) = total_usage (map sUsage (settled ss))"
  by (rule arg_cong [where f = total_usage]) (simp add: settled_def step_cost_def)

lemma unsettled_cost: "lost_after l ss = usage_add l (total_usage (map step_cost (filter (\<lambda>s. Status s = Started) ss)))"
proof -
  have "map step_cost (filter (\<lambda>s. Status s = Started) ss) = map (\<lambda>s. grant_usage (Grant s)) (filter (\<lambda>s. Status s = Started) ss)"
    by (rule map_cong) (auto simp: step_cost_def)
  then show ?thesis unfolding lost_after_def foldl_usage by (simp only:)
qed

lemma log_cost:
  "usage_add (total_usage (map sUsage (settled ss))) (lost_after l ss) = usage_add l (total_usage (map step_cost ss))"
proof -
  have "total_usage (map step_cost ss) =
      usage_add (total_usage (map step_cost (settled ss))) (total_usage (map step_cost (filter (\<lambda>s. Status s = Started) ss)))"
    using total_usage_split [of step_cost ss "\<lambda>s. Status s \<noteq> Started"] by (simp add: settled_def)
  then show ?thesis by (simp add: settled_cost unsettled_cost usage_ac)
qed

lemma task_cost_eq:
  "find_task tid D = Some t \<Longrightarrow> task_cost tid D = usage_add (tLost t) (total_usage (map step_cost (task_steps tid D)))"
  by (simp add: task_cost_def foldl_usage task_steps_def total_usage_sort flip: map_map)

lemma settled_settled [simp]: "settled (settled ss) = settled ss"
  by (simp add: settled_def)

lemma lost_after_settled [simp]: "lost_after l (settled ss) = l"
  by (simp add: lost_after_def settled_def)

lemma task_steps_dropped:
  "task_steps tid (D\<lparr>dbSteps := filter (\<lambda>(t, s). \<not> (t = tid \<and> Status s = Started)) (dbSteps D)\<rparr>) = settled (task_steps tid D)"
proof -
  have "map snd (filter (\<lambda>(t, s). t = tid) (filter (\<lambda>(t, s). \<not> (t = tid \<and> Status s = Started)) L))
      = settled (map snd (filter (\<lambda>(t, s). t = tid) L))" for L :: "(string \<times> step) list"
    by (induction L) (auto simp: settled_def)
  then show ?thesis by (simp add: task_steps_def settled_def filter_sort)
qed

lemma find_task_update:
  assumes "\<And>t. tID (f t) = tID t"
  shows "find_task tid (update_task tid (\<lambda>_. True) f D) = map_option f (find_task tid D)"
proof -
  have "find (\<lambda>t. tID t = tid) (map (\<lambda>t. if tID t = tid then f t else t) ts)
      = map_option f (find (\<lambda>t. tID t = tid) ts)" for ts :: "task_row list"
    using assms by (induction ts) auto
  then show ?thesis by (simp add: find_task_def update_task_def)
qed

lemma task_steps_update [simp]: "task_steps tid (update_task x P f D) = task_steps tid D"
  by (simp add: task_steps_def)

lemma find_task_steps [simp]: "find_task tid (D\<lparr>dbSteps := L\<rparr>) = find_task tid D"
  "find_task tid (D\<lparr>dbLedger := M\<rparr>) = find_task tid D" "find_task tid (mark_noted x D) = find_task tid D"
  by (simp_all add: find_task_def)

lemma no_started:
  "settled (task_steps tid D) = task_steps tid D \<longleftrightarrow> (\<forall>(t, s) \<in> set (dbSteps D). t = tid \<longrightarrow> Status s \<noteq> Started)"
proof -
  have "settled ss = ss \<longleftrightarrow> (\<forall>s \<in> set ss. Status s \<noteq> Started)" for ss
    by (simp add: settled_def filter_id_conv)
  then show ?thesis by (auto simp: task_steps_def)
qed

definition demo_crashed :: db where
  "demo_crashed = demo_db\<lparr>dbSteps := [(''t1'', demo_step\<lparr>sUsage := no_usage\<lparr>uCalls := 2\<rparr>\<rparr>),
     (''t1'', demo_step\<lparr>N := 2, Status := Started, Grant := \<lparr>Calls = 5, USD = 1\<rparr>\<rparr>)]\<rparr>"

text \<open>
  C9. A crash costs at most what was granted, and nothing is charged twice: a resumed run starts
  from exactly what its task has cost, the settled steps at their usage and the steps that were in
  flight at their whole grant; dropping those moves their grants to what was lost and changes no
  total; and resuming again (a crash while resuming) finds the same total and changes nothing.
\<close>

theorem recover_charges_once:
  assumes "recover tid D = Inr (re, D')"
  shows "reSpent re = task_cost tid D \<and> task_cost tid D' = task_cost tid D
    \<and> (\<forall>(t, s) \<in> set (dbSteps D'). t = tid \<longrightarrow> Status s \<noteq> Started)
    \<and> recover tid D' = Inr (re, D')"
proof -
  obtain t where t: "find_task tid D = Some t"
    using assms by (auto simp: recover_def split: option.splits)
  define ss where "ss = task_steps tid D"
  define l where "l = lost_after (tLost t) ss"
  have re: "re = \<lparr>reSpent = usage_add (total_usage (map sUsage (settled ss))) l, reReplay = settled ss\<rparr>"
    using assms t by (auto simp: recover_def Let_def ss_def l_def split: if_splits)
  have cost: "task_cost tid D = reSpent re"
    using t log_cost [of ss "tLost t"] by (simp add: re task_cost_eq ss_def l_def)
  show ?thesis
  proof (cases "settled ss = ss")
    case True
    then have "D' = D" using assms t by (simp add: recover_def Let_def ss_def)
    then show ?thesis using assms cost True by (simp add: ss_def no_started [symmetric])
  next
    case False
    then have D': "D' = update_task tid (\<lambda>_. True) (\<lambda>t. t\<lparr>tLost := l\<rparr>)
        (D\<lparr>dbSteps := filter (\<lambda>(t, s). \<not> (t = tid \<and> Status s = Started)) (dbSteps D)\<rparr>)"
      using assms t by (simp add: recover_def Let_def ss_def l_def)
    have steps: "task_steps tid D' = settled ss" by (simp only: D' task_steps_update task_steps_dropped ss_def)
    have task: "find_task tid D' = Some (t\<lparr>tLost := l\<rparr>)" by (simp add: D' find_task_update t)
    have "task_cost tid D' = reSpent re"
      using task_cost_eq [OF task] by (simp add: steps re settled_cost usage_add_comm)
    moreover have "recover tid D' = Inr (re, D')" by (simp add: recover_def task steps re Let_def)
    ultimately show ?thesis using cost steps by (simp add: no_started [symmetric])
  qed
qed

theorem recover_charges_once_witness:
  "(case recover ''t1'' demo_crashed of Inl _ \<Rightarrow> False | Inr (re, D') \<Rightarrow> uCalls (reSpent re) = 7)"
proof -
  have "find_task ''t1'' demo_crashed = Some demo_row"
    by (simp add: find_task_def demo_crashed_def demo_db_def demo_row_def demo_task_def task.defs)
  then obtain re D' where r: "recover ''t1'' demo_crashed = Inr (re, D')"
    by (cases "recover ''t1'' demo_crashed") (auto simp: recover_def Let_def split: if_splits)
  have "uCalls (task_cost ''t1'' demo_crashed) = 7"
    by (simp add: task_cost_def find_task_def demo_crashed_def demo_db_def demo_row_def demo_task_def demo_step_def
        task.defs step_cost_def grant_usage_def)
  then show ?thesis using recover_charges_once [OF r] by (simp add: r)
qed

section \<open>Decisions\<close>

text \<open>What a decision does not touch.\<close>

definition same_decision :: "gate \<Rightarrow> gate \<Rightarrow> bool" where
  "same_decision g h \<longleftrightarrow> gDecision h = gDecision g \<and> gReason h = gReason g \<and> gDecidedBy h = gDecidedBy g \<and> gKind h = gKind g"

lemma find_gate_upsert:
  "find_gate tid x (D\<lparr>dbLedger := upsert True tid kGate gid (DGate g) n (dbLedger D)\<rparr>)
     = (if x = gid then Some g else find_gate tid x D)"
  by (auto simp: find_gate_def committed_upsert map_of_put_row gate_of_def split: option.splits)

lemma find_gate_noted:
  "find_gate tid x D = Some g \<Longrightarrow> \<exists>h. find_gate tid x (mark_noted tid D) = Some h \<and> same_decision g h"
proof -
  have "map_option gate_of (map_of (committed_rows L tid kGate) x) = Some g \<Longrightarrow>
      \<exists>h. map_option gate_of (map_of (committed_rows (map (\<lambda>r. if lrTask r = tid \<and> lrKind r = kGate \<and> unnoted (gate_of (lrData r))
        then r\<lparr>lrData := DGate ((gate_of (lrData r))\<lparr>gNoted := True\<rparr>)\<rparr> else r) L) tid kGate) x) = Some h \<and> same_decision g h" for L
    by (induction L) (auto simp: same_decision_def gate_of_def split: if_splits)
  then show "find_gate tid x D = Some g \<Longrightarrow> \<exists>h. find_gate tid x (mark_noted tid D) = Some h \<and> same_decision g h"
    by (simp add: find_gate_def mark_noted_def)
qed

lemma noted_keys: "fst ` set (committed_rows (dbLedger (mark_noted x D)) tid kind) = fst ` set (committed_rows (dbLedger D) tid kind)"
proof -
  have "fst ` set (committed_rows (map (\<lambda>r. if Q r then r\<lparr>lrData := d r\<rparr> else r) L) tid kind)
      = fst ` set (committed_rows L tid kind)" for Q :: "ledger_row \<Rightarrow> bool" and d L
    by (induction L) (simp_all, blast?)
  then show ?thesis by (simp add: mark_noted_def)
qed

lemma find_gate_noted_None: "find_gate tid x D = None \<Longrightarrow> find_gate tid x (mark_noted tid D) = None"
  by (simp add: find_gate_def map_of_eq_None_iff noted_keys)

lemma find_gate_same [simp]:
  "find_gate tid x (update_task y P f D) = find_gate tid x D"
  "find_gate tid x (resume_task y nt D) = find_gate tid x D"
  by (simp_all add: find_gate_def resume_task_def)

lemma gate_rows_all:
  "distinct (map fst (committed_rows (dbLedger D) tid kGate)) \<Longrightarrow>
     (\<forall>x \<in> set (gate_rows tid D). Q x) \<longleftrightarrow> (\<forall>gid g. find_gate tid gid D = Some g \<longrightarrow> Q g)"
  by (fastforce simp: gate_rows_def find_gate_def map_of_eq_Some_iff)

text \<open>What an accepted decision found and did.\<close>

lemma Decide_accepted:
  assumes "Decide tid gid approve reason now u fault D = (None, D')"
  obtains t g0 D1 where "find_task tid D = Some t" "tStatus t = AwaitingGate" "find_gate tid gid D = Some g0"
    "gDecision g0 = []" "approve \<or> trim_space reason \<noteq> []"
    "D1 = D\<lparr>dbLedger := upsert True tid kGate gid (DGate (decided approve reason now u g0)) 0 (dbLedger D)\<rparr>"
    "(gKind g0 = ''deliverable'' \<and> approve \<and> D' = update_task tid (\<lambda>_. True) (\<lambda>t. t\<lparr>tStatus := Complete\<rparr>) D1)
     \<or> (gKind g0 = ''deliverable'' \<and> \<not> approve \<and> D' = resume_task tid (rejected_note (trim_space reason)) D1)
     \<or> (gKind g0 \<noteq> ''deliverable'' \<and> (\<exists>x \<in> set (gate_rows tid D1). gDecision x = []) \<and> D' = D1)
     \<or> (gKind g0 \<noteq> ''deliverable'' \<and> (\<forall>x \<in> set (gate_rows tid D1). gDecision x \<noteq> [])
        \<and> D' = resume_task tid (gates_note (filter unnoted (gate_rows tid D1))) (mark_noted tid D1))"
  using assms
  by (auto simp: Decide_def decide_tx_def Let_def decided_def split: option.splits if_splits sum.splits)

lemma find_task_resume:
  "find_task tid (resume_task tid nt D) = map_option (\<lambda>t. drop_lease (t\<lparr>tStatus := Running, tStop := None\<rparr>)) (find_task tid D)"
  by (simp add: resume_task_def find_task_update drop_lease_def)

lemma ledger_keys_committed: "db_ok D \<Longrightarrow> distinct (map fst (committed_rows (dbLedger D) tid kGate))"
  by (simp add: db_ok_def ledger_keys_rows)

definition demo_gated :: db where
  "demo_gated = demo_db\<lparr>dbTasks := [drop_lease (demo_row\<lparr>tStatus := AwaitingGate\<rparr>)],
     dbLedger := [\<lparr>lrTask = ''t1'', lrKind = kGate, lrKey = ''G-F1'', lrData = DGate (new_gate ''G-F1'' ''finding'' ''F1''), lrStep = 1\<rparr>]\<rparr>"

lemma demo_gated_ok: "db_ok demo_gated"
  by (simp add: db_ok_def demo_gated_def lease_ok_def drop_lease_def ledger_keys_def)

lemma demo_gated_task: "find_task ''t1'' demo_gated = Some (drop_lease (demo_row\<lparr>tStatus := AwaitingGate\<rparr>))"
  by (simp add: find_task_def demo_gated_def demo_row_def demo_task_def task.defs)

text \<open>
  C12. A gate is decided once, by one person, and what waits for a lawyer waits until every gate is
  decided: an accepted decision found its gate open and its task waiting; the gate then carries that
  decision, its reason and who made it, and every other gate keeps its own; the task completes only
  when its deliverable is approved, and it runs again only when its deliverable was rejected or no
  gate is left undecided.
\<close>

theorem decided_once:
  assumes ok: "db_ok D" and dec: "Decide tid gid approve reason now u fault D = (None, D')"
  shows "(\<exists>t g0. find_task tid D = Some t \<and> tStatus t = AwaitingGate \<and> find_gate tid gid D = Some g0 \<and> gDecision g0 = [])
    \<and> (\<exists>g. find_gate tid gid D' = Some g \<and> gDecision g = (if approve then ''approved'' else ''rejected'')
         \<and> gReason g = trim_space reason \<and> gDecidedBy g = Some u)
    \<and> (\<forall>x g. x \<noteq> gid \<longrightarrow> find_gate tid x D = Some g \<longrightarrow> (\<exists>h. find_gate tid x D' = Some h \<and> same_decision g h))
    \<and> (\<forall>t'. find_task tid D' = Some t' \<longrightarrow>
         (tStatus t' = Complete \<longrightarrow> approve \<and> map_option gKind (find_gate tid gid D') = Some ''deliverable'')
       \<and> (tStatus t' = Running \<longrightarrow> \<not> approve \<and> map_option gKind (find_gate tid gid D') = Some ''deliverable''
            \<or> (\<forall>x g. find_gate tid x D' = Some g \<longrightarrow> gDecision g \<noteq> [])))"
  using dec
proof (rule Decide_accepted)
  fix t g0 D1
  assume t: "find_task tid D = Some t" "tStatus t = AwaitingGate" and g0: "find_gate tid gid D = Some g0" "gDecision g0 = []"
    and D1: "D1 = D\<lparr>dbLedger := upsert True tid kGate gid (DGate (decided approve reason now u g0)) 0 (dbLedger D)\<rparr>"
    and D': "(gKind g0 = ''deliverable'' \<and> approve \<and> D' = update_task tid (\<lambda>_. True) (\<lambda>t. t\<lparr>tStatus := Complete\<rparr>) D1)
     \<or> (gKind g0 = ''deliverable'' \<and> \<not> approve \<and> D' = resume_task tid (rejected_note (trim_space reason)) D1)
     \<or> (gKind g0 \<noteq> ''deliverable'' \<and> (\<exists>x \<in> set (gate_rows tid D1). gDecision x = []) \<and> D' = D1)
     \<or> (gKind g0 \<noteq> ''deliverable'' \<and> (\<forall>x \<in> set (gate_rows tid D1). gDecision x \<noteq> [])
        \<and> D' = resume_task tid (gates_note (filter unnoted (gate_rows tid D1))) (mark_noted tid D1))"
  have gates: "find_gate tid x D1 = (if x = gid then Some (decided approve reason now u g0) else find_gate tid x D)" for x
    unfolding D1 by (rule find_gate_upsert)
  have task: "find_task tid D1 = Some t" using t by (simp add: D1)
  have keep: "\<exists>h. find_gate tid x D' = Some h \<and> same_decision g h \<and> (gDecidedBy h = gDecidedBy g)" if "find_gate tid x D1 = Some g" for x g
    using D' that find_gate_noted [OF that] by (auto simp: same_decision_def)
  have old: "\<exists>h. find_gate tid x D1 = Some h \<and> same_decision h g" if "find_gate tid x D' = Some g" for x g
  proof (cases "find_gate tid x D1")
    case None
    have "find_gate tid x (mark_noted tid D1) = None"
      using None by (rule find_gate_noted_None)
    then show ?thesis using D' that None by (elim disjE) simp_all
  next
    case (Some h)
    then show ?thesis using keep [OF Some] that by (auto simp: same_decision_def)
  qed
  obtain g where g: "find_gate tid gid D' = Some g" "same_decision (decided approve reason now u g0) g"
    using keep [of gid] gates by auto
  have kind: "gKind g = gKind g0" using g(2) by (simp add: same_decision_def decided_def)
  have all: "(\<forall>x \<in> set (gate_rows tid D1). gDecision x \<noteq> []) \<longleftrightarrow> (\<forall>x g. find_gate tid x D1 = Some g \<longrightarrow> gDecision g \<noteq> [])"
    by (rule gate_rows_all) (use ok in \<open>simp add: D1 db_ok_def ledger_keys_rows ledger_keys_upsert\<close>)
  show ?thesis
  proof (intro conjI allI impI)
    show "\<exists>t g0. find_task tid D = Some t \<and> tStatus t = AwaitingGate \<and> find_gate tid gid D = Some g0 \<and> gDecision g0 = []"
      using t g0 by blast
    show "\<exists>g. find_gate tid gid D' = Some g \<and> gDecision g = (if approve then ''approved'' else ''rejected'')
        \<and> gReason g = trim_space reason \<and> gDecidedBy g = Some u"
      using g by (simp add: same_decision_def decided_def)
    show "\<exists>h. find_gate tid x D' = Some h \<and> same_decision g h" if "x \<noteq> gid" "find_gate tid x D = Some g" for x g
      using keep [of x g] gates that by auto
  next
    fix t' assume t': "find_task tid D' = Some t'"
    show "approve" if "tStatus t' = Complete"
      using D' t' task t(2) that by (auto simp: find_task_resume drop_lease_def)
    show "map_option gKind (find_gate tid gid D') = Some ''deliverable''" if "tStatus t' = Complete"
      using D' t' task t(2) that g kind by (auto simp: find_task_resume drop_lease_def)
    show "\<not> approve \<and> map_option gKind (find_gate tid gid D') = Some ''deliverable''
        \<or> (\<forall>x g. find_gate tid x D' = Some g \<longrightarrow> gDecision g \<noteq> [])" if "tStatus t' = Running"
    proof (cases "gKind g0 = ''deliverable''")
      case True
      then show ?thesis using D' t' task that g kind by (auto simp: find_task_update)
    next
      case False
      then have "\<forall>x \<in> set (gate_rows tid D1). gDecision x \<noteq> []" using D' t' task t(2) that by auto
      then show ?thesis using all old by (metis same_decision_def)
    qed
  qed
qed

theorem decided_once_witness:
  "(case Decide ''t1'' ''G-F1'' True [] ''now'' \<lparr>peID = ''u'', peName = ''U'', peEmail = []\<rparr> None demo_gated of
      (e, D') \<Rightarrow> e = None \<and> map_option gDecision (find_gate ''t1'' ''G-F1'' D') = Some ''approved'')"
proof -
  let ?u = "\<lparr>peID = ''u'', peName = ''U'', peEmail = []\<rparr> :: person"
  obtain e D' where r: "Decide ''t1'' ''G-F1'' True [] ''now'' ?u None demo_gated = (e, D')" by (metis prod.exhaust)
  have gate: "find_gate ''t1'' ''G-F1'' demo_gated = Some (new_gate ''G-F1'' ''finding'' ''F1'')"
    by (simp add: find_gate_def demo_gated_def gate_of_def)
  have "e = None"
    using r by (simp add: Decide_def demo_gated_task decide_tx_def gate new_gate_def drop_lease_def Let_def split: if_splits)
  then show ?thesis using decided_once [OF demo_gated_ok, of "''t1''" "''G-F1''" True "[]" "''now''" ?u None D'] r by auto
qed

end
