(* ===== verification/Policy.thy ===== *)
theory Policy
  imports LedgerProofs "HOL-Library.Signed_Division"
begin

text \<open>
  \<^verbatim>\<open>internal/engine/policy.go\<close> and \<^verbatim>\<open>packs.go\<close>: how a task's budget is split by phase, what the
  root budget keeps back, what each class of tools has spent, and the rulebook a lead's call must
  pass.  The specification of a tool gives its class (\<open>cls\<close>); the turns the engine adds to a
  tool's own (\<open>goTurns\<close>), the two decimals of an amount (\<open>fmt2\<close>) and the lower case of a
  text (\<open>lower\<close>) are parameters; the ledger, the step log and the budget are the models of
  the other theories.
\<close>

section \<open>The allocation\<close>

record allocation =
  aPlan :: int
  aEvidence :: int
  aSweep :: int
  aDraft :: int
  aRead :: int
  aCover :: int
  aCycle :: int
  aCritics :: "int list"
  aReserve :: int
  aMeta :: int
  aFixMin :: int
  aCalls :: int
  aUSD :: rat
  aCycleUSD :: rat
  aSweepUSD :: rat
  aReadUSD :: rat

definition readUSDShare :: rat where "readUSDShare = 1 / 10"

definition maxCycles :: nat where "maxCycles = 3"

definition dollars :: "allocation \<Rightarrow> int \<Rightarrow> rat" where
  "dollars a n = aUSD a * of_int n / of_int (max (aCalls a) 1)"

text \<open>\<^verbatim>\<open>Allocate\<close>: Go's integer division cuts towards zero.\<close>

definition Allocate :: "int \<Rightarrow> rat \<Rightarrow> allocation" where
  "Allocate c u =
     (let cyc = min 20 (c sdiv 5);
          a = \<lparr>aPlan = max 3 ((c * 7) sdiv 100), aEvidence = (c * 45) sdiv 100, aSweep = (c * 24) sdiv 100,
               aDraft = (c * 15) sdiv 100, aRead = (c * 6) sdiv 100, aCover = (c * 10) sdiv 100, aCycle = cyc,
               aCritics = [(cyc * 2) sdiv 5, (cyc * 2) sdiv 5, cyc - 2 * ((cyc * 2) sdiv 5)],
               aReserve = 5, aMeta = 3, aFixMin = 3, aCalls = c, aUSD = u, aCycleUSD = u / 5,
               aSweepUSD = 0, aReadUSD = u * readUSDShare\<rparr>
      in a\<lparr>aSweepUSD := max 0 (dollars a (aSweep a + aRead a) - aReadUSD a)\<rparr>)"

definition usdShare :: "allocation \<Rightarrow> string \<Rightarrow> int \<Rightarrow> rat" where
  "usdShare a tool n = (if tool = ''sweep'' then aSweepUSD a else dollars a n)"

definition cycleKeep :: "allocation \<Rightarrow> rat \<Rightarrow> rat" where
  "cycleKeep a most = (if most \<le> 0 then aCycleUSD a else min (aCycleUSD a) (3 / 2 * most))"

definition class_share :: "allocation \<Rightarrow> string \<Rightarrow> string \<Rightarrow> int" where
  "class_share a tool class =
     (if tool = ''sweep'' then aSweep a
      else if class = ''evidence'' then aEvidence a - aCover a
      else if class = ''draft'' then aDraft a
      else 0)"

section \<open>What each class has spent\<close>

type_synonym spend = "(string \<times> usage) list"

definition spent_of :: "spend \<Rightarrow> string \<Rightarrow> usage" where
  "spent_of m k = (case map_of m k of Some u \<Rightarrow> u | None \<Rightarrow> no_usage)"

definition costliest :: string where "costliest = ''max:''"

text \<open>A row of the grouped query: a tool, its settled calls and USD, and its costliest step.\<close>

definition tool_rows :: "string \<Rightarrow> db \<Rightarrow> (string \<times> usage \<times> rat) list" where
  "tool_rows tid D =
     (let ss = filter (\<lambda>s. Status s \<noteq> Started) (map snd (filter (\<lambda>(t, s). t = tid) (dbSteps D)))
      in map (\<lambda>tool. let us = map sUsage (filter (\<lambda>s. sTool s = tool) ss) in
           (tool, no_usage\<lparr>uCalls := sum_list (map uCalls us), uUSD := sum_list (map uUSD us)\<rparr>,
            Max (set (map uUSD us))))
         (remdups (map sTool ss)))"

definition add_spend :: "string \<Rightarrow> usage \<Rightarrow> spend \<Rightarrow> spend" where
  "add_spend k u m = AList.update k (usage_add (spent_of m k) u) m"

definition add_tool :: "(string \<Rightarrow> string) \<Rightarrow> spend \<Rightarrow> string \<times> usage \<times> rat \<Rightarrow> spend" where
  "add_tool cls m row =
     (case row of (tool, u, most) \<Rightarrow>
        foldl (\<lambda>m k. add_spend k u m) (AList.update (costliest @ tool) (no_usage\<lparr>uUSD := most\<rparr>) m)
          ([cls tool, ''*''] @ (if tool = ''sweep'' then [''sweep''] else [])))"

text \<open>\<^verbatim>\<open>readerStats\<close> (\<^verbatim>\<open>figures.go\<close>) and \<^verbatim>\<open>covered\<close> (\<^verbatim>\<open>cover.go\<close>).\<close>

definition readerStats :: "(string \<Rightarrow> err option) \<Rightarrow> db \<Rightarrow> task_run option \<Rightarrow> string \<Rightarrow> (err, reader_stats) result" where
  "readerStats flt D r tid = bind_result (load as_stats (flt kReadStat) D r tid kReadStat)
     (\<lambda>rs. Inr (case rs of [] \<Rightarrow> no_reader_stats | x # _ \<Rightarrow> x))"

definition coverRow :: "(string \<Rightarrow> err option) \<Rightarrow> db \<Rightarrow> task_run option \<Rightarrow> string \<Rightarrow> (err, cover option) result" where
  "coverRow flt D r tid = bind_result (load as_cover (flt kCover) D r tid kCover)
     (\<lambda>cs. Inr (case cs of [] \<Rightarrow> None | c # _ \<Rightarrow> Some c))"

definition covered :: "(string \<Rightarrow> err option) \<Rightarrow> db \<Rightarrow> task_run option \<Rightarrow> string \<Rightarrow> (err, bool) result" where
  "covered flt D r tid = bind_result (coverRow flt D r tid) (\<lambda>c. Inr (c \<noteq> None))"

definition set_calls :: "(int \<Rightarrow> int) \<Rightarrow> string \<Rightarrow> spend \<Rightarrow> spend" where
  "set_calls f k m = AList.update k ((spent_of m k)\<lparr>uCalls := f (uCalls (spent_of m k))\<rparr>) m"

definition classSpend ::
  "(string \<Rightarrow> string) \<Rightarrow> (string \<Rightarrow> err option) \<Rightarrow> db \<Rightarrow> task_run option \<Rightarrow> string \<Rightarrow> (err, spend) result" where
  "classSpend cls flt D r tid =
     (case flt ''task_steps'' of
        Some e \<Rightarrow> Inl e
      | None \<Rightarrow>
          let out = foldl (add_tool cls) [] (tool_rows tid D) in
          bind_result (load as_calls (flt kRead) D r tid kRead) (\<lambda>reads.
          bind_result (readerStats flt D r tid) (\<lambda>st.
            let sw = spent_of out ''sweep'';
                sw' = sw\<lparr>uCalls := max 0 (uCalls sw - uCalls (rsSweep st)), uUSD := max 0 (uUSD sw - uUSD (rsSweep st))\<rparr>;
                out' = AList.update ''read'' (rsSweep st) (AList.update ''sweep'' sw' out)
            in Inr (foldl (\<lambda>m n. set_calls (\<lambda>c. max 0 (c - n)) ''draft'' m) out' reads))))"

section \<open>What the root budget keeps\<close>

text \<open>\<^verbatim>\<open>(*run).keep\<close>: the reserve, the next committee cycle with the coverage pass, the unspent draft.\<close>

definition keep_final :: "allocation \<Rightarrow> grant" where
  "keep_final a = \<lparr>Calls = aReserve a + aMeta a, USD = dollars a (aReserve a + aMeta a)\<rparr>"

definition keep_review :: "allocation \<Rightarrow> rat \<Rightarrow> bool \<Rightarrow> grant" where
  "keep_review a cyc cov = \<lparr>Calls = aCycle a + (if cov then 0 else aCover a), USD = cyc + dollars a (if cov then 0 else aCover a)\<rparr>"

definition keep_work :: "allocation \<Rightarrow> usage \<Rightarrow> grant" where
  "keep_work a d = \<lparr>Calls = max 0 (aDraft a - uCalls d), USD = max 0 (dollars a (aDraft a) - uUSD d)\<rparr>"

definition keep_back :: "allocation \<Rightarrow> spend \<Rightarrow> bool \<Rightarrow> task_run \<Rightarrow> task_run" where
  "keep_back a sp cov r =
     (let cyc = cycleKeep a (uUSD (spent_of sp (costliest @ ''committee'')));
          t1 = Keep (ruBudget r) 0 LevelFinal (keep_final a);
          t2 = Keep t1 0 LevelReview (keep_review a cyc cov);
          t3 = Keep t2 0 LevelWork (keep_work a (spent_of sp ''draft''))
      in r\<lparr>ruCycleUSD := cyc, ruBudget := t3\<rparr>)"

text \<open>\<^verbatim>\<open>(*run).funded\<close>: \<open>held\<close> calls of finish's grant count as free.\<close>

definition funded :: "config \<Rightarrow> task_run \<Rightarrow> int \<Rightarrow> bool \<Rightarrow> bool" where
  "funded cfg r held cov =
     (let n = fst (RemainingBeside (ruBudget r) 0 LevelWork \<lparr>Calls = held, USD = 0\<rparr>);
          a = Allocate (cfgCalls cfg) (cfgUSD cfg);
          cov_usd = (if cov then 0 else dollars a (aCover a));
          cyc = (if ruCycleUSD r \<noteq> 0 then ruCycleUSD r else aCycleUSD a)
      in n \<ge> aFixMin a
         \<and> aUSD a - uUSD (Spent (ruBudget r) 0) - cyc - cov_usd - dollars a (aReserve a + aMeta a) \<ge> dollars a (aFixMin a))"

section \<open>Packs\<close>

record pack =
  pkCode :: string
  pkStatus :: string
  pkReviewedBy :: string
  pkBody :: string
  pkPractice :: bool
  pkChecklist :: "string list"

definition btoi :: "bool \<Rightarrow> nat" where
  "btoi b = (if b then 1 else 0)"

definition pack_selected :: "(string \<Rightarrow> string) \<Rightarrow> string \<Rightarrow> string \<Rightarrow> pack \<Rightarrow> bool" where
  "pack_selected lower jurisdiction practice p \<longleftrightarrow>
     (let j = lower jurisdiction in
      \<not> pkPractice p \<and> (j = pkCode p \<or> has_prefix j (pkCode p @ ''-''))
      \<or> pkPractice p \<and> pkCode p = lower practice)"

text \<open>\<^verbatim>\<open>selectPacks\<close>: jurisdictions before practices, broad before narrow; both sorts are stable, so the
  later key is sorted first.\<close>

definition selectPacks :: "(string \<Rightarrow> string) \<Rightarrow> pack list \<Rightarrow> string \<Rightarrow> string \<Rightarrow> pack list" where
  "selectPacks lower packs jurisdiction practice =
     sort_key (\<lambda>p. btoi (pkPractice p)) (sort_key (\<lambda>p. length (pkCode p)) (filter (pack_selected lower jurisdiction practice) packs))"

definition checklistOf :: "pack list \<Rightarrow> string list" where
  "checklistOf ps = concat (map pkChecklist ps)"

definition candidateLine :: "string \<Rightarrow> ('a \<Rightarrow> string \<times> string) \<Rightarrow> 'a list \<Rightarrow> string" where
  "candidateLine what item xs =
     (let names = map (\<lambda>x. fst (item x)) (filter (\<lambda>x. snd (item x) \<noteq> ''reviewed'') xs) in
      if names = [] then []
      else ''This deliverable used candidate '' @ what @ '' ('' @ str_join names '', '' @ '') that no named lawyer has reviewed yet.'')"

definition candidates :: "pack list \<Rightarrow> string" where
  "candidates ps = candidateLine ''practice or jurisdiction packs'' (\<lambda>p. (pkCode p, pkStatus p)) ps"

section \<open>The rulebook\<close>

definition plan_note :: string where
  "plan_note = ''The lead recorded no plan within its plan budget, so the practice packs' checklist was used as the plan.''"

definition fallback_issue :: "nat \<Rightarrow> string \<Rightarrow> issue" where
  "fallback_issue i it = \<lparr>isID = CHR ''C'' # itoa (int i + 1), isQuestion = it, isClass = ''RedFlag'', isPractice = []\<rparr>"

definition buffer_row :: "string \<Rightarrow> string \<Rightarrow> row_data \<Rightarrow> bool \<Rightarrow> task_run \<Rightarrow> task_run" where
  "buffer_row kind key d upd r = r\<lparr>ruBuf := ruBuf r @ [LedgerOp kind key d upd]\<rparr>"

text \<open>\<^verbatim>\<open>(*run).fallbackPlan\<close>, in a running step: its writes are buffered, which never fails.\<close>

definition plan_items :: "(string \<Rightarrow> string) \<Rightarrow> pack list \<Rightarrow> task \<Rightarrow> string list" where
  "plan_items lower packs t =
     (let items = checklistOf (selectPacks lower packs (tJurisdiction t) []) in
      if items = [] then [tDescription t] else items)"

definition fallbackPlan :: "(string \<Rightarrow> string) \<Rightarrow> pack list \<Rightarrow> task_run \<Rightarrow> task_run" where
  "fallbackPlan lower packs r =
     (let r1 = foldl (\<lambda>r (i, it). buffer_row kIssue (isID (fallback_issue i it)) (DIssue (fallback_issue i it)) False r) r
                 (List.enumerate 0 (plan_items lower packs (ruTask r)))
      in buffer_row kNote ''plan'' (DNote plan_note) False r1)"

definition policy_refusal :: "string \<Rightarrow> string \<Rightarrow> refusal" where
  "policy_refusal reason nxt = \<lparr>rKind = ErrPolicy, Reason = reason, Next = nxt\<rparr>"

definition unread_ledger :: refusal where
  "unread_ledger = policy_refusal ''the task's ledger could not be read'' ''try again''"

definition needs_no_plan :: "string list" where
  "needs_no_plan = [''retrieve'', ''ledger'', ''use_skill'', ''finish'']"

text \<open>P1: the plan comes first, or the packs' checklist once the plan's calls are spent.\<close>

definition plan_first ::
  "(string \<Rightarrow> string) \<Rightarrow> pack list \<Rightarrow> (string \<Rightarrow> err option) \<Rightarrow> db \<Rightarrow> allocation \<Rightarrow> spend \<Rightarrow> spec \<Rightarrow> task_run \<Rightarrow> refusal option \<times> task_run" where
  "plan_first lower packs flt D a sp x r =
     (case load as_issue (flt kIssue) D (Some r) (tID (ruTask r)) kIssue of
        Inl _ \<Rightarrow> (None, r)
      | Inr issues \<Rightarrow>
          if issues = [] \<and> Name x \<notin> set needs_no_plan then
            if uCalls (spent_of sp ''*'') < aPlan a
            then (Some (policy_refusal ''no plan is recorded yet: until it is, only retrieve, ledger and use_skill run''
                    ''call ledger with op plan and the questions the deliverable must answer''), r)
            else (None, fallbackPlan lower packs r)
          else (None, r))"

text \<open>The cap on the lead's committee cycles.\<close>

definition cycle_cap :: "(string \<Rightarrow> err option) \<Rightarrow> db \<Rightarrow> spec \<Rightarrow> task_run \<Rightarrow> refusal option" where
  "cycle_cap flt D x r =
     (if Name x = ''committee'' \<and> ruForced r = [] then
        (case load as_cycle (flt kCycle) D (Some r) (tID (ruTask r)) kCycle of
           Inl _ \<Rightarrow> Some unread_ledger
         | Inr cyc \<Rightarrow>
             if length cyc \<ge> maxCycles
             then Some (policy_refusal (''the committee has reviewed the draft '' @ itoa (int (length cyc)) @ '' times, this run's cap'')
                    ''resolve its open findings (fix them and resolve as fixed, or resolve as disclosed), place the evidence it raised, and finish: the coverage pass reviews a changed draft once more'')
             else None)
      else None)"

text \<open>P4: a class never goes past its share.\<close>

definition class_key :: "spec \<Rightarrow> string" where
  "class_key x = (if Name x = ''sweep'' then ''sweep'' else Class x)"

definition over_share :: "(string \<Rightarrow> int) \<Rightarrow> allocation \<Rightarrow> spec \<Rightarrow> usage \<Rightarrow> bool" where
  "over_share goTurns a x used \<longleftrightarrow>
     (let sh = class_share a (Name x) (Class x) in
      sh > 0 \<and> (Kind x = ''subagent'' \<and> uCalls used + MaxTurns x - goTurns (Name x) > sh
        \<or> uCalls used \<ge> sh \<or> aUSD a > 0 \<and> uUSD used \<ge> usdShare a (Name x) sh))"

definition share_refusal :: "(rat \<Rightarrow> string) \<Rightarrow> allocation \<Rightarrow> spec \<Rightarrow> usage \<Rightarrow> refusal" where
  "share_refusal fmt2 a x used =
     (let sh = class_share a (Name x) (Class x) in
      policy_refusal (Name x @ '''s budget class ('' @ class_key x @ '') has spent '' @ itoa (uCalls used) @ '' of its ''
          @ itoa sh @ '' calls ($'' @ fmt2 (uUSD used) @ '' of $'' @ fmt2 (usdShare a (Name x) sh) @ '')'')
        ''work with what the ledger holds: draft, run committee, or finish'')"

record rules =
  ruLower :: "string \<Rightarrow> string"
  ruPacks :: "pack list"
  ruClass :: "string \<Rightarrow> string"
  ruGoTurns :: "string \<Rightarrow> int"
  ruFmt2 :: "rat \<Rightarrow> string"

text \<open>\<^verbatim>\<open>(policy).Allow\<close>: the refusal, if any, and the run with what the root budget now keeps.\<close>

definition Allow :: "config \<Rightarrow> rules \<Rightarrow> (string \<Rightarrow> err option) \<Rightarrow> db \<Rightarrow> pending \<Rightarrow> task_run \<Rightarrow> refusal option \<times> task_run" where
  "Allow cfg R flt D x r =
     (if pDepth x > 0 \<or> pAgent x \<noteq> ''lead'' then (None, r)
      else
        let a = Allocate (cfgCalls cfg) (cfgUSD cfg);
            tid = tID (ruTask r)
        in (case classSpend (ruClass R) flt D (Some r) tid of
              Inl _ \<Rightarrow> (Some (policy_refusal ''the task's spend could not be read'' ''try again''), r)
            | Inr sp \<Rightarrow>
                (case covered flt D (Some r) tid of
                   Inl _ \<Rightarrow> (Some unread_ledger, r)
                 | Inr cov \<Rightarrow>
                     (case plan_first (ruLower R) (ruPacks R) flt D a sp (pSpec x) (keep_back a sp cov r) of
                        (Some f, r1) \<Rightarrow> (Some f, r1)
                      | (None, r1) \<Rightarrow>
                          (case cycle_cap flt D (pSpec x) r1 of
                             Some f \<Rightarrow> (Some f, r1)
                           | None \<Rightarrow>
                               let used = spent_of sp (class_key (pSpec x)) in
                               (if over_share (ruGoTurns R) a (pSpec x) used
                                then Some (share_refusal (ruFmt2 R) a (pSpec x) used) else None, r1))))))"

section \<open>The allocation adds up\<close>

lemma quotient: "0 \<le> a \<Longrightarrow> 0 \<le> b \<Longrightarrow> a sdiv b = a div (b :: int)"
  by (cases "a = 0 \<or> b = 0") (auto simp: signed_divide_int_def)

lemma hundredth: "100 * (a div 100) \<le> a" "a < 100 * (a div 100) + 100" for a :: int
  by presburger+

lemma fifth: "5 * (a div 5) \<le> a" "0 \<le> a \<Longrightarrow> 0 \<le> a div 5" for a :: int
  by presburger+

lemma Allocate_fields:
  assumes "0 \<le> c"
  shows "aPlan (Allocate c u) = max 3 ((c * 7) div 100)" "aEvidence (Allocate c u) = (c * 45) div 100"
    "aSweep (Allocate c u) = (c * 24) div 100" "aDraft (Allocate c u) = (c * 15) div 100"
    "aRead (Allocate c u) = (c * 6) div 100" "aCover (Allocate c u) = (c * 10) div 100"
    "aCycle (Allocate c u) = min 20 (c div 5)" "aReserve (Allocate c u) = 5" "aMeta (Allocate c u) = 3"
  using assms by (simp_all add: Allocate_def Let_def quotient)

lemma critic_shares: "0 \<le> k \<Longrightarrow> 0 \<le> (k * 2) div 5" "0 \<le> k \<Longrightarrow> 2 * ((k * 2) div 5) \<le> k" for k :: int
  by presburger+

lemma phases_sum:
  "62 \<le> c \<Longrightarrow> 100 * p \<le> c * 7 \<Longrightarrow> 100 * e \<le> c * 45 \<Longrightarrow> 100 * d \<le> c * 15 \<Longrightarrow> 5 * k \<le> c \<Longrightarrow>
     max 3 p + e + d + min 20 k + 5 + 3 \<le> c" for c p e d k :: int
  by (cases "3 \<le> p"; cases "20 \<le> k") (simp_all add: max_def min_def)

lemma evidence_sum:
  "100 * s \<le> c * 24 \<Longrightarrow> 100 * r \<le> c * 6 \<Longrightarrow> 100 * v \<le> c * 10 \<Longrightarrow> c * 45 < 100 * e + 100 \<Longrightarrow> 0 \<le> c \<Longrightarrow>
     s + r + v \<le> e" for s r v e c :: int
  by simp

text \<open>
  The phases of a task's budget fit into it together: for 62 calls or more, planning, evidence,
  drafting, one committee cycle, the reserve and the meta note never ask for more calls than there
  are; the sweep, its reader and the coverage pass fit into the evidence share; the three critics use
  exactly the cycle; and for a budget of money the sweep and its reader spend at most their part of it.
\<close>

theorem Allocate_fits:
  assumes "62 \<le> c" and "0 \<le> u"
  shows "(let a = Allocate c u in
      aPlan a + aEvidence a + aDraft a + aCycle a + aReserve a + aMeta a \<le> c
    \<and> aSweep a + aRead a + aCover a \<le> aEvidence a
    \<and> sum_list (aCritics a) = aCycle a \<and> (\<forall>n \<in> set (aCritics a). 0 \<le> n)
    \<and> 0 \<le> aSweepUSD a \<and> aSweepUSD a + aReadUSD a = dollars a (aSweep a + aRead a)
    \<and> dollars a c = u)"
proof -
  have c0: "0 \<le> c" using assms(1) by simp
  note fields = Allocate_fields [OF c0]
  have d: "aSweep (Allocate c u) + aRead (Allocate c u) = (c * 24) div 100 + (c * 6) div 100"
    unfolding fields by (rule refl)
  have n: "c \<le> 10 * ((c * 24) div 100 + (c * 6) div 100)" 
  proof -
    define x y where "x = (c * 24) div 100" and "y = (c * 6) div 100"
    have "c * 24 < 100 * x + 100" "c * 6 < 100 * y + 100"
      unfolding x_def y_def by (rule hundredth)+
    then have "30 * c < 100 * (x + y) + 200" by simp
    then have "c \<le> 10 * (x + y)" using assms(1) by simp
    then show ?thesis by (simp add: x_def y_def)
  qed
  have "u / 10 \<le> u * of_int ((c * 24) div 100 + (c * 6) div 100) / of_int (max c 1)"
  proof -
    have "(of_int c :: rat) \<le> of_int (10 * ((c * 24) div 100 + (c * 6) div 100))"
      using n by (simp only: of_int_le_iff)
    then have "(of_int c :: rat) \<le> 10 * of_int ((c * 24) div 100 + (c * 6) div 100)" by simp
    from mult_left_mono [OF this assms(2)] show ?thesis using assms(1) by (simp add: field_simps max_def)
  qed
  then have usd: "aSweepUSD (Allocate c u) + aReadUSD (Allocate c u) = dollars (Allocate c u) (aSweep (Allocate c u) + aRead (Allocate c u))"
    unfolding d using assms(1) by (simp add: Allocate_def Let_def dollars_def quotient readUSDShare_def)
  have "aPlan (Allocate c u) + aEvidence (Allocate c u) + aDraft (Allocate c u) + aCycle (Allocate c u)
      + aReserve (Allocate c u) + aMeta (Allocate c u) \<le> c"
    unfolding fields by (rule phases_sum [OF assms(1) hundredth(1) hundredth(1) hundredth(1) fifth(1)])
  moreover have "aSweep (Allocate c u) + aRead (Allocate c u) + aCover (Allocate c u) \<le> aEvidence (Allocate c u)"
    unfolding fields by (rule evidence_sum [OF hundredth(1) hundredth(1) hundredth(1) hundredth(2) c0])
  moreover have "sum_list (aCritics (Allocate c u)) = aCycle (Allocate c u)"
    by (simp add: Allocate_def Let_def)
  moreover have "\<forall>n \<in> set (aCritics (Allocate c u)). 0 \<le> n"
  proof -
    have k: "0 \<le> min 20 (c div 5)" using assms(1) by simp
    then have "aCritics (Allocate c u) = [(min 20 (c div 5) * 2) div 5, (min 20 (c div 5) * 2) div 5,
        min 20 (c div 5) - 2 * ((min 20 (c div 5) * 2) div 5)]"
      using assms(1) by (simp add: Allocate_def Let_def quotient)
    then show ?thesis using critic_shares [OF k] by simp
  qed
  moreover have "0 \<le> aSweepUSD (Allocate c u)" by (simp add: Allocate_def Let_def)
  moreover have "dollars (Allocate c u) c = u"
    using assms(1) by (simp add: Allocate_def Let_def dollars_def max_def)
  ultimately show ?thesis using usd by (simp add: Let_def)
qed

theorem Allocate_fits_witness: "aPlan (Allocate 900 11) + aEvidence (Allocate 900 11) + aDraft (Allocate 900 11) \<le> 872"
  using Allocate_fits [of 900 11] by (simp add: Let_def Allocate_def quotient)

section \<open>What an allowed call has passed\<close>

lemma keep_back_same [simp]:
  "ruBuf (keep_back a sp cov r) = ruBuf r" "ruTask (keep_back a sp cov r) = ruTask r"
  "ruForced (keep_back a sp cov r) = ruForced r"
  by (simp_all add: keep_back_def Let_def)

lemma buffer_rows:
  "foldl (\<lambda>r (i, it). buffer_row kind (k i it) (d i it) upd r) r xs
     = r\<lparr>ruBuf := ruBuf r @ map (\<lambda>(i, it). LedgerOp kind (k i it) (d i it) upd) xs\<rparr>"
  by (induction xs arbitrary: r) (auto simp: buffer_row_def)

lemma fallbackPlan_eq:
  "fallbackPlan lower packs r = r\<lparr>ruBuf := ruBuf r
      @ map (\<lambda>(i, it). LedgerOp kIssue (isID (fallback_issue i it)) (DIssue (fallback_issue i it)) False)
          (List.enumerate 0 (plan_items lower packs (ruTask r)))
      @ [LedgerOp kNote ''plan'' (DNote plan_note) False]\<rparr>"
  unfolding fallbackPlan_def Let_def buffer_rows by (simp add: buffer_row_def)

lemma fallbackPlan_same [simp]:
  "ruTask (fallbackPlan lower packs r) = ruTask r" "ruForced (fallbackPlan lower packs r) = ruForced r"
  by (simp_all add: fallbackPlan_eq)

lemma ops_keys_append [simp]: "ops_keys kind (xs @ ys) = ops_keys kind xs \<union> ops_keys kind ys"
  by (induction kind xs rule: ops_keys.induct) auto

lemma ops_keys_map: "ops_keys kind (map (\<lambda>(i, it). LedgerOp kind (k i it) (d i it) upd) xs) = (\<lambda>(i, it). k i it) ` set xs"
  by (induction xs) auto

lemma fallbackPlan_plans: "ops_keys kIssue (ruBuf (fallbackPlan lower packs r)) \<noteq> {}"
proof -
  have "plan_items lower packs (ruTask r) \<noteq> []" by (simp add: plan_items_def Let_def)
  then have "List.enumerate 0 (plan_items lower packs (ruTask r)) \<noteq> []"
    by (cases "plan_items lower packs (ruTask r)") simp_all
  then show ?thesis unfolding fallbackPlan_eq by (simp add: ops_keys_map)
qed

lemma decode_rows_length: "decode_rows dec rs = Inr vs \<Longrightarrow> length vs = length rs"
  by (induction rs arbitrary: vs) (auto split: option.splits)

lemma load_planned:
  assumes "load dec flt D (Some r) tid kind = Inr vs" and "ops_keys kind (ruBuf r) \<noteq> {}"
  shows "vs \<noteq> []"
proof -
  obtain rs where rs: "rows flt D (Some r) tid kind = Inr rs" "decode_rows dec rs = Inr vs"
    using assms(1) by (auto simp: load_def)
  then have "rs = overlay kind (ruBuf r) (committed_rows (dbLedger D) tid kind)"
    by (auto simp: rows_def split: option.splits)
  then have "fst ` set rs = fst ` set (committed_rows (dbLedger D) tid kind) \<union> ops_keys kind (ruBuf r)"
    by (simp only: overlay_keys_set)
  then have "fst ` set rs \<noteq> {}" using assms(2) by (metis Un_empty)
  then show ?thesis using decode_rows_length [OF rs(2)] by auto
qed

lemma plan_first_allows:
  assumes "plan_first lower packs flt D a sp x r = (None, r1)"
  shows "ruTask r1 = ruTask r \<and> ruForced r1 = ruForced r
    \<and> (Name x \<in> set needs_no_plan \<or> load as_issue (flt kIssue) D (Some r1) (tID (ruTask r)) kIssue \<noteq> Inr [])"
  using assms load_planned [OF _ fallbackPlan_plans, of as_issue "flt kIssue" D lower packs r]
  by (auto simp: plan_first_def split: sum.splits if_splits)

lemma load_same_buffer:
  "ruBuf r1 = ruBuf r \<Longrightarrow> load dec f D (Some r1) tid kind = load dec f D (Some r) tid kind"
  by (simp add: load_def rows_def split: option.split)

definition demo_pending :: pending where
  "demo_pending = \<lparr>pTask = ''t1'', pAgent = ''lead'', pDepth = 0,
     pSpec = \<lparr>Name = ''search'', Kind = ''go'', Description = [], In = None, Out = None, Class = ''evidence'', MaxTurns = 0,
       Allowed = [], Role = [], Solo = [], Final = False\<rparr>, pInput = None, pBudget = 0\<rparr>"

definition demo_rules :: rules where
  "demo_rules = \<lparr>ruLower = (\<lambda>s. s), ruPacks = [], ruClass = (\<lambda>_. ''evidence''), ruGoTurns = (\<lambda>_. 0), ruFmt2 = (\<lambda>_. [])\<rparr>"

definition planned_run :: task_run where
  "planned_run = demo_run\<lparr>ruBuf := [LedgerOp kIssue ''I1'' (DIssue (fallback_issue 0 ''q'')) True], ruBudget := NewBudget 400 5 0\<rparr>"



section \<open>What the phases are left\<close>

definition kept_for_later :: "allocation \<Rightarrow> spend \<Rightarrow> bool \<Rightarrow> grant" where
  "kept_for_later a sp cov =
     (let g1 = keep_final a;
          g2 = keep_review a (cycleKeep a (uUSD (spent_of sp (costliest @ ''committee'')))) cov;
          g3 = keep_work a (spent_of sp ''draft'')
      in \<lparr>Calls = Calls g1 + Calls g2 + Calls g3, USD = USD g1 + USD g2 + USD g3\<rparr>)"

lemma keep_back_kept:
  assumes "wf_tree (ruBudget r)" and "ruBudget r \<noteq> []"
  shows "kept_calls (ruBudget (keep_back a sp cov r) ! 0) LevelEvidence = Calls (kept_for_later a sp cov)"
    and "kept_usd (ruBudget (keep_back a sp cov r) ! 0) LevelEvidence = USD (kept_for_later a sp cov)"
proof -
  obtain b bs where b: "ruBudget r = b # bs" using assms(2) by (cases "ruBudget r") auto
  have "length (keep b) = 4" using assms(1) unfolding b wf_tree_def by (force simp: level_defs)
  then obtain k0 k1 k2 k3 where k: "keep b = [k0, k1, k2, k3]"
    by (auto simp: numeral_eq_Suc length_Suc_conv)
  show "kept_calls (ruBudget (keep_back a sp cov r) ! 0) LevelEvidence = Calls (kept_for_later a sp cov)"
    "kept_usd (ruBudget (keep_back a sp cov r) ! 0) LevelEvidence = USD (kept_for_later a sp cov)"
    by (simp_all add: keep_back_def Let_def b Keep_def k kept_calls_def kept_usd_def kept_above_def level_defs
        kept_for_later_def numeral_3_eq_3 numeral_2_eq_2)
qed

lemma keep_back_budget:
  assumes "wf_tree (ruBudget r)" and "ruBudget r \<noteq> []"
  shows "wf_tree (ruBudget (keep_back a sp cov r))" and "0 < length (ruBudget (keep_back a sp cov r))"
    and "raw_calls (ruBudget (keep_back a sp cov r) ! 0) no_grant = raw_calls (ruBudget r ! 0) no_grant"
    and "raw_usd (ruBudget (keep_back a sp cov r) ! 0) no_grant = raw_usd (ruBudget r ! 0) no_grant"
  using assms by (simp_all add: keep_back_def Let_def wf_tree_def Keep_same)

text \<open>
  Evidence can never eat what later phases need: once the policy has set aside the reserve and the
  meta note, the next committee cycle with the coverage pass, and the unspent part of the drafting
  share, and as long as that much is unspent and unheld, no grant at the evidence level, however
  large, leaves less than all of it.
\<close>

theorem evidence_leaves_later_phases:
  assumes "wf_tree (ruBudget r)" and "ruBudget r \<noteq> []"
    and "take_grant (ruBudget (keep_back a sp cov r)) 0 n w LevelEvidence = Inr (t', g)"
    and "Calls (kept_for_later a sp cov) \<le> raw_calls (ruBudget r ! 0) no_grant"
    and "USD (kept_for_later a sp cov) \<le> raw_usd (ruBudget r ! 0) no_grant"
  shows "Calls (kept_for_later a sp cov) \<le> fst (RemainingAt t' 0 LevelFinal)
    \<and> USD (kept_for_later a sp cov) \<le> snd (RemainingAt t' 0 LevelFinal)"
  using take_grant_leaves [OF keep_back_budget(2) [OF assms(1,2)] assms(3)] assms(4,5)
  by (simp only: keep_back_kept [OF assms(1,2)] keep_back_budget [OF assms(1,2)])

theorem evidence_leaves_later_phases_witness:
  "(case take_grant (ruBudget (keep_back (Allocate 400 5) [] False planned_run)) 0 1000 (-1) LevelEvidence of
      Inl _ \<Rightarrow> False
    | Inr (t', g) \<Rightarrow> 128 \<le> fst (RemainingAt t' 0 LevelFinal))"
proof -
  let ?b = "ruBudget (keep_back (Allocate 400 5) [] False planned_run)"
  have r: "wf_tree (ruBudget planned_run)" "ruBudget planned_run \<noteq> []"
    using books_wf [OF books_NewBudget [of 400 5 0]] by (simp_all add: planned_run_def NewBudget_def)
  have kept: "Calls (kept_for_later (Allocate 400 5) [] False) = 128" "USD (kept_for_later (Allocate 400 5) [] False) \<le> 5"
    by (simp_all add: kept_for_later_def keep_final_def keep_review_def keep_work_def cycleKeep_def Allocate_def quotient
        dollars_def spent_of_def Let_def)
  have raw: "raw_calls (ruBudget planned_run ! 0) no_grant = 400" "raw_usd (ruBudget planned_run ! 0) no_grant = 5"
    by (simp_all add: planned_run_def NewBudget_def)
  obtain t' g where take: "take_grant ?b 0 1000 (-1) LevelEvidence = Inr (t', g)"
    using keep_back_kept [OF r, of "Allocate 400 5" "[]" False] keep_back_budget(3,4) [OF r, of "Allocate 400 5" "[]" False] kept raw
    by (auto simp: take_grant_def free_eq Let_def simp del: raw_no_grant)
  show ?thesis using evidence_leaves_later_phases [OF r take] kept raw by (simp add: take)
qed

end
