(* ===== verification/SweepVisits.thy ===== *)
theory SweepVisits
  imports Spending
begin

text \<open>
  The parallel visits of \<^verbatim>\<open>internal/engine/sweep.go\<close>: the launcher of \<^verbatim>\<open>sweepVisits\<close> and up to
  four visits at once over one budget.  A statement that takes the budget's lock, a channel operation
  or a write is one transition, so a run of the relation is one interleaving of the goroutines.
  What a visit's call of \<^verbatim>\<open>extract_facts\<close> does with a grant (its model calls, when it admits its
  findings, its answer) is a function of the visit and the grant.
\<close>

section \<open>The state\<close>

definition sweepWorkers :: nat where "sweepWorkers = 4"

text \<open>\<^verbatim>\<open>type visitRun\<close>.\<close>

record visit_run =
  vrIds :: "string list"
  vrNotes :: "string list"
  vrRan :: bool
  vrBroke :: bool
  vrRefused :: bool
  vrErr :: "err option"

definition no_run :: visit_run where
  "no_run = \<lparr>vrIds = [], vrNotes = [], vrRan = False, vrBroke = False, vrRefused = False, vrErr = None\<rparr>"

text \<open>What a visit's call does: it spends from its grant, and admits its findings at its turn
  (\<^verbatim>\<open>awaitTurn\<close>).  Nested grants charge the visit's grant with everything they spend.\<close>

datatype visit_act = Spend usage | Admit

record visit_call =
  vcActs :: "visit_act list"
  vcErr :: "err option"
  vcIds :: "string list"
  vcNotes :: "string list"
  vcWrite :: "err option"

datatype stage = Acting "visit_act list" | Shut | Ended | Settled

text \<open>A visit launched: its index, its grant, whether it has all that is left (\<^verbatim>\<open>tail\<close>), its call and
  how far it is; \<open>flErr\<close> is what \<^verbatim>\<open>Invoke\<close> returned.\<close>

record flight =
  flVisit :: nat
  flGrant :: nat
  flCalls :: int
  flUSD :: rat
  flTail :: bool
  flCall :: visit_call
  flErr :: "err option"
  flStage :: stage

text \<open>Where the launcher is: at the top of its loop, receiving from \<^verbatim>\<open>fin\<close>, or about to ask for a grant.\<close>

datatype launcher = Looking | Settling | Asking int rat

record sweeping =
  swTree :: tree
  swTodo :: "nat list"
  swSerial :: bool
  swAt :: launcher
  swFlights :: "flight list"
  swOut :: "nat \<Rightarrow> visit_run"
  swAdmitted :: "nat list"
  swRecorded :: "nat list"
  swStop :: bool
  swFailed :: "nat option"
  swCancel :: bool
  swCtx :: bool
  swDone :: "err option option"

section \<open>The launcher\<close>

definition unsettled :: "flight \<Rightarrow> bool" where
  "unsettled f \<longleftrightarrow> flStage f \<noteq> Settled"

definition inflight :: "sweeping \<Rightarrow> nat" where
  "inflight s = length (filter unsettled (swFlights s))"

text \<open>What \<^verbatim>\<open>launch\<close> asks for, \<^const>\<open>None\<close> when it has to settle a visit first.\<close>

definition wish :: "bool \<Rightarrow> nat \<Rightarrow> int \<Rightarrow> rat \<Rightarrow> int \<times> rat \<Rightarrow> (int \<times> rat) option" where
  "wish serial n turns share room =
     (let (fc, fu) = room in
      if serial \<and> n = 0 then Some (min turns fc, fu)
      else if \<not> serial \<and> n < sweepWorkers \<and> (fc \<ge> turns \<and> fu \<ge> share \<or> n = 0) then Some (min turns fc, min share fu)
      else None)"

definition look_step :: "int \<Rightarrow> rat \<Rightarrow> sweeping \<Rightarrow> sweeping" where
  "look_step turns share s =
     (case wish (swSerial s) (inflight s) turns share (Remaining (swTree s) 0) of
        None \<Rightarrow> s\<lparr>swAt := Settling\<rparr>
      | Some (c, u) \<Rightarrow> if c = 0 then s\<lparr>swStop := True, swTodo := tl (swTodo s)\<rparr> else s\<lparr>swAt := Asking c u\<rparr>)"

definition is_tail :: "bool \<Rightarrow> int \<Rightarrow> rat \<Rightarrow> int \<Rightarrow> rat \<Rightarrow> bool" where
  "is_tail serial turns share c u \<longleftrightarrow> c < turns \<or> u < share \<or> serial"

definition launch_step :: "int \<Rightarrow> rat \<Rightarrow> (nat \<Rightarrow> int \<Rightarrow> rat \<Rightarrow> visit_call) \<Rightarrow> int \<Rightarrow> rat \<Rightarrow> sweeping \<Rightarrow> sweeping" where
  "launch_step turns share invoke c u s =
     (case take_grant (swTree s) 0 c u LevelEvidence of
        Inl why \<Rightarrow> s\<lparr>swDone := Some (Some (EBudget why))\<rparr>
      | Inr (t, g) \<Rightarrow>
          let i = hd (swTodo s); r = invoke i c u in
          s\<lparr>swTree := t, swTodo := tl (swTodo s), swAt := Looking,
            swFlights := swFlights s @ [\<lparr>flVisit = i, flGrant = g, flCalls = c, flUSD = u, flTail = is_tail (swSerial s) turns share c u,
              flCall = r, flErr = vcErr r, flStage = Acting (vcActs r)\<rparr>]\<rparr>)"

text \<open>\<^verbatim>\<open>settle\<close>, with the visit received: a run-ending error stops the sweep and cancels the visits in
  flight, unless it is only the cancelling of one that failed before.\<close>

definition set_stage :: "nat \<Rightarrow> stage \<Rightarrow> sweeping \<Rightarrow> sweeping" where
  "set_stage n st s = s\<lparr>swFlights := (swFlights s)[n := (swFlights s ! n)\<lparr>flStage := st\<rparr>]\<rparr>"

definition earliest :: "nat \<Rightarrow> nat option \<Rightarrow> nat" where
  "earliest i failed = (case failed of None \<Rightarrow> i | Some j \<Rightarrow> if i < j then i else j)"

definition settle_step :: "nat \<Rightarrow> sweeping \<Rightarrow> sweeping" where
  "settle_step n s =
     (let i = flVisit (swFlights s ! n); r = swOut s i; s' = (set_stage n Settled s)\<lparr>swAt := Looking\<rparr> in
      if (case vrErr r of Some e \<Rightarrow> is_canceled e | None \<Rightarrow> False) \<and> \<not> swCtx s then s'
      else if (case vrErr r of Some e \<Rightarrow> EndsRun e | None \<Rightarrow> False)
        then s'\<lparr>swFailed := Some (earliest i (swFailed s)), swStop := True, swCancel := True\<rparr>
      else if vrBroke r then s'\<lparr>swStop := True\<rparr> else s')"

text \<open>The serial fallback reads again what a worker's share could not fund.\<close>

definition second_pass :: "nat list \<Rightarrow> sweeping \<Rightarrow> sweeping" where
  "second_pass todo s = s\<lparr>swSerial := True, swTodo := filter (\<lambda>i. vrRefused (swOut s i)) todo\<rparr>"

definition sweep_error :: "sweeping \<Rightarrow> err option" where
  "sweep_error s = (case swFailed s of Some i \<Rightarrow> vrErr (swOut s i) | None \<Rightarrow> None)"

section \<open>A visit\<close>

text \<open>Every visit waits for the one launched before it to end; the first waits for nothing.\<close>

definition its_turn :: "sweeping \<Rightarrow> nat \<Rightarrow> bool" where
  "its_turn s n \<longleftrightarrow> n = 0 \<or> flStage (swFlights s ! (n - 1)) \<in> {Ended, Settled}"

definition spend_step :: "nat \<Rightarrow> usage \<Rightarrow> visit_act list \<Rightarrow> sweeping \<Rightarrow> sweeping" where
  "spend_step n u as s = (set_stage n (Acting as) s)\<lparr>swTree := Charge (swTree s) (flGrant (swFlights s ! n)) u\<rparr>"

definition admit_step :: "nat \<Rightarrow> visit_act list \<Rightarrow> sweeping \<Rightarrow> sweeping" where
  "admit_step n as s = (set_stage n (Acting as) s)\<lparr>swAdmitted := swAdmitted s @ [flVisit (swFlights s ! n)]\<rparr>"

definition return_step :: "nat \<Rightarrow> err option \<Rightarrow> sweeping \<Rightarrow> sweeping" where
  "return_step n e s =
     s\<lparr>swFlights := (swFlights s)[n := (swFlights s ! n)\<lparr>flStage := Shut, flErr := e\<rparr>],
       swTree := Close (swTree s) (flGrant (swFlights s ! n))\<rparr>"

fun acts_usage :: "visit_act list \<Rightarrow> usage" where
  "acts_usage [] = no_usage"
| "acts_usage (Spend u # as) = usage_add u (acts_usage as)"
| "acts_usage (Admit # as) = acts_usage as"

text \<open>A visit's outcome, before its record: \<open>used\<close> is what its grant was charged.\<close>

definition visit_outcome :: "bool \<Rightarrow> visit_call \<Rightarrow> usage \<Rightarrow> err option \<Rightarrow> visit_run" where
  "visit_outcome tail r used e =
     (let b = (case e of Some x \<Rightarrow> is_budget x | None \<Rightarrow> False) in
      \<lparr>vrIds = vcIds r, vrNotes = (if e = None then vcNotes r else []), vrRan = 0 < uCalls used,
       vrBroke = b \<and> tail, vrRefused = b \<and> \<not> tail, vrErr = e\<rparr>)"

definition close_step :: "nat \<Rightarrow> sweeping \<Rightarrow> sweeping" where
  "close_step n s =
     (let f = swFlights s ! n; i = flVisit f;
          r = visit_outcome (flTail f) (flCall f) (Spent (swTree s) (flGrant f)) (flErr f);
          rec = (flErr f = None \<and> \<not> swCancel s) in
      (set_stage n Ended s)\<lparr>swOut := (swOut s)(i := (if rec then r\<lparr>vrErr := vcWrite (flCall f)\<rparr> else r)),
        swRecorded := swRecorded s @ (if rec then [i] else [])\<rparr>)"

section \<open>The interleavings\<close>

definition acting :: "sweeping \<Rightarrow> nat \<Rightarrow> visit_act list \<Rightarrow> bool" where
  "acting s n as \<longleftrightarrow> n < length (swFlights s) \<and> flStage (swFlights s ! n) = Acting as"

definition at_stage :: "sweeping \<Rightarrow> nat \<Rightarrow> stage \<Rightarrow> bool" where
  "at_stage s n st \<longleftrightarrow> n < length (swFlights s) \<and> flStage (swFlights s ! n) = st"

definition launching :: "sweeping \<Rightarrow> launcher \<Rightarrow> bool" where
  "launching s at' \<longleftrightarrow> swAt s = at' \<and> swTodo s \<noteq> [] \<and> swDone s = None"

definition draining :: "sweeping \<Rightarrow> bool" where
  "draining s \<longleftrightarrow> swAt s = Looking \<and> swTodo s = [] \<and> swDone s = None"

inductive visits_step ::
  "int \<Rightarrow> rat \<Rightarrow> (nat \<Rightarrow> int \<Rightarrow> rat \<Rightarrow> visit_call) \<Rightarrow> nat list \<Rightarrow> sweeping \<Rightarrow> sweeping \<Rightarrow> bool"
  for turns :: int and share :: rat and invoke :: "nat \<Rightarrow> int \<Rightarrow> rat \<Rightarrow> visit_call" and visits :: "nat list"
where
  look: "launching s Looking \<Longrightarrow> \<not> swStop s \<Longrightarrow> visits_step turns share invoke visits s (look_step turns share s)"
| skip: "launching s Looking \<Longrightarrow> swStop s \<Longrightarrow> visits_step turns share invoke visits s (s\<lparr>swTodo := tl (swTodo s)\<rparr>)"
| launch: "launching s (Asking c u) \<Longrightarrow> visits_step turns share invoke visits s (launch_step turns share invoke c u s)"
| settle: "launching s Settling \<or> draining s \<Longrightarrow> at_stage s n Ended \<Longrightarrow>
    visits_step turns share invoke visits s (settle_step n s)"
| fallback: "draining s \<Longrightarrow> inflight s = 0 \<Longrightarrow> \<not> swSerial s \<Longrightarrow>
    visits_step turns share invoke visits s (second_pass visits s)"
| finish: "draining s \<Longrightarrow> inflight s = 0 \<Longrightarrow> swSerial s \<Longrightarrow>
    visits_step turns share invoke visits s (s\<lparr>swDone := Some (sweep_error s)\<rparr>)"
| spend: "acting s n (Spend u # as) \<Longrightarrow> visits_step turns share invoke visits s (spend_step n u as s)"
| admit: "acting s n (Admit # as) \<Longrightarrow> its_turn s n \<Longrightarrow> visits_step turns share invoke visits s (admit_step n as s)"
| return: "acting s n [] \<Longrightarrow>
    visits_step turns share invoke visits s (return_step n (vcErr (flCall (swFlights s ! n))) s)"
| abort: "acting s n as \<Longrightarrow> swCancel s \<Longrightarrow> is_canceled e \<Longrightarrow>
    visits_step turns share invoke visits s (return_step n (Some e) s)"
| ended: "at_stage s n Shut \<Longrightarrow> its_turn s n \<or> swCancel s \<Longrightarrow> visits_step turns share invoke visits s (close_step n s)"
| stopped: "\<not> swCtx s \<Longrightarrow> visits_step turns share invoke visits s (s\<lparr>swCtx := True, swCancel := True\<rparr>)"

definition start_sweep :: "int \<Rightarrow> rat \<Rightarrow> nat list \<Rightarrow> sweeping" where
  "start_sweep c u visits =
     \<lparr>swTree = NewBudget c u 0, swTodo = visits, swSerial = False, swAt = Looking, swFlights = [],
      swOut = (\<lambda>_. no_run), swAdmitted = [], swRecorded = [], swStop = False, swFailed = None,
      swCancel = False, swCtx = False, swDone = None\<rparr>"

text \<open>A worker's share of the sweep's USD.\<close>

definition worker_share :: "rat \<Rightarrow> rat" where
  "worker_share u = u / of_nat sweepWorkers"

definition visits_run ::
  "int \<Rightarrow> rat \<Rightarrow> int \<Rightarrow> (nat \<Rightarrow> int \<Rightarrow> rat \<Rightarrow> visit_call) \<Rightarrow> nat list \<Rightarrow> sweeping \<Rightarrow> bool" where
  "visits_run c u turns invoke visits =
     (visits_step turns (worker_share u) invoke visits)\<^sup>*\<^sup>* (start_sweep c u visits)"

section \<open>One at a time\<close>

text \<open>The sweep the code means: each visit alone, with a worker's share while it is there and what is
  left after that, and at the end what a share could not fund with all that is left.\<close>

record alone =
  alCalls :: int
  alUSD :: rat
  alStop :: bool
  alGrants :: "(nat \<times> int \<times> rat) list"
  alOut :: "nat \<Rightarrow> visit_run"
  alAdmitted :: "nat list"
  alRecorded :: "nat list"

definition outcome_alone :: "bool \<Rightarrow> visit_call \<Rightarrow> visit_run" where
  "outcome_alone tail r =
     (let v = visit_outcome tail r (acts_usage (vcActs r)) (vcErr r) in
      if vcErr r = None then v\<lparr>vrErr := vcWrite r\<rparr> else v)"

definition admits :: "visit_act list \<Rightarrow> nat" where
  "admits as = length (filter (\<lambda>a. a = Admit) as)"

definition visit_alone :: "int \<Rightarrow> rat \<Rightarrow> (nat \<Rightarrow> int \<Rightarrow> rat \<Rightarrow> visit_call) \<Rightarrow> bool \<Rightarrow> nat \<Rightarrow> alone \<Rightarrow> alone" where
  "visit_alone turns share invoke serial i a =
     (let c = min turns (alCalls a); u = (if serial then alUSD a else min share (alUSD a)) in
      if alStop a then a
      else if c = 0 then a\<lparr>alStop := True\<rparr>
      else let r = invoke i c u; v = outcome_alone (is_tail serial turns share c u) r; used = acts_usage (vcActs r) in
        \<lparr>alCalls = alCalls a - uCalls used, alUSD = alUSD a - uUSD used, alStop = vrBroke v,
         alGrants = alGrants a @ [(i, c, u)], alOut = (alOut a)(i := v), alAdmitted = alAdmitted a @ replicate (admits (vcActs r)) i,
         alRecorded = alRecorded a @ (if vcErr r = None then [i] else [])\<rparr>)"

definition nothing_read :: "int \<Rightarrow> rat \<Rightarrow> alone" where
  "nothing_read c u = \<lparr>alCalls = c, alUSD = u, alStop = False, alGrants = [], alOut = (\<lambda>_. no_run),
     alAdmitted = [], alRecorded = []\<rparr>"

definition fallback_alone :: "int \<Rightarrow> rat \<Rightarrow> (nat \<Rightarrow> int \<Rightarrow> rat \<Rightarrow> visit_call) \<Rightarrow> nat list \<Rightarrow> alone \<Rightarrow> alone" where
  "fallback_alone turns share invoke visits a =
     fold (visit_alone turns share invoke True) (filter (\<lambda>i. vrRefused (alOut a i)) visits) a"

definition visits_alone :: "int \<Rightarrow> rat \<Rightarrow> int \<Rightarrow> (nat \<Rightarrow> int \<Rightarrow> rat \<Rightarrow> visit_call) \<Rightarrow> nat list \<Rightarrow> alone" where
  "visits_alone c u turns invoke visits =
     fallback_alone turns (worker_share u) invoke visits
       (fold (visit_alone turns (worker_share u) invoke False) visits (nothing_read c u))"

end
