(* ===== verification/SweepProofs.thy ===== *)
theory SweepProofs
  imports SweepVisits
begin

text \<open>
  The parallel sweep is the sweep one visit at a time: whatever the interleaving, each visit gets
  the grant, has the outcome and admits its findings at the place it would have had alone.
\<close>

section \<open>A budget and its grants\<close>

lemma flat_Charge:
  assumes "books t" and g: "0 < g" "g < length t" and par: "parent (t ! g) = Some 0" "parent (t ! 0) = None"
    and op: "\<not> closedB (t ! g)" and u: "usage_nonneg u" "uCalls u \<le> left_calls (t ! g)" "uUSD u \<le> left_usd (t ! g)"
    and i: "i < length t"
  shows "Charge t g u ! i =
    (if i = g then (t ! g)\<lparr>spent := usage_add (spent (t ! g)) u\<rparr>
     else if i = 0 then (t ! 0)\<lparr>heldCalls := heldCalls (t ! 0) - uCalls u, heldUSD := heldUSD (t ! 0) - uUSD u,
       spent := usage_add (spent (t ! 0)) u\<rparr>
     else t ! i)"
proof -
  note wf = books_wf [OF assms(1)] and wf1 = books_wf [OF books_charge_one [OF assms(1) g(2) u(1)]]
  have l: "0 < length t" using g by (cases t) auto
  have "Charge t g u = charge_one (charge_one t g u) 0 u"
    using par g Charge_step [of t g u] Charge_step [of "charge_one t g u" 0 u] charge_one_fields(2) [OF wf g(2) l, of u]
    by simp
  then show ?thesis
    using g i l par op u charge_one_nth [OF wf1, of 0 i u] charge_one_nth [OF wf g(2), of _ u] by (auto simp: min_absorb1)
qed

lemma flat_Close:
  assumes "0 < g" "g < length t" and "parent (t ! g) = Some 0" and "\<not> closedB (t ! g)" and "i < length t"
  shows "Close t g ! i =
    (if i = g then (t ! g)\<lparr>closedB := True\<rparr>
     else if i = 0 then (t ! 0)\<lparr>heldCalls := heldCalls (t ! 0) - left_calls (t ! g), heldUSD := heldUSD (t ! 0) - left_usd (t ! g)\<rparr>
     else t ! i)"
  using assms by (auto simp: Close_release Let_def release_def nth_list_update)

lemma flat_grant:
  assumes "t \<noteq> []" and "keep (t ! 0) = no_keep" and "0 < c" and "0 \<le> u"
    and "c \<le> fst (room_of t 0)" and "u \<le> snd (room_of t 0)"
  shows "take_grant t 0 c u LevelEvidence = Inr (t[0 := (t ! 0)\<lparr>heldCalls := heldCalls (t ! 0) + c, heldUSD := heldUSD (t ! 0) + u\<rparr>]
    @ [fresh (Some 0) c u], length t)"
proof -
  have "free (t ! 0) LevelEvidence = room_of t 0"
    using assms by (simp add: free_eq kept_calls_def kept_usd_def kept_above_def no_keep_def no_grant_def room_of_def prod_eq_iff
        level_defs numeral_3_eq_3)
  then show ?thesis using assms by (simp add: take_grant_def prod_eq_iff Let_def min_absorb1 split: prod.split)
qed

section \<open>The accounts of the flights\<close>

definition running :: "flight \<Rightarrow> bool" where
  "running f \<longleftrightarrow> (case flStage f of Acting as \<Rightarrow> True | _ \<Rightarrow> False)"

definition over :: "flight \<Rightarrow> bool" where
  "over f \<longleftrightarrow> flStage f = Ended \<or> flStage f = Settled"

definition whole :: "flight \<Rightarrow> usage" where
  "whole f = acts_usage (vcActs (flCall f))"

definition to_come :: "flight \<Rightarrow> visit_act list" where
  "to_come f = (case flStage f of Acting as \<Rightarrow> as | _ \<Rightarrow> [])"

definition used_calls :: "flight \<Rightarrow> int" where
  "used_calls f = (if running f then flCalls f else uCalls (whole f))"

definition used_usd :: "flight \<Rightarrow> rat" where
  "used_usd f = (if running f then flUSD f else uUSD (whole f))"

lemmas flight_defs = running_def over_def whole_def to_come_def used_calls_def used_usd_def unsettled_def

definition acts_nonneg :: "visit_act list \<Rightarrow> bool" where
  "acts_nonneg as \<longleftrightarrow> (\<forall>u. Spend u \<in> set as \<longrightarrow> usage_nonneg u)"

lemma acts_nonneg_Cons [simp]:
  "acts_nonneg [] \<longleftrightarrow> True" "acts_nonneg (Spend u # as) \<longleftrightarrow> usage_nonneg u \<and> acts_nonneg as"
  "acts_nonneg (Admit # as) \<longleftrightarrow> acts_nonneg as"
  by (auto simp: acts_nonneg_def)

lemma acts_usage_nonneg: "acts_nonneg as \<Longrightarrow> usage_nonneg (acts_usage as)"
  by (induction as rule: acts_usage.induct) auto

text \<open>A flight's grant in the tree: what it has spent and what is still to come make its whole call.\<close>

definition flight_ok :: "tree \<Rightarrow> nat \<Rightarrow> flight \<Rightarrow> bool" where
  "flight_ok t n f \<longleftrightarrow> flGrant f = Suc n \<and> parent (t ! Suc n) = Some 0 \<and> closedB (t ! Suc n) = (\<not> running f)
     \<and> calls (t ! Suc n) = flCalls f \<and> usd (t ! Suc n) = flUSD f
     \<and> usage_add (spent (t ! Suc n)) (acts_usage (to_come f)) = whole f \<and> flErr f = vcErr (flCall f)
     \<and> acts_nonneg (vcActs (flCall f)) \<and> acts_nonneg (to_come f)
     \<and> uCalls (whole f) \<le> flCalls f \<and> uUSD (whole f) \<le> flUSD f"

definition accounts :: "int \<Rightarrow> rat \<Rightarrow> sweeping \<Rightarrow> bool" where
  "accounts c u s \<longleftrightarrow> (let t = swTree s; fs = swFlights s in
     books t \<and> length t = Suc (length fs) \<and> parent (t ! 0) = None \<and> keep (t ! 0) = no_keep
     \<and> fst (room_of t 0) = c - sum_list (map used_calls fs) \<and> snd (room_of t 0) = u - sum_list (map used_usd fs)
     \<and> 0 \<le> fst (room_of t 0) \<and> 0 \<le> snd (room_of t 0)
     \<and> (\<forall>n < length fs. flight_ok t n (fs ! n)))"

text \<open>A call stays within its grant.\<close>

definition in_grant :: "(nat \<Rightarrow> int \<Rightarrow> rat \<Rightarrow> visit_call) \<Rightarrow> bool" where
  "in_grant invoke \<longleftrightarrow> (\<forall>i c u. 0 < c \<longrightarrow> 0 \<le> u \<longrightarrow> (let xs = vcActs (invoke i c u) in
     acts_nonneg xs \<and> uCalls (acts_usage xs) \<le> c \<and> uUSD (acts_usage xs) \<le> u))"

lemma sum_set_nth:
  fixes f :: "'a \<Rightarrow> 'b::ab_group_add"
  shows "n < length xs \<Longrightarrow> f x = f (xs ! n) \<Longrightarrow> sum_list (map f (xs[n := x])) = sum_list (map f xs)"
  by (simp add: sum_list_map_update)

lemma flight_okD:
  assumes "flight_ok t n f" and "flStage f = Acting as"
  shows "uCalls (acts_usage as) \<le> left_calls (t ! Suc n)" and "uUSD (acts_usage as) \<le> left_usd (t ! Suc n)"
    and "left_calls (t ! Suc n) = flCalls f - uCalls (spent (t ! Suc n))"
    and "left_usd (t ! Suc n) = flUSD f - uUSD (spent (t ! Suc n))"
proof -
  have "usage_add (spent (t ! Suc n)) (acts_usage as) = whole f" and nn: "usage_nonneg (acts_usage as)"
    using assms by (auto simp: flight_ok_def to_come_def acts_usage_nonneg)
  from arg_cong [OF this(1), of uCalls] arg_cong [OF this(1), of uUSD]
  show "uCalls (acts_usage as) \<le> left_calls (t ! Suc n)" "uUSD (acts_usage as) \<le> left_usd (t ! Suc n)"
    "left_calls (t ! Suc n) = flCalls f - uCalls (spent (t ! Suc n))"
    "left_usd (t ! Suc n) = flUSD f - uUSD (spent (t ! Suc n))"
    using assms nn by (auto simp: flight_ok_def left_calls_def left_usd_def usage_nonneg_def)
qed

lemma accounts_spend:
  assumes ok: "accounts c u s" and act: "acting s n (Spend v # as)"
  shows "accounts c u (spend_step n v as s)" and "room_of (swTree (spend_step n v as s)) 0 = room_of (swTree s) 0"
proof -
  let ?t = "swTree s" and ?f = "swFlights s ! n"
  have n: "n < length (swFlights s)" and st: "flStage ?f = Acting (Spend v # as)" using act by (auto simp: acting_def)
  have f: "flight_ok ?t n ?f" and bk: "books ?t" and len: "length ?t = Suc (length (swFlights s))" and p0: "parent (?t ! 0) = None"
    using ok n by (auto simp: accounts_def Let_def)
  have v: "usage_nonneg v" "usage_nonneg (acts_usage as)"
    using f st by (auto simp: flight_ok_def to_come_def acts_usage_nonneg)
  note left = flight_okD [OF f st]
  have nth: "Charge ?t (Suc n) v ! i =
    (if i = Suc n then (?t ! Suc n)\<lparr>spent := usage_add (spent (?t ! Suc n)) v\<rparr>
     else if i = 0 then (?t ! 0)\<lparr>heldCalls := heldCalls (?t ! 0) - uCalls v, heldUSD := heldUSD (?t ! 0) - uUSD v,
       spent := usage_add (spent (?t ! 0)) v\<rparr>
     else ?t ! i)" if "i < length ?t" for i
    by (rule flat_Charge [OF bk]) (use f st n len p0 that left v in \<open>auto simp: flight_ok_def running_def usage_nonneg_def\<close>)
  have g: "flGrant ?f = Suc n" using f by (simp add: flight_ok_def)
  show room: "room_of (swTree (spend_step n v as s)) 0 = room_of ?t 0"
    by (simp add: spend_step_def set_stage_def g room_of_def nth len)
  have "books (Charge ?t (Suc n) v)" using n len v(1) by (intro books_Charge [OF bk]) auto
  moreover have "flight_ok (Charge ?t (Suc n) v) m ((swFlights s)[n := ?f\<lparr>flStage := Acting as\<rparr>] ! m)"
    if m: "m < length (swFlights s)" for m
  proof -
    have "flight_ok ?t m (swFlights s ! m)" using ok m by (simp add: accounts_def Let_def)
    then show ?thesis
      using f st m len v by (auto simp: flight_ok_def nth running_def to_come_def whole_def nth_list_update usage_add_assoc)
  qed
  ultimately show "accounts c u (spend_step n v as s)"
    using ok room n st by (simp add: accounts_def Let_def spend_step_def set_stage_def g nth len sum_set_nth
        used_calls_def used_usd_def running_def whole_def)
qed

lemma accounts_return:
  assumes ok: "accounts c u s" and act: "acting s n []" and e: "e = vcErr (flCall (swFlights s ! n))"
  shows "accounts c u (return_step n e s)"
    and "fst (room_of (swTree s) 0) \<le> fst (room_of (swTree (return_step n e s)) 0)"
    and "snd (room_of (swTree s) 0) \<le> snd (room_of (swTree (return_step n e s)) 0)"
proof -
  let ?t = "swTree s" and ?f = "swFlights s ! n"
  have n: "n < length (swFlights s)" and st: "flStage ?f = Acting []" using act by (auto simp: acting_def)
  have f: "flight_ok ?t n ?f" and bk: "books ?t" and len: "length ?t = Suc (length (swFlights s))"
    using ok n by (auto simp: accounts_def Let_def)
  have nth: "Close ?t (Suc n) ! i =
    (if i = Suc n then (?t ! Suc n)\<lparr>closedB := True\<rparr>
     else if i = 0 then (?t ! 0)\<lparr>heldCalls := heldCalls (?t ! 0) - left_calls (?t ! Suc n), heldUSD := heldUSD (?t ! 0) - left_usd (?t ! Suc n)\<rparr>
     else ?t ! i)" if "i < length ?t" for i
    by (rule flat_Close) (use f st n len that in \<open>auto simp: flight_ok_def running_def\<close>)
  have g: "flGrant ?f = Suc n" using f by (simp add: flight_ok_def)
  have w: "spent (?t ! Suc n) = whole ?f" using f st by (simp add: flight_ok_def to_come_def)
  have left: "left_calls (?t ! Suc n) = flCalls ?f - uCalls (whole ?f)" "left_usd (?t ! Suc n) = flUSD ?f - uUSD (whole ?f)"
    using flight_okD(3,4) [OF f st] w by simp_all
  have room: "fst (room_of (swTree (return_step n e s)) 0) = fst (room_of ?t 0) + (flCalls ?f - uCalls (whole ?f))"
    "snd (room_of (swTree (return_step n e s)) 0) = snd (room_of ?t 0) + (flUSD ?f - uUSD (whole ?f))"
    by (simp_all add: return_step_def g room_of_def nth len left)
  have le: "uCalls (whole ?f) \<le> flCalls ?f" "uUSD (whole ?f) \<le> flUSD ?f" using f by (simp_all add: flight_ok_def)
  then show "fst (room_of ?t 0) \<le> fst (room_of (swTree (return_step n e s)) 0)"
    "snd (room_of ?t 0) \<le> snd (room_of (swTree (return_step n e s)) 0)" by (simp_all add: room)
  have "books (Close ?t (Suc n))" using n len by (intro books_Close [OF bk]) auto
  moreover have "flight_ok (Close ?t (Suc n)) m ((swFlights s)[n := ?f\<lparr>flStage := Shut, flErr := e\<rparr>] ! m)"
    if m: "m < length (swFlights s)" for m
  proof -
    have "flight_ok ?t m (swFlights s ! m)" using ok m by (simp add: accounts_def Let_def)
    then show ?thesis
      using f st m len e by (auto simp: flight_ok_def nth running_def to_come_def whole_def nth_list_update)
  qed
  ultimately show "accounts c u (return_step n e s)"
    using ok room le n st by (simp add: accounts_def Let_def nth len sum_list_map_update used_calls_def used_usd_def
        running_def whole_def return_step_def g)
qed

lemma accounts_launch:
  assumes ok: "accounts c u s" and k: "in_grant invoke" "0 < n" "0 \<le> w" "n \<le> fst (room_of (swTree s) 0)" "w \<le> snd (room_of (swTree s) 0)"
  defines "r \<equiv> invoke (hd (swTodo s)) n w"
  shows "accounts c u (launch_step turns share invoke n w s)"
    and "launch_step turns share invoke n w s = s\<lparr>swTree := swTree (launch_step turns share invoke n w s),
      swTodo := tl (swTodo s), swAt := Looking,
      swFlights := swFlights s @ [\<lparr>flVisit = hd (swTodo s), flGrant = Suc (length (swFlights s)), flCalls = n, flUSD = w,
        flTail = is_tail (swSerial s) turns share n w, flCall = r, flErr = vcErr r, flStage = Acting (vcActs r)\<rparr>]\<rparr>"
    and "room_of (swTree (launch_step turns share invoke n w s)) 0 = (fst (room_of (swTree s) 0) - n, snd (room_of (swTree s) 0) - w)"
proof -
  let ?t = "swTree s" and ?fs = "swFlights s"
  let ?t' = "?t[0 := (?t ! 0)\<lparr>heldCalls := heldCalls (?t ! 0) + n, heldUSD := heldUSD (?t ! 0) + w\<rparr>] @ [fresh (Some 0) n w]"
  let ?f = "\<lparr>flVisit = hd (swTodo s), flGrant = Suc (length ?fs), flCalls = n, flUSD = w,
        flTail = is_tail (swSerial s) turns share n w, flCall = r, flErr = vcErr r, flStage = Acting (vcActs r)\<rparr>"
  have bk: "books ?t" and len: "length ?t = Suc (length ?fs)" and kp: "keep (?t ! 0) = no_keep" and ne: "?t \<noteq> []"
    using ok by (auto simp: accounts_def Let_def)
  have take: "take_grant ?t 0 n w LevelEvidence = Inr (?t', length ?t)"
    using ne kp k(2-5) by (rule flat_grant)
  have s': "launch_step turns share invoke n w s = s\<lparr>swTree := ?t', swTodo := tl (swTodo s), swAt := Looking, swFlights := ?fs @ [?f]\<rparr>"
    unfolding launch_step_def take by (simp add: Let_def r_def len)
  then show "launch_step turns share invoke n w s = s\<lparr>swTree := swTree (launch_step turns share invoke n w s),
      swTodo := tl (swTodo s), swAt := Looking, swFlights := ?fs @ [?f]\<rparr>" by simp
  show room: "room_of (swTree (launch_step turns share invoke n w s)) 0 = (fst (room_of ?t 0) - n, snd (room_of ?t 0) - w)"
    by (simp add: s' room_of_def nth_append ne len)
  have "books ?t'" by (rule books_take_grant [OF bk _ _ take]) (use len k in auto)
  moreover have "flight_ok ?t' (length ?fs) ?f"
    using k by (auto simp: flight_ok_def nth_append len running_def to_come_def whole_def in_grant_def r_def Let_def)
  moreover have "flight_ok ?t' m (?fs ! m)" if m: "m < length ?fs" for m
  proof -
    have "flight_ok ?t m (?fs ! m)" using ok m by (simp add: accounts_def Let_def)
    then show ?thesis using m by (simp add: flight_ok_def nth_append len)
  qed
  ultimately have "flight_ok ?t' m ((?fs @ [?f]) ! m)" if "m < Suc (length ?fs)" for m
    using that by (cases "m = length ?fs") (auto simp: nth_append)
  then show "accounts c u (launch_step turns share invoke n w s)"
    using ok room k \<open>books ?t'\<close> by (simp add: accounts_def Let_def s' len nth_append used_calls_def used_usd_def running_def)
qed

text \<open>The other steps leave the accounts as they are.\<close>

lemma accounts_stage:
  assumes "accounts c u s" and "n < length (swFlights s)" and "swTree s' = swTree s"
    and "swFlights s' = (swFlights s)[n := f]" and "f = (swFlights s ! n)\<lparr>flStage := st\<rparr>"
    and "running f = running (swFlights s ! n)" and "acts_usage (to_come f) = acts_usage (to_come (swFlights s ! n))"
    and "acts_nonneg (to_come f)"
  shows "accounts c u s'"
proof -
  have "flight_ok (swTree s) m ((swFlights s)[n := f] ! m)" if "m < length (swFlights s)" for m
    using assms that by (cases "m = n") (auto simp: accounts_def Let_def flight_ok_def whole_def)
  then show ?thesis
    using assms by (simp add: accounts_def Let_def sum_set_nth used_calls_def used_usd_def whole_def)
qed

lemma accounts_same:
  "accounts c u s \<Longrightarrow> swTree s' = swTree s \<Longrightarrow> swFlights s' = swFlights s \<Longrightarrow> accounts c u s'"
  by (simp add: accounts_def Let_def)

section \<open>What the flights have done\<close>

definition final_run :: "flight \<Rightarrow> visit_run" where
  "final_run f = outcome_alone (flTail f) (flCall f)"

definition put_run :: "flight \<Rightarrow> (nat \<Rightarrow> visit_run) \<Rightarrow> nat \<Rightarrow> visit_run" where
  "put_run f out = out(flVisit f := final_run f)"

definition record_of :: "flight \<Rightarrow> nat list" where
  "record_of f = (if vcErr (flCall f) = None then [flVisit f] else [])"

definition admitted_by :: "flight \<Rightarrow> nat list" where
  "admitted_by f = replicate (admits (vcActs (flCall f)) - admits (to_come f)) (flVisit f)"

text \<open>Visits end in the order they were launched, and what is out, recorded and admitted is what the
  flights that are over make it, in that order.\<close>

definition progress :: "sweeping \<Rightarrow> bool" where
  "progress s \<longleftrightarrow> (let fs = swFlights s in
     (\<forall>n. Suc n < length fs \<longrightarrow> over (fs ! Suc n) \<longrightarrow> over (fs ! n))
     \<and> swOut s = fold put_run (filter over fs) (\<lambda>_. no_run)
     \<and> swRecorded s = concat (map record_of (filter over fs))
     \<and> swAdmitted s = concat (map admitted_by fs)
     \<and> (\<forall>n < length fs. admits (to_come (fs ! n)) \<le> admits (vcActs (flCall (fs ! n))))
     \<and> (\<forall>n < length fs. admitted_by (fs ! n) \<noteq> [] \<longrightarrow> its_turn s n))"

lemma its_turn_over: "its_turn s n \<longleftrightarrow> n = 0 \<or> over (swFlights s ! (n - 1))"
  by (simp add: its_turn_def over_def)

lemma over_before:
  assumes "\<forall>n. Suc n < length fs \<longrightarrow> over (fs ! Suc n) \<longrightarrow> over (fs ! n)" and "over (fs ! m)" and "n \<le> m" and "m < length fs"
  shows "over (fs ! n)"
  using assms(3,2,4) by (induction rule: inc_induct) (use assms(1) in auto)

lemma not_over_after:
  assumes "progress s" and "\<not> over (swFlights s ! n)" and "n < m" and "m < length (swFlights s)"
  shows "\<not> over (swFlights s ! m)" and "admitted_by (swFlights s ! m) = []"
proof -
  have pre: "\<forall>n. Suc n < length (swFlights s) \<longrightarrow> over (swFlights s ! Suc n) \<longrightarrow> over (swFlights s ! n)"
    using assms(1) by (simp add: progress_def Let_def)
  show "\<not> over (swFlights s ! m)" using over_before [OF pre, of m n] assms by auto
  have "n \<le> m - 1" "m - 1 < length (swFlights s)" using assms(3,4) by linarith+
  then have "\<not> over (swFlights s ! (m - 1))" using over_before [OF pre, of "m - 1" n] assms(2) by blast
  then have "\<not> its_turn s m" using assms by (simp add: its_turn_over)
  then show "admitted_by (swFlights s ! m) = []" using assms by (auto simp: progress_def Let_def)
qed

lemma split_at: "n < length xs \<Longrightarrow> xs = take n xs @ xs ! n # drop (Suc n) xs"
  by (rule id_take_nth_drop)

lemma split_set: "n < length xs \<Longrightarrow> xs[n := x] = take n xs @ x # drop (Suc n) xs"
  by (rule upd_conv_take_nth_drop)

text \<open>A step of one flight that is not over keeps its visit, grant and call.\<close>

definition moves :: "sweeping \<Rightarrow> sweeping \<Rightarrow> nat \<Rightarrow> flight \<Rightarrow> bool" where
  "moves s s' n f \<longleftrightarrow> n < length (swFlights s) \<and> swFlights s' = (swFlights s)[n := f]
     \<and> (let f0 = swFlights s ! n in f = f0\<lparr>flStage := flStage f, flErr := flErr f\<rparr> \<and> \<not> over f0 \<and> flStage f \<noteq> Settled)
     \<and> swTodo s' = swTodo s \<and> swSerial s' = swSerial s \<and> swAt s' = swAt s \<and> swStop s' = swStop s
     \<and> swFailed s' = swFailed s \<and> swCancel s' = swCancel s \<and> swCtx s' = swCtx s \<and> swDone s' = swDone s"

lemma movesD:
  assumes "moves s s' n f"
  shows "n < length (swFlights s)" and "swFlights s' = (swFlights s)[n := f]" and "\<not> over (swFlights s ! n)"
    and "flVisit f = flVisit (swFlights s ! n)" and "flCall f = flCall (swFlights s ! n)" and "flTail f = flTail (swFlights s ! n)"
    and "flCalls f = flCalls (swFlights s ! n)" and "flUSD f = flUSD (swFlights s ! n)"
    and "unsettled f" and "unsettled (swFlights s ! n)" and "final_run f = final_run (swFlights s ! n)"
    and "record_of f = record_of (swFlights s ! n)" and "whole f = whole (swFlights s ! n)"
proof -
  obtain st e where f: "f = (swFlights s ! n)\<lparr>flStage := st, flErr := e\<rparr>"
    using assms unfolding moves_def Let_def by blast
  show "n < length (swFlights s)" "swFlights s' = (swFlights s)[n := f]" "\<not> over (swFlights s ! n)" "unsettled f"
    "unsettled (swFlights s ! n)"
    using assms by (auto simp: moves_def Let_def over_def unsettled_def)
  show "flVisit f = flVisit (swFlights s ! n)" "flCall f = flCall (swFlights s ! n)" "flTail f = flTail (swFlights s ! n)"
    "flCalls f = flCalls (swFlights s ! n)" "flUSD f = flUSD (swFlights s ! n)" "final_run f = final_run (swFlights s ! n)"
    "record_of f = record_of (swFlights s ! n)" "whole f = whole (swFlights s ! n)"
    by (simp_all add: f final_run_def record_of_def whole_def)
qed

lemma moves_spend: "acting s n (Spend v # as) \<Longrightarrow> moves s (spend_step n v as s) n ((swFlights s ! n)\<lparr>flStage := Acting as\<rparr>)"
  by (simp add: acting_def moves_def spend_step_def set_stage_def over_def Let_def)

lemma moves_admit: "acting s n (Admit # as) \<Longrightarrow> moves s (admit_step n as s) n ((swFlights s ! n)\<lparr>flStage := Acting as\<rparr>)"
  by (simp add: acting_def moves_def admit_step_def set_stage_def over_def Let_def)

lemma moves_return: "acting s n as \<Longrightarrow> moves s (return_step n e s) n ((swFlights s ! n)\<lparr>flStage := Shut, flErr := e\<rparr>)"
  by (simp add: acting_def moves_def return_step_def over_def Let_def)

lemma moves_end: "at_stage s n Shut \<Longrightarrow> moves s (close_step n s) n ((swFlights s ! n)\<lparr>flStage := Ended\<rparr>)"
  by (simp add: at_stage_def moves_def close_step_def set_stage_def over_def Let_def)

lemma progress_moves:
  assumes "progress s" and mv: "moves s s' n f" and "\<not> over f" and "swOut s' = swOut s" and "swRecorded s' = swRecorded s"
    and le: "admits (to_come f) \<le> admits (to_come (swFlights s ! n))"
    and adm: "swAdmitted s' = swAdmitted s @ replicate (admits (to_come (swFlights s ! n)) - admits (to_come f)) (flVisit f)"
    and turn: "admitted_by f \<noteq> [] \<Longrightarrow> its_turn s n"
  shows "progress s'"
proof -
  let ?fs = "swFlights s"
  note m = movesD [OF mv]
  have bound: "admits (to_come (?fs ! n)) \<le> admits (vcActs (flCall (?fs ! n)))"
    using assms(1) m(1) by (simp add: progress_def Let_def)
  have ov: "over ((?fs[n := f]) ! k) = over (?fs ! k)" if "k < length ?fs" for k
    using that assms(3) m(3) by (cases "k = n") auto
  have filt: "filter over (?fs[n := f]) = filter over ?fs"
    using m(1,3) assms(3) by (simp add: split_set) (subst (3) split_at [OF m(1)], simp)
  have none: "concat (map admitted_by (drop (Suc n) ?fs)) = []"
    using not_over_after(2) [OF assms(1) m(3)] by (auto simp: in_set_conv_nth)
  have adm': "admitted_by f = admitted_by (?fs ! n) @ replicate (admits (to_come (?fs ! n)) - admits (to_come f)) (flVisit f)"
    using bound le by (simp add: admitted_by_def m(4,5) flip: replicate_add)
  have "swAdmitted s = concat (map admitted_by (take n ?fs)) @ admitted_by (?fs ! n)"
  proof -
    have "swAdmitted s = concat (map admitted_by ?fs)" using assms(1) by (simp add: progress_def Let_def)
    then show ?thesis using none by (subst (asm) split_at [OF m(1)]) simp
  qed
  then have "swAdmitted s' = concat (map admitted_by (swFlights s'))"
    using none adm adm' m(1) by (simp add: m(2) split_set)
  moreover have "its_turn s' k" if "k < length ?fs" "admitted_by ((?fs[n := f]) ! k) \<noteq> []" for k
  proof -
    have "its_turn s k"
      using that turn assms(1) m(1) by (cases "k = n") (auto simp: progress_def Let_def)
    then show ?thesis using that(1) ov [of "k - 1"] by (simp add: its_turn_over m(2))
  qed
  moreover have "admits (to_come ((?fs[n := f]) ! k)) \<le> admits (vcActs (flCall ((?fs[n := f]) ! k)))" if "k < length ?fs" for k
    using that assms(1) bound le m(5) by (cases "k = n") (auto simp: progress_def Let_def)
  ultimately show ?thesis
    using assms(1,4,5) ov filt by (simp add: progress_def Let_def m(2))
qed

lemma progress_end:
  assumes pr: "progress s" and ac: "accounts c u s" and st: "at_stage s n Shut" and turn: "its_turn s n" and "\<not> swCancel s"
  shows "progress (close_step n s)"
proof -
  let ?fs = "swFlights s" and ?f = "swFlights s ! n" and ?s' = "close_step n s"
  let ?f' = "?f\<lparr>flStage := Ended\<rparr>"
  have n: "n < length ?fs" and sh: "flStage ?f = Shut" and nov: "\<not> over ?f"
    using st by (auto simp: at_stage_def over_def)
  have ok: "flight_ok (swTree s) n ?f" using ac n by (simp add: accounts_def Let_def)
  then have spent: "Spent (swTree s) (flGrant ?f) = whole ?f" "flErr ?f = vcErr (flCall ?f)"
    using sh by (simp_all add: flight_ok_def to_come_def Spent_def)
  have fs': "swFlights ?s' = ?fs[n := ?f']" by (simp add: close_step_def Let_def set_stage_def)
  have run: "final_run ?f' = (if flErr ?f = None then (visit_outcome (flTail ?f) (flCall ?f) (whole ?f) (flErr ?f))\<lparr>vrErr := vcWrite (flCall ?f)\<rparr>
      else visit_outcome (flTail ?f) (flCall ?f) (whole ?f) (flErr ?f))"
    using spent(2) by (simp add: final_run_def outcome_alone_def whole_def Let_def)
  have s': "swOut ?s' = put_run ?f' (swOut s)" "swRecorded ?s' = swRecorded s @ record_of ?f'" "swAdmitted ?s' = swAdmitted s"
    using assms(5) by (simp_all add: close_step_def Let_def spent run put_run_def record_of_def set_stage_def fun_eq_iff)
  have pre: "\<forall>k. Suc k < length ?fs \<longrightarrow> over (?fs ! Suc k) \<longrightarrow> over (?fs ! k)"
    using pr by (simp add: progress_def Let_def)
  have later: "filter over (drop (Suc n) ?fs) = []"
    using not_over_after(1) [OF pr nov] by (auto simp: filter_empty_conv in_set_conv_nth)
  have filt: "filter over (?fs[n := ?f']) = filter over ?fs @ [?f']"
  proof -
    have "filter over ?fs = filter over (take n ?fs)"
      using arg_cong [OF split_at [OF n], of "filter over"] nov later by simp
    then show ?thesis using n later by (simp add: split_set over_def)
  qed
  have before: "over (?fs ! k)" if "k < n" for k
    using over_before [OF pre, of "n - 1" k] turn that n by (auto simp: its_turn_over)
  have adm: "admitted_by ?f' = admitted_by ?f" and come: "to_come ?f' = []" "to_come ?f = []"
    using sh by (simp_all add: admitted_by_def to_come_def)
  have "map admitted_by (?fs[n := ?f']) = map admitted_by ?fs"
    using n adm by (simp add: map_update list_update_same_conv)
  moreover have "its_turn ?s' k" if "k < length ?fs" "admitted_by ((?fs[n := ?f']) ! k) \<noteq> []" for k
  proof -
    have "its_turn s k" using that pr adm n by (cases "k = n") (auto simp: progress_def Let_def)
    then show ?thesis using that n by (cases "k - 1 = n") (auto simp: its_turn_over fs' over_def)
  qed
  moreover have "over ((?fs[n := ?f']) ! k)" if "Suc k < length ?fs" "over ((?fs[n := ?f']) ! Suc k)" for k
    using that pre before n by (cases "k = n"; cases "Suc k = n") (auto simp: over_def)
  moreover have "admits (to_come ((?fs[n := ?f']) ! k)) \<le> admits (vcActs (flCall ((?fs[n := ?f']) ! k)))" if "k < length ?fs" for k
    using that pr come n by (cases "k = n") (auto simp: progress_def Let_def admits_def)
  ultimately show ?thesis using pr by (simp add: progress_def Let_def fs' s' filt)
qed

text \<open>Replacing an element by one that counts the same.\<close>

lemma map_set: "n < length xs \<Longrightarrow> g x = g (xs ! n) \<Longrightarrow> map g (xs[n := x]) = map g xs"
  by (simp add: map_update list_update_same_conv)

lemma fold_set: "n < length xs \<Longrightarrow> g x = g (xs ! n) \<Longrightarrow> fold g (xs[n := x]) = fold g xs"
  using arg_cong [OF map_set [of n xs g x], of "fold id"] by (simp add: fold_map)

lemma map_filter_set:
  assumes "n < length xs" and "P x" and "P (xs ! n)" and "g x = g (xs ! n)"
  shows "map g (filter P (xs[n := x])) = map g (filter P xs)"
  using assms arg_cong [OF split_at [OF assms(1)], of "\<lambda>xs. map g (filter P xs)"] by (simp add: split_set)

lemma fold_filter_set:
  assumes "n < length xs" and "P x" and "P (xs ! n)" and "g x = g (xs ! n)"
  shows "fold g (filter P (xs[n := x])) = fold g (filter P xs)"
  using arg_cong [OF map_filter_set [OF assms], of "fold id"] by (simp add: fold_map)

section \<open>The flights in the air\<close>

text \<open>A visit in the air is nobody else's, in the air later or to come.\<close>

definition apart :: "sweeping \<Rightarrow> bool" where
  "apart s \<longleftrightarrow> (\<forall>n < length (swFlights s). \<forall>m < n. unsettled (swFlights s ! m) \<longrightarrow>
       flVisit (swFlights s ! m) \<noteq> flVisit (swFlights s ! n))
     \<and> (\<forall>f \<in> set (swFlights s). unsettled f \<longrightarrow> flVisit f \<notin> set (swTodo s)) \<and> distinct (swTodo s)"

definition idle :: "sweeping \<Rightarrow> bool" where
  "idle s \<longleftrightarrow> (\<forall>f \<in> set (swFlights s). \<not> unsettled f)"

lemma inflight_idle: "inflight s = 0 \<longleftrightarrow> idle s"
  by (auto simp: inflight_def idle_def filter_empty_conv)

lemma out_of_ended:
  assumes "progress s" and "apart s" and "at_stage s n Ended"
  shows "swOut s (flVisit (swFlights s ! n)) = final_run (swFlights s ! n)"
proof -
  let ?fs = "swFlights s" and ?f = "swFlights s ! n"
  have n: "n < length ?fs" and ov: "over ?f" "unsettled ?f" using assms(3) by (auto simp: at_stage_def over_def unsettled_def)
  have out: "swOut s = fold put_run (filter over ?fs) (\<lambda>_. no_run)" using assms(1) by (simp add: progress_def Let_def)
  have other: "flVisit g \<noteq> flVisit ?f" if "g \<in> set (filter over (drop (Suc n) ?fs))" for g
  proof -
    from that obtain k where "k < length ?fs - Suc n" "g = ?fs ! (Suc n + k)" by (auto simp: in_set_conv_nth)
    moreover from this(1) have "Suc n + k < length ?fs" "n < Suc n + k" by linarith+
    ultimately show ?thesis using assms(2) ov unfolding apart_def by metis
  qed
  have keep: "fold put_run gs out i = out i" if "\<And>g. g \<in> set gs \<Longrightarrow> flVisit g \<noteq> i" for gs out i
    using that by (induction gs arbitrary: out) (auto simp: put_run_def)
  have "filter over ?fs = filter over (take n ?fs) @ ?f # filter over (drop (Suc n) ?fs)"
    using arg_cong [OF split_at [OF n], of "filter over"] ov by simp
  moreover have "fold put_run (filter over (drop (Suc n) ?fs)) out (flVisit ?f) = out (flVisit ?f)" for out
    by (rule keep) (rule other)
  ultimately show ?thesis by (simp add: out put_run_def)
qed

text \<open>A visit that has all that is left is alone in the air, and what is left besides it is no full grant.\<close>

definition tails :: "int \<Rightarrow> rat \<Rightarrow> sweeping \<Rightarrow> bool" where
  "tails turns share s \<longleftrightarrow> (\<forall>n < length (swFlights s). let f = swFlights s ! n in
     unsettled f \<longrightarrow> flTail f \<longrightarrow> \<not> swSerial s \<longrightarrow>
       (\<forall>m < length (swFlights s). unsettled (swFlights s ! m) \<longrightarrow> m = n)
       \<and> (fst (room_of (swTree s) 0) + used_calls f < turns \<or> snd (room_of (swTree s) 0) + used_usd f < share))"

definition asking :: "int \<Rightarrow> rat \<Rightarrow> sweeping \<Rightarrow> bool" where
  "asking turns share s \<longleftrightarrow> (case swAt s of
     Asking c u \<Rightarrow> (let r = room_of (swTree s) 0 in
       swTodo s \<noteq> [] \<and> 0 < c \<and> 0 \<le> u \<and> c \<le> fst r \<and> u \<le> snd r \<and> \<not> swStop s
       \<and> (idle s \<and> c = min turns (fst r) \<and> u = (if swSerial s then snd r else min share (snd r))
          \<or> \<not> swSerial s \<and> c = turns \<and> u = share \<and> (\<forall>f \<in> set (swFlights s). unsettled f \<longrightarrow> \<not> flTail f)))
   | _ \<Rightarrow> True)"

definition closing :: "sweeping \<Rightarrow> bool" where
  "closing s \<longleftrightarrow> \<not> swCancel s \<and> swFailed s = None
     \<and> (swDone s = None \<or> swDone s = Some None \<and> idle s \<and> swTodo s = [] \<and> swSerial s)"

section \<open>What the flights amount to\<close>

definition amount :: "int \<Rightarrow> rat \<Rightarrow> sweeping \<Rightarrow> alone" where
  "amount c u s = (let fs = swFlights s in
     \<lparr>alCalls = c - sum_list (map (uCalls \<circ> whole) fs), alUSD = u - sum_list (map (uUSD \<circ> whole) fs),
      alStop = (swStop s \<or> (\<exists>f \<in> set fs. unsettled f \<and> vrBroke (final_run f))),
      alGrants = map (\<lambda>f. (flVisit f, flCalls f, flUSD f)) fs,
      alOut = fold put_run fs (\<lambda>_. no_run),
      alAdmitted = concat (map (\<lambda>f. replicate (admits (vcActs (flCall f))) (flVisit f)) fs),
      alRecorded = concat (map record_of fs)\<rparr>)"

definition to_do :: "int \<Rightarrow> rat \<Rightarrow> (nat \<Rightarrow> int \<Rightarrow> rat \<Rightarrow> visit_call) \<Rightarrow> nat list \<Rightarrow> sweeping \<Rightarrow> alone \<Rightarrow> alone" where
  "to_do turns share invoke visits s a =
     (let b = fold (visit_alone turns share invoke (swSerial s)) (swTodo s) a in
      if swSerial s then b else fallback_alone turns share invoke visits b)"

lemma broke_tail: "vrBroke (final_run f) \<Longrightarrow> flTail f"
  by (auto simp: final_run_def outcome_alone_def visit_outcome_def Let_def split: if_splits)

lemma ex_set_set:
  assumes "n < length xs" and "P x = P (xs ! n)"
  shows "(\<exists>y \<in> set (xs[n := x]). P y) = (\<exists>y \<in> set xs. P y)"
  using assms by (metis (no_types, lifting) in_set_conv_nth length_list_update nth_list_update)

lemma amount_moves:
  assumes "moves s s' n f"
  shows "amount c u s' = amount c u s" and "to_do turns share invoke visits s' = to_do turns share invoke visits s"
proof -
  note m = movesD [OF assms] and frame = assms [unfolded moves_def Let_def]
  show "amount c u s' = amount c u s"
    using m frame by (simp add: amount_def Let_def map_set fold_set ex_set_set put_run_def fun_eq_iff)
  show "to_do turns share invoke visits s' = to_do turns share invoke visits s"
    using frame by (simp add: to_do_def fun_eq_iff)
qed

lemma apart_moves:
  assumes "moves s s' n f" and "apart s"
  shows "apart s'"
proof -
  note m = movesD [OF assms(1)]
  have same: "flVisit (swFlights s' ! k) = flVisit (swFlights s ! k)" "unsettled (swFlights s' ! k) = unsettled (swFlights s ! k)"
    "length (swFlights s') = length (swFlights s)" "swTodo s' = swTodo s" for k
    using m assms(1) by (auto simp: nth_list_update moves_def Let_def)
  show ?thesis using assms(2) unfolding apart_def all_set_conv_all_nth same by blast
qed

lemma closing_moves:
  assumes "moves s s' n f" and "closing s"
  shows "closing s'"
  using assms(2) movesD [OF assms(1)] assms(1) [unfolded moves_def Let_def]
  by (auto simp: closing_def idle_def dest: nth_mem)

lemma tails_moves:
  assumes mv: "moves s s' n f" and "tails turns share s" and ac: "accounts c u s" "accounts c u s'"
  shows "tails turns share s'"
proof -
  note m = movesD [OF mv]
  have "fst (room_of (swTree s') 0) + used_calls f = fst (room_of (swTree s) 0) + used_calls (swFlights s ! n)"
    "snd (room_of (swTree s') 0) + used_usd f = snd (room_of (swTree s) 0) + used_usd (swFlights s ! n)"
    using ac m by (simp_all add: accounts_def Let_def sum_list_map_update)
  then show ?thesis
    using assms(2) m mv [unfolded moves_def Let_def] by (auto simp: tails_def Let_def nth_list_update)
qed

lemma asking_moves:
  assumes mv: "moves s s' n f" and "asking turns share s"
    and "fst (room_of (swTree s) 0) \<le> fst (room_of (swTree s') 0)" "snd (room_of (swTree s) 0) \<le> snd (room_of (swTree s') 0)"
  shows "asking turns share s'"
proof -
  note m = movesD [OF mv]
  have "\<not> idle s" using m(1,10) by (auto simp: idle_def)
  moreover have "(\<forall>g \<in> set (swFlights s'). unsettled g \<longrightarrow> \<not> flTail g) = (\<forall>g \<in> set (swFlights s). unsettled g \<longrightarrow> \<not> flTail g)"
    using ex_set_set [of n "swFlights s" "\<lambda>g. unsettled g \<and> flTail g" f] m by auto
  ultimately show ?thesis
    using assms(2-4) mv [unfolded moves_def Let_def] by (auto simp: asking_def Let_def split: launcher.splits)
qed

section \<open>Every step keeps it\<close>

text \<open>What holds along a sweep whose calls stay within their grants, that no error ends and nobody
  stops: the state, and what it will amount to.\<close>

definition sweep_inv :: "int \<Rightarrow> rat \<Rightarrow> int \<Rightarrow> rat \<Rightarrow> (nat \<Rightarrow> int \<Rightarrow> rat \<Rightarrow> visit_call) \<Rightarrow> nat list \<Rightarrow> alone \<Rightarrow> sweeping \<Rightarrow> bool" where
  "sweep_inv c u turns share invoke visits a s \<longleftrightarrow>
     accounts c u s \<and> progress s \<and> apart s \<and> tails turns share s \<and> asking turns share s \<and> closing s
     \<and> (\<forall>f \<in> set (swFlights s). \<exists>i c u. flCall f = invoke i c u)
     \<and> to_do turns share invoke visits s (amount c u s) = a"

definition unending :: "(nat \<Rightarrow> int \<Rightarrow> rat \<Rightarrow> visit_call) \<Rightarrow> bool" where
  "unending invoke \<longleftrightarrow> (\<forall>i c u. (\<forall>e. vcErr (invoke i c u) = Some e \<longrightarrow> \<not> EndsRun e)
     \<and> (\<forall>e. vcWrite (invoke i c u) = Some e \<longrightarrow> \<not> EndsRun e))"

lemma inv_moves:
  assumes inv: "sweep_inv c u turns share invoke visits a s" and mv: "moves s s' n f"
    and "accounts c u s'" and "progress s'"
    and "fst (room_of (swTree s) 0) \<le> fst (room_of (swTree s') 0)" "snd (room_of (swTree s) 0) \<le> snd (room_of (swTree s') 0)"
  shows "sweep_inv c u turns share invoke visits a s'"
proof -
  have "\<exists>i c u. flCall f = invoke i c u"
    using inv movesD(1,5) [OF mv] by (metis nth_mem sweep_inv_def)
  then have "\<forall>g \<in> set (swFlights s'). \<exists>i c u. flCall g = invoke i c u"
    using inv movesD(2) [OF mv] by (auto simp: sweep_inv_def dest!: set_mp [OF set_update_subset_insert])
  moreover have "tails turns share s'"
    using inv by (intro tails_moves [OF mv _ _ assms(3)]) (simp_all add: sweep_inv_def)
  ultimately show ?thesis
    using inv assms(3-6) apart_moves [OF mv] asking_moves [OF mv] closing_moves [OF mv] amount_moves [OF mv]
    by (simp add: sweep_inv_def)
qed

lemma inv_spend:
  assumes inv: "sweep_inv c u turns share invoke visits a s" and act: "acting s n (Spend v # as)"
  shows "sweep_inv c u turns share invoke visits a (spend_step n v as s)"
proof -
  let ?f = "(swFlights s ! n)\<lparr>flStage := Acting as\<rparr>"
  have n: "n < length (swFlights s)" "flStage (swFlights s ! n) = Acting (Spend v # as)" using act by (simp_all add: acting_def)
  note mv = moves_spend [OF act]
  have ac: "accounts c u s" and pr: "progress s" using inv by (simp_all add: sweep_inv_def)
  have "admits (to_come ?f) = admits (to_come (swFlights s ! n))" using n by (simp add: to_come_def admits_def)
  moreover from this have "admitted_by ?f = admitted_by (swFlights s ! n)" by (simp add: admitted_by_def)
  ultimately have "progress (spend_step n v as s)"
    using pr n by (intro progress_moves [OF pr mv]) (auto simp: over_def spend_step_def set_stage_def progress_def Let_def)
  then show ?thesis using accounts_spend [OF ac act] by (intro inv_moves [OF inv mv]) simp_all
qed

lemma inv_admit:
  assumes inv: "sweep_inv c u turns share invoke visits a s" and act: "acting s n (Admit # as)" and turn: "its_turn s n"
  shows "sweep_inv c u turns share invoke visits a (admit_step n as s)"
proof -
  let ?f = "(swFlights s ! n)\<lparr>flStage := Acting as\<rparr>"
  have n: "n < length (swFlights s)" "flStage (swFlights s ! n) = Acting (Admit # as)" using act by (simp_all add: acting_def)
  note mv = moves_admit [OF act]
  have ac: "accounts c u s" and pr: "progress s" using inv by (simp_all add: sweep_inv_def)
  have come: "to_come (swFlights s ! n) = Admit # as" "to_come ?f = as" using n by (simp_all add: to_come_def)
  have "progress (admit_step n as s)"
    using n come turn by (intro progress_moves [OF pr mv]) (auto simp: over_def admit_step_def set_stage_def admits_def)
  moreover have "flight_ok (swTree s) n (swFlights s ! n)" using ac n by (simp add: accounts_def Let_def)
  then have "accounts c u (admit_step n as s)"
    using n come by (intro accounts_stage [OF ac n(1), where f = ?f and st = "Acting as"])
      (simp_all add: admit_step_def set_stage_def running_def flight_ok_def)
  ultimately show ?thesis by (intro inv_moves [OF inv mv]) (simp_all add: admit_step_def set_stage_def)
qed

lemma inv_return:
  assumes inv: "sweep_inv c u turns share invoke visits a s" and act: "acting s n []"
  shows "sweep_inv c u turns share invoke visits a (return_step n (vcErr (flCall (swFlights s ! n))) s)" (is "sweep_inv _ _ _ _ _ _ _ ?s'")
proof -
  let ?f = "(swFlights s ! n)\<lparr>flStage := Shut, flErr := vcErr (flCall (swFlights s ! n))\<rparr>"
  have n: "n < length (swFlights s)" "flStage (swFlights s ! n) = Acting []" using act by (simp_all add: acting_def)
  note mv = moves_return [OF act, of "vcErr (flCall (swFlights s ! n))"]
  have ac: "accounts c u s" and pr: "progress s" using inv by (simp_all add: sweep_inv_def)
  have "admits (to_come ?f) = admits (to_come (swFlights s ! n))" using n by (simp add: to_come_def admits_def)
  moreover from this have "admitted_by ?f = admitted_by (swFlights s ! n)" by (simp add: admitted_by_def)
  ultimately have "progress ?s'"
    using pr n by (intro progress_moves [OF pr mv]) (auto simp: over_def return_step_def progress_def Let_def)
  then show ?thesis using accounts_return [OF ac act refl] by (intro inv_moves [OF inv mv]) simp_all
qed

lemma inv_end:
  assumes inv: "sweep_inv c u turns share invoke visits a s" and st: "at_stage s n Shut" and turn: "its_turn s n \<or> swCancel s"
  shows "sweep_inv c u turns share invoke visits a (close_step n s)"
proof -
  let ?f = "(swFlights s ! n)\<lparr>flStage := Ended\<rparr>"
  have n: "n < length (swFlights s)" "flStage (swFlights s ! n) = Shut" using st by (simp_all add: at_stage_def)
  note mv = moves_end [OF st]
  have ac: "accounts c u s" and pr: "progress s" and cl: "\<not> swCancel s" using inv by (simp_all add: sweep_inv_def closing_def)
  have "progress (close_step n s)" using progress_end [OF pr ac st _ cl] turn cl by blast
  moreover have "accounts c u (close_step n s)"
    using n by (intro accounts_stage [OF ac n(1), where f = ?f and st = Ended])
      (simp_all add: close_step_def set_stage_def running_def to_come_def Let_def)
  ultimately show ?thesis by (intro inv_moves [OF inv mv]) (simp_all add: close_step_def set_stage_def Let_def)
qed

lemma canceled_ends: "is_canceled e \<Longrightarrow> EndsRun e"
  by (cases e) auto

lemma settle_eq:
  assumes inv: "sweep_inv c u turns share invoke visits a s" and st: "at_stage s n Ended" and un: "unending invoke"
  shows "settle_step n s = (set_stage n Settled s)\<lparr>swAt := Looking, swStop := swStop s \<or> vrBroke (final_run (swFlights s ! n))\<rparr>"
proof -
  let ?f = "swFlights s ! n"
  have out: "swOut s (flVisit ?f) = final_run ?f"
    using inv st by (intro out_of_ended) (simp_all add: sweep_inv_def)
  have "?f \<in> set (swFlights s)" using st by (simp add: at_stage_def)
  then obtain i k v where call: "flCall ?f = invoke i k v" using inv unfolding sweep_inv_def by blast
  have "\<not> EndsRun e" if "vrErr (final_run ?f) = Some e" for e
    using that un by (auto simp: final_run_def outcome_alone_def visit_outcome_def Let_def call unending_def split: if_splits)
  then show ?thesis
    using canceled_ends unfolding settle_step_def Let_def out
    by (cases "vrErr (final_run ?f)") (auto simp: set_stage_def)
qed

lemma inv_settle:
  assumes inv: "sweep_inv c u turns share invoke visits a s" and st: "at_stage s n Ended" and un: "unending invoke"
    and go: "launching s Settling \<or> draining s"
  shows "sweep_inv c u turns share invoke visits a (settle_step n s)"
proof -
  let ?f = "swFlights s ! n" and ?fs = "swFlights s"
  let ?f' = "?f\<lparr>flStage := Settled\<rparr>" and ?s' = "settle_step n s"
  note eq = settle_eq [OF inv st un]
  have n: "n < length ?fs" "flStage ?f = Ended" using st by (simp_all add: at_stage_def)
  have ov: "over ?f" "over ?f'" "unsettled ?f" "\<not> unsettled ?f'" using n by (simp_all add: over_def unsettled_def)
  have f': "running ?f' = running ?f" "to_come ?f' = to_come ?f" "used_calls ?f' = used_calls ?f" "used_usd ?f' = used_usd ?f"
    "put_run ?f' = put_run ?f" "record_of ?f' = record_of ?f" "admitted_by ?f' = admitted_by ?f" "final_run ?f' = final_run ?f" "whole ?f' = whole ?f"
    using n(2) by (simp_all add: running_def to_come_def used_calls_def used_usd_def whole_def put_run_def final_run_def record_of_def
        admitted_by_def fun_eq_iff)
  have s': "swFlights ?s' = ?fs[n := ?f']" "swTree ?s' = swTree s" "swTodo ?s' = swTodo s" "swSerial ?s' = swSerial s" "swAt ?s' = Looking"
    "swOut ?s' = swOut s" "swRecorded ?s' = swRecorded s" "swAdmitted ?s' = swAdmitted s" "swCancel ?s' = swCancel s" "swFailed ?s' = swFailed s"
    "swDone ?s' = swDone s" "swStop ?s' = (swStop s \<or> vrBroke (final_run ?f))"
    by (simp_all add: eq set_stage_def)
  have nth: "over (swFlights ?s' ! k) = over (?fs ! k)" "flVisit (swFlights ?s' ! k) = flVisit (?fs ! k)"
    "unsettled (swFlights ?s' ! k) = (unsettled (?fs ! k) \<and> k \<noteq> n)" "admitted_by (swFlights ?s' ! k) = admitted_by (?fs ! k)"
    "to_come (swFlights ?s' ! k) = to_come (?fs ! k)" "flCall (swFlights ?s' ! k) = flCall (?fs ! k)"
    "flTail (swFlights ?s' ! k) = flTail (?fs ! k)" "used_calls (swFlights ?s' ! k) = used_calls (?fs ! k)"
    "used_usd (swFlights ?s' ! k) = used_usd (?fs ! k)" "final_run (swFlights ?s' ! k) = final_run (?fs ! k)" for k
    using n f' ov by (cases "k = n"; simp add: s')+
  have len: "length (swFlights ?s') = length ?fs" by (simp add: s')
  have ac: "accounts c u s" and pr: "progress s" and ap: "apart s" and tl: "tails turns share s" and cl: "closing s"
    and calls: "\<forall>f \<in> set ?fs. \<exists>i c u. flCall f = invoke i c u" and rest: "to_do turns share invoke visits s (amount c u s) = a"
    using inv by (simp_all add: sweep_inv_def)
  have "accounts c u ?s'"
    using f' n ac by (intro accounts_stage [OF ac n(1) s'(2) s'(1), where st = Settled]) (auto simp: accounts_def Let_def flight_ok_def)
  moreover have "progress ?s'"
    using pr unfolding progress_def Let_def its_turn_over nth len s'(6-8)
    by (simp add: s'(1) n ov f' map_filter_set fold_filter_set map_set)
  moreover have "apart ?s'" using ap unfolding apart_def all_set_conv_all_nth nth len s'(3) by blast
  moreover have "tails turns share ?s'" using tl unfolding tails_def Let_def nth len s'(2,4) by blast
  moreover have "asking turns share ?s'" by (simp add: asking_def s')
  moreover have "closing ?s'" using cl go by (auto simp: closing_def s' launching_def draining_def)
  moreover have "\<forall>f \<in> set (swFlights ?s'). \<exists>i c u. flCall f = invoke i c u"
    using calls unfolding all_set_conv_all_nth nth len by blast
  moreover have "amount c u ?s' = amount c u s"
  proof -
    have "(\<exists>f \<in> set (swFlights ?s'). unsettled f \<and> vrBroke (final_run f)) \<or> vrBroke (final_run ?f)
        \<longleftrightarrow> (\<exists>f \<in> set ?fs. unsettled f \<and> vrBroke (final_run f))"
      unfolding Bex_def in_set_conv_nth using n(1) ov(3) nth(3,10) len by metis
    then show ?thesis
      using n(1) f' by (auto simp: amount_def Let_def s' map_set fold_set)
  qed
  moreover have "to_do turns share invoke visits ?s' = to_do turns share invoke visits s"
    by (simp add: to_do_def s' fun_eq_iff)
  ultimately show ?thesis using rest by (simp add: sweep_inv_def)
qed

lemma room_remaining:
  assumes "accounts c u s"
  shows "Remaining (swTree s) 0 = room_of (swTree s) 0"
proof -
  have "keep (swTree s ! 0) = no_keep" "0 \<le> fst (room_of (swTree s) 0)" "0 \<le> snd (room_of (swTree s) 0)"
    using assms by (simp_all add: accounts_def Let_def)
  then show ?thesis
    by (simp add: Remaining_def RemainingAt_def free_eq kept_calls_def kept_usd_def kept_above_def no_keep_def no_grant_def
        level_defs numeral_3_eq_3 room_of_def prod_eq_iff)
qed

lemma used_whole:
  assumes "accounts c u s" and "f \<in> set (swFlights s)"
  shows "uCalls (whole f) \<le> used_calls f" and "uUSD (whole f) \<le> used_usd f" and "0 \<le> used_calls f" and "0 \<le> used_usd f"
proof -
  obtain n where "flight_ok (swTree s) n f"
    using assms by (auto simp: accounts_def Let_def in_set_conv_nth)
  then have "usage_nonneg (whole f)" "uCalls (whole f) \<le> flCalls f" "uUSD (whole f) \<le> flUSD f"
    by (simp_all add: flight_ok_def whole_def acts_usage_nonneg)
  then show "uCalls (whole f) \<le> used_calls f" "uUSD (whole f) \<le> used_usd f" "0 \<le> used_calls f" "0 \<le> used_usd f"
    by (auto simp: used_calls_def used_usd_def usage_nonneg_def)
qed

text \<open>What is left is at most what will be left, and exactly that when nothing is in the air.\<close>

lemma amount_room:
  assumes "accounts c u s"
  shows "fst (room_of (swTree s) 0) \<le> alCalls (amount c u s)" and "snd (room_of (swTree s) 0) \<le> alUSD (amount c u s)"
    and "idle s \<Longrightarrow> alCalls (amount c u s) = fst (room_of (swTree s) 0)" and "idle s \<Longrightarrow> alUSD (amount c u s) = snd (room_of (swTree s) 0)"
proof -
  have le: "sum_list (map (uCalls \<circ> whole) (swFlights s)) \<le> sum_list (map used_calls (swFlights s))"
    "sum_list (map (uUSD \<circ> whole) (swFlights s)) \<le> sum_list (map used_usd (swFlights s))"
    using used_whole [OF assms] by (auto intro!: sum_list_mono)
  then show "fst (room_of (swTree s) 0) \<le> alCalls (amount c u s)" "snd (room_of (swTree s) 0) \<le> alUSD (amount c u s)"
    using assms by (simp_all add: accounts_def amount_def Let_def)
  assume "idle s"
  then have "map used_calls (swFlights s) = map (uCalls \<circ> whole) (swFlights s)" "map used_usd (swFlights s) = map (uUSD \<circ> whole) (swFlights s)"
    by (auto simp: idle_def unsettled_def used_calls_def used_usd_def running_def)
  from arg_cong [OF this(1), of sum_list] arg_cong [OF this(2), of sum_list] show "alCalls (amount c u s) = fst (room_of (swTree s) 0)" "alUSD (amount c u s) = snd (room_of (swTree s) 0)"
    using assms by (simp_all add: accounts_def amount_def Let_def del: map_eq_conv)
qed

lemma idle_stop: "idle s \<Longrightarrow> alStop (amount c u s) = swStop s"
  by (auto simp: amount_def Let_def idle_def)

lemma inv_todo_tl:
  assumes inv: "sweep_inv c u turns share invoke visits a s" and go: "launching s Looking"
    and s': "s' = s\<lparr>swStop := True, swTodo := tl (swTodo s)\<rparr>"
    and same: "amount c u s' = visit_alone turns share invoke (swSerial s) (hd (swTodo s)) (amount c u s)"
  shows "sweep_inv c u turns share invoke visits a s'"
proof -
  obtain i todo where todo: "swTodo s = i # todo" using go by (cases "swTodo s") (auto simp: launching_def)
  have "to_do turns share invoke visits s' (amount c u s') = to_do turns share invoke visits s (amount c u s)"
    using same by (simp add: to_do_def s' todo)
  moreover have "accounts c u s'" "progress s'" "apart s'" "tails turns share s'" "asking turns share s'" "closing s'"
    using inv go by (auto simp: sweep_inv_def accounts_def progress_def apart_def tails_def asking_def closing_def its_turn_def
        launching_def s' todo Let_def)
  ultimately show ?thesis using inv by (simp add: sweep_inv_def s')
qed

lemma inv_skip:
  assumes inv: "sweep_inv c u turns share invoke visits a s" and go: "launching s Looking" and "swStop s"
  shows "sweep_inv c u turns share invoke visits a (s\<lparr>swTodo := tl (swTodo s)\<rparr>)"
proof -
  have "s\<lparr>swTodo := tl (swTodo s)\<rparr> = s\<lparr>swStop := True, swTodo := tl (swTodo s)\<rparr>" using assms(3) by simp
  then show ?thesis
    using assms(3) by (intro inv_todo_tl [OF inv go]) (simp_all add: amount_def visit_alone_def Let_def)
qed

lemma no_tails_full:
  assumes "tails turns share s" and ac: "accounts c u s" and "\<not> swSerial s"
    and "turns \<le> fst (room_of (swTree s) 0)" and "share \<le> snd (room_of (swTree s) 0)" and f: "f \<in> set (swFlights s)" "unsettled f"
  shows "\<not> flTail f"
proof
  assume "flTail f"
  moreover obtain n where "n < length (swFlights s)" "f = swFlights s ! n" using f(1) by (auto simp: in_set_conv_nth)
  ultimately have "fst (room_of (swTree s) 0) + used_calls f < turns \<or> snd (room_of (swTree s) 0) + used_usd f < share"
    using assms(1,3) f(2) by (auto simp: tails_def Let_def)
  then show False using used_whole(3,4) [OF ac f(1)] assms(4,5) by linarith
qed

lemma inv_look:
  assumes inv: "sweep_inv c u turns share invoke visits a s" and go: "launching s Looking" and "\<not> swStop s"
    and "0 < turns" and "0 \<le> share"
  shows "sweep_inv c u turns share invoke visits a (look_step turns share s)"
proof -
  let ?r = "room_of (swTree s) 0"
  have ac: "accounts c u s" and tl: "tails turns share s" using inv by (simp_all add: sweep_inv_def)
  have pos: "0 \<le> fst ?r" "0 \<le> snd ?r" using ac by (simp_all add: accounts_def Let_def)
  have at: "sweep_inv c u turns share invoke visits a (s\<lparr>swAt := l\<rparr>)" if "asking turns share (s\<lparr>swAt := l\<rparr>)" for l
    using inv that go by (auto simp: sweep_inv_def accounts_def progress_def apart_def tails_def closing_def its_turn_def idle_def
        amount_def to_do_def Let_def)
  show ?thesis
  proof (cases "wish (swSerial s) (inflight s) turns share ?r")
    case None
    then show ?thesis using at [of Settling] by (simp add: look_step_def room_remaining [OF ac] asking_def)
  next
    case (Some kw)
    obtain k w where kw: "kw = (k, w)" by (cases kw)
    have k: "k = min turns (fst ?r)" and w: "w = (if swSerial s then snd ?r else min share (snd ?r))"
      and cond: "idle s \<or> \<not> swSerial s \<and> turns \<le> fst ?r \<and> share \<le> snd ?r"
      using Some by (auto simp: wish_def kw inflight_idle [symmetric] split: prod.splits if_splits)
    show ?thesis
    proof (cases "k = 0")
      case True
      then have "idle s" and zero: "fst ?r = 0" using cond k \<open>0 < turns\<close> by auto
      then have "amount c u (s\<lparr>swStop := True, swTodo := tl (swTodo s)\<rparr>)
          = visit_alone turns share invoke (swSerial s) (hd (swTodo s)) (amount c u s)"
        using amount_room(3) [OF ac] idle_stop [of s c u] \<open>\<not> swStop s\<close> \<open>0 < turns\<close>
        by (simp add: visit_alone_def Let_def) (simp add: amount_def Let_def)
      then show ?thesis
        using inv_todo_tl [OF inv go refl] Some True by (simp add: look_step_def room_remaining [OF ac] kw)
    next
      case False
      then have "0 < k" "0 \<le> w" "k \<le> fst ?r" "w \<le> snd ?r" using k w pos assms(4,5) by auto
      moreover have "idle s \<or> \<not> swSerial s \<and> k = turns \<and> w = share \<and> (\<forall>f \<in> set (swFlights s). unsettled f \<longrightarrow> \<not> flTail f)"
        using cond k w no_tails_full [OF tl ac] by (auto simp: min_absorb1)
      ultimately have "asking turns share (s\<lparr>swAt := Asking k w\<rparr>)"
        using go assms(3) k w by (auto simp: asking_def Let_def launching_def idle_def)
      then show ?thesis using at Some False by (simp add: look_step_def room_remaining [OF ac] kw)
    qed
  qed
qed

lemma progress_launched:
  assumes "progress s" and "swFlights s' = swFlights s @ [f]" and "\<not> over f" and "to_come f = vcActs (flCall f)"
    and "swOut s' = swOut s" and "swRecorded s' = swRecorded s" and "swAdmitted s' = swAdmitted s"
  shows "progress s'"
proof -
  have "admitted_by f = []" by (simp add: admitted_by_def assms(4))
  moreover have "its_turn s' n" if "n < length (swFlights s)" "its_turn s n" for n
    using that by (auto simp: its_turn_over assms(2) nth_append)
  ultimately show ?thesis
    using assms by (auto simp: progress_def Let_def nth_append less_Suc_eq)
qed

lemma apart_launched:
  assumes "apart s" and "swFlights s' = swFlights s @ [f]" and "swTodo s = flVisit f # swTodo s'"
  shows "apart s'"
proof -
  have "flVisit (swFlights s ! m) \<noteq> flVisit f" if "m < length (swFlights s)" "unsettled (swFlights s ! m)" for m
    using assms(1,3) nth_mem [OF that(1)] that(2) by (auto simp: apart_def)
  then show ?thesis
    using assms by (auto simp: apart_def nth_append less_Suc_eq)
qed

lemma amount_launched:
  assumes fs: "swFlights s' = swFlights s @ [f]" and "swStop s' = swStop s" and "\<not> alStop (amount c u s)"
    and f: "flCalls f = min turns (alCalls (amount c u s))"
      "flUSD f = (if serial then alUSD (amount c u s) else min share (alUSD (amount c u s)))"
      "flTail f = is_tail serial turns share (flCalls f) (flUSD f)" "flCall f = invoke (flVisit f) (flCalls f) (flUSD f)"
      "flStage f \<noteq> Settled" "flCalls f \<noteq> 0"
  shows "amount c u s' = visit_alone turns share invoke serial (flVisit f) (amount c u s)"
proof -
  have "amount c u s' = (amount c u s)\<lparr>alCalls := alCalls (amount c u s) - uCalls (whole f), alUSD := alUSD (amount c u s) - uUSD (whole f),
      alStop := vrBroke (final_run f), alGrants := alGrants (amount c u s) @ [(flVisit f, flCalls f, flUSD f)],
      alOut := put_run f (alOut (amount c u s)), alAdmitted := alAdmitted (amount c u s) @ replicate (admits (vcActs (flCall f))) (flVisit f),
      alRecorded := alRecorded (amount c u s) @ record_of f\<rparr>"
    using assms(2,3) f(5) by (auto simp: amount_def Let_def fs unsettled_def)
  moreover have "visit_alone turns share invoke serial (flVisit f) (amount c u s) = (amount c u s)\<lparr>alCalls := alCalls (amount c u s) - uCalls (whole f), alUSD := alUSD (amount c u s) - uUSD (whole f),
      alStop := vrBroke (final_run f), alGrants := alGrants (amount c u s) @ [(flVisit f, flCalls f, flUSD f)],
      alOut := put_run f (alOut (amount c u s)), alAdmitted := alAdmitted (amount c u s) @ replicate (admits (vcActs (flCall f))) (flVisit f),
      alRecorded := alRecorded (amount c u s) @ record_of f\<rparr>"
    unfolding visit_alone_def Let_def
    using assms(3) f(6) by (simp add: f(1,2) [symmetric] whole_def final_run_def put_run_def record_of_def f(3,4) [symmetric])
  ultimately show ?thesis by simp
qed

lemma inv_launch:
  assumes inv: "sweep_inv c u turns share invoke visits a s" and go: "launching s (Asking k w)" and fit: "in_grant invoke"
  shows "sweep_inv c u turns share invoke visits a (launch_step turns share invoke k w s)"
proof -
  let ?s' = "launch_step turns share invoke k w s" and ?r = "room_of (swTree s) 0" and ?r' = "invoke (hd (swTodo s)) k w"
  let ?f = "\<lparr>flVisit = hd (swTodo s), flGrant = Suc (length (swFlights s)), flCalls = k, flUSD = w,
        flTail = is_tail (swSerial s) turns share k w, flCall = ?r', flErr = vcErr ?r', flStage = Acting (vcActs ?r')\<rparr>"
  obtain i todo where todo: "swTodo s = i # todo" using go by (cases "swTodo s") (auto simp: launching_def)
  have ac: "accounts c u s" and pr: "progress s" and ap: "apart s" and tl: "tails turns share s" and cl: "closing s"
    and ask: "asking turns share s" and calls: "\<forall>f \<in> set (swFlights s). \<exists>i c u. flCall f = invoke i c u"
    and rest: "to_do turns share invoke visits s (amount c u s) = a" using inv by (simp_all add: sweep_inv_def)
  have k: "0 < k" "0 \<le> w" "k \<le> fst ?r" "w \<le> snd ?r" "\<not> swStop s"
    and cond: "idle s \<and> k = min turns (fst ?r) \<and> w = (if swSerial s then snd ?r else min share (snd ?r))
      \<or> \<not> swSerial s \<and> k = turns \<and> w = share \<and> (\<forall>f \<in> set (swFlights s). unsettled f \<longrightarrow> \<not> flTail f)"
    using ask go by (auto simp: asking_def launching_def Let_def)
  note al = accounts_launch [OF ac fit k(1-4), of turns share]
  have s': "swFlights ?s' = swFlights s @ [?f]" "swTodo ?s' = todo" "swAt ?s' = Looking" "swSerial ?s' = swSerial s" "swStop ?s' = swStop s"
    "swOut ?s' = swOut s" "swRecorded ?s' = swRecorded s" "swAdmitted ?s' = swAdmitted s" "swCancel ?s' = swCancel s" "swFailed ?s' = swFailed s"
    "swDone ?s' = swDone s"
    by (subst al(2), simp add: todo)+
  have kw: "k = min turns (alCalls (amount c u s))" "w = (if swSerial s then alUSD (amount c u s) else min share (alUSD (amount c u s)))"
    using cond k(3,4) amount_room [OF ac] by auto
  have still: "\<not> alStop (amount c u s)"
    using cond k(5) by (auto simp: amount_def Let_def idle_def dest: broke_tail)
  have amt: "amount c u ?s' = visit_alone turns share invoke (swSerial s) i (amount c u s)"
    using amount_launched [where f = ?f and turns = turns and serial = "swSerial s" and share = share and invoke = invoke, OF s'(1,5) still]
      kw k(1) by (simp add: todo)
  have "tails turns share ?s'"
  proof (cases "swSerial s")
    case False
    have "n = m" if "n < Suc (length (swFlights s))" "unsettled (swFlights ?s' ! n)" "flTail (swFlights ?s' ! n)"
        "m < Suc (length (swFlights s))" "unsettled (swFlights ?s' ! m)" for n m
      using that cond False by (auto simp: s' nth_append less_Suc_eq idle_def is_tail_def)
    moreover have "fst (room_of (swTree ?s') 0) + used_calls (swFlights ?s' ! n) < turns
        \<or> snd (room_of (swTree ?s') 0) + used_usd (swFlights ?s' ! n) < share"
      if "n < Suc (length (swFlights s))" "unsettled (swFlights ?s' ! n)" "flTail (swFlights ?s' ! n)" for n
      using that cond False by (auto simp: s' al(3) nth_append less_Suc_eq idle_def is_tail_def used_calls_def used_usd_def running_def)
    moreover have "length (swFlights ?s') = Suc (length (swFlights s))" by (simp add: s'(1))
    ultimately show ?thesis unfolding tails_def Let_def by metis
  qed (simp add: tails_def s' Let_def)
  moreover have "progress ?s'" by (rule progress_launched [OF pr s'(1)]) (simp_all add: over_def to_come_def s')
  moreover have "apart ?s'" by (rule apart_launched [OF ap s'(1)]) (simp add: todo s')
  moreover have "asking turns share ?s'" by (simp add: asking_def s')
  moreover have "closing ?s'" using cl go by (simp add: closing_def s' launching_def)
  moreover have "\<forall>f \<in> set (swFlights ?s'). \<exists>i c u. flCall f = invoke i c u" using calls by (auto simp: s')
  moreover have "to_do turns share invoke visits ?s' (amount c u ?s') = to_do turns share invoke visits s (amount c u s)"
    by (simp add: to_do_def amt s' todo)
  ultimately show ?thesis using al(1) rest by (simp add: sweep_inv_def)
qed

lemma inv_fallback:
  assumes inv: "sweep_inv c u turns share invoke visits a s" and go: "draining s" and "inflight s = 0" and ser: "\<not> swSerial s"
    and "distinct visits"
  shows "sweep_inv c u turns share invoke visits a (second_pass visits s)"
proof -
  have idle: "idle s" using assms(3) by (simp add: inflight_idle)
  then have "filter over (swFlights s) = swFlights s" by (auto simp: idle_def unsettled_def over_def filter_id_conv)
  then have "alOut (amount c u s) = swOut s" using inv by (simp add: sweep_inv_def progress_def amount_def Let_def)
  then have "to_do turns share invoke visits (second_pass visits s) (amount c u s) = a"
    using inv go ser by (simp add: sweep_inv_def to_do_def fallback_alone_def second_pass_def draining_def)
  moreover have "amount c u (second_pass visits s) = amount c u s" by (simp add: amount_def second_pass_def)
  ultimately show ?thesis
    using inv idle go assms(5) by (auto simp: sweep_inv_def accounts_def progress_def apart_def tails_def asking_def closing_def
        its_turn_def second_pass_def draining_def idle_def Let_def)
qed

lemma inv_finish:
  assumes "sweep_inv c u turns share invoke visits a s" and "draining s" and "inflight s = 0" and "swSerial s"
  shows "sweep_inv c u turns share invoke visits a (s\<lparr>swDone := Some (sweep_error s)\<rparr>)"
  using assms by (auto simp: sweep_inv_def accounts_def progress_def apart_def tails_def asking_def closing_def its_turn_def
      inflight_idle idle_def amount_def to_do_def sweep_error_def draining_def Let_def)

lemma inv_step:
  assumes step: "visits_step turns share invoke visits s s'" and inv: "sweep_inv c u turns share invoke visits a s"
    and "\<not> swCtx s'" and "0 < turns" and "0 \<le> share" and "distinct visits" and "in_grant invoke" and "unending invoke"
  shows "sweep_inv c u turns share invoke visits a s'"
  using step
proof cases
  case (abort n as e)
  then show ?thesis using inv by (simp add: sweep_inv_def closing_def)
next
  case stopped
  then show ?thesis using assms(3) by simp
qed (use assms inv_look inv_skip inv_launch inv_settle inv_fallback inv_finish inv_spend inv_admit inv_return inv_end in \<open>simp_all\<close>)

lemma inv_start:
  assumes "0 \<le> c" and "0 \<le> u" and "distinct visits"
  shows "sweep_inv c u turns (worker_share u) invoke visits (visits_alone c u turns invoke visits) (start_sweep c u visits)"
  using assms books_NewBudget [of c u 0]
  by (simp add: sweep_inv_def start_sweep_def accounts_def progress_def apart_def tails_def asking_def closing_def NewBudget_def
      room_of_def Let_def to_do_def visits_alone_def amount_def nothing_read_def)

lemma stays_stopped: "visits_step turns share invoke visits s s' \<Longrightarrow> swCtx s \<Longrightarrow> swCtx s'"
  by (induction rule: visits_step.induct)
    (auto simp: look_step_def launch_step_def settle_step_def second_pass_def spend_step_def admit_step_def return_step_def
      close_step_def set_stage_def Let_def split: option.split sum.split prod.split)

lemma run_inv:
  assumes "visits_run c u turns invoke visits s" and "\<not> swCtx s" and "0 < turns" and "0 \<le> c" and "0 \<le> u"
    and "distinct visits" and "in_grant invoke" and "unending invoke"
  shows "sweep_inv c u turns (worker_share u) invoke visits (visits_alone c u turns invoke visits) s"
  using assms(1,2) unfolding visits_run_def
proof (induction rule: rtranclp_induct)
  case base
  show ?case by (rule inv_start [OF assms(4-6)])
next
  case (step s s')
  have "0 \<le> worker_share u" using assms(5) by (simp add: worker_share_def)
  then show ?case using step stays_stopped [OF step.hyps(2)] assms(3,6-8) by (intro inv_step [OF step.hyps(2)]) auto
qed

text \<open>
  C3. A sweep that reads up to four visits at once is the sweep that reads them one at a time: when
  calls stay within their grants and no error ends the run, then whatever the interleaving of the
  launcher, the visits' calls and their ends, every visit gets the same grant, has the same outcome,
  admits its findings and is recorded at the same place, and the same is left of the budget, as if each
  visit had run alone.
\<close>

theorem sweep_is_sequential:
  assumes "visits_run c u turns invoke visits s" and "swDone s = Some e" and "\<not> swCtx s"
    and "0 < turns" and "0 \<le> c" and "0 \<le> u" and "distinct visits" and "in_grant invoke" and "unending invoke"
  shows "e = None \<and> map (\<lambda>f. (flVisit f, flCalls f, flUSD f)) (swFlights s) = alGrants (visits_alone c u turns invoke visits)
    \<and> swOut s = alOut (visits_alone c u turns invoke visits)
    \<and> swAdmitted s = alAdmitted (visits_alone c u turns invoke visits)
    \<and> swRecorded s = alRecorded (visits_alone c u turns invoke visits)
    \<and> Remaining (swTree s) 0 = (alCalls (visits_alone c u turns invoke visits), alUSD (visits_alone c u turns invoke visits))"
proof -
  let ?a = "visits_alone c u turns invoke visits"
  have inv: "sweep_inv c u turns (worker_share u) invoke visits ?a s" by (rule run_inv) (use assms in auto)
  then have idle: "idle s" and "swTodo s = []" "swSerial s" "e = None" using assms(2) by (auto simp: sweep_inv_def closing_def)
  then have a: "amount c u s = ?a" using inv by (simp add: sweep_inv_def to_do_def)
  have ac: "accounts c u s" and pr: "progress s" using inv by (simp_all add: sweep_inv_def)
  have "filter over (swFlights s) = swFlights s" using idle by (auto simp: idle_def unsettled_def over_def filter_id_conv)
  moreover have "map admitted_by (swFlights s) = map (\<lambda>f. replicate (admits (vcActs (flCall f))) (flVisit f)) (swFlights s)"
    using idle by (auto simp: idle_def unsettled_def admitted_by_def to_come_def admits_def)
  ultimately have "swOut s = alOut (amount c u s)" "swRecorded s = alRecorded (amount c u s)" "swAdmitted s = alAdmitted (amount c u s)"
    using pr by (simp_all add: progress_def amount_def Let_def del: map_eq_conv)
  moreover have "Remaining (swTree s) 0 = (alCalls (amount c u s), alUSD (amount c u s))"
    using room_remaining [OF ac] amount_room(3,4) [OF ac idle] by (simp add: prod_eq_iff)
  moreover have "map (\<lambda>f. (flVisit f, flCalls f, flUSD f)) (swFlights s) = alGrants (amount c u s)"
    by (simp add: amount_def Let_def)
  ultimately show ?thesis using \<open>e = None\<close> unfolding a by blast
qed

end
