(* ===== verification/SweepEnds.thy ===== *)
theory SweepEnds
  imports SweepProofs
begin

text \<open>
  The parallel sweep always ends: no interleaving runs forever and none gets stuck, whatever the
  visits' calls do, fail with or spend, and whoever stops the run.
\<close>

section \<open>No run is infinite\<close>

fun stage_weight :: "stage \<Rightarrow> nat" where
  "stage_weight (Acting as) = length as + 3"
| "stage_weight Shut = 2"
| "stage_weight Ended = 1"
| "stage_weight Settled = 0"

definition flights_weight :: "sweeping \<Rightarrow> nat" where
  "flights_weight s = sum_list (map (stage_weight \<circ> flStage) (swFlights s))"

text \<open>What is left of a sweep, most significant first: its end, a stop, the serial pass, the visits to
  launch, what the visits in the air still do, and the launcher's look.\<close>

definition sweep_rank :: "sweeping \<Rightarrow> nat \<times> nat \<times> nat \<times> nat \<times> nat \<times> nat" where
  "sweep_rank s = (if swDone s = None then 1 else 0, if swCtx s then 0 else 1, if swSerial s then 0 else 1, length (swTodo s),
     flights_weight s, if swAt s = Looking then 1 else 0)"

definition ranks :: "(sweeping \<times> sweeping) set" where
  "ranks = inv_image (less_than <*lex*> less_than <*lex*> less_than <*lex*> less_than <*lex*> less_than <*lex*> less_than) sweep_rank"

lemma wf_ranks: "wf ranks"
  by (simp add: ranks_def wf_lex_prod)

lemma in_ranks:
  "(s', s) \<in> ranks \<longleftrightarrow> (sweep_rank s', sweep_rank s)
     \<in> less_than <*lex*> less_than <*lex*> less_than <*lex*> less_than <*lex*> less_than <*lex*> less_than"
  by (simp add: ranks_def)

lemma weight_set:
  assumes "n < length fs" and "w f < w (fs ! n)"
  shows "sum_list (map w (fs[n := f])) < sum_list (map (w :: flight \<Rightarrow> nat) fs)"
  using assms arg_cong [OF split_at [OF assms(1)], of "\<lambda>fs. sum_list (map w fs)"] by (simp add: split_set)

lemma ranks_flight:
  assumes "n < length (swFlights s)" and "swFlights s' = (swFlights s)[n := f]"
    and "stage_weight (flStage f) < stage_weight (flStage (swFlights s ! n))"
    and "swDone s' = swDone s" and "swCtx s' = swCtx s" and "swSerial s' = swSerial s" and "swTodo s' = swTodo s"
  shows "(s', s) \<in> ranks"
  using weight_set [of n "swFlights s" "stage_weight \<circ> flStage" f] assms
  by (simp add: in_ranks sweep_rank_def flights_weight_def)

lemma ranks_moves:
  assumes "moves s s' n f" and "stage_weight (flStage f) < stage_weight (flStage (swFlights s ! n))"
  shows "(s', s) \<in> ranks"
  by (rule ranks_flight [OF _ _ assms(2)]) (use assms(1) in \<open>auto simp: moves_def Let_def\<close>)

lemma ranks_todo:
  assumes "swTodo s' = tl (swTodo s)" and "swTodo s \<noteq> []" and "swDone s = None" and "swDone s' = swDone s" and "swCtx s' = swCtx s"
    and "swSerial s' = swSerial s"
  shows "(s', s) \<in> ranks"
  using assms by (cases "swTodo s") (simp_all add: in_ranks sweep_rank_def)

lemma ranks_launch:
  assumes "launching s (Asking k w)"
  shows "(launch_step turns share invoke k w s, s) \<in> ranks"
proof (cases "take_grant (swTree s) 0 k w LevelEvidence")
  case (Inl why)
  then show ?thesis using assms by (simp add: launch_step_def in_ranks sweep_rank_def launching_def)
next
  case (Inr tg)
  then show ?thesis using assms by (intro ranks_todo) (auto simp: launch_step_def launching_def Let_def split: prod.split)
qed

lemma ranks_look:
  assumes "launching s Looking"
  shows "(look_step turns share s, s) \<in> ranks"
proof (cases "\<exists>w. wish (swSerial s) (inflight s) turns share (Remaining (swTree s) 0) = Some (0, w)")
  case True
  then show ?thesis using assms by (intro ranks_todo) (auto simp: look_step_def launching_def)
next
  case False
  then show ?thesis
    using assms by (auto simp: look_step_def launching_def in_ranks sweep_rank_def flights_weight_def split: option.split prod.split)
qed

lemma ranks_settle:
  assumes "at_stage s n Ended"
  shows "(settle_step n s, s) \<in> ranks"
  using assms
  by (intro ranks_flight [where n = n and f = "(swFlights s ! n)\<lparr>flStage := Settled\<rparr>"])
    (auto simp: at_stage_def settle_step_def set_stage_def Let_def)

lemma step_ranks: "visits_step turns share invoke visits s s' \<Longrightarrow> (s', s) \<in> ranks"
proof (induction rule: visits_step.induct)
  case (spend s n u as)
  then show ?case using moves_spend by (auto simp: acting_def intro!: ranks_moves)
next
  case (admit s n as)
  then show ?case using moves_admit by (auto simp: acting_def intro!: ranks_moves)
next
  case (return s n)
  then show ?case using moves_return by (auto simp: acting_def intro!: ranks_moves)
next
  case (abort s n as e)
  then show ?case using moves_return by (auto simp: acting_def intro!: ranks_moves)
next
  case (ended s n)
  then show ?case using moves_end by (auto simp: at_stage_def intro!: ranks_moves)
next
  case (skip s)
  then show ?case by (auto simp: launching_def intro!: ranks_todo)
qed (use ranks_look ranks_launch ranks_settle in
    \<open>auto simp: second_pass_def in_ranks sweep_rank_def draining_def\<close>)

section \<open>No run is stuck\<close>

definition poised :: "sweeping \<Rightarrow> bool" where
  "poised s \<longleftrightarrow> (case swAt s of Looking \<Rightarrow> True | Settling \<Rightarrow> swTodo s \<noteq> [] \<and> \<not> idle s | Asking _ _ \<Rightarrow> swTodo s \<noteq> [])"

lemma poised_moves:
  assumes "moves s s' n f" and "poised s"
  shows "poised s'"
proof -
  note m = movesD [OF assms(1)]
  have "\<not> idle s'" using m(1,2,9) by (auto simp: idle_def intro!: bexI [OF _ set_update_memI])
  then show ?thesis using assms(2) assms(1) [unfolded moves_def Let_def] by (auto simp: poised_def split: launcher.splits)
qed

lemma poised_step: "visits_step turns share invoke visits s s' \<Longrightarrow> poised s \<Longrightarrow> poised s'"
proof (induction rule: visits_step.induct)
  case (look s)
  then show ?case
    using inflight_idle [of s]
    by (auto simp: look_step_def poised_def wish_def sweepWorkers_def launching_def idle_def split: option.splits prod.splits if_splits)
next
  case (launch s c u)
  then show ?case
    by (auto simp: launch_step_def poised_def launching_def Let_def split: sum.splits prod.splits)
next
  case (stopped s)
  then show ?case by (cases "swAt s") (auto simp: poised_def idle_def)
qed (auto simp: poised_def launching_def draining_def settle_step_def second_pass_def idle_def set_stage_def Let_def
    dest: poised_moves [OF moves_spend] poised_moves [OF moves_admit] poised_moves [OF moves_return] poised_moves [OF moves_end])

lemma run_poised: "visits_run c u turns invoke visits s \<Longrightarrow> poised s"
  unfolding visits_run_def
  by (induction rule: rtranclp_induct) (auto simp: start_sweep_def poised_def dest: poised_step)

text \<open>The first visit that is not over can always move, since it waits for nothing.\<close>

lemma first_moves:
  assumes "\<exists>n < length (swFlights s). \<not> over (swFlights s ! n)"
  shows "\<exists>s'. visits_step turns share invoke visits s s' \<and> swCtx s' = swCtx s"
proof -
  define n where "n = (LEAST n. n < length (swFlights s) \<and> \<not> over (swFlights s ! n))"
  have n: "n < length (swFlights s)" "\<not> over (swFlights s ! n)" using LeastI_ex [OF assms] by (simp_all add: n_def)
  have "over (swFlights s ! m)" if "m < n" for m
    using not_less_Least [of m] that n(1) unfolding n_def by (metis order.strict_trans)
  then have turn: "its_turn s n" by (cases n) (auto simp: its_turn_over)
  consider (spend) v as where "acting s n (Spend v # as)" | (admit) as where "acting s n (Admit # as)"
    | (return) "acting s n []" | (shut) "at_stage s n Shut"
    using n by (cases "flStage (swFlights s ! n)") (auto simp: acting_def at_stage_def over_def elim: acts_usage.cases)
  then show ?thesis
  proof cases
    case spend
    then show ?thesis using visits_step.spend moves_spend by (metis moves_def)
  next
    case admit
    then show ?thesis using visits_step.admit turn moves_admit by (metis moves_def)
  next
    case return
    then show ?thesis using visits_step.return moves_return by (metis moves_def)
  next
    case shut
    then show ?thesis using visits_step.ended turn moves_end by (metis moves_def)
  qed
qed

lemma goes_on:
  assumes "poised s" and "swDone s = None"
  shows "\<exists>s'. visits_step turns share invoke visits s s' \<and> swCtx s' = swCtx s"
proof (cases "\<exists>n < length (swFlights s). \<not> over (swFlights s ! n)")
  case True
  then show ?thesis by (rule first_moves)
next
  case False
  have ctx: "swCtx (settle_step n s) = swCtx s" "swCtx (look_step turns share s) = swCtx s" "swCtx (second_pass visits s) = swCtx s"
    "swCtx (launch_step turns share invoke k w s) = swCtx s" for n k w
    by (auto simp: settle_step_def set_stage_def look_step_def second_pass_def launch_step_def Let_def split: option.split sum.split prod.split)
  have settle: ?thesis if "launching s Settling \<or> draining s" and "\<not> idle s"
  proof -
    from that(2) obtain n where "n < length (swFlights s)" "unsettled (swFlights s ! n)" by (auto simp: idle_def in_set_conv_nth)
    then have "at_stage s n Ended" using False by (auto simp: at_stage_def over_def unsettled_def)
    then show ?thesis using visits_step.settle [OF that(1)] ctx(1) by blast
  qed
  consider (look) "launching s Looking" | (settling) "launching s Settling" | (ask) k w where "launching s (Asking k w)" | (drain) "draining s"
    using assms by (cases "swAt s"; cases "swTodo s = []") (auto simp: poised_def launching_def draining_def)
  then show ?thesis
  proof cases
    case look
    then show ?thesis
      using visits_step.look [OF look] visits_step.skip [OF look] ctx(2) by (cases "swStop s") fastforce+
  next
    case settling
    then have "\<not> idle s" using assms(1) by (simp add: poised_def launching_def)
    with settling show ?thesis by (intro settle) auto
  next
    case ask
    then show ?thesis using visits_step.launch [OF ask] ctx(4) by blast
  next
    case drain
    show ?thesis
    proof (cases "idle s")
      case True
      then have "inflight s = 0" by (simp add: inflight_idle)
      then show ?thesis
        using visits_step.fallback [OF drain] visits_step.finish [OF drain] ctx(3) by (cases "swSerial s") fastforce+
    qed (use drain settle in auto)
  qed
qed

text \<open>Enough steps end the sweep, with nobody stopping it.\<close>

lemma run_extends:
  assumes "visits_run c u turns invoke visits s"
  shows "\<exists>s'. visits_run c u turns invoke visits s' \<and> swCtx s' = swCtx s \<and> swDone s' \<noteq> None"
  using assms
proof (induction s rule: wf_induct_rule [OF wf_ranks])
  case (1 s)
  show ?case
  proof (cases "swDone s = None")
    case True
    then obtain s' where s': "visits_step turns (worker_share u) invoke visits s s'" "swCtx s' = swCtx s"
      using goes_on [OF run_poised [OF "1.prems"]] by blast
    then have "visits_run c u turns invoke visits s'" using "1.prems" unfolding visits_run_def by (rule_tac rtranclp.rtrancl_into_rtrancl)
    then show ?thesis using "1.IH" [OF step_ranks [OF s'(1)]] s'(2) by simp
  qed (use "1.prems" in auto)
qed

text \<open>
  C17. A parallel sweep always ends: no interleaving of the launcher and its visits runs forever, and
  as long as the sweep has not returned some step is possible that is not a stop from outside, so no
  visit waits for a turn that never comes and the launcher never waits for a visit when none is in
  the air.
\<close>

theorem sweep_ends:
  assumes "visits_run c u turns invoke visits s"
  shows "wfp (\<lambda>s2 s1. visits_step turns (worker_share u) invoke visits s1 s2)
    \<and> (swDone s \<noteq> None \<or> (\<exists>s'. visits_step turns (worker_share u) invoke visits s s' \<and> swCtx s' = swCtx s))"
proof
  have "{(s2, s1). visits_step turns (worker_share u) invoke visits s1 s2} \<subseteq> ranks" using step_ranks by auto
  then show "wfp (\<lambda>s2 s1. visits_step turns (worker_share u) invoke visits s1 s2)"
    unfolding wfp_def by (rule wf_subset [OF wf_ranks])
  show "swDone s \<noteq> None \<or> (\<exists>s'. visits_step turns (worker_share u) invoke visits s s' \<and> swCtx s' = swCtx s)"
    using goes_on [OF run_poised [OF assms]] by blast
qed

text \<open>Two visits, each of one call, the second of which a worker's share cannot fund.\<close>

definition demo_visits :: "nat \<Rightarrow> int \<Rightarrow> rat \<Rightarrow> visit_call" where
  "demo_visits i c u =
     (if i = 0 \<and> 1 \<le> u then \<lparr>vcActs = [Spend \<lparr>uCalls = 1, uInput = 0, uOutput = 0, uUSD = 1, uUnpriced = 0, uWatt = 0\<rparr>, Admit],
        vcErr = None, vcIds = [''F1''], vcNotes = [], vcWrite = None\<rparr>
      else if 3 \<le> u then \<lparr>vcActs = [Admit, Spend \<lparr>uCalls = 1, uInput = 0, uOutput = 0, uUSD = 3, uUnpriced = 0, uWatt = 0\<rparr>],
        vcErr = None, vcIds = [''F2''], vcNotes = [], vcWrite = None\<rparr>
      else \<lparr>vcActs = [], vcErr = Some (EBudget (Short c u 0)), vcIds = [], vcNotes = [], vcWrite = None\<rparr>)"

lemma demo_in_grant: "in_grant demo_visits"
  by (auto simp: in_grant_def demo_visits_def acts_nonneg_def usage_nonneg_def Let_def)

lemma demo_unending: "unending demo_visits"
  by (auto simp: unending_def demo_visits_def)

lemma demo_alone:
  "map (\<lambda>(i, c, u). i) (alGrants (visits_alone 9 8 1 demo_visits [0, 1])) = [0, 1, 1]
   \<and> alRecorded (visits_alone 9 8 1 demo_visits [0, 1]) = [0, 1]"
  by (simp add: visits_alone_def fallback_alone_def nothing_read_def visit_alone_def demo_visits_def worker_share_def
      sweepWorkers_def Let_def outcome_alone_def visit_outcome_def is_tail_def)

theorem sweep_ends_witness:
  "\<exists>s'. visits_step 1 (worker_share 8) demo_visits [0, 1] (start_sweep 9 8 [0, 1]) s'"
  using sweep_ends [of 9 8 1 demo_visits "[0, 1]" "start_sweep 9 8 [0, 1]"] by (auto simp: visits_run_def start_sweep_def)

theorem sweep_is_sequential_witness:
  "\<exists>s. visits_run 9 8 1 demo_visits [0, 1] s \<and> swDone s = Some None \<and> swRecorded s = [0, 1]
     \<and> map flVisit (swFlights s) = [0, 1, 1]"
proof -
  obtain s e where s: "visits_run 9 8 1 demo_visits [0, 1] s" "\<not> swCtx s" "swDone s = Some e"
    using run_extends [of 9 8 1 demo_visits "[0, 1]" "start_sweep 9 8 [0, 1]"]
    by (auto simp: visits_run_def start_sweep_def)
  note seq = sweep_is_sequential [OF s(1,3,2) _ _ _ _ demo_in_grant demo_unending]
  have e: "e = None" and rec: "swRecorded s = alRecorded (visits_alone 9 8 1 demo_visits [0, 1])"
    and grants: "map (\<lambda>f. (flVisit f, flCalls f, flUSD f)) (swFlights s) = alGrants (visits_alone 9 8 1 demo_visits [0, 1])"
    using seq by simp_all
  have "map flVisit (swFlights s) = map (\<lambda>(i, c, u). i) (map (\<lambda>f. (flVisit f, flCalls f, flUSD f)) (swFlights s))"
    by simp
  also have "\<dots> = [0, 1, 1]" unfolding grants using demo_alone by (rule conjunct1)
  finally have visits: "map flVisit (swFlights s) = [0, 1, 1]" .
  have "swRecorded s = [0, 1]" unfolding rec using demo_alone by (rule conjunct2)
  then show ?thesis by (rule_tac exI [of _ s]) (intro conjI s(1) s(3) [unfolded e] visits)
qed

end
