(* ===== verification/Reader.thy ===== *)
theory Reader
  imports Chunk
begin

text \<open>
  The page reader of \<^verbatim>\<open>internal/docs/search.go\<close> over the documents \<^verbatim>\<open>ingest.go\<close> stores: the sections
  with their offsets in characters, the pages of a section and the header row of a table's page.
  Postgres' \<^verbatim>\<open>substr\<close> counts characters; its statements are taken to succeed.
\<close>

section \<open>Stored documents\<close>

record section_row =
  rwNumber :: string
  rwTitle :: string
  rwLevel :: nat
  rwCharStart :: nat
  rwCharEnd :: nat
  rwTokens :: nat

record stored_doc =
  sdText :: string
  sdSections :: "section_row list"

text \<open>\<^verbatim>\<open>runeOffsets\<close>: byte offsets to character offsets, in one pass over the sorted offsets.\<close>

fun rune_walk :: "string \<Rightarrow> nat \<Rightarrow> nat \<Rightarrow> nat list \<Rightarrow> (nat \<times> nat) list" where
  "rune_walk t b r [] = []"
| "rune_walk t b r (a # as) = (let r' = r + rune_count (subtext t b a) in (a, r') # rune_walk t a r' as)"

definition runeOffsets :: "string \<Rightarrow> nat list \<Rightarrow> nat \<Rightarrow> nat" where
  "runeOffsets t offs a = (case map_of (rune_walk t 0 0 (sort offs)) a of Some r \<Rightarrow> r | None \<Rightarrow> 0)"

definition section_offsets :: "sect list \<Rightarrow> nat list" where
  "section_offsets secs = concat (map (\<lambda>s. [sStart s, sEnd s]) secs)"

definition store_sections :: "string \<Rightarrow> sect list \<Rightarrow> section_row list" where
  "store_sections t secs =
     (let runes = runeOffsets t (section_offsets secs) in
      map (\<lambda>s. \<lparr>rwNumber = sNumber s, rwTitle = sTitle s, rwLevel = sLevel s, rwCharStart = runes (sStart s),
                rwCharEnd = runes (sEnd s), rwTokens = tokens (subtext t (sStart s) (sEnd s))\<rparr>) secs)"

definition store_doc :: "string \<Rightarrow> sect list \<Rightarrow> stored_doc" where
  "store_doc t secs = \<lparr>sdText = t, sdSections = store_sections t secs\<rparr>"

type_synonym library = "string \<Rightarrow> stored_doc option"

section \<open>Names\<close>

definition hex_byte :: "char \<Rightarrow> bool" where
  "hex_byte c \<longleftrightarrow> is_digit_byte c \<or> CHR ''a'' \<le> c \<and> c \<le> CHR ''f'' \<or> CHR ''A'' \<le> c \<and> c \<le> CHR ''F''"

definition ValidID :: "string \<Rightarrow> bool" where
  "ValidID s \<longleftrightarrow> length s = 36 \<and> list_all (\<lambda>(i, c). if i \<in> {8, 13, 18, 23} then c = CHR ''-'' else hex_byte c) (List.enumerate 0 s)"

text \<open>\<^verbatim>\<open>inScope\<close>: the scope is compared with an id that is also checked to be a uuid, so folding case is
  folding ASCII.\<close>

definition inScope :: "string list \<Rightarrow> string \<Rightarrow> bool" where
  "inScope scope i \<longleftrightarrow> (\<exists>s \<in> set scope. map lower_byte s = map lower_byte i)"

definition sectionID :: "nat \<Rightarrow> string" where
  "sectionID ord = ''s'' @ digits_of ord"

definition MaxInt32 :: nat where "MaxInt32 = 2 ^ 31 - 1"

text \<open>The ord a section's id names: only the id that \<^verbatim>\<open>sectionID\<close> writes for it.\<close>

definition section_ord :: "string \<Rightarrow> nat option" where
  "section_ord sid =
     (let n = num_of (trim_prefix sid ''s'') in
      if list_all is_digit_byte (trim_prefix sid ''s'') \<and> n \<le> MaxInt32 \<and> sid = sectionID n then Some n else None)"

section \<open>The outline\<close>

record outline_entry =
  oeSectionID :: string
  oeNumber :: string
  oeTitle :: string
  oeLevel :: nat
  oeTokens :: nat

datatype read_error = DocNotFound | BadBounds | PastEnd nat nat

definition Outline :: "library \<Rightarrow> string list \<Rightarrow> string \<Rightarrow> (read_error, outline_entry list) result" where
  "Outline lib scope docID =
     (if \<not> inScope scope docID \<or> \<not> ValidID docID then Inl DocNotFound
      else (case lib docID of
          None \<Rightarrow> Inl DocNotFound
        | Some d \<Rightarrow>
            (let out = map (\<lambda>(ord, r). \<lparr>oeSectionID = sectionID ord, oeNumber = rwNumber r, oeTitle = rwTitle r,
                          oeLevel = rwLevel r, oeTokens = rwTokens r\<rparr>) (List.enumerate 0 (sdSections d)) in
             if out = [] then Inl DocNotFound else Inr out)))"

section \<open>A page\<close>

definition DefaultSectionTokens :: int where "DefaultSectionTokens = 2000"
definition MaxSectionTokens :: int where "MaxSectionTokens = 8000"

text \<open>\<^verbatim>\<open>substr\<close>: \<open>n\<close> characters from the \<open>a\<close>-th, counted from 0.\<close>

definition substr :: "string \<Rightarrow> nat \<Rightarrow> nat \<Rightarrow> string" where
  "substr t a n = subtext t (rune_offset t a) (rune_offset t (a + n))"

text \<open>The page of prose: cut at the last white space of its second half.\<close>

definition prose_cut :: "string \<Rightarrow> nat \<Rightarrow> string" where
  "prose_cut q mx =
     (let pg = take (rune_offset q mx) q in
      case last_any [CHR '' '', newline_byte, CHR 0x09, CHR 0x0C] pg of
        Some j \<Rightarrow> if j > length pg div 2 then take (j + 1) pg else pg
      | None \<Rightarrow> pg)"

text \<open>The text of a page, cut from one character more than it may hold, and whether the section goes on.\<close>

definition page_cut :: "string \<Rightarrow> nat \<Rightarrow> string \<times> bool" where
  "page_cut q mx =
     (case tablePage q mx of
        Some pg \<Rightarrow> (pg, length pg < length q)
      | None \<Rightarrow> if rune_count q > mx then (prose_cut q mx, True) else (q, False))"

text \<open>\<^verbatim>\<open>beforeRow\<close>: the text before its first table row.\<close>

function before_row_from :: "string \<Rightarrow> nat \<Rightarrow> string option" where
  "before_row_from t p =
     (if p < length t
      then (let e = line_end t p (length t) in if isTableRow (subtext t p e) then Some (take p t) else before_row_from t e)
      else None)"
  by pat_completeness auto
termination
  by (relation "measure (\<lambda>(t, p). length t - p)") (auto dest: line_end_range [OF _ order_refl])

declare before_row_from.simps [simp del]

definition beforeRow :: "string \<Rightarrow> string option" where
  "beforeRow t = before_row_from t 0"

text \<open>\<^verbatim>\<open>header\<close>: the header row of the table a page continues, read in a window before the page that
  doubles until the table's start is inside it.  \<open>cs\<close> is where the section starts, \<open>win\<close> how often the
  window has doubled.\<close>

definition headerWindow :: nat where "headerWindow = 65536"

lemma window_grows:
  assumes "0 < offset - headerWindow * 2 ^ win"
  shows "offset - headerWindow * 2 ^ Suc win < offset - headerWindow * 2 ^ win"
proof -
  have "headerWindow * 2 ^ win < headerWindow * 2 ^ Suc win" by (simp add: headerWindow_def)
  then show ?thesis using assms by (intro diff_less_mono2) auto
qed

function header_from :: "string \<Rightarrow> nat \<Rightarrow> nat \<Rightarrow> string \<Rightarrow> nat \<Rightarrow> string \<times> nat" where
  "header_from t cs offset lead win =
     (let start = offset - headerWindow * 2 ^ win;
          tail0 = substr t (cs + start) (offset - start);
          nl0 = str_index tail0 [newline_byte] in
      if start > 0 \<and> nl0 = None then header_from t cs offset lead (Suc win)
      else
        let i = (if start > 0 then the nl0 + 1 else 0);
            (row, p, ok, bounded) = tableHeader (drop i tail0 @ lead) in
        if ok \<and> \<not> bounded \<and> start > 0 then header_from t cs offset lead (Suc win)
        else if \<not> ok then ([], 0)
        else (row, start + rune_count (take i tail0) + p))"
  by pat_completeness auto
termination
  by (relation "measure (\<lambda>(t, cs, offset, lead, win). offset - headerWindow * 2 ^ win)")
    (auto intro!: window_grows simp del: power_Suc)

declare header_from.simps [simp del]

record section_page =
  spSectionID :: string
  spNumber :: string
  spTitle :: string
  spText :: string
  spOffset :: nat
  spTotal :: nat
  spTruncated :: bool
  spNext :: nat
  spHeader :: string
  spHeaderAt :: nat

definition page_at :: "string \<Rightarrow> section_row \<Rightarrow> string \<Rightarrow> nat \<Rightarrow> nat \<Rightarrow> section_page" where
  "page_at sid r t off mx =
     (let tot = rwCharEnd r - rwCharStart r;
          (txt, trunc) = page_cut (substr t (rwCharStart r + off) (min (mx + 1) (tot - off))) mx;
          (hdr, hat) = (case if off > 0 then beforeRow txt else None of
              Some lead \<Rightarrow> header_from t (rwCharStart r) off lead 0
            | None \<Rightarrow> ([], 0)) in
      \<lparr>spSectionID = sid, spNumber = rwNumber r, spTitle = rwTitle r, spText = txt, spOffset = off, spTotal = tot,
       spTruncated = trunc, spNext = (if trunc then off + rune_count txt else 0), spHeader = hdr, spHeaderAt = hat\<rparr>)"

definition page_chars :: "int \<Rightarrow> nat" where
  "page_chars limit = nat (limit * 7 div 2)"

definition Section :: "library \<Rightarrow> string list \<Rightarrow> string \<Rightarrow> string \<Rightarrow> int \<Rightarrow> int \<Rightarrow> (read_error, section_page) result" where
  "Section lib scope docID sid offset limit0 =
     (case section_ord sid of
        None \<Rightarrow> Inl DocNotFound
      | Some ord \<Rightarrow>
          if \<not> inScope scope docID \<or> \<not> ValidID docID then Inl DocNotFound
          else
            let limit = (if limit0 = 0 then DefaultSectionTokens else limit0) in
            if offset < 0 \<or> offset > int MaxInt32 \<or> limit < 1 \<or> limit > MaxSectionTokens then Inl BadBounds
            else (case lib docID of
                None \<Rightarrow> Inl DocNotFound
              | Some d \<Rightarrow>
                  if ord \<ge> length (sdSections d) then Inl DocNotFound
                  else
                    let r = sdSections d ! ord; tot = rwCharEnd r - rwCharStart r in
                    if nat offset > tot then Inl (PastEnd (nat offset) tot)
                    else Inr (page_at sid r (sdText d) (nat offset) (page_chars limit))))"

section \<open>Following a section's pages\<close>

definition map_right :: "('a \<Rightarrow> 'b) \<Rightarrow> ('e, 'a) result \<Rightarrow> ('e, 'b) result" where
  "map_right f r = (case r of Inl e \<Rightarrow> Inl e | Inr a \<Rightarrow> Inr (f a))"

text \<open>The loop of every reader of a whole section: read, and go on at \<^verbatim>\<open>Next\<close> while it is truncated.
  \<^const>\<open>None\<close> would be a loop that never ends.\<close>

partial_function (option) follow_pages ::
  "(nat \<Rightarrow> (read_error, section_page) result) \<Rightarrow> nat \<Rightarrow> (read_error, section_page list) result option" where
  "follow_pages f off =
     (case f off of
        Inl e \<Rightarrow> Some (Inl e)
      | Inr p \<Rightarrow>
          if \<not> spTruncated p then Some (Inr [p])
          else Option.bind (follow_pages f (spNext p)) (\<lambda>r. Some (map_right (Cons p) r)))"

section \<open>Characters of a text\<close>

lemma rune_count_len: "length (runes_of t) = rune_count t"
  by (simp add: rune_count_def)

lemma substr_take: "substr t a n = take (rune_offset (drop (rune_offset t a) t) n) (drop (rune_offset t a) t)"
proof -
  have "rune_offset t (a + n) = rune_offset t a + rune_offset (drop (rune_offset t a) t) n"
    using runes_of_drop [of a t] by (simp add: rune_offset_def take_add)
  then show ?thesis by (simp add: substr_def subtext_def)
qed

lemma runes_of_substr: "runes_of (substr t a n) = take n (drop a (runes_of t))"
  using runes_of_take [of n "drop (rune_offset t a) t"] runes_of_drop [of a t]
  by (simp add: substr_take rune_offset_def)

lemma rune_count_substr: "rune_count (substr t a n) = min n (rune_count t - a)"
  using arg_cong [OF runes_of_substr [of t a n], of length] by (simp add: rune_count_len)

lemma rune_offset_substr: "k \<le> n \<Longrightarrow> rune_offset (substr t a n) k = rune_offset t (a + k) - rune_offset t a"
  by (simp add: rune_offset_def runes_of_substr take_add min_absorb1)

lemma subtext_append:
  assumes "i \<le> j" and "j \<le> k"
  shows "subtext s i j @ subtext s j k = subtext s i k"
proof -
  have "take (k - i) (drop i s) = take ((j - i) + (k - j)) (drop i s)" using assms by simp
  also have "\<dots> = take (j - i) (drop i s) @ take (k - j) (drop (j - i) (drop i s))" by (rule take_add)
  finally show ?thesis using assms(1) by (simp add: subtext_def)
qed

lemma substr_append: "substr t a n @ substr t (a + n) m = substr t a (n + m)"
  by (simp add: substr_def subtext_append rune_offset_mono add.assoc)

lemma substr_substr: "b + k \<le> n \<Longrightarrow> substr (substr t a n) b k = substr t (a + b) k"
proof -
  assume le: "b + k \<le> n"
  have m: "rune_offset t a \<le> rune_offset t (a + b)" "rune_offset t (a + b) \<le> rune_offset t (a + b + k)"
    "rune_offset t (a + b + k) \<le> rune_offset t (a + n)" using le by (simp_all add: rune_offset_mono)
  have "substr (substr t a n) b k = subtext (substr t a n) (rune_offset t (a + b) - rune_offset t a) (rune_offset t (a + b + k) - rune_offset t a)"
    using le by (simp add: substr_def [of "substr t a n"] rune_offset_substr add.assoc)
  also have "\<dots> = substr t (a + b) k"
    using m by (simp add: substr_def subtext_def drop_take min_absorb1)
  finally show ?thesis .
qed

lemma substr_all: "substr t 0 (rune_count t) = t"
  using rune_offset_all [of t] by (simp add: substr_def subtext_def rune_count_len)

lemma substr_0 [simp]: "substr t a 0 = []"
  by (simp add: substr_def subtext_def)

lemma take_rune_offset: "take (rune_offset q k) q = substr q 0 k"
  by (simp add: substr_def subtext_def)

lemma rune_count_0: "rune_count q = 0 \<longleftrightarrow> q = []"
  by (cases "q = []") (simp_all add: rune_count_def runes_of_Cons)

text \<open>A text cut behind an ASCII byte is cut at a character.\<close>

lemma cut_at_ascii:
  assumes "i < length q" and "byte_val (q ! i) < 128"
  obtains k where "0 < k" and "k \<le> rune_count q" and "take (Suc i) q = substr q 0 k" and "Suc i = rune_offset q k"
proof -
  obtain k where k: "k \<le> rune_count q" "Suc i = rune_offset q k"
    using ascii_ends_rune [OF assms] by (auto simp: rune_count_len)
  then have "0 < k" by (cases k) auto
  moreover have "take (Suc i) q = substr q 0 k" unfolding k(2) by (rule take_rune_offset)
  ultimately show ?thesis using that k by blast
qed

section \<open>A page is a run of whole characters\<close>

lemma subtext_substr: "a \<le> b \<Longrightarrow> subtext t (rune_offset t a) (rune_offset t b) = substr t a (b - a)"
  by (simp add: substr_def)

lemma index_char:
  assumes "str_index (drop e s) [c] = Some i"
  shows "e + i < length s" and "s ! (e + i) = c"
proof -
  have eq: "drop e s = take i (drop e s) @ [c] @ drop (i + length [c]) (drop e s)" and len: "i + length [c] \<le> length (drop e s)"
    using str_index_Some [OF assms] by blast+
  show "e + i < length s" using len by simp
  have "drop e s ! i = (take i (drop e s) @ [c] @ drop (i + length [c]) (drop e s)) ! i" using eq by (rule arg_cong)
  also have "\<dots> = c" using len by (simp add: nth_append)
  finally show "s ! (e + i) = c" using len by simp
qed

lemma table_page_runes:
  assumes "e = rune_offset s r" and "r \<le> mx" and "r \<le> rune_count s"
  shows "\<exists>k. table_page_from s mx rows r e = rune_offset s k \<and> k \<le> mx \<and> k \<le> rune_count s"
  using assms
proof (induction s mx rows r e rule: table_page_from.induct)
  case (1 s mx rows r e)
  define w where "w = (case str_index (drop e s) [newline_byte] of
                  Some i \<Rightarrow> (e + i + 1, True) | None \<Rightarrow> (length s, rune_count s \<le> mx))"
  obtain nxt whole where n: "w = (nxt, whole)" by (cases w)
  show ?case
  proof (cases "e < length s \<and> rows < TablePageRows")
    case True
    have "\<exists>k \<le> rune_count s. nxt = rune_offset s k"
    proof (cases "str_index (drop e s) [newline_byte]")
      case None
      then show ?thesis using n rune_offset_all [of s] by (auto simp: w_def rune_count_len intro!: exI [of _ "rune_count s"])
    next
      case (Some i)
      note at = index_char [OF Some]
      then have "byte_val (s ! (e + i)) < 128" by (simp add: newline_byte_def byte_val_def)
      from cut_at_ascii [OF at(1) this] obtain k where "k \<le> rune_count s" "Suc (e + i) = rune_offset s k" by blast
      then show ?thesis using n Some by (auto simp: w_def)
    qed
    then obtain k where k: "k \<le> rune_count s" "nxt = rune_offset s k" by blast
    have "e < nxt" using n True str_index_Some [of "drop e s" "[newline_byte]"] by (auto simp: w_def split: option.splits)
    then have "r < k" using k(2) "1.prems"(1) rune_offset_mono [of k r s] by (cases "k \<le> r") auto
    then have cnt: "rune_count (subtext s e nxt) = k - r"
      using k "1.prems" subtext_substr [of r k s] by (simp add: rune_count_substr min_absorb1)
    let ?more = "table_page_from s mx (rows + (if isTableRow (subtext s e nxt) then 1 else 0)) (r + rune_count (subtext s e nxt)) nxt"
    have eq: "table_page_from s mx rows r e = (if \<not> whole \<or> r + rune_count (subtext s e nxt) > mx then e else ?more)"
      using True n by (subst table_page_from.simps) (simp add: w_def [symmetric] Let_def)
    show ?thesis
    proof (cases "\<not> whole \<or> r + rune_count (subtext s e nxt) > mx")
      case True
      then show ?thesis using "1.prems" unfolding eq by auto
    next
      case False
      then have "\<exists>k'. ?more = rune_offset s k' \<and> k' \<le> mx \<and> k' \<le> rune_count s"
        using "1.IH" [OF True w_def n [symmetric] refl False] k cnt \<open>r < k\<close> by simp
      then show ?thesis using False eq by simp
    qed
  next
    case False
    then show ?thesis using "1.prems" by (subst table_page_from.simps) auto
  qed
qed

lemma prose_cut_runes:
  assumes "0 < mx" and "mx < rune_count q"
  shows "\<exists>k. prose_cut q mx = substr q 0 k \<and> 0 < k \<and> k \<le> mx"
proof -
  let ?cut = "substr q 0 mx"
  have cnt: "rune_count ?cut = mx" using assms(2) by (simp add: rune_count_substr)
  have whole: ?thesis if "prose_cut q mx = ?cut" using that assms(1) by blast
  show ?thesis
  proof (cases "last_any [CHR '' '', newline_byte, CHR 0x09, CHR 0x0C] ?cut")
    case None
    then show ?thesis using whole by (simp add: prose_cut_def take_rune_offset)
  next
    case (Some j)
    show ?thesis
    proof (cases "j > length ?cut div 2")
      case True
      have j: "j < length ?cut" "?cut ! j \<in> set [CHR '' '', newline_byte, CHR 0x09, CHR 0x0C]"
        using last_any_less [OF Some] last_any_in [OF Some] by auto
      from j(2) have "byte_val (?cut ! j) < 128" by (auto simp: newline_byte_def byte_val_def)
      from cut_at_ascii [OF j(1) this]
      obtain k where k: "0 < k" "k \<le> rune_count ?cut" "take (Suc j) ?cut = substr ?cut 0 k" by blast
      then have "prose_cut q mx = substr q 0 k"
        using Some True cnt by (simp add: prose_cut_def take_rune_offset substr_substr)
      then show ?thesis using k cnt by auto
    next
      case False
      then show ?thesis using whole Some by (simp add: prose_cut_def take_rune_offset)
    qed
  qed
qed

lemma page_cut_runes:
  assumes "0 < mx" and "rune_count q \<le> mx + 1"
  shows "\<exists>k. page_cut q mx = (substr q 0 k, k < rune_count q) \<and> k \<le> mx \<and> k \<le> rune_count q \<and> (q \<noteq> [] \<longrightarrow> 0 < k)"
proof (cases "tablePage q mx")
  case (Some pg)
  let ?e = "table_page_from q mx 0 0 0"
  have e: "pg = take ?e q" "0 < ?e" using Some by (auto simp: tablePage_def Let_def split: if_splits)
  obtain k where k: "?e = rune_offset q k" "k \<le> mx" "k \<le> rune_count q"
    using table_page_runes [of 0 q 0 mx 0] by auto
  have "0 < k" using e(2) k(1) by (cases k) auto
  have "length pg < length q \<longleftrightarrow> k < rune_count q"
    using k rune_offset_less [of k "rune_count q" q] rune_offset_all [of q] e(1) by (cases "k = rune_count q") (auto simp: rune_count_len)
  then show ?thesis using Some e(1) k \<open>0 < k\<close> by (auto simp: page_cut_def take_rune_offset)
next
  case None
  show ?thesis
  proof (cases "rune_count q > mx")
    case True
    then obtain k where "prose_cut q mx = substr q 0 k" "0 < k" "k \<le> mx" using prose_cut_runes [OF assms(1)] by blast
    then show ?thesis using None True by (intro exI [of _ k]) (auto simp: page_cut_def)
  next
    case False
    then show ?thesis using None rune_count_0 [of q]
      by (intro exI [of _ "rune_count q"]) (auto simp: page_cut_def substr_all)
  qed
qed

section \<open>The pages of a section are the section\<close>

text \<open>A document as it is stored: every section lies in the text, and Postgres counts it in an integer.\<close>

definition stored_ok :: "stored_doc \<Rightarrow> bool" where
  "stored_ok d \<longleftrightarrow> rune_count (sdText d) \<le> MaxInt32 \<and> length (sdSections d) \<le> MaxInt32 \<and>
     (\<forall>r \<in> set (sdSections d). rwCharStart r \<le> rwCharEnd r \<and> rwCharEnd r \<le> rune_count (sdText d))"

definition section_text :: "stored_doc \<Rightarrow> nat \<Rightarrow> string" where
  "section_text d ord =
     (let r = sdSections d ! ord in substr (sdText d) (rwCharStart r) (rwCharEnd r - rwCharStart r))"

lemma section_ord_ID: "n \<le> MaxInt32 \<Longrightarrow> section_ord (sectionID n) = Some n"
  using digits_of_digit [of _ n]
  by (auto simp: section_ord_def sectionID_def trim_prefix_def has_prefix_def num_of_digits_of list_all_iff)

lemma page_at_fields:
  assumes "page_cut (substr t (rwCharStart r + off) (min (mx + 1) (rwCharEnd r - rwCharStart r - off))) mx = (x, b)"
  shows "spText (page_at sid r t off mx) = x" and "spTruncated (page_at sid r t off mx) = b"
    and "spNext (page_at sid r t off mx) = (if b then off + rune_count x else 0)"
  unfolding page_at_def Let_def assms by (simp_all split: prod.split split del: if_split)

lemma page_at_runes:
  fixes r :: section_row
  defines "tot \<equiv> rwCharEnd r - rwCharStart r"
  assumes "0 < mx" and "rwCharStart r \<le> rwCharEnd r" and "rwCharEnd r \<le> rune_count t" and "off \<le> tot"
  obtains k where "spText (page_at sid r t off mx) = substr t (rwCharStart r + off) k" and "k \<le> mx" and "off + k \<le> tot"
    and "off < tot \<Longrightarrow> 0 < k" and "spTruncated (page_at sid r t off mx) \<longleftrightarrow> off + k < tot"
    and "spTruncated (page_at sid r t off mx) \<Longrightarrow> spNext (page_at sid r t off mx) = off + k"
proof -
  let ?n = "min (mx + 1) (tot - off)" and ?p = "page_at sid r t off mx"
  let ?q = "substr t (rwCharStart r + off) ?n"
  have cnt: "rune_count ?q = ?n" using assms by (simp add: rune_count_substr tot_def)
  have "rune_count ?q \<le> mx + 1" using cnt by simp
  from page_cut_runes [OF assms(2) this]
  obtain k where k: "page_cut ?q mx = (substr ?q 0 k, k < rune_count ?q)" "k \<le> mx" "k \<le> rune_count ?q" "?q \<noteq> [] \<Longrightarrow> 0 < k"
    by blast
  have sub: "substr ?q 0 k = substr t (rwCharStart r + off) k" using k(3) cnt by (simp add: substr_substr)
  have "page_cut ?q mx = (substr t (rwCharStart r + off) k, k < ?n)" using k(1) unfolding sub cnt .
  note fields = page_at_fields [OF this [unfolded tot_def], folded tot_def, of sid]
  have "k \<le> tot - off" using k(3) unfolding cnt by simp
  then have "k \<le> rune_count t - (rwCharStart r + off)" using assms(3-5) unfolding tot_def by arith
  then have rk: "rune_count (substr t (rwCharStart r + off) k) = k" unfolding rune_count_substr by (rule min_absorb1)
  show ?thesis
  proof (rule that [of k])
    show "off < tot \<Longrightarrow> 0 < k" using k(4) cnt rune_count_0 [of ?q] by auto
  qed (use fields rk k cnt assms(5) in auto)
qed

lemma follow_pages_from:
  fixes r :: section_row
  defines "tot \<equiv> rwCharEnd r - rwCharStart r"
  assumes "0 < mx" and "rwCharStart r \<le> rwCharEnd r" and "rwCharEnd r \<le> rune_count t"
    and f: "\<And>off. off \<le> tot \<Longrightarrow> f off = Inr (page_at sid r t off mx)" and "off \<le> tot"
  shows "\<exists>ps. follow_pages f off = Some (Inr ps) \<and> concat (map spText ps) = substr t (rwCharStart r + off) (tot - off)
    \<and> (\<forall>p \<in> set ps. rune_count (spText p) \<le> mx \<and> f (spOffset p) = Inr p)"
  using assms(6)
proof (induction "tot - off" arbitrary: off rule: less_induct)
  case less
  let ?p = "page_at sid r t off mx"
  obtain k where k: "spText ?p = substr t (rwCharStart r + off) k" "k \<le> mx" "off + k \<le> tot" "off < tot \<Longrightarrow> 0 < k"
    "spTruncated ?p \<longleftrightarrow> off + k < tot" "spTruncated ?p \<Longrightarrow> spNext ?p = off + k"
    using page_at_runes [OF assms(2-4), of off sid] less.prems by (auto simp: tot_def)
  have "spOffset ?p = off" by (simp add: page_at_def Let_def split: prod.split split del: if_split)
  then have cnt: "rune_count (spText ?p) \<le> mx \<and> f (spOffset ?p) = Inr ?p" using k(1,2) f [OF less.prems] by (simp add: rune_count_substr)
  show ?case
  proof (cases "spTruncated ?p")
    case False
    then have "off + k = tot" using k(3,5) by simp
    then show ?thesis using False k(1) f [OF less.prems] cnt
      by (intro exI [of _ "[?p]"]) (auto simp: follow_pages.simps)
  next
    case True
    then have lt: "off + k < tot" "0 < k" using k(4,5) by auto
    then obtain ps where ps: "follow_pages f (off + k) = Some (Inr ps)"
      "concat (map spText ps) = substr t (rwCharStart r + (off + k)) (tot - (off + k))" "\<forall>p \<in> set ps. rune_count (spText p) \<le> mx \<and> f (spOffset p) = Inr p"
      using less.hyps [of "off + k"] diff_less_mono2 [of off "off + k" tot] by auto
    have "substr t (rwCharStart r + off) k @ substr t (rwCharStart r + off + k) (tot - (off + k)) = substr t (rwCharStart r + off) (tot - off)"
      using substr_append [of t "rwCharStart r + off" k "tot - (off + k)"] lt(1) by simp
    then show ?thesis using True k(1,6) f [OF less.prems] ps cnt
      by (intro exI [of _ "?p # ps"]) (auto simp: follow_pages.simps [of f off] map_right_def add.assoc)
  qed
qed

text \<open>
  C16. Reading a section page by page ends and reads it once: from offset 0, following \<^verbatim>\<open>Next\<close> while a
  page is truncated, at any limit the reader accepts, the pages' texts are the section's text in order,
  with nothing missing and nothing twice, and no page is longer than its limit.
\<close>

theorem section_read_whole:
  assumes "lib docID = Some d" and "stored_ok d" and "inScope scope docID" and "ValidID docID" and "ord < length (sdSections d)"
    and "1 \<le> limit" and "limit \<le> MaxSectionTokens"
  shows "\<exists>ps. follow_pages (\<lambda>off. Section lib scope docID (sectionID ord) (int off) limit) 0 = Some (Inr ps)
    \<and> concat (map spText ps) = section_text d ord \<and> (\<forall>p \<in> set ps. rune_count (spText p) \<le> page_chars limit)"
proof -
  let ?r = "sdSections d ! ord"
  have r: "rwCharStart ?r \<le> rwCharEnd ?r" "rwCharEnd ?r \<le> rune_count (sdText d)" "ord \<le> MaxInt32" "rune_count (sdText d) \<le> MaxInt32"
    using assms(2,5) by (auto simp: stored_ok_def)
  have mx: "0 < page_chars limit" using assms(6) by (simp add: page_chars_def)
  have "Section lib scope docID (sectionID ord) (int off) limit = Inr (page_at (sectionID ord) ?r (sdText d) off (page_chars limit))"
    if "off \<le> rwCharEnd ?r - rwCharStart ?r" for off
    using that assms r by (simp add: Section_def section_ord_ID Let_def)
  from follow_pages_from [OF mx r(1,2) this, of 0] show ?thesis
    by (auto simp: section_text_def Let_def)
qed

definition demo_docID :: string where
  "demo_docID = ''0f3e2a1c-5b6d-4e8f-9a0b-1c2d3e4f5a6b''"

definition demo_library :: library where
  "demo_library = [demo_docID \<mapsto> \<lparr>sdText = ''a long section'', sdSections = [\<lparr>rwNumber = [], rwTitle = [], rwLevel = 0,
     rwCharStart = 0, rwCharEnd = 14, rwTokens = 5\<rparr>]\<rparr>]"

lemma demo_docID_ok: "ValidID demo_docID" "inScope [demo_docID] demo_docID"
proof -
  show "ValidID demo_docID" by code_simp
qed (simp add: inScope_def)

theorem section_read_whole_witness:
  "\<exists>ps. follow_pages (\<lambda>off. Section demo_library [demo_docID] demo_docID ''s0'' (int off) 1) 0 = Some (Inr ps)
     \<and> concat (map spText ps) = ''a long section''"
proof -
  let ?d = "the (demo_library demo_docID)"
  have cnt: "rune_count ''a long section'' = 14" by code_simp
  have d: "demo_library demo_docID = Some ?d" "sdText ?d = ''a long section''" by (simp_all add: demo_library_def)
  have ok: "stored_ok ?d" using cnt by (simp add: stored_ok_def demo_library_def MaxInt32_def)
  have "sectionID 0 = ''s0''" by code_simp
  moreover have "section_text ?d 0 = ''a long section''"
    using substr_all [of "''a long section''"] cnt by (simp add: section_text_def demo_library_def)
  ultimately show ?thesis
    using section_read_whole [where lib = demo_library and docID = demo_docID and ord = 0 and limit = 1, OF d(1) ok demo_docID_ok(2,1)]
    by (auto simp: demo_library_def MaxSectionTokens_def)
qed

section \<open>What is stored is the text\<close>

definition at_rune :: "string \<Rightarrow> nat \<Rightarrow> bool" where
  "at_rune t a \<longleftrightarrow> (\<exists>k \<le> rune_count t. a = rune_offset t k)"

lemma rune_offset_inj: "j \<le> rune_count t \<Longrightarrow> k \<le> rune_count t \<Longrightarrow> rune_offset t j = rune_offset t k \<Longrightarrow> j = k"
  using rune_offset_less [of j k t] rune_offset_less [of k j t] by (cases j k rule: linorder_cases) (auto simp: rune_count_len)

lemma at_rune_0 [simp]: "at_rune t 0"
  by (auto simp: at_rune_def intro: exI [of _ 0])

lemma at_rune_end [simp]: "at_rune t (length t)"
  using rune_offset_all [of t] by (auto simp: at_rune_def rune_count_len intro!: exI [of _ "rune_count t"])

lemma at_rune_le: "at_rune t a \<Longrightarrow> a \<le> length t"
  using rune_offset_all [of t] rune_offset_mono [of _ "rune_count t" t] by (auto simp: at_rune_def rune_count_len)

lemma rune_walk_counts:
  assumes "sorted (rune_offset t k0 # as)" and "k0 \<le> rune_count t" and "\<forall>a \<in> set as. at_rune t a"
    and "a \<in> set as" and "k \<le> rune_count t" and "a = rune_offset t k"
  shows "map_of (rune_walk t (rune_offset t k0) k0 as) a = Some k"
  using assms(1-4)
proof (induction as arbitrary: k0)
  case (Cons b bs)
  obtain kb where b: "kb \<le> rune_count t" "b = rune_offset t kb" using Cons.prems(3) by (auto simp: at_rune_def)
  have "k0 \<le> kb"
    using Cons.prems(1,2) b rune_offset_less [of kb k0 t] by (cases "k0 \<le> kb") (auto simp: rune_count_len)
  then have cnt: "k0 + rune_count (subtext t (rune_offset t k0) b) = kb"
    using b by (simp add: subtext_substr rune_count_substr min_absorb1)
  show ?case
  proof (cases "a = b")
    case True
    then show ?thesis using cnt rune_offset_inj [OF assms(5) b(1)] assms(6) b(2) by (simp add: Let_def)
  next
    case False
    then show ?thesis using Cons.IH [of kb] Cons.prems b cnt by (auto simp: Let_def)
  qed
qed simp

lemma runeOffsets_at:
  assumes "\<forall>a \<in> set offs. at_rune t a" and "a \<in> set offs"
  shows "runeOffsets t offs a \<le> rune_count t" and "rune_offset t (runeOffsets t offs a) = a"
proof -
  obtain k where k: "k \<le> rune_count t" "a = rune_offset t k" using assms by (auto simp: at_rune_def)
  have "map_of (rune_walk t 0 0 (sort offs)) a = Some k"
    using rune_walk_counts [of t 0 "sort offs" a k] assms k by simp
  then show "runeOffsets t offs a \<le> rune_count t" "rune_offset t (runeOffsets t offs a) = a"
    using k by (simp_all add: runeOffsets_def)
qed

text \<open>Every section of a tree starts and ends at a character.\<close>

lemma line_end_at_rune:
  assumes "start < length t"
  shows "at_rune t (line_end t start (length t))"
proof (cases "str_index (subtext t start (length t)) [CHR 0x0A]")
  case None
  then show ?thesis by (simp add: line_end_def)
next
  case (Some i)
  then have "str_index (drop start t) [CHR 0x0A] = Some i" by (simp add: subtext_def)
  from index_char [OF this] have at: "start + i < length t" "byte_val (t ! (start + i)) < 128"
    by (simp_all add: byte_val_def)
  from cut_at_ascii [OF at] show ?thesis
    using Some by (auto simp: line_end_def at_rune_def)
qed

definition placed :: "string \<Rightarrow> sect \<Rightarrow> bool" where
  "placed t s \<longleftrightarrow> at_rune t (sStart s) \<and> (sLevel s = 0 \<longrightarrow> at_rune t (sEnd s))"

lemma line_step_placed:
  assumes "\<forall>s \<in> set (fst acc). placed t s" and "at_rune t start" and "levels_ok cls"
  shows "\<forall>s \<in> set (fst (line_step cls t start fin acc)). placed t s"
proof -
  have new: "placed t (s\<lparr>sStart := start\<rparr>)" if "cls l = Some s" for l s
    using that assms(2,3) by (fastforce simp: placed_def levels_ok_def)
  have pre: "placed t (preface start)" using assms(2) by (simp add: placed_def preface_def)
  obtain secs capped where acc: "acc = (secs, capped)" by (cases acc)
  show ?thesis
  proof (cases "cls (line_text (subtext t start fin))")
    case None
    then show ?thesis using assms(1) by (simp add: line_step_def acc)
  next
    case (Some s)
    then show ?thesis using assms(1) pre new [OF Some] by (auto simp: line_step_def acc Let_def)
  qed
qed

lemma parse_lines_placed:
  assumes "\<forall>s \<in> set (fst acc). placed t s" and "at_rune t start" and "levels_ok cls"
  shows "\<forall>s \<in> set (fst (parse_lines cls t start acc)). placed t s"
  using assms
proof (induction cls "t" start acc rule: parse_lines.induct)
  case (1 cls t start acc)
  show ?case
  proof (cases "start < length t")
    case True
    show ?thesis
      using "1.IH" [OF True refl line_step_placed [OF "1.prems"] line_end_at_rune [OF True] "1.prems"(3)] True
      by (subst parse_lines.simps) (simp add: Let_def)
  qed (use "1.prems" in \<open>subst parse_lines.simps, simp\<close>)
qed

lemma fill_ends_at_rune:
  assumes "\<forall>s \<in> set secs. placed t s"
  shows "\<forall>s \<in> set (fill_ends (length t) secs). at_rune t (sStart s) \<and> at_rune t (sEnd s)"
  using assms
proof (induction secs)
  case (Cons s rest)
  have "at_rune t (subtree_end (length t) rest l)" for l
  proof (cases "find (\<lambda>s. sLevel s \<le> l) rest")
    case (Some x)
    then show ?thesis using Cons.prems find_SomeD [OF Some] by (simp add: subtree_end_def placed_def)
  qed (simp add: subtree_end_def)
  then show ?case using Cons by (simp add: placed_def)
qed simp

lemma parseTree_at_rune:
  assumes "levels_ok cls" and "parseTree cls t = (secs, capped)"
  shows "\<forall>s \<in> set secs. at_rune t (sStart s) \<and> at_rune t (sEnd s)"
proof -
  obtain ss c where p: "parse_lines cls t 0 ([], False) = (ss, c)" by (metis prod.exhaust)
  have "\<forall>s \<in> set ss. placed t s"
    using parse_lines_placed [of "([], False)" t 0 cls] assms(1) p by simp
  from fill_ends_at_rune [OF this] show ?thesis
    using assms(2) p by (auto simp: parseTree_def preface_def split: if_splits)
qed

lemma parseTree_start_end:
  assumes "levels_ok cls" and "parseTree cls t = (secs, capped)" and "s \<in> set secs"
  shows "sStart s \<le> sEnd s"
proof -
  obtain ss c where p: "parse_lines cls t 0 ([], False) = (ss, c)" by (metis prod.exhaust)
  have "lined 0 (fst ([], False))" by (simp add: lined_def)
  from lined_parse [OF assms(1) this, of t] have l: "lined (length t) ss" by (simp add: p)
  have fe: "s \<in> set (fill_ends n ss') \<Longrightarrow> sorted_wrt (<) (map sStart ss') \<Longrightarrow> \<forall>x \<in> set ss'. sStart x < n \<and> (sLevel x = 0 \<longrightarrow> sStart x \<le> sEnd x)
      \<Longrightarrow> sStart s \<le> sEnd s" for n ss'
  proof (induction ss')
    case (Cons x rest)
    have "sStart x \<le> subtree_end n rest l" for l
      using Cons.prems find_SomeD [of "\<lambda>s. sLevel s \<le> l" rest] by (fastforce simp: subtree_end_def split: option.split)
    then show ?case using Cons by auto
  qed simp
  show ?thesis
  proof (cases "ss = []")
    case True
    then show ?thesis using assms(2,3) p by (auto simp: parseTree_def preface_def)
  next
    case False
    have "sLevel x = 0 \<longrightarrow> sStart x \<le> sEnd x" if "x \<in> set ss" for x
      using l that False by (cases ss) (auto simp: lined_def)
    then show ?thesis using fe [of "length t" ss] l assms(2,3) p False by (auto simp: parseTree_def lined_def)
  qed
qed

text \<open>What is stored of a text's tree: each section reads as its own bytes of the text.\<close>

lemma stored_tree:
  assumes "levels_ok cls" and "parseTree cls t = (secs, capped)" and "i < length secs"
  shows "section_text (store_doc t secs) i = subtext t (sStart (secs ! i)) (sEnd (secs ! i))"
    and "rwCharStart (sdSections (store_doc t secs) ! i) \<le> rwCharEnd (sdSections (store_doc t secs) ! i)"
    and "rwCharEnd (sdSections (store_doc t secs) ! i) \<le> rune_count t"
proof -
  let ?ro = "runeOffsets t (section_offsets secs)" and ?s = "secs ! i"
  have "\<forall>a \<in> set (section_offsets secs). at_rune t a"
    using parseTree_at_rune [OF assms(1,2)] by (auto simp: section_offsets_def)
  moreover have "sStart ?s \<in> set (section_offsets secs)" "sEnd ?s \<in> set (section_offsets secs)"
    using assms(3) by (auto simp: section_offsets_def intro!: bexI [of _ ?s])
  ultimately have r: "?ro (sStart ?s) \<le> rune_count t" "rune_offset t (?ro (sStart ?s)) = sStart ?s"
    "?ro (sEnd ?s) \<le> rune_count t" "rune_offset t (?ro (sEnd ?s)) = sEnd ?s"
    using runeOffsets_at by blast+
  have se: "sStart ?s \<le> sEnd ?s" using parseTree_start_end [OF assms(1,2)] assms(3) by simp
  then have le: "?ro (sStart ?s) \<le> ?ro (sEnd ?s)"
    using r rune_offset_less [of "?ro (sEnd ?s)" "?ro (sStart ?s)" t] by (cases "?ro (sStart ?s) \<le> ?ro (sEnd ?s)") (auto simp: rune_count_len)
  show "rwCharStart (sdSections (store_doc t secs) ! i) \<le> rwCharEnd (sdSections (store_doc t secs) ! i)"
    "rwCharEnd (sdSections (store_doc t secs) ! i) \<le> rune_count t"
    using le r assms(3) by (simp_all add: store_doc_def store_sections_def Let_def)
  show "section_text (store_doc t secs) i = subtext t (sStart ?s) (sEnd ?s)"
    using le r assms(3) by (simp add: section_text_def store_doc_def store_sections_def Let_def substr_def)
qed

end
