(* ===== verification/Sweep.thy ===== *)
theory Sweep
  imports Reader
begin

text \<open>
  The plan of the evidence sweep, \<^verbatim>\<open>internal/engine/sweep.go\<close>: the top-level sections of a document,
  the visits that read them (a page of a long section, or a run of short ones) and what each visit
  reads.
\<close>

section \<open>Visits\<close>

record visit =
  viDocument :: string
  viSection :: string
  viOffset :: nat
  viThrough :: string
  viText :: string

definition visit_key :: "visit \<Rightarrow> string" where
  "visit_key v = viDocument v @ ''|'' @ viSection v @ ''|'' @ itoa (int (viOffset v)) @ (if viThrough v \<noteq> [] then ''|'' @ viThrough v else [])"

text \<open>\<^verbatim>\<open>roots\<close>: the sections no other contains; the stack is the levels of the sections the walk is inside.\<close>

fun roots_by :: "('a \<Rightarrow> nat) \<Rightarrow> nat list \<Rightarrow> 'a list \<Rightarrow> 'a list" where
  "roots_by level open [] = []"
| "roots_by level open (s # ss) =
     (let open' = dropWhile (\<lambda>l. l \<ge> level s) open in
      (if open' = [] then [s] else []) @ roots_by level (if level s > 0 then level s # open' else open') ss)"

definition roots :: "outline_entry list \<Rightarrow> outline_entry list" where
  "roots = roots_by oeLevel []"

definition sweepTokens :: nat where "sweepTokens = 600"

section \<open>The plan\<close>

record plan_state =
  plOut :: "visit list"
  plRun :: "outline_entry list"
  plText :: string
  plSize :: nat

definition flush_run :: "string \<Rightarrow> plan_state \<Rightarrow> plan_state" where
  "flush_run docID st =
     (case plRun st of
        [] \<Rightarrow> st
      | s # ss \<Rightarrow>
          st\<lparr>plOut := plOut st @ [\<lparr>viDocument = docID, viSection = oeSectionID s, viOffset = 0,
               viThrough = (if ss \<noteq> [] then oeSectionID (last ss) else []), viText = plText st\<rparr>],
             plRun := [], plText := [], plSize := 0\<rparr>)"

definition page_visit :: "string \<Rightarrow> outline_entry \<Rightarrow> section_page \<Rightarrow> visit" where
  "page_visit docID s p = \<lparr>viDocument = docID, viSection = oeSectionID s, viOffset = spOffset p, viThrough = [],
     viText = spHeader p @ [newline_byte] @ spText p\<rparr>"

definition plan_root :: "library \<Rightarrow> string list \<Rightarrow> string \<Rightarrow> outline_entry \<Rightarrow> plan_state \<Rightarrow> (read_error, plan_state) result option" where
  "plan_root lib scope docID s st0 =
     (if oeTokens s < sweepTokens then
        let st = (if plSize st0 + oeTokens s > sweepTokens then flush_run docID st0 else st0) in
        Some (map_right (\<lambda>p. st\<lparr>plRun := plRun st @ [s], plText := plText st @ spText p, plSize := plSize st + oeTokens s\<rparr>)
          (Section lib scope docID (oeSectionID s) 0 (int sweepTokens)))
      else
        let st = flush_run docID st0 in
        map_option (map_right (\<lambda>ps. st\<lparr>plOut := plOut st @ map (page_visit docID s) ps\<rparr>))
          (follow_pages (\<lambda>off. Section lib scope docID (oeSectionID s) (int off) (int sweepTokens)) 0))"

text \<open>A loop that stops at the first error.\<close>

fun plan_roots :: "library \<Rightarrow> string list \<Rightarrow> string \<Rightarrow> outline_entry list \<Rightarrow> plan_state \<Rightarrow> (read_error, plan_state) result option" where
  "plan_roots lib scope docID [] st = Some (Inr st)"
| "plan_roots lib scope docID (s # ss) st =
     Option.bind (plan_root lib scope docID s st)
       (\<lambda>r. case r of Inl e \<Rightarrow> Some (Inl e) | Inr st' \<Rightarrow> plan_roots lib scope docID ss st')"

definition empty_plan :: plan_state where
  "empty_plan = \<lparr>plOut = [], plRun = [], plText = [], plSize = 0\<rparr>"

definition plan_doc :: "library \<Rightarrow> string list \<Rightarrow> string \<Rightarrow> (read_error, visit list) result option" where
  "plan_doc lib scope docID =
     (case Outline lib scope docID of
        Inl e \<Rightarrow> Some (Inl e)
      | Inr o1 \<Rightarrow> map_option (map_right (\<lambda>st. plOut (flush_run docID st))) (plan_roots lib scope docID (roots o1) empty_plan))"

fun plan :: "library \<Rightarrow> string list \<Rightarrow> string list \<Rightarrow> (read_error, visit list) result option" where
  "plan lib scope [] = Some (Inr [])"
| "plan lib scope (d # ds) =
     Option.bind (plan_doc lib scope d)
       (\<lambda>r. case r of Inl e \<Rightarrow> Some (Inl e) | Inr vs \<Rightarrow> map_option (map_right (\<lambda>ws. vs @ ws)) (plan lib scope ds))"

section \<open>What a visit reads\<close>

fun index_of :: "('a \<Rightarrow> bool) \<Rightarrow> 'a list \<Rightarrow> nat option" where
  "index_of P [] = None"
| "index_of P (x # xs) = (if P x then Some 0 else map_option Suc (index_of P xs))"

text \<open>The texts of a run's sections, none of them cut.\<close>

fun run_pages :: "library \<Rightarrow> string list \<Rightarrow> string \<Rightarrow> outline_entry list \<Rightarrow> string option" where
  "run_pages lib scope docID [] = Some []"
| "run_pages lib scope docID (s # ss) =
     (case Section lib scope docID (oeSectionID s) 0 MaxSectionTokens of
        Inl e \<Rightarrow> None
      | Inr p \<Rightarrow> if spTruncated p then None else map_option ((@) (spText p)) (run_pages lib scope docID ss))"

definition runText :: "library \<Rightarrow> string list \<Rightarrow> string \<Rightarrow> string \<Rightarrow> string \<Rightarrow> string option" where
  "runText lib scope docID first through =
     (case Outline lib scope docID of
        Inl e \<Rightarrow> None
      | Inr o1 \<Rightarrow>
          let rs = roots o1 in
          (case (index_of (\<lambda>s. oeSectionID s = first) rs, index_of (\<lambda>s. oeSectionID s = through) rs) of
             (Some i, Some j) \<Rightarrow>
               let run = take (j + 1 - i) (drop i rs) in
               if j < i \<or> int (sum_list (map oeTokens run)) > MaxSectionTokens then None
               else run_pages lib scope docID run
           | _ \<Rightarrow> None))"

text \<open>What \<^verbatim>\<open>extract_facts\<close> is sent of a visit (\<^verbatim>\<open>register.go\<close>): the run's text, or one page.\<close>

definition visit_reads :: "library \<Rightarrow> string list \<Rightarrow> visit \<Rightarrow> string option" where
  "visit_reads lib scope v =
     (if viThrough v \<noteq> [] then
        if viOffset v \<noteq> 0 then None else runText lib scope (viDocument v) (viSection v) (viThrough v)
      else (case Section lib scope (viDocument v) (viSection v) (int (viOffset v)) (int sweepTokens) of
          Inl e \<Rightarrow> None
        | Inr p \<Rightarrow> Some (spText p)))"

section \<open>The top-level sections cover the text\<close>

lemma roots_by_map: "roots_by level open (map f xs) = map f (roots_by (level \<circ> f) open xs)"
  by (induction xs arbitrary: "open") (auto simp: Let_def)

lemma roots_by_inside:
  assumes "open \<noteq> []" and "last open = l" and "\<forall>k \<in> set open. l \<le> k"
  shows "roots_by level open ss = roots_by level [] (dropWhile (\<lambda>s. level s > l) ss)"
  using assms
proof (induction ss arbitrary: "open")
  case (Cons s ss)
  let ?open = "dropWhile (\<lambda>k. k \<ge> level s) open"
  show ?case
  proof (cases "level s > l")
    case True
    then have "?open \<noteq> []" using Cons.prems by (auto simp: dropWhile_eq_Nil_conv intro!: bexI [of _ l] last_in_set)
    moreover from this have "last ?open = l" using Cons.prems(2) by (metis dropWhile_eq_drop last_drop length_drop zero_less_diff length_0_conv neq0_conv)
    moreover have "\<forall>k \<in> set (level s # ?open). l \<le> k" using Cons.prems(3) True set_dropWhileD by fastforce
    ultimately show ?thesis using Cons.IH [of "level s # ?open"] True by (simp add: Let_def)
  next
    case False
    then have "?open = []" using Cons.prems(3) by (fastforce simp: dropWhile_eq_Nil_conv)
    then have "roots_by level open (s # ss) = [s] @ roots_by level (if level s > 0 then [level s] else []) ss"
      by (simp only: roots_by.simps Let_def simp_thms if_True)
    then show ?thesis using False by (simp add: Let_def)
  qed
qed simp

lemma roots_by_Cons:
  "roots_by level [] (s # ss) = s # (if level s = 0 then roots_by level [] ss else roots_by level [] (dropWhile (\<lambda>x. level x > level s) ss))"
  using roots_by_inside [of "[level s]" "level s" level ss] by (simp add: Let_def)

lemma roots_by_subset: "set (roots_by level open ss) \<subseteq> set ss"
proof (induction ss arbitrary: "open")
  case (Cons s ss)
  have "set (roots_by level st ss) \<subseteq> insert s (set ss)" for st using Cons.IH [of st] by blast
  then show ?case by (auto simp: Let_def)
qed simp

lemma subtext_drop: "i \<le> j \<Longrightarrow> subtext t i j @ drop j t = drop i t"
  by (simp add: subtext_def) (metis append_take_drop_id drop_drop le_add_diff_inverse2)

text \<open>Sections whose ends are right: a root ends where the next begins.\<close>

definition follows :: "nat \<Rightarrow> sect list \<Rightarrow> nat" where
  "follows n ss = (case ss of [] \<Rightarrow> n | s # _ \<Rightarrow> sStart s)"

definition nested :: "nat \<Rightarrow> sect list \<Rightarrow> bool" where
  "nested n ss \<longleftrightarrow> (\<forall>i < length ss. sEnd (ss ! i) =
      (if sLevel (ss ! i) = 0 then follows n (drop (Suc i) ss) else subtree_end n (drop (Suc i) ss) (sLevel (ss ! i))))
    \<and> (\<forall>i < length ss. \<forall>j < i. sStart (ss ! j) \<le> sStart (ss ! i)) \<and> (\<forall>s \<in> set ss. sStart s \<le> n)"

lemma nested_drop: "nested n ss \<Longrightarrow> nested n (drop k ss)"
  unfolding nested_def by (auto simp: add.commute dest: in_set_dropD)

lemma subtree_end_follows: "subtree_end n ss l = follows n (dropWhile (\<lambda>s. sLevel s > l) ss)"
  by (induction ss) (auto simp: subtree_end_def follows_def)

lemma roots_tile:
  assumes "nested (length t) ss"
  shows "concat (map (\<lambda>s. subtext t (sStart s) (sEnd s)) (roots_by sLevel [] ss)) = drop (follows (length t) ss) t"
  using assms
proof (induction "length ss" arbitrary: ss rule: less_induct)
  case less
  show ?case
  proof (cases ss)
    case Nil
    then show ?thesis by (simp add: follows_def)
  next
    case (Cons s rest)
    define after where "after = (if sLevel s = 0 then rest else dropWhile (\<lambda>x. sLevel x > sLevel s) rest)"
    obtain k where k: "after = drop k ss" "0 < k"
    proof (cases "sLevel s = 0")
      case True
      then show ?thesis using that [of 1] by (simp add: after_def Cons)
    next
      case False
      then show ?thesis using that [of "Suc (length (takeWhile (\<lambda>x. sLevel x > sLevel s) rest))"]
        by (simp add: after_def Cons dropWhile_eq_drop)
    qed
    have nest: "nested (length t) after" using nested_drop [OF less.prems] by (simp add: k)
    have "sEnd s = follows (length t) after"
      using less.prems subtree_end_follows [of "length t" rest "sLevel s"]
      by (auto simp: nested_def Cons after_def)
    moreover have "sStart s \<le> follows (length t) after"
    proof (cases after)
      case Nil
      then show ?thesis using less.prems by (simp add: follows_def nested_def Cons)
    next
      case (Cons x xs)
      then have "x = ss ! k" "k < length ss" using k(1) by (metis Cons hd_drop_conv_nth list.sel(1) length_drop not_less0 diff_is_0_eq drop_all list.distinct(1) not_less)+
      then show ?thesis using less.prems k(2) \<open>ss = s # rest\<close> Cons by (fastforce simp: nested_def follows_def)
    qed
    moreover have "roots_by sLevel [] ss = s # roots_by sLevel [] after"
      using roots_by_Cons [of sLevel s rest] by (cases "sLevel s = 0") (simp_all add: Cons after_def del: roots_by.simps)
    moreover have "length after < length ss" using k Cons by simp
    ultimately show ?thesis
      using less.hyps [OF _ nest] by (simp add: follows_def Cons subtext_drop)
  qed
qed

lemma nested_parse:
  assumes "levels_ok cls" and "parseTree cls t = (secs, capped)"
  shows "nested (length t) secs" and "follows (length t) secs = 0"
proof -
  obtain ss c where p: "parse_lines cls t 0 ([], False) = (ss, c)" by (metis prod.exhaust)
  have "lined 0 (fst ([], False))" by (simp add: lined_def)
  from lined_parse [OF assms(1) this, of t] have l: "lined (length t) ss" by (simp add: p)
  have tiled: "tiles 0 (length t) secs" "ends_right (length t) secs" "secs \<noteq> []"
    using parseTree_tiles [OF assms] by auto
  then show "follows (length t) secs = 0" by (cases secs) (auto simp: follows_def)
  show "nested (length t) secs"
  proof (cases "ss = []")
    case True
    then have "secs = [preface (length t)]" using assms(2) p by (simp add: parseTree_def)
    then show ?thesis by (simp add: nested_def preface_def follows_def)
  next
    case False
    then have secs: "secs = fill_ends (length t) ss" using assms(2) p by (simp add: parseTree_def)
    have starts: "map sStart secs = map sStart ss" "map sLevel secs = map sLevel ss" by (simp_all add: secs)
    have len: "length secs = length ss" by (simp add: secs)
    have nths: "sStart (secs ! i) = sStart (ss ! i)" "sLevel (secs ! i) = sLevel (ss ! i)" if "i < length ss" for i
      using starts that len by (metis nth_map)+
    have "sEnd (secs ! i) = (if sLevel (secs ! i) = 0 then follows (length t) (drop (Suc i) secs)
        else subtree_end (length t) (drop (Suc i) secs) (sLevel (secs ! i)))" if i: "i < length secs" for i
    proof (cases "sLevel (secs ! i) = 0")
      case True
      have "i = 0"
      proof (rule ccontr)
        assume "i \<noteq> 0"
        then have "ss ! i \<in> set (tl ss)" using i len False by (cases ss; cases i) auto
        then show False using l True nths(2) i len by (auto simp: lined_def)
      qed
      moreover from this obtain x y zs where "ss = x # y # zs" "sEnd x = sStart y" "sLevel x = 0"
        using l True nths(2) i len False by (cases ss; cases "tl ss") (auto simp: lined_def)
      ultimately show ?thesis by (simp add: secs follows_def)
    next
      case False
      then show ?thesis using tiled(2) i by (simp add: ends_right_def)
    qed
    moreover have "sStart (secs ! j) \<le> sStart (secs ! i)" if "i < length secs" "j < i" for i j
      using that nths len l by (auto simp: lined_def sorted_wrt_iff_nth_less less_imp_le)
    moreover have "sStart s \<le> length t" if "s \<in> set secs" for s
    proof -
      from that obtain i where "i < length ss" "s = secs ! i" by (auto simp: in_set_conv_nth len)
      then show ?thesis using nths(1) [of i] l by (auto simp: lined_def less_imp_le)
    qed
    ultimately show ?thesis by (simp add: nested_def)
  qed
qed

section \<open>What the plan reads\<close>

text \<open>The text of an outline's section, and a document that reads as the text it was stored from.\<close>

definition root_text :: "stored_doc \<Rightarrow> outline_entry \<Rightarrow> string" where
  "root_text d s = (case section_ord (oeSectionID s) of Some ord \<Rightarrow> section_text d ord | None \<Rightarrow> [])"

lemma sectionID_inj: "sectionID m = sectionID n \<Longrightarrow> m = n"
proof -
  assume "sectionID m = sectionID n"
  then have "digits_of m = digits_of n" by (simp add: sectionID_def)
  then show "m = n" by (metis num_of_digits_of)
qed

text \<open>A short section holds few rows of a table: fewer than a page of a table may.\<close>

definition table_rows :: "string \<Rightarrow> nat" where
  "table_rows s = length (filter isTableRow (split_char newline_byte s))"

lemma split_at_index:
  "str_index s [c] = Some i \<Longrightarrow> split_char c s = take i s # split_char c (drop (Suc i) s)"
  "str_index s [c] = None \<Longrightarrow> split_char c s = [s]"
  by (induction s arbitrary: i) (auto simp: has_prefix_def split: if_splits)

lemma row_with_newline: "isTableRow (l @ [newline_byte]) = isTableRow l"
  by (simp add: isTableRow_def count_byte_def newline_byte_def)

lemma small_table_whole:
  assumes "rune_count s \<le> mx" and "e = rune_offset s r" and "r \<le> rune_count s" and "rows + table_rows (drop e s) < TablePageRows"
  shows "table_page_from s mx rows r e = length s"
  using assms
proof (induction s mx rows r e rule: table_page_from.induct)
  case (1 s mx rows r e)
  define w where "w = (case str_index (drop e s) [newline_byte] of
                  Some i \<Rightarrow> (e + i + 1, True) | None \<Rightarrow> (length s, rune_count s \<le> mx))"
  obtain nxt whole where n: "w = (nxt, whole)" by (cases w)
  have "e \<le> length s" using "1.prems"(2,3) at_rune_le by (auto simp: at_rune_def)
  show ?case
  proof (cases "e < length s")
    case True
    then have go: "e < length s \<and> rows < TablePageRows" using "1.prems"(4) by simp
    have "\<exists>k \<le> rune_count s. nxt = rune_offset s k" "whole"
      using line_end_at_rune [OF True] n "1.prems"(1) rune_offset_all [of s]
      by (auto simp: w_def line_end_def subtext_def at_rune_def rune_count_len newline_byte_def split: option.splits)
    then obtain k where k: "k \<le> rune_count s" "nxt = rune_offset s k" and "whole" by blast
    have "e < nxt" using n True str_index_Some [of "drop e s" "[newline_byte]"] by (auto simp: w_def split: option.splits)
    then have "r < k" using k(2) "1.prems"(2) rune_offset_mono [of k r s] by (cases "k \<le> r") auto
    then have cnt: "rune_count (subtext s e nxt) = k - r"
      using k "1.prems" subtext_substr [of r k s] by (simp add: rune_count_substr min_absorb1)
    have rows: "(if isTableRow (subtext s e nxt) then 1 else 0) + table_rows (drop nxt s) \<le> table_rows (drop e s) \<or> nxt = length s"
    proof (cases "str_index (drop e s) [newline_byte]")
      case None
      then show ?thesis using n by (simp add: w_def)
    next
      case (Some i)
      have nx: "nxt = e + i + 1" using n Some by (simp add: w_def)
      have "subtext s e nxt = take i (drop e s) @ [newline_byte]"
        using index_char [OF Some] by (simp add: nx subtext_def take_Suc_conv_app_nth)
      moreover have "drop (Suc i) (drop e s) = drop nxt s" by (simp add: nx add.commute)
      ultimately show ?thesis using split_at_index(1) [OF Some] by (simp add: table_rows_def row_with_newline)
    qed
    let ?rows = "rows + (if isTableRow (subtext s e nxt) then 1 else 0)"
    have "table_page_from s mx rows r e = table_page_from s mx ?rows (r + rune_count (subtext s e nxt)) nxt"
      using go n cnt k(1) \<open>r < k\<close> \<open>whole\<close> "1.prems"(1) by (subst table_page_from.simps) (simp add: w_def [symmetric] Let_def)
    also have "\<dots> = length s"
    proof (cases "nxt = length s")
      case True
      then show ?thesis by (subst table_page_from.simps) simp
    next
      case False
      have fits: "\<not> (\<not> whole \<or> r + rune_count (subtext s e nxt) > mx)" using \<open>whole\<close> cnt k(1) \<open>r < k\<close> "1.prems"(1) by simp
      have nn: "nxt = rune_offset s (r + rune_count (subtext s e nxt))" using cnt \<open>r < k\<close> k(2) by simp
      show ?thesis
        by (rule "1.IH" [OF go w_def n [symmetric] refl fits "1.prems"(1) nn])
          (use rows False "1.prems"(4) cnt k(1) \<open>r < k\<close> in auto)
    qed
    finally show ?thesis .
  next
    case False
    then show ?thesis using \<open>e \<le> length s\<close> by (subst table_page_from.simps) simp
  qed
qed

lemma small_page_whole:
  assumes "rune_count q \<le> mx" and "table_rows q < TablePageRows"
  shows "page_cut q mx = (q, False)"
proof (cases "isTabular q")
  case True
  then have "q \<noteq> []" by (auto simp: isTabular_def isTableRow_def count_byte_def)
  then show ?thesis
    using small_table_whole [of q mx 0 0 0] assms True by (simp add: page_cut_def tablePage_def Let_def)
qed (use assms in \<open>simp add: page_cut_def tablePage_def\<close>)

section \<open>The plan covers a document\<close>

text \<open>A document whose short sections each fit one page of the reader.\<close>

definition stored_in :: "library \<Rightarrow> string list \<Rightarrow> string \<Rightarrow> stored_doc \<Rightarrow> bool" where
  "stored_in lib scope docID d \<longleftrightarrow> lib docID = Some d \<and> stored_ok d \<and> inScope scope docID \<and> ValidID docID"

definition readable :: "library \<Rightarrow> string list \<Rightarrow> string \<Rightarrow> stored_doc \<Rightarrow> bool" where
  "readable lib scope docID d \<longleftrightarrow> stored_in lib scope docID d
     \<and> (\<forall>ord < length (sdSections d). rwTokens (sdSections d ! ord) < sweepTokens \<longrightarrow>
         rune_count (section_text d ord) \<le> page_chars (int sweepTokens) \<and> table_rows (section_text d ord) < TablePageRows)"

definition outline_of :: "stored_doc \<Rightarrow> outline_entry list" where
  "outline_of d = map (\<lambda>(ord, r). \<lparr>oeSectionID = sectionID ord, oeNumber = rwNumber r, oeTitle = rwTitle r,
      oeLevel = rwLevel r, oeTokens = rwTokens r\<rparr>) (List.enumerate 0 (sdSections d))"

lemma outline_entry_ord:
  assumes "s \<in> set (outline_of d)" and "stored_ok d"
  obtains ord where "ord < length (sdSections d)" and "oeSectionID s = sectionID ord" and "oeTokens s = rwTokens (sdSections d ! ord)"
    and "root_text d s = section_text d ord"
proof -
  from assms(1) obtain ord where ord: "ord < length (sdSections d)" "oeSectionID s = sectionID ord" "oeTokens s = rwTokens (sdSections d ! ord)"
    by (auto simp: outline_of_def in_set_enumerate_eq)
  moreover have "section_ord (sectionID ord) = Some ord" using ord(1) assms(2) by (intro section_ord_ID) (simp add: stored_ok_def)
  ultimately show ?thesis using that by (simp add: root_text_def)
qed

lemma readable_stored: "readable lib scope docID d \<Longrightarrow> stored_in lib scope docID d"
  "readable lib scope docID d \<Longrightarrow> stored_ok d"
  by (simp_all add: readable_def stored_in_def)

lemma section_at:
  assumes "stored_in lib scope docID d" and "ord < length (sdSections d)" and "1 \<le> limit" and "limit \<le> MaxSectionTokens"
    and "off \<le> rwCharEnd (sdSections d ! ord) - rwCharStart (sdSections d ! ord)"
  shows "Section lib scope docID (sectionID ord) (int off) limit = Inr (page_at (sectionID ord) (sdSections d ! ord) (sdText d) off (page_chars limit))"
proof -
  let ?r = "sdSections d ! ord"
  have ok: "stored_ok d" using assms(1) by (simp add: stored_in_def)
  then have "rwCharStart ?r \<le> rwCharEnd ?r" "rwCharEnd ?r \<le> rune_count (sdText d)" "ord \<le> MaxInt32" "rune_count (sdText d) \<le> MaxInt32"
    using assms(2) by (auto simp: stored_ok_def)
  then show ?thesis using assms by (simp add: Section_def section_ord_ID Let_def stored_in_def)
qed

lemma short_section_whole:
  assumes rd: "readable lib scope docID d" and ord: "ord < length (sdSections d)" and short: "rwTokens (sdSections d ! ord) < sweepTokens"
    and "int sweepTokens \<le> limit" and "limit \<le> MaxSectionTokens"
  obtains p where "Section lib scope docID (sectionID ord) 0 limit = Inr p" and "spText p = section_text d ord" and "\<not> spTruncated p"
proof -
  let ?r = "sdSections d ! ord" and ?s = "section_text d ord"
  let ?tot = "rwCharEnd ?r - rwCharStart ?r"
  have bounds: "rwCharStart ?r \<le> rwCharEnd ?r" "rwCharEnd ?r \<le> rune_count (sdText d)"
    using readable_stored(2) [OF rd] ord by (auto simp: stored_ok_def)
  have s: "?s = substr (sdText d) (rwCharStart ?r) ?tot" by (simp add: section_text_def Let_def)
  have cnt: "rune_count ?s = ?tot" using bounds by (simp add: s rune_count_substr)
  have "page_chars (int sweepTokens) \<le> page_chars limit" using assms(4) by (simp add: page_chars_def nat_mono zdiv_mono1)
  moreover have "rune_count ?s \<le> page_chars (int sweepTokens)" "table_rows ?s < TablePageRows" using rd ord short by (auto simp: readable_def)
  ultimately have "page_cut ?s (page_chars limit) = (?s, False)" and "?tot \<le> page_chars limit"
    using small_page_whole [of ?s "page_chars limit"] cnt by auto
  then have "page_cut (substr (sdText d) (rwCharStart ?r + 0) (min (page_chars limit + 1) (?tot - 0))) (page_chars limit) = (?s, False)"
    by (simp add: s min_absorb2)
  note fields = page_at_fields [OF this, of "sectionID ord"]
  have "1 \<le> limit" using assms(4) by (simp add: sweepTokens_def)
  from section_at [OF readable_stored(1) [OF rd] ord this assms(5), of 0] show ?thesis using that fields by simp
qed

text \<open>What a run of short sections reads, whatever the run.\<close>

definition short_roots :: "stored_doc \<Rightarrow> outline_entry list \<Rightarrow> bool" where
  "short_roots d run \<longleftrightarrow> set run \<subseteq> set (outline_of d) \<and> (\<forall>s \<in> set run. oeTokens s < sweepTokens)"

lemma short_root_whole:
  assumes "readable lib scope docID d" and "short_roots d run" and "s \<in> set run" and "int sweepTokens \<le> limit" and "limit \<le> MaxSectionTokens"
  obtains p where "Section lib scope docID (oeSectionID s) 0 limit = Inr p" and "spText p = root_text d s" and "\<not> spTruncated p"
proof -
  have "s \<in> set (outline_of d)" "oeTokens s < sweepTokens" using assms(2,3) by (auto simp: short_roots_def)
  moreover have "stored_ok d" using assms(1) by (rule readable_stored)
  ultimately obtain ord where "ord < length (sdSections d)" "oeSectionID s = sectionID ord" "rwTokens (sdSections d ! ord) < sweepTokens"
    "root_text d s = section_text d ord" using outline_entry_ord by metis
  then show ?thesis using short_section_whole [OF assms(1) _ _ assms(4,5)] that by metis
qed

lemma run_pages_whole:
  assumes "readable lib scope docID d" and "short_roots d run"
  shows "run_pages lib scope docID run = Some (concat (map (root_text d) run))"
  using assms(2)
proof (induction run)
  case (Cons s ss)
  have "int sweepTokens \<le> MaxSectionTokens" by (simp add: sweepTokens_def MaxSectionTokens_def)
  from short_root_whole [OF assms(1) Cons.prems _ this order_refl, of s]
  obtain p where "Section lib scope docID (oeSectionID s) 0 MaxSectionTokens = Inr p" "spText p = root_text d s" "\<not> spTruncated p"
    by auto
  then show ?case using Cons by (simp add: short_roots_def)
qed simp

lemma index_of_append:
  "\<forall>x \<in> set xs. \<not> P x \<Longrightarrow> P y \<Longrightarrow> index_of P (xs @ y # ys) = Some (length xs)"
  by (induction xs) auto

lemma distinct_roots: "distinct (map f ss) \<Longrightarrow> distinct (map f (roots_by level open ss))"
proof (induction ss arbitrary: "open")
  case (Cons s ss)
  let ?open = "dropWhile (\<lambda>l. l \<ge> level s) open"
  define st where "st = (if level s > 0 then level s # ?open else ?open)"
  have eq: "roots_by level open (s # ss) = (if ?open = [] then [s] else []) @ roots_by level st ss"
    by (simp only: roots_by.simps Let_def st_def)
  have "f s \<notin> f ` set (roots_by level st ss)" using Cons.prems roots_by_subset [of level st ss] by auto
  then show ?case
    unfolding eq using Cons.IH [of st] Cons.prems by (cases "?open = []") (simp_all del: dropWhile_eq_Nil_conv)
qed simp

lemma distinct_outline: "distinct (map oeSectionID (outline_of d))"
proof -
  have "map oeSectionID (outline_of d) = map sectionID [0..<length (sdSections d)]"
    by (rule nth_equalityI) (auto simp: outline_of_def nth_enumerate_eq)
  then show ?thesis by (auto simp: distinct_map inj_on_def dest: sectionID_inj)
qed

lemma Outline_of: "stored_in lib scope docID d \<Longrightarrow> sdSections d \<noteq> [] \<Longrightarrow> Outline lib scope docID = Inr (outline_of d)"
  by (auto simp: Outline_def stored_in_def outline_of_def Let_def enumerate_eq_zip)

text \<open>A batch reads its sections' texts, by itself or through the run.\<close>

lemma batch_reads:
  assumes rd: "readable lib scope docID d" and "sdSections d \<noteq> []" and run: "short_roots d (s # ss)"
    and rs: "roots (outline_of d) = pre @ (s # ss) @ post" and size: "sum_list (map oeTokens (s # ss)) \<le> sweepTokens"
  shows "visit_reads lib scope \<lparr>viDocument = docID, viSection = oeSectionID s, viOffset = 0,
      viThrough = (if ss \<noteq> [] then oeSectionID (last ss) else []), viText = x\<rparr> = Some (concat (map (root_text d) (s # ss)))"
proof (cases "ss = []")
  case True
  have "int sweepTokens \<le> MaxSectionTokens" by (simp add: sweepTokens_def MaxSectionTokens_def)
  from short_root_whole [OF rd run _ order_refl this, of s]
  obtain p where "Section lib scope docID (oeSectionID s) 0 (int sweepTokens) = Inr p" "spText p = root_text d s" by auto
  then show ?thesis using True by (simp add: visit_reads_def)
next
  case False
  let ?rs = "roots (outline_of d)" and ?n = "length pre"
  have dist: "distinct (map oeSectionID ?rs)" unfolding roots_def by (rule distinct_roots [OF distinct_outline])
  have "oeSectionID s \<notin> oeSectionID ` set pre" using dist by (simp add: rs)
  then have "\<forall>x \<in> set pre. oeSectionID x \<noteq> oeSectionID s" by (metis imageI)
  then have first: "index_of (\<lambda>r. oeSectionID r = oeSectionID s) ?rs = Some ?n"
    unfolding rs append_Cons by (rule index_of_append) simp
  have split: "pre @ (s # ss) @ post = (pre @ s # butlast ss) @ last ss # post" using False by simp
  have "oeSectionID (last ss) \<notin> oeSectionID ` set (pre @ s # butlast ss)"
    using dist unfolding rs split by (simp add: image_Un) metis
  then have "\<forall>x \<in> set (pre @ s # butlast ss). oeSectionID x \<noteq> oeSectionID (last ss)" by (metis imageI)
  then have "index_of (\<lambda>r. oeSectionID r = oeSectionID (last ss)) ?rs = Some (length (pre @ s # butlast ss))"
    unfolding rs split by (rule index_of_append) simp
  then have last: "index_of (\<lambda>r. oeSectionID r = oeSectionID (last ss)) ?rs = Some (?n + length ss)" using False by simp
  have taken: "take (?n + length ss + 1 - ?n) (drop ?n ?rs) = s # ss" by (simp add: rs)
  have "int (sum_list (map oeTokens (s # ss))) \<le> MaxSectionTokens" using size by (simp add: sweepTokens_def MaxSectionTokens_def)
  then have "runText lib scope docID (oeSectionID s) (oeSectionID (last ss)) = Some (concat (map (root_text d) (s # ss)))"
    unfolding runText_def Outline_of [OF readable_stored(1) [OF rd] assms(2)] using first last taken run_pages_whole [OF rd run]
    by (simp add: Let_def del: run_pages.simps)
  moreover have "oeSectionID (last ss) \<noteq> []"
  proof -
    have "last ss \<in> set (outline_of d)" using run False by (auto simp: short_roots_def)
    then show ?thesis by (auto simp: outline_of_def sectionID_def)
  qed
  ultimately show ?thesis using False by (simp add: visit_reads_def)
qed

text \<open>What the loop over the roots keeps: what is out reads what is done, and the run is what is next.\<close>

definition plan_inv :: "library \<Rightarrow> string list \<Rightarrow> stored_doc \<Rightarrow> outline_entry list \<Rightarrow> plan_state \<Rightarrow> bool" where
  "plan_inv lib scope d past st \<longleftrightarrow> (\<exists>gone xs. past = gone @ plRun st \<and> map (visit_reads lib scope) (plOut st) = map Some xs
     \<and> concat xs = concat (map (root_text d) gone)) \<and> short_roots d (plRun st)
     \<and> plSize st = sum_list (map oeTokens (plRun st)) \<and> plSize st \<le> sweepTokens"

lemma plan_inv_flush:
  assumes rd: "readable lib scope docID d" and "sdSections d \<noteq> []" and rs: "roots (outline_of d) = past @ post"
    and inv: "plan_inv lib scope d past st"
  shows "plan_inv lib scope d past (flush_run docID st) \<and> plRun (flush_run docID st) = [] \<and> plSize (flush_run docID st) = 0"
proof (cases "plRun st")
  case Nil
  then show ?thesis using inv by (simp add: flush_run_def plan_inv_def)
next
  case (Cons s ss)
  obtain gone xs where p: "past = gone @ s # ss" "map (visit_reads lib scope) (plOut st) = map Some xs"
    "concat xs = concat (map (root_text d) gone)" and short: "short_roots d (s # ss)" and size: "sum_list (map oeTokens (s # ss)) \<le> sweepTokens"
    using inv unfolding plan_inv_def Cons by auto
  have "roots (outline_of d) = gone @ (s # ss) @ post" using rs p(1) by simp
  from batch_reads [OF rd assms(2) short this size]
  have "map (visit_reads lib scope) (plOut (flush_run docID st)) = map Some (xs @ [concat (map (root_text d) (s # ss))])"
    using p(2) by (simp add: flush_run_def Cons)
  moreover have "concat (xs @ [concat (map (root_text d) (s # ss))]) = concat (map (root_text d) past)" using p by simp
  moreover have "plRun (flush_run docID st) = []" "plSize (flush_run docID st) = 0" by (simp_all add: flush_run_def Cons)
  ultimately show ?thesis unfolding plan_inv_def short_roots_def by (metis append_Nil2 empty_iff empty_subsetI list.set(1) list.simps(8) sum_list.Nil zero_le)
qed

lemma plan_inv_root:
  assumes rd: "readable lib scope docID d" and "sdSections d \<noteq> []" and rs: "roots (outline_of d) = past @ s # post"
    and inv: "plan_inv lib scope d past st"
  shows "\<exists>st'. plan_root lib scope docID s st = Some (Inr st') \<and> plan_inv lib scope d (past @ [s]) st'"
proof -
  have s: "s \<in> set (outline_of d)" using roots_by_subset [of oeLevel "[]" "outline_of d"] rs by (auto simp: roots_def)
  note ok = readable_stored(2) [OF rd]
  note flushed = plan_inv_flush [OF rd assms(2) rs inv]
  have lim: "int sweepTokens \<le> MaxSectionTokens" "1 \<le> int sweepTokens" by (simp_all add: sweepTokens_def MaxSectionTokens_def)
  show ?thesis
  proof (cases "oeTokens s < sweepTokens")
    case True
    define st1 where "st1 = (if plSize st + oeTokens s > sweepTokens then flush_run docID st else st)"
    have st1: "plan_inv lib scope d past st1" "plSize st1 + oeTokens s \<le> sweepTokens"
      using flushed inv True by (auto simp: st1_def)
    have "short_roots d [s]" using s True by (simp add: short_roots_def)
    from short_root_whole [OF rd this _ order_refl lim(1), of s]
    obtain p where p: "Section lib scope docID (oeSectionID s) 0 (int sweepTokens) = Inr p" by auto
    have "plan_inv lib scope d (past @ [s]) (st1\<lparr>plRun := plRun st1 @ [s], plText := plText st1 @ spText p, plSize := plSize st1 + oeTokens s\<rparr>)"
      using st1 s True by (auto simp: plan_inv_def short_roots_def)
    then show ?thesis using True p by (simp add: plan_root_def st1_def [symmetric] Let_def map_right_def)
  next
    case False
    let ?st = "flush_run docID st"
    obtain ord where ord: "ord < length (sdSections d)" "oeSectionID s = sectionID ord" "root_text d s = section_text d ord"
      using outline_entry_ord [OF s ok] by metis
    let ?r = "sdSections d ! ord" and ?f = "\<lambda>off. Section lib scope docID (oeSectionID s) (int off) (int sweepTokens)"
    have r: "rwCharStart ?r \<le> rwCharEnd ?r" "rwCharEnd ?r \<le> rune_count (sdText d)" using ok ord(1) by (auto simp: stored_ok_def)
    have mx: "0 < page_chars (int sweepTokens)" by (simp add: page_chars_def sweepTokens_def)
    have f: "?f off = Inr (page_at (sectionID ord) ?r (sdText d) off (page_chars (int sweepTokens)))"
      if "off \<le> rwCharEnd ?r - rwCharStart ?r" for off using section_at [OF readable_stored(1) [OF rd] ord(1) lim(2,1) that] ord(2) by simp
    from follow_pages_from [OF mx r f, of 0]
    obtain ps where ps: "follow_pages ?f 0 = Some (Inr ps)" "concat (map spText ps) = root_text d s"
      and again: "\<forall>p \<in> set ps. ?f (spOffset p) = Inr p" by (auto simp: ord(3) section_text_def Let_def)
    have "map (visit_reads lib scope) (map (page_visit docID s) ps) = map Some (map spText ps)"
      using again by (simp add: page_visit_def visit_reads_def)
    moreover obtain xs where "map (visit_reads lib scope) (plOut ?st) = map Some xs" "concat xs = concat (map (root_text d) past)"
      using flushed by (auto simp: plan_inv_def)
    ultimately have "map (visit_reads lib scope) (plOut ?st @ map (page_visit docID s) ps) = map Some (xs @ map spText ps)"
      "concat (xs @ map spText ps) = concat (map (root_text d) (past @ [s]))" using ps(2) by simp_all
    then have "plan_inv lib scope d (past @ [s]) (?st\<lparr>plOut := plOut ?st @ map (page_visit docID s) ps\<rparr>)"
      using flushed unfolding plan_inv_def
      by (intro conjI exI [of _ "past @ [s]"] exI [of _ "xs @ map spText ps"]) (simp_all add: short_roots_def)
    then show ?thesis using False ps(1) by (simp add: plan_root_def Let_def map_right_def)
  qed
qed

lemma plan_inv_roots:
  assumes "readable lib scope docID d" and "sdSections d \<noteq> []" and "roots (outline_of d) = past @ post" and "plan_inv lib scope d past st"
  shows "\<exists>st'. plan_roots lib scope docID post st = Some (Inr st') \<and> plan_inv lib scope d (past @ post) st'"
  using assms(3,4)
proof (induction post arbitrary: past st)
  case (Cons s post)
  obtain st' where st': "plan_root lib scope docID s st = Some (Inr st')" "plan_inv lib scope d (past @ [s]) st'"
    using plan_inv_root [OF assms(1,2) Cons.prems] by blast
  then show ?case using Cons.IH [of "past @ [s]" st'] Cons.prems(1) by simp
qed simp

lemma stored_rows:
  shows "length (sdSections (store_doc t secs)) = length secs" and "sdText (store_doc t secs) = t"
    and "i < length secs \<Longrightarrow> rwTokens (sdSections (store_doc t secs) ! i) = tokens (subtext t (sStart (secs ! i)) (sEnd (secs ! i)))"
    and "i < length secs \<Longrightarrow> rwLevel (sdSections (store_doc t secs) ! i) = sLevel (secs ! i)"
  by (simp_all add: store_doc_def store_sections_def Let_def)

lemma roots_by_cong:
  "(\<And>i. i \<in> set xs \<Longrightarrow> lev i = lev' i) \<Longrightarrow> roots_by lev open xs = roots_by lev' open xs"
  by (induction xs arbitrary: "open") (auto simp: Let_def)

text \<open>The top-level sections of a stored document read as its text.\<close>

lemma roots_text:
  assumes "levels_ok cls" and tree: "parseTree cls t = (secs, capped)" and "stored_ok (store_doc t secs)"
  shows "concat (map (root_text (store_doc t secs)) (roots (outline_of (store_doc t secs)))) = t"
proof -
  let ?d = "store_doc t secs" and ?n = "[0..<length secs]" and ?lev = "\<lambda>i. sLevel (secs ! i)"
  let ?e = "\<lambda>i. outline_of ?d ! i"
  have entries: "outline_of ?d = map ?e ?n" by (rule nth_equalityI) (simp_all add: outline_of_def stored_rows)
  have lv: "oeLevel (?e i) = ?lev i" "root_text ?d (?e i) = subtext t (sStart (secs ! i)) (sEnd (secs ! i))"
    if "i < length secs" for i
    using that stored_rows(4) [OF that] stored_tree(1) [OF assms(1) tree that] section_ord_ID [of i] assms(3)
    by (simp_all add: outline_of_def nth_enumerate_eq stored_rows(1) root_text_def stored_ok_def)
  have "roots (outline_of ?d) = map ?e (roots_by (\<lambda>i. oeLevel (?e i)) [] ?n)"
    unfolding roots_def using roots_by_map [of oeLevel "[]" ?e ?n] entries by (simp add: comp_def)
  also have "roots_by (\<lambda>i. oeLevel (?e i)) [] ?n = roots_by ?lev [] ?n" by (rule roots_by_cong) (simp add: lv)
  finally have "map (root_text ?d) (roots (outline_of ?d)) = map (\<lambda>i. root_text ?d (?e i)) (roots_by ?lev [] ?n)"
    by (simp add: comp_def)
  also have "\<dots> = map (\<lambda>i. subtext t (sStart (secs ! i)) (sEnd (secs ! i))) (roots_by ?lev [] ?n)"
    using lv roots_by_subset [of ?lev "[]" ?n] by (intro map_cong) auto
  also have "\<dots> = map (\<lambda>s. subtext t (sStart s) (sEnd s)) (roots_by sLevel [] secs)"
    using roots_by_map [of sLevel "[]" "(!) secs" ?n] by (simp add: map_nth comp_def)
  finally show ?thesis
    using roots_tile [OF nested_parse(1) [OF assms(1) tree]] nested_parse(2) [OF assms(1) tree] by simp
qed



section \<open>A short table that is not read whole\<close>

text \<open>The bound on rows matters: \<open>n\<close> rows of a small table, with no heading, stored as one section.\<close>

definition demo_row :: string where
  "demo_row = [CHR ''a'', CHR 0x09, CHR ''b'', CHR 0x09, CHR ''c'', newline_byte]"

definition table_text :: "nat \<Rightarrow> string" where
  "table_text n = concat (replicate n demo_row)"

definition no_headings :: "string \<Rightarrow> sect option" where
  "no_headings l = None"

definition table_library :: "nat \<Rightarrow> library" where
  "table_library n = [demo_docID \<mapsto> store_doc (table_text n) (fst (parseTree no_headings (table_text n)))]"

lemma table_text_length [simp]: "length (table_text n) = 6 * n"
  by (induction n) (simp_all add: table_text_def demo_row_def)

lemma table_text_ascii: "c \<in> set (table_text n) \<Longrightarrow> byte_val c < 128"
proof -
  assume "c \<in> set (table_text n)"
  then have "c \<in> set demo_row" by (auto simp: table_text_def split: if_splits)
  then show "byte_val c < 128" by (auto simp: demo_row_def newline_byte_def byte_val_def)
qed

lemma table_text_split: "j \<le> n \<Longrightarrow> drop (6 * j) (table_text n) = table_text (n - j)" "j \<le> n \<Longrightarrow> take (6 * j) (table_text n) = table_text j"
proof -
  assume "j \<le> n"
  then have "table_text n = table_text j @ table_text (n - j)"
    by (simp add: table_text_def flip: concat_append replicate_add)
  then show "drop (6 * j) (table_text n) = table_text (n - j)" "take (6 * j) (table_text n) = table_text j"
    by (metis append_eq_conv_conj table_text_length)+
qed

lemma ascii_offset:
  assumes "\<And>c. c \<in> set t \<Longrightarrow> byte_val c < 128"
  shows "rune_offset t k = min k (length t)"
proof -
  have "map snd (take k (map (\<lambda>c. (byte_val c, 1 :: nat)) t)) = replicate (min k (length t)) 1"
    by (rule nth_equalityI) auto
  then show ?thesis by (simp add: rune_offset_def runes_of_ascii [OF assms] sum_list_replicate)
qed

lemma table_rows_text [simp]: "table_rows (table_text n) = n"
proof (induction n)
  case (Suc n)
  have "str_index (demo_row @ table_text n) [newline_byte] = Some 5"
    by (simp add: demo_row_def newline_byte_def has_prefix_def)
  from split_at_index(1) [OF this] show ?case
    using Suc by (simp add: table_text_def table_rows_def) (simp add: demo_row_def isTableRow_def count_byte_def newline_byte_def)
qed (simp add: table_text_def table_rows_def isTableRow_def count_byte_def)

lemma table_page_first:
  "25 < n \<Longrightarrow> 150 \<le> mx \<Longrightarrow> j \<le> 25 \<Longrightarrow> table_page_from (table_text n) mx j (6 * j) (6 * j) = 150"
proof (induction "25 - j" arbitrary: j)
  case 0
  then show ?case by (subst table_page_from.simps) (simp add: TablePageRows_def)
next
  case (Suc k)
  then have j: "j < 25" "Suc j \<le> n" by auto
  have row: "table_text (n - j) = demo_row @ table_text (n - Suc j)"
    using j by (cases "n - j") (auto simp: table_text_def Suc_diff_Suc [symmetric])
  have idx: "str_index (drop (6 * j) (table_text n)) [newline_byte] = Some 5"
    using j by (simp add: table_text_split row) (simp add: demo_row_def newline_byte_def has_prefix_def)
  have sub: "subtext (table_text n) (6 * j) (6 + 6 * j) = demo_row"
    using j by (simp add: subtext_def table_text_split row) (simp add: demo_row_def)
  have cnt: "rune_count demo_row = 6" "isTableRow demo_row" by code_simp+
  have "table_page_from (table_text n) mx j (6 * j) (6 * j) = table_page_from (table_text n) mx (Suc j) (6 * Suc j) (6 * Suc j)"
    using j Suc.prems
    by (subst table_page_from.simps) (simp add: idx sub cnt TablePageRows_def [symmetric] Let_def, simp add: TablePageRows_def add.commute)
  then show ?case using Suc.hyps(1) [of "Suc j"] Suc.hyps(2) Suc.prems j by simp
qed

lemma table_library_doc:
  assumes "0 < n" and "n \<le> 300"
  defines "d \<equiv> store_doc (table_text n) (fst (parseTree no_headings (table_text n)))"
  shows "stored_in (table_library n) [demo_docID] demo_docID d" and "length (sdSections d) = 1" and "rwTokens (sdSections d ! 0) < sweepTokens"
    and "section_text d 0 = table_text n" and "rwLevel (sdSections d ! 0) = 0"
proof -
  have "parse_lines no_headings t i acc = acc" for t i acc
    by (induction no_headings t i acc rule: parse_lines.induct)
      (subst parse_lines.simps, simp add: line_step_def no_headings_def Let_def split: prod.split)
  then have tree: "parseTree no_headings (table_text n) = ([preface (6 * n)], False)" by (simp add: parseTree_def)
  have lv: "levels_ok no_headings" by (simp add: levels_ok_def no_headings_def)
  have cnt: "rune_count (table_text n) = 6 * n" using rune_count_ascii [OF table_text_ascii] by simp
  have d: "d = store_doc (table_text n) [preface (6 * n)]" by (simp add: d_def tree)
  show len: "length (sdSections d) = 1" by (simp add: d stored_rows)
  show "section_text d 0 = table_text n" using stored_tree(1) [OF lv tree, of 0] by (simp add: d preface_def subtext_def)
  show "rwTokens (sdSections d ! 0) < sweepTokens"
    using assms(2) by (simp add: d stored_rows preface_def subtext_def tokens_def cnt sweepTokens_def)
  show "rwLevel (sdSections d ! 0) = 0" by (simp add: d stored_rows preface_def)
  have "stored_ok d"
    using stored_tree(2,3) [OF lv tree, of 0] assms(2) unfolding stored_ok_def all_set_conv_all_nth len
    by (simp add: d stored_rows(2) cnt MaxInt32_def)
  then show "stored_in (table_library n) [demo_docID] demo_docID d"
    using demo_docID_ok by (simp add: stored_in_def table_library_def d_def)
qed



end
