(* ===== verification/SweepOrder.thy ===== *)
theory SweepOrder
  imports Sweep Verify
begin

text \<open>
  \<^verbatim>\<open>internal/engine/sweeporder.go\<close> and the choices of \<^verbatim>\<open>sweepTool\<close>: the order the sweep reads its visits
  in, the visits it skips, and the coverage it reports.  The natural logarithm, the regular expressions
  of a table of contents and the reader of literal figures are parameters.
\<close>

section \<open>Words\<close>

text \<open>\<^verbatim>\<open>strings.FieldsFunc\<close>.\<close>

function fields_by :: "(rune \<Rightarrow> bool) \<Rightarrow> string \<Rightarrow> string \<Rightarrow> string list" where
  "fields_by sep w s =
     (if s = [] then (if w = [] then [] else [w])
      else let n = snd (decode_rune s) in
        if sep (fst (decode_rune s))
        then (if w = [] then fields_by sep [] (drop n s) else w # fields_by sep [] (drop n s))
        else fields_by sep (w @ take n s) (drop n s))"
  by pat_completeness auto
termination
  by (relation "measure (\<lambda>(sep, w, s). length s)") (auto simp: decode_rune_shrinks)

declare fields_by.simps [simp del]

definition sweepStop :: "string list" where
  "sweepStop = [''the'', ''and'', ''for'', ''that'', ''with'', ''this'', ''was'', ''are'', ''its'', ''had'', ''has'', ''not'',
     ''from'', ''into'', ''were'', ''their'', ''about'', ''after'', ''before'', ''during'', ''each'', ''per'',
     ''been'', ''have'', ''will'', ''what'', ''which'', ''who'', ''whom'', ''whose'', ''when'', ''where'', ''why'', ''how'',
     ''does'', ''did'', ''any'', ''all'', ''such'', ''other'', ''than'', ''then'', ''there'', ''these'', ''those'', ''them'', ''they'',
     ''our'', ''your'', ''you'', ''his'', ''him'', ''she'', ''its'', ''may'', ''must'', ''shall'', ''should'', ''would'', ''could'',
     ''can'', ''under'', ''over'', ''upon'', ''also'', ''only'', ''both'', ''more'', ''most'', ''some'', ''same'', ''very'']"

definition suffixes :: "string list" where
  "suffixes = [''ions'', ''ion'', ''ing'', ''ies'', ''ed'', ''es'', ''s'']"

definition stem :: "string \<Rightarrow> string" where
  "stem w = (case find (\<lambda>suf. has_suffix w suf \<and> 4 \<le> length w - length suf) suffixes of
     Some suf \<Rightarrow> trim_suffix w suf | None \<Rightarrow> w)"

definition terms :: "unicode \<Rightarrow> string \<Rightarrow> string list" where
  "terms u s = map stem (filter (\<lambda>w. 3 \<le> rune_count w \<and> w \<notin> set sweepStop)
     (fields_by (\<lambda>r. \<not> LetterOrDigit u r) [] (map_runes (LowerRune u) s)))"

section \<open>BM25\<close>

definition doc_freq :: "string list list \<Rightarrow> string \<Rightarrow> nat" where
  "doc_freq texts w = length (filter (\<lambda>t. w \<in> set t) texts)"

definition term_freq :: "string list \<Rightarrow> string \<Rightarrow> nat" where
  "term_freq t w = length (filter (\<lambda>x. x = w) t)"

definition term_score :: "(rat \<Rightarrow> rat) \<Rightarrow> string list list \<Rightarrow> string list \<Rightarrow> string \<Rightarrow> rat" where
  "term_score lg texts t w =
     (let n = of_nat (length texts); df = of_nat (doc_freq texts w); f = of_nat (term_freq t w);
          avg = max 1 (of_nat (sum_list (map length texts)) / max 1 n) in
      if f > 0
      then lg (1 + (n - df + 1 / 2) / (df + 1 / 2)) * f * (22 / 10) / (f + (12 / 10) * (1 / 4 + (3 / 4) * of_nat (length t) / avg))
      else 0)"

definition bm25 :: "(rat \<Rightarrow> rat) \<Rightarrow> string list list \<Rightarrow> string list \<Rightarrow> rat list" where
  "bm25 lg texts query =
     (let q = remdups_adj (sort query) in map (\<lambda>t. sum_list (map (term_score lg texts t) q)) texts)"

section \<open>The reading order\<close>

text \<open>The visits a question's words reach, best first; equal scores keep the plan's order.\<close>

definition rank_visits :: "rat list \<Rightarrow> nat list" where
  "rank_visits sc = sort_key (\<lambda>i. - (sc ! i)) (filter (\<lambda>i. sc ! i > 0) [0..<length sc])"

definition take_turn :: "nat \<Rightarrow> nat list \<Rightarrow> nat list \<Rightarrow> nat list" where
  "take_turn k r out = (if k < length r \<and> r ! k \<notin> set out then out @ [r ! k] else out)"

text \<open>Each issue's best page before any issue's second best, and so on while some issue has one.\<close>

function rounds :: "nat list list \<Rightarrow> nat \<Rightarrow> nat list \<Rightarrow> nat list" where
  "rounds ranked k out =
     (if \<exists>r \<in> set ranked. k < length r then rounds ranked (Suc k) (fold (take_turn k) ranked out) else out)"
  by pat_completeness auto
termination
proof (relation "measure (\<lambda>(ranked, k, out). fold max (map length ranked) 0 - k)", goal_cases)
  case (2 ranked k out)
  then obtain r where "r \<in> set ranked" "k < length r" by blast
  moreover have "fold max (map length ranked) 0 = Max (insert 0 (length ` set ranked))"
    by (metis Max.set_eq_fold list.simps(15) set_map)
  ultimately have "k < fold max (map length ranked) 0" by (auto simp: Max_gr_iff)
  then show ?case by simp
qed simp

declare rounds.simps [simp del]

definition interleave :: "nat \<Rightarrow> nat list list \<Rightarrow> nat list" where
  "interleave n ranked = (let out = rounds ranked 0 [] in out @ filter (\<lambda>i. i \<notin> set out) [0..<n])"

definition rankings :: "unicode \<Rightarrow> (rat \<Rightarrow> rat) \<Rightarrow> visit list \<Rightarrow> string list \<Rightarrow> nat list list" where
  "rankings u lg visits questions =
     (let texts = map (\<lambda>v. terms u (viText v)) visits in map (\<lambda>q. rank_visits (bm25 lg texts (terms u q))) questions)"

definition order :: "unicode \<Rightarrow> (rat \<Rightarrow> rat) \<Rightarrow> visit list \<Rightarrow> string list \<Rightarrow> nat list" where
  "order u lg visits questions = interleave (length visits) (rankings u lg visits questions)"

lemma bm25_length [simp]: "length (bm25 lg texts q) = length texts"
  by (simp add: bm25_def Let_def)

text \<open>One round puts at most one visit of each question at the end, its \<open>k\<close>-th if it has one.\<close>

lemma take_turn_extends: "\<exists>ys. take_turn k r out = out @ ys \<and> length ys \<le> 1 \<and> set ys \<subseteq> set r
    \<and> (distinct out \<longrightarrow> distinct (out @ ys)) \<and> (k < length r \<longrightarrow> r ! k \<in> set (out @ ys))"
  by (cases "k < length r \<and> r ! k \<notin> set out") (auto simp: take_turn_def)

lemma round_extends: "\<exists>ys. fold (take_turn k) rs out = out @ ys \<and> length ys \<le> length rs \<and> set ys \<subseteq> (\<Union>r \<in> set rs. set r)
    \<and> (distinct out \<longrightarrow> distinct (out @ ys)) \<and> (\<forall>r \<in> set rs. k < length r \<longrightarrow> r ! k \<in> set (out @ ys))"
proof (induction rs arbitrary: out)
  case (Cons r rs)
  obtain ys where ys: "take_turn k r out = out @ ys" "length ys \<le> 1" "set ys \<subseteq> set r"
    "distinct out \<longrightarrow> distinct (out @ ys)" "k < length r \<longrightarrow> r ! k \<in> set (out @ ys)"
    using take_turn_extends by blast
  obtain zs where zs: "fold (take_turn k) rs (out @ ys) = (out @ ys) @ zs" "length zs \<le> length rs" "set zs \<subseteq> (\<Union>r \<in> set rs. set r)"
    "distinct (out @ ys) \<longrightarrow> distinct ((out @ ys) @ zs)" "\<forall>r \<in> set rs. k < length r \<longrightarrow> r ! k \<in> set ((out @ ys) @ zs)"
    using Cons.IH by blast
  show ?case
  proof (intro exI [of _ "ys @ zs"] conjI)
    show "fold (take_turn k) (r # rs) out = out @ ys @ zs" using ys(1) zs(1) by simp
    show "length (ys @ zs) \<le> length (r # rs)" using ys(2) zs(2) by simp
    show "set (ys @ zs) \<subseteq> (\<Union>r \<in> set (r # rs). set r)" using ys(3) zs(3) by auto
    show "distinct out \<longrightarrow> distinct (out @ ys @ zs)" using ys(4) zs(4) by simp
    show "\<forall>r' \<in> set (r # rs). k < length r' \<longrightarrow> r' ! k \<in> set (out @ ys @ zs)" using ys(5) zs(5) by auto
  qed
qed simp

definition extends_fairly :: "nat list list \<Rightarrow> nat \<Rightarrow> nat list \<Rightarrow> nat list \<Rightarrow> bool" where
  "extends_fairly ranked k out ys \<longleftrightarrow> set ys \<subseteq> (\<Union>r \<in> set ranked. set r) \<and> (distinct out \<longrightarrow> distinct (out @ ys))
    \<and> (\<forall>r \<in> set ranked. \<forall>j. k \<le> j \<and> j < length r \<longrightarrow> r ! j \<in> set (out @ take (Suc (j - k) * length ranked) ys))"

lemma extends_fairly_round:
  assumes round: "length ys \<le> length ranked \<and> set ys \<subseteq> (\<Union>r \<in> set ranked. set r) \<and> (distinct out \<longrightarrow> distinct (out @ ys))
      \<and> (\<forall>r \<in> set ranked. k < length r \<longrightarrow> r ! k \<in> set (out @ ys))"
    and rest: "extends_fairly ranked (Suc k) (out @ ys) zs"
  shows "extends_fairly ranked k out (ys @ zs)"
proof -
  have len: "length ys \<le> length ranked" and head: "\<forall>r \<in> set ranked. k < length r \<longrightarrow> r ! k \<in> set (out @ ys)"
    using round by blast+
  have "r ! j \<in> set (out @ take (Suc (j - k) * length ranked) (ys @ zs))" if r: "r \<in> set ranked" and j: "k \<le> j" "j < length r" for r j
  proof (cases "k = j")
    case True
    then show ?thesis using len head r j by auto
  next
    case False
    have "r ! j \<in> set ((out @ ys) @ take (Suc (j - Suc k) * length ranked) zs)"
      using False rest r j by (auto simp: extends_fairly_def)
    moreover have "Suc (j - k) * length ranked = length ranked + Suc (j - Suc k) * length ranked"
      using False j(1) by (simp add: Suc_diff_Suc flip: add_mult_distrib)
    then have "Suc (j - Suc k) * length ranked \<le> Suc (j - k) * length ranked - length ys" "length ys \<le> Suc (j - k) * length ranked"
      using len by auto
    then have "set (ys @ take (Suc (j - Suc k) * length ranked) zs) \<subseteq> set (take (Suc (j - k) * length ranked) (ys @ zs))"
      using set_take_subset_set_take by fastforce
    ultimately show ?thesis by auto
  qed
  then show ?thesis using round rest by (auto simp: extends_fairly_def)
qed

lemma rounds_extend: "\<exists>ys. rounds ranked k out = out @ ys \<and> extends_fairly ranked k out ys"
proof (induction ranked k out rule: rounds.induct)
  case (1 ranked k out)
  show ?case
  proof (cases "\<exists>r \<in> set ranked. k < length r")
    case True
    obtain ys where ys: "fold (take_turn k) ranked out = out @ ys \<and> length ys \<le> length ranked \<and> set ys \<subseteq> (\<Union>r \<in> set ranked. set r)
        \<and> (distinct out \<longrightarrow> distinct (out @ ys)) \<and> (\<forall>r \<in> set ranked. k < length r \<longrightarrow> r ! k \<in> set (out @ ys))"
      using round_extends [of k ranked out] ..
    obtain zs where zs: "rounds ranked (Suc k) (out @ ys) = (out @ ys) @ zs" "extends_fairly ranked (Suc k) (out @ ys) zs"
      using "1.IH" [OF True] unfolding conjunct1 [OF ys] by blast
    have "rounds ranked k out = out @ ys @ zs" using True conjunct1 [OF ys] zs(1) by (subst rounds.simps) simp
    then show ?thesis using extends_fairly_round [OF conjunct2 [OF ys] zs(2)] by blast
  next
    case False
    then have "rounds ranked k out = out @ []" by (subst rounds.simps) simp
    moreover have "extends_fairly ranked k out []" using False by (auto simp: extends_fairly_def dest: le_less_trans)
    ultimately show ?thesis by blast
  qed
qed

lemma rank_visits_in: "set (rank_visits sc) \<subseteq> {..<length sc}"
  by (auto simp: rank_visits_def)

lemma rank_visits_best_first:
  assumes "i < j" "j < length (rank_visits sc)"
  shows "sc ! (rank_visits sc ! j) \<le> sc ! (rank_visits sc ! i)"
proof -
  have "sorted (map (\<lambda>i. - (sc ! i)) (rank_visits sc))" by (simp add: rank_visits_def)
  then show ?thesis using assms by (auto simp: sorted_iff_nth_mono dest!: spec [of _ i])
qed

lemma rankings_in: "r \<in> set (rankings u lg visits questions) \<Longrightarrow> set r \<subseteq> {..<length visits}"
  using rank_visits_in by (fastforce simp: rankings_def Let_def)

lemma order_rounds:
  "\<exists>ys. order u lg visits questions = ys @ filter (\<lambda>i. i \<notin> set ys) [0..<length visits] \<and> distinct ys \<and> set ys \<subseteq> {..<length visits}
    \<and> (\<forall>r \<in> set (rankings u lg visits questions). \<forall>j < length r. r ! j \<in> set (take (Suc j * length questions) ys))"
proof -
  define rs where "rs = rankings u lg visits questions"
  have len: "length rs = length questions" by (simp add: rs_def rankings_def Let_def)
  obtain ys where ys: "rounds rs 0 [] = ys" "set ys \<subseteq> (\<Union>r \<in> set rs. set r)" "distinct ys"
    "\<forall>r \<in> set rs. \<forall>j < length r. r ! j \<in> set (take (Suc j * length rs) ys)"
    using rounds_extend [of rs 0 "[]"] by (auto simp: extends_fairly_def)
  have "order u lg visits questions = ys @ filter (\<lambda>i. i \<notin> set ys) [0..<length visits]"
    using ys(1) by (simp add: order_def interleave_def rs_def Let_def)
  moreover have "set ys \<subseteq> {..<length visits}" using ys(2) rankings_in unfolding rs_def by fastforce
  ultimately show ?thesis using ys(3,4) len unfolding rs_def by metis
qed

lemma order_permutes: "distinct (order u lg visits questions)" "set (order u lg visits questions) = {..<length visits}"
  using order_rounds [of u lg visits questions] by auto

text \<open>C20. The sweep reads its visits in an order that is fair to the plan's issues: it holds every visit exactly
  once, and for each issue the visit with the \<open>k\<close>-th best score for its question comes among the first
  \<open>(k + 1) * n\<close> read, where \<open>n\<close> is the number of issues: no issue waits for more than the others'
  turns.  Each issue's visits are ranked by a score that never rises along the rank_visits.\<close>

theorem order_fair:
  assumes "q < length questions" "k < length (rankings u lg visits questions ! q)"
  shows "distinct (order u lg visits questions) \<and> set (order u lg visits questions) = {..<length visits}
    \<and> rankings u lg visits questions ! q ! k \<in> set (take (Suc k * length questions) (order u lg visits questions))
    \<and> sorted (map (\<lambda>i. - (bm25 lg (map (\<lambda>v. terms u (viText v)) visits) (terms u (questions ! q)) ! i)) (rankings u lg visits questions ! q))"
proof -
  have len: "length (rankings u lg visits questions) = length questions" by (simp add: rankings_def Let_def)
  obtain ys where ys: "order u lg visits questions = ys @ filter (\<lambda>i. i \<notin> set ys) [0..<length visits]"
    "\<forall>r \<in> set (rankings u lg visits questions). \<forall>j < length r. r ! j \<in> set (take (Suc j * length questions) ys)"
    using order_rounds [of u lg visits questions] by auto
  have "rankings u lg visits questions ! q ! k \<in> set (take (Suc k * length questions) ys)"
    using ys(2) assms len by (metis nth_mem)
  then have "rankings u lg visits questions ! q ! k \<in> set (take (Suc k * length questions) (order u lg visits questions))"
    by (simp add: ys(1))
  moreover have "sorted (map (\<lambda>i. - (bm25 lg (map (\<lambda>v. terms u (viText v)) visits) (terms u (questions ! q)) ! i)) (rankings u lg visits questions ! q))"
    using assms(1) by (simp add: rankings_def Let_def rank_visits_def)
  ultimately show ?thesis using order_permutes by blast
qed

text \<open>Three pages and two issues, the second page read first for the first issue.\<close>

definition demo_unicode :: unicode where
  "demo_unicode = \<lparr>LowerRune = (\<lambda>r. if 65 \<le> r \<and> r \<le> 90 then r + 32 else r), WordRune = (\<lambda>r. 97 \<le> r \<and> r \<le> 122),
     NumberRune = (\<lambda>r. 48 \<le> r \<and> r \<le> 57), LetterOrDigit = (\<lambda>r. 97 \<le> r \<and> r \<le> 122 \<or> 48 \<le> r \<and> r \<le> 57), Fmt2 = (\<lambda>x. [])\<rparr>"

definition demo_page :: "string \<Rightarrow> visit" where
  "demo_page t = \<lparr>viDocument = ''d'', viSection = ''s'', viOffset = 0, viThrough = [], viText = t\<rparr>"

definition demo_pages :: "visit list" where
  "demo_pages = map demo_page [''leave'', ''wages'', ''tax'']"

lemma demo_terms:
  "terms demo_unicode ''leave'' = [''leave'']" "terms demo_unicode ''wages'' = [''wage'']"
  "terms demo_unicode ''tax'' = [''tax'']" "terms demo_unicode ''wage'' = [''wage'']"
  by code_simp+

lemma demo_scores:
  "bm25 (\<lambda>x. x) [[''leave''], [''wage''], [''tax'']] [''wage''] = [0, 8 / 3, 0]"
  "bm25 (\<lambda>x. x) [[''leave''], [''wage''], [''tax'']] [''leave''] = [8 / 3, 0, 0]"
  by code_simp+

lemma demo_rank: "rank_visits [0, 8 / 3, 0] = [1]" "rank_visits [8 / 3, 0, 0] = [0]"
  by code_simp+

lemma demo_rankings: "rankings demo_unicode (\<lambda>x. x) demo_pages [''wage'', ''leave''] = [[1], [0]]"
  by (simp add: rankings_def demo_pages_def demo_page_def demo_terms demo_scores demo_rank)

lemma order_fair_witness: "0 \<in> set (take (Suc 0 * 2) (order demo_unicode (\<lambda>x. x) demo_pages [''wage'', ''leave'']))"
  using order_fair [of 1 "[''wage'', ''leave'']" 0 demo_unicode "\<lambda>x. x" demo_pages]
  by (simp add: demo_rankings numeral_2_eq_2)

section \<open>Pages that are not read\<close>

text \<open>What the regular expressions \<^verbatim>\<open>tocEntry\<close>, \<^verbatim>\<open>tocHeading\<close> and \<^verbatim>\<open>cells\<close>, the categories of Unicode and
  \<^verbatim>\<open>analysis.Literal\<close> say of a text: the groups of a match, the cells of a line, whether it states dates,
  and its figures with the first of their readings.\<close>

record figure_span =
  fsStart :: nat
  fsEnd :: nat
  fsGrouped :: bool
  fsReading :: rat

record page_shape =
  DigitRune :: "rune \<Rightarrow> bool"
  CurrencyRune :: "rune \<Rightarrow> bool"
  TocEntry :: "string \<Rightarrow> (string \<times> string \<times> string) option"
  TocHeading :: "string \<Rightarrow> bool"
  Cells :: "string \<Rightarrow> string list"
  Literal :: "string \<Rightarrow> bool \<times> figure_span list"

definition contains_func :: "(rune \<Rightarrow> bool) \<Rightarrow> string \<Rightarrow> bool" where
  "contains_func p s = list_ex (\<lambda>(r, w). p r) (runes_of s)"

definition tableRow :: "page_shape \<Rightarrow> string \<Rightarrow> bool" where
  "tableRow g l =
     (let cs = Cells g (trim_space l) in
      count_list l CHR ''|'' \<ge> 2 \<or> length cs \<ge> 3 \<and> length (filter (contains_func (DigitRune g)) cs) \<ge> 2)"

definition space_byte :: "char \<Rightarrow> bool" where "space_byte c \<longleftrightarrow> c = CHR '' ''"

definition tocTitleFigure :: "page_shape \<Rightarrow> string \<Rightarrow> bool" where
  "tocTitleFigure g title =
     (let (dates, fs) = Literal g title in
      dates \<or> list_ex (\<lambda>f.
        let before = trim_right space_byte (take (fsStart f) title); after = trim_left space_byte (drop (fsEnd f) title) in
        fsGrouped f \<or> fsReading f \<ge> 100 \<or> CurrencyRune g (fst (decode_last_rune before)) \<or> has_prefix after ''%'') fs)"

text \<open>\<^verbatim>\<open>endsWith\<close> (\<^verbatim>\<open>requirement.go\<close>): closing quotes and brackets aside.\<close>

definition closer :: "rune \<Rightarrow> bool" where
  "closer r \<longleftrightarrow> r \<in> {34, 8221, 8217, 39, 41, 93}"

function trim_right_runes :: "(rune \<Rightarrow> bool) \<Rightarrow> string \<Rightarrow> string" where
  "trim_right_runes p s =
     (if s \<noteq> [] \<and> p (fst (decode_last_rune s)) then trim_right_runes p (take (length s - snd (decode_last_rune s)) s) else s)"
  by pat_completeness auto
termination
proof (relation "measure (\<lambda>(p, s). length s)", goal_cases)
  case (2 p s)
  then have "1 \<le> snd (decode_last_rune s)" "s \<noteq> []" by (blast intro: decode_last_rune_width(1))+
  then show ?case by (cases s) auto
qed simp

declare trim_right_runes.simps [simp del]

definition endsWith :: "string \<Rightarrow> string \<Rightarrow> bool" where
  "endsWith s chars = (let t = trim_right_runes closer s in t \<noteq> [] \<and> last t \<in> set chars)"

definition atoi_nat :: "string \<Rightarrow> nat" where
  "atoi_nat s = (if s \<noteq> [] \<and> list_all is_digit_byte s then num_of s else 0)"

text \<open>The loop of \<^verbatim>\<open>toc\<close> over the lines: entries, dot-leadered ones, whether page numbers rise, and the last;
  \<^const>\<open>None\<close> when it meets a sentence.\<close>

fun toc_lines :: "page_shape \<Rightarrow> nat \<Rightarrow> nat \<Rightarrow> bool \<Rightarrow> int \<Rightarrow> string list \<Rightarrow> (nat \<times> nat \<times> bool) option" where
  "toc_lines g entries leaders rising prev [] = Some (entries, leaders, rising)"
| "toc_lines g entries leaders rising prev (l # ls) =
     (case TocEntry g l of
        Some (title, lead, page) \<Rightarrow>
          let n = int (atoi_nat page); dots = (lead \<noteq> [CHR 0x09] \<and> trim_space lead \<noteq> []) in
          toc_lines g (Suc entries) (if dots \<and> \<not> tocTitleFigure g title then Suc leaders else leaders)
            (rising \<and> prev \<le> n \<and> length page \<le> 3) n ls
      | None \<Rightarrow>
          let t = trim_space l in
          if length (str_fields t) > 8 \<or> endsWith t ''.!?'' \<and> length (str_fields t) > 2 then None
          else toc_lines g entries leaders rising prev ls)"

definition toc :: "page_shape \<Rightarrow> string list \<Rightarrow> bool" where
  "toc g lines =
     (if list_ex (tableRow g) lines then False
      else case toc_lines g 0 0 True (-1) lines of
          None \<Rightarrow> False
        | Some (entries, leaders, rising) \<Rightarrow>
            length lines > 1 \<and> TocHeading g (lines ! 0) \<and> 2 * entries \<ge> length lines - 1 \<and> entries > 0
          \<or> length lines \<ge> 5 \<and> (of_nat entries :: rat) \<ge> (7 / 10) * of_nat (length lines) \<and> leaders = entries \<and> rising)"

definition fold_text :: "unicode \<Rightarrow> string \<Rightarrow> string" where
  "fold_text u s = str_join (str_fields (map_runes (LowerRune u) s)) '' ''"

definition page_lines :: "string \<Rightarrow> string list" where
  "page_lines s = fields_by (\<lambda>r. r = 10) [] s"

definition sortedLines :: "unicode \<Rightarrow> string list \<Rightarrow> string list" where
  "sortedLines u lines = sort (filter (\<lambda>l. l \<noteq> []) (map (fold_text u) lines))"

text \<open>Two pages that say the same: the same folded text, or, for a table, the same folded lines in any order.\<close>

definition repeats :: "unicode \<Rightarrow> page_shape \<Rightarrow> visit \<Rightarrow> visit \<Rightarrow> bool" where
  "repeats u g v x \<longleftrightarrow> fold_text u (viText x) = fold_text u (viText v)
     \<or> list_ex (tableRow g) (page_lines (viText v)) \<and> sortedLines u (page_lines (viText x)) = sortedLines u (page_lines (viText v))"

definition boilerplate :: "unicode \<Rightarrow> page_shape \<Rightarrow> visit \<Rightarrow> bool" where
  "boilerplate u g v \<longleftrightarrow> \<not> contains_func (LetterOrDigit u) (viText v) \<or> toc g (page_lines (viText v))"

definition skipWhy :: "unicode \<Rightarrow> page_shape \<Rightarrow> visit \<Rightarrow> visit list \<Rightarrow> string \<times> nat option" where
  "skipWhy u g v earlier =
     (if boilerplate u g v then (''boilerplate'', None)
      else let words = length (str_fields (viText v)) in
        case index_of (\<lambda>x. \<not> (viDocument x \<noteq> viDocument v \<and> words < 40) \<and> repeats u g v x) earlier of
          Some i \<Rightarrow> (''duplicate'', Some i)
        | None \<Rightarrow> ([], None))"

end
