(* ===== verification/SweepTool.thy ===== *)
theory SweepTool
  imports SweepOrder SweepVisits Policy
begin

text \<open>
  \<^verbatim>\<open>sweepTool\<close> (\<^verbatim>\<open>internal/engine/sweep.go\<close>): which visits a sweep makes, skips or has made already, the
  shares it spends, and the coverage it records of each document and reports.  The order is
  \<open>SweepOrder\<close>'s and the visits themselves are \<open>SweepVisits\<close>'.
\<close>

section \<open>Records of visits\<close>

text \<open>\<^verbatim>\<open>visitRec\<close>; no issues is Go's nil.  A row kept before records held issues is the fids alone.\<close>

record visit_rec =
  vrcFIDs :: "string list"
  vrcIssues :: "string list option"

datatype visit_row = VisitRecord visit_rec | VisitFIDs "string list"

definition no_visit :: visit_rec where
  "no_visit = \<lparr>vrcFIDs = [], vrcIssues = None\<rparr>"

fun decodeVisit :: "visit_row \<Rightarrow> string list \<Rightarrow> visit_rec" where
  "decodeVisit (VisitRecord r) cur = r"
| "decodeVisit (VisitFIDs ids) cur = \<lparr>vrcFIDs = ids, vrcIssues = Some cur\<rparr>"

definition missing :: "string list \<Rightarrow> string list \<Rightarrow> string list" where
  "missing cur read = filter (\<lambda>i. i \<notin> set read) cur"

definition issues_of :: "visit_rec \<Rightarrow> string list" where
  "issues_of r = (case vrcIssues r of None \<Rightarrow> [] | Some iss \<Rightarrow> iss)"

section \<open>What to read\<close>

record choice =
  chTodo :: bool
  chWas :: visit_rec
  chWhy :: string
  chSrc :: "nat option"

text \<open>\<open>kept\<close> holds the visits read or to be read so far, with their places.\<close>

definition choose_visit ::
    "unicode \<Rightarrow> page_shape \<Rightarrow> (string \<times> visit_row) list \<Rightarrow> string list \<Rightarrow> (visit \<times> nat) list \<Rightarrow> visit \<Rightarrow> choice" where
  "choose_visit u g recs cur kept v =
     (case map_of recs (visit_key v) of
        Some d \<Rightarrow>
          let r = decodeVisit d cur; iss = issues_of r in
          \<lparr>chTodo = missing cur iss \<noteq> [], chWas = r\<lparr>vrcIssues := Some iss\<rparr>, chWhy = [], chSrc = None\<rparr>
      | None \<Rightarrow>
          let (why, src) = skipWhy u g v (map fst kept) in
          \<lparr>chTodo = (why = []), chWas = no_visit, chWhy = why, chSrc = map_option (\<lambda>k. snd (kept ! k)) src\<rparr>)"

fun choose_all :: "unicode \<Rightarrow> page_shape \<Rightarrow> (string \<times> visit_row) list \<Rightarrow> string list \<Rightarrow> nat \<Rightarrow> (visit \<times> nat) list \<Rightarrow> visit list \<Rightarrow> choice list" where
  "choose_all u g recs cur i kept [] = []"
| "choose_all u g recs cur i kept (v # vs) =
     (let c = choose_visit u g recs cur kept v in
      c # choose_all u g recs cur (Suc i) (if chWhy c = [] then kept @ [(v, i)] else kept) vs)"

text \<open>The visits \<^verbatim>\<open>sweepVisits\<close> is given, by their places in the reading order.\<close>

definition to_read :: "choice list \<Rightarrow> nat list" where
  "to_read cs = filter (\<lambda>i. chTodo (cs ! i)) [0..<length cs]"

section \<open>The shares\<close>

text \<open>The reader's part of the grant is kept back from the visits; the reader then has what they left.\<close>

definition reader_keep :: "allocation \<Rightarrow> usage \<Rightarrow> int \<Rightarrow> rat \<Rightarrow> int \<times> rat" where
  "reader_keep a rd n m = (max 0 (min (aRead a - uCalls rd) (n sdiv 2)), max 0 (min (aReadUSD a - uUSD rd) (m / 2)))"

definition sweep_share :: "allocation \<Rightarrow> usage \<Rightarrow> usage \<Rightarrow> int \<Rightarrow> rat \<Rightarrow> int \<times> rat" where
  "sweep_share a sw rd n m =
     (let (rc, ru) = reader_keep a rd n m in
      (max 0 (min (n - rc) (aSweep a - uCalls sw)), max 0 (min (m - ru) (aSweepUSD a - uUSD sw))))"

definition reader_share :: "allocation \<Rightarrow> usage \<Rightarrow> usage \<Rightarrow> int \<Rightarrow> rat \<Rightarrow> int \<times> rat" where
  "reader_share a rd done_use n m =
     (max 0 (min (n - uCalls done_use) (aRead a - uCalls rd)), max 0 (min (m - uUSD done_use) (aReadUSD a - uUSD rd)))"

section \<open>Coverage\<close>

record unread_visit =
  uvDocument :: string
  uvSection :: string
  uvThrough :: "string option"

definition unread_of :: "visit \<Rightarrow> unread_visit" where
  "unread_of v = \<lparr>uvDocument = viDocument v, uvSection = viSection v,
     uvThrough = (if viThrough v \<noteq> [] then Some (viThrough v) else None)\<rparr>"

record swept_doc =
  sdDocument :: string
  sdName :: string
  sdPlanned :: int
  sdRead :: int
  sdSkipped :: int

record coverage =
  cgFIDs :: "string list"
  cgNotes :: "string list"
  cgUncovered :: "unread_visit list"
  cgSkipped :: "(unread_visit \<times> string) list"
  cgVisited :: nat
  cgDocs :: "swept_doc list"

definition no_coverage :: coverage where
  "no_coverage = \<lparr>cgFIDs = [], cgNotes = [], cgUncovered = [], cgSkipped = [], cgVisited = 0, cgDocs = []\<rparr>"

text \<open>A document's counts, added in the order the documents come up.\<close>

fun count_doc :: "string \<Rightarrow> int \<Rightarrow> int \<Rightarrow> swept_doc list \<Rightarrow> swept_doc list" where
  "count_doc d rd sk [] = [\<lparr>sdDocument = d, sdName = [], sdPlanned = 1, sdRead = rd, sdSkipped = sk\<rparr>]"
| "count_doc d rd sk (x # xs) =
     (if sdDocument x = d then x\<lparr>sdPlanned := sdPlanned x + 1, sdRead := sdRead x + rd, sdSkipped := sdSkipped x + sk\<rparr> # xs
      else x # count_doc d rd sk xs)"

definition left_unread :: "choice list \<Rightarrow> (nat \<Rightarrow> visit_run) \<Rightarrow> nat \<Rightarrow> bool" where
  "left_unread cs runs j \<longleftrightarrow> chTodo (cs ! j) \<and> (\<not> vrRan (runs j) \<or> vrErr (runs j) \<noteq> None)"

text \<open>What becomes of a visit: the cases of the switch.\<close>

datatype fate = CopyUnread | SkippedAs string | ReadEarlier | Unreached | ReadNow

definition fate_of :: "choice list \<Rightarrow> (nat \<Rightarrow> visit_run) \<Rightarrow> nat \<Rightarrow> fate" where
  "fate_of cs runs i =
     (let c = cs ! i in
      if chWhy c \<noteq> [] \<and> (case chSrc c of None \<Rightarrow> False | Some j \<Rightarrow> left_unread cs runs j) then CopyUnread
      else if chWhy c \<noteq> [] then SkippedAs (chWhy c)
      else if \<not> chTodo c then ReadEarlier
      else if left_unread cs runs i then Unreached
      else ReadNow)"

definition cover_visit :: "choice list \<Rightarrow> (nat \<Rightarrow> visit_run) \<Rightarrow> nat \<times> visit \<Rightarrow> coverage \<Rightarrow> coverage" where
  "cover_visit cs runs = (\<lambda>(i, v) st0.
     (let st = st0\<lparr>cgFIDs := cgFIDs st0 @ vrcFIDs (chWas (cs ! i))\<rparr>; d = viDocument v in
      case fate_of cs runs i of
        CopyUnread \<Rightarrow> st\<lparr>cgUncovered := cgUncovered st @ [unread_of v], cgDocs := count_doc d 0 0 (cgDocs st)\<rparr>
      | SkippedAs why \<Rightarrow> st\<lparr>cgSkipped := cgSkipped st @ [(unread_of v, why)], cgDocs := count_doc d 0 1 (cgDocs st)\<rparr>
      | ReadEarlier \<Rightarrow> st\<lparr>cgDocs := count_doc d 1 0 (cgDocs st)\<rparr>
      | Unreached \<Rightarrow> st\<lparr>cgUncovered := cgUncovered st @ [unread_of v], cgDocs := count_doc d 0 0 (cgDocs st)\<rparr>
      | ReadNow \<Rightarrow> st\<lparr>cgVisited := Suc (cgVisited st), cgFIDs := cgFIDs st @ vrIds (runs i), cgNotes := cgNotes st @ vrNotes (runs i),
            cgDocs := count_doc d 1 0 (cgDocs st)\<rparr>))"

definition cover_visits :: "choice list \<Rightarrow> (nat \<Rightarrow> visit_run) \<Rightarrow> visit list \<Rightarrow> coverage" where
  "cover_visits cs runs vs = fold (cover_visit cs runs) (enumerate 0 vs) no_coverage"

definition partly_unread :: "swept_doc \<Rightarrow> bool" where
  "partly_unread d \<longleftrightarrow> sdRead d + sdSkipped d < sdPlanned d"

text \<open>The coverage a sweep records (\<^verbatim>\<open>kSwept\<close>): its own documents', named, then the others' of the record
  before it.\<close>

definition named :: "(string \<Rightarrow> string option) \<Rightarrow> swept_doc \<Rightarrow> swept_doc" where
  "named name_of d = (case name_of (sdDocument d) of Some n \<Rightarrow> d\<lparr>sdName := n\<rparr> | None \<Rightarrow> d)"

definition swept_docs :: "(string \<Rightarrow> string option) \<Rightarrow> swept_doc list list \<Rightarrow> swept_doc list \<Rightarrow> swept_doc list" where
  "swept_docs name_of before docs = map (named name_of) docs @
     (case before of [] \<Rightarrow> [] | old # _ \<Rightarrow> filter (\<lambda>d. sdDocument d \<notin> sdDocument ` set docs) old)"

text \<open>\<^verbatim>\<open>unswept\<close> and \<^verbatim>\<open>Unread\<close>, over the recorded rows.\<close>

definition unswept :: "swept_doc list list \<Rightarrow> swept_doc list" where
  "unswept rs = concat (map (filter partly_unread) rs)"

definition Unread_docs :: "swept_doc list list \<Rightarrow> string list" where
  "Unread_docs rs = map sdDocument (unswept rs)"

text \<open>What a sweep reports and records, given what its visits came to.\<close>

definition reading_order :: "unicode \<Rightarrow> (rat \<Rightarrow> rat) \<Rightarrow> visit list \<Rightarrow> string list \<Rightarrow> visit list" where
  "reading_order u lg planned questions = map (\<lambda>i. planned ! i) (order u lg planned questions)"

definition sweep_report ::
    "unicode \<Rightarrow> page_shape \<Rightarrow> (rat \<Rightarrow> rat) \<Rightarrow> visit list \<Rightarrow> (string \<times> visit_row) list \<Rightarrow> issue list
     \<Rightarrow> (visit list \<Rightarrow> choice list \<Rightarrow> nat \<Rightarrow> visit_run) \<Rightarrow> coverage" where
  "sweep_report u g lg planned recs issues visit =
     (let vs = reading_order u lg planned (map isQuestion issues); cs = choose_all u g recs (map isID issues) 0 [] vs in
      cover_visits cs (visit vs cs) vs)"

section \<open>The counts\<close>

definition doc_total :: "(swept_doc \<Rightarrow> int) \<Rightarrow> string \<Rightarrow> swept_doc list \<Rightarrow> int" where
  "doc_total f d xs = sum_list (map f (filter (\<lambda>x. sdDocument x = d) xs))"

lemma doc_total_simps [simp]:
  "doc_total f d [] = 0" "doc_total f d (x # xs) = (if sdDocument x = d then f x else 0) + doc_total f d xs"
  by (simp_all add: doc_total_def)

lemma doc_total_only: "distinct (map sdDocument xs) \<Longrightarrow> x \<in> set xs \<Longrightarrow> doc_total f (sdDocument x) xs = f x"
proof (induction xs)
  case (Cons y ys)
  have "doc_total f d ys = 0" if "d \<notin> sdDocument ` set ys" for d using that by (induction ys) auto
  then show ?case using Cons by auto
qed simp

lemma doc_total_doc [simp]:
  "doc_total sdPlanned d (count_doc e rd sk xs) = doc_total sdPlanned d xs + (if d = e then 1 else 0)"
  "doc_total sdRead d (count_doc e rd sk xs) = doc_total sdRead d xs + (if d = e then rd else 0)"
  "doc_total sdSkipped d (count_doc e rd sk xs) = doc_total sdSkipped d xs + (if d = e then sk else 0)"
  by (induction xs) auto

lemma count_doc_docs [simp]: "sdDocument ` set (count_doc e rd sk xs) = insert e (sdDocument ` set xs)"
  by (induction xs) auto

lemma count_doc_distinct [simp]: "distinct (map sdDocument xs) \<Longrightarrow> distinct (map sdDocument (count_doc e rd sk xs))"
proof (induction xs)
  case (Cons x xs)
  then show ?case using count_doc_docs [of e rd sk xs] by (auto simp del: count_doc_docs)
qed simp

definition tally :: "choice list \<Rightarrow> (nat \<Rightarrow> visit_run) \<Rightarrow> (fate \<Rightarrow> bool) \<Rightarrow> string \<Rightarrow> visit list \<Rightarrow> nat" where
  "tally cs runs P d vs = length (filter (\<lambda>(i, v). viDocument v = d \<and> P (fate_of cs runs i)) (enumerate 0 vs))"

definition is_read :: "fate \<Rightarrow> bool" where "is_read x \<longleftrightarrow> x = ReadEarlier \<or> x = ReadNow"
definition is_unread :: "fate \<Rightarrow> bool" where "is_unread x \<longleftrightarrow> x = CopyUnread \<or> x = Unreached"
definition is_skipped :: "fate \<Rightarrow> bool" where "is_skipped x \<longleftrightarrow> (case x of SkippedAs why \<Rightarrow> True | _ \<Rightarrow> False)"

lemmas fate_kinds = is_read_def is_unread_def is_skipped_def

lemma tally_snoc [simp]:
  "tally cs runs P d [] = 0"
  "tally cs runs P d (vs @ [v]) = tally cs runs P d vs + (if viDocument v = d \<and> P (fate_of cs runs (length vs)) then 1 else 0)"
  by (simp_all add: tally_def enumerate_append_eq)

lemma cover_visits_snoc [simp]:
  "cover_visits cs runs [] = no_coverage"
  "cover_visits cs runs (vs @ [v]) = cover_visit cs runs (length vs, v) (cover_visits cs runs vs)"
  by (simp_all add: cover_visits_def enumerate_append_eq)

lemma tally_all: "tally cs runs (\<lambda>x. True) d vs = length (filter (\<lambda>v. viDocument v = d) vs)"
  by (induction vs rule: rev_induct) auto

lemma tally_split: "tally cs runs (\<lambda>x. True) d vs
    = tally cs runs is_read d vs + tally cs runs is_skipped d vs + tally cs runs is_unread d vs"
proof (induction vs rule: rev_induct)
  case (snoc v vs)
  then show ?case by (cases "fate_of cs runs (length vs)") (auto simp: fate_kinds)
qed simp

lemma cover_visits_docs:
  "distinct (map sdDocument (cgDocs (cover_visits cs runs vs)))"
  "sdDocument ` set (cgDocs (cover_visits cs runs vs)) = viDocument ` set vs"
proof (induction vs rule: rev_induct)
  case (snoc v vs)
  case 1
  then show ?case using snoc by (auto simp: cover_visit_def Let_def split: fate.split)
  case 2
  then show ?case using snoc by (auto simp: cover_visit_def Let_def split: fate.split)
qed (simp_all add: no_coverage_def)

lemma cover_visits_counts:
  "doc_total sdPlanned d (cgDocs (cover_visits cs runs vs)) = int (tally cs runs (\<lambda>x. True) d vs)"
  "doc_total sdRead d (cgDocs (cover_visits cs runs vs)) = int (tally cs runs is_read d vs)"
  "doc_total sdSkipped d (cgDocs (cover_visits cs runs vs)) = int (tally cs runs is_skipped d vs)"
  "length (filter (\<lambda>x. uvDocument x = d) (cgUncovered (cover_visits cs runs vs))) = tally cs runs is_unread d vs"
  "length (filter (\<lambda>x. uvDocument (fst x) = d) (cgSkipped (cover_visits cs runs vs))) = tally cs runs is_skipped d vs"
  by (induction vs rule: rev_induct)
    (auto simp: cover_visit_def fate_kinds unread_of_def no_coverage_def Let_def split: fate.split)

lemma reading_order_mset: "mset (reading_order u lg planned questions) = mset planned"
proof -
  have "mset (order u lg planned questions) = mset [0..<length planned]"
    by (rule iffD1 [OF set_eq_iff_mset_eq_distinct [OF order_permutes(1) distinct_upt]]) (simp add: order_permutes(2) lessThan_atLeast0)
  moreover have "mset (reading_order u lg planned questions) = image_mset ((!) planned) (mset (order u lg planned questions))"
    by (simp add: reading_order_def)
  moreover have "image_mset ((!) planned) (mset [0..<length planned]) = mset (map ((!) planned) [0..<length planned])"
    by (rule mset_map [symmetric])
  ultimately show ?thesis by (metis map_nth)
qed

text \<open>C18. The coverage a sweep records adds up, whatever order it read in and whatever its visits came to: its
  documents are those of the plan, each once; a document's planned pages are those the plan has of it, and
  each is doc_total as read, as skipped or among the uncovered pages reported; and a document is listed as
  partly unread exactly when one of its pages is reported uncovered.\<close>

theorem sweep_coverage_adds_up:
  assumes "x \<in> set (cgDocs (sweep_report u g lg planned recs issues visit))"
  shows "distinct (map sdDocument (cgDocs (sweep_report u g lg planned recs issues visit)))
    \<and> sdDocument ` set (cgDocs (sweep_report u g lg planned recs issues visit)) = viDocument ` set planned
    \<and> sdPlanned x = int (length (filter (\<lambda>v. viDocument v = sdDocument x) planned))
    \<and> 0 \<le> sdRead x
    \<and> sdSkipped x = int (length (filter (\<lambda>y. uvDocument (fst y) = sdDocument x) (cgSkipped (sweep_report u g lg planned recs issues visit))))
    \<and> sdPlanned x - sdRead x - sdSkipped x
        = int (length (filter (\<lambda>y. uvDocument y = sdDocument x) (cgUncovered (sweep_report u g lg planned recs issues visit))))
    \<and> (partly_unread x \<longleftrightarrow> sdDocument x \<in> uvDocument ` set (cgUncovered (sweep_report u g lg planned recs issues visit)))"
proof -
  define vs where "vs = reading_order u lg planned (map isQuestion issues)"
  define cs where "cs = choose_all u g recs (map isID issues) 0 [] vs"
  define runs where "runs = visit vs cs"
  define cg where "cg = cover_visits cs runs vs"
  have r: "sweep_report u g lg planned recs issues visit = cg"
    by (simp add: sweep_report_def vs_def cs_def runs_def cg_def Let_def)
  have vs: "mset vs = mset planned" by (simp add: vs_def reading_order_mset)
  note docs = cover_visits_docs [of cs runs vs, folded cg_def]
  note only = doc_total_only [OF docs(1) assms [unfolded r]]
  note counts = cover_visits_counts [where d = "sdDocument x" and cs = cs and runs = runs and vs = vs, folded cg_def]
  have n: "sdPlanned x = int (length (filter (\<lambda>v. viDocument v = sdDocument x) planned))"
    using counts(1) only [of sdPlanned] vs by (simp add: tally_all) (metis mset_filter size_mset)
  have sum: "sdPlanned x - sdRead x - sdSkipped x = int (length (filter (\<lambda>y. uvDocument y = sdDocument x) (cgUncovered cg)))"
    using counts only tally_split [of cs runs "sdDocument x" vs] by simp
  have "partly_unread x \<longleftrightarrow> sdPlanned x - sdRead x - sdSkipped x \<noteq> 0"
    using sum of_nat_0_le_iff [of "length (filter (\<lambda>y. uvDocument y = sdDocument x) (cgUncovered cg))"]
    unfolding partly_unread_def by linarith
  also have "\<dots> \<longleftrightarrow> sdDocument x \<in> uvDocument ` set (cgUncovered cg)"
    unfolding sum by (force simp: filter_empty_conv)
  finally have part: "partly_unread x \<longleftrightarrow> sdDocument x \<in> uvDocument ` set (cgUncovered cg)" .
  have "set vs = set planned" using vs by (metis set_mset_mset)
  then show ?thesis unfolding r using docs n sum part counts(2,3,5) only [of sdRead] only [of sdSkipped] by (intro conjI) simp_all
qed

section \<open>Pages skipped\<close>

lemma choose_all_length [simp]: "length (choose_all u g recs cur i kept vs) = length vs"
  by (induction vs arbitrary: i kept) (simp_all add: Let_def)

text \<open>A visit is chosen among those kept before it.\<close>

lemma choose_all_nth:
  "n < length vs \<Longrightarrow> \<exists>kept'. choose_all u g recs cur i kept vs ! n = choose_visit u g recs cur kept' (vs ! n)
     \<and> (\<forall>(v, j) \<in> set kept'. (v, j) \<in> set kept
          \<or> (\<exists>m < n. j = i + m \<and> v = vs ! m \<and> chWhy (choose_all u g recs cur i kept vs ! m) = []))"
proof (induction vs arbitrary: n i kept)
  case (Cons v vs)
  define c where "c = choose_visit u g recs cur kept v"
  define kept1 where "kept1 = (if chWhy c = [] then kept @ [(v, i)] else kept)"
  have all: "choose_all u g recs cur i kept (v # vs) = c # choose_all u g recs cur (Suc i) kept1 vs"
    by (simp add: c_def kept1_def Let_def)
  show ?case
  proof (cases n)
    case 0
    then show ?thesis unfolding all by (auto simp: c_def)
  next
    case (Suc m)
    then obtain kept' where k: "choose_all u g recs cur (Suc i) kept1 vs ! m = choose_visit u g recs cur kept' (vs ! m)"
      "\<forall>(w, j) \<in> set kept'. (w, j) \<in> set kept1
         \<or> (\<exists>m' < m. j = Suc i + m' \<and> w = vs ! m' \<and> chWhy (choose_all u g recs cur (Suc i) kept1 vs ! m') = [])"
      using Cons.IH [of m "Suc i" kept1] Cons.prems by auto
    have "(w, j) \<in> set kept \<or> (\<exists>m' < n. j = i + m' \<and> w = (v # vs) ! m' \<and> chWhy ((c # choose_all u g recs cur (Suc i) kept1 vs) ! m') = [])"
      if wj: "(w, j) \<in> set kept'" for w j
    proof (cases "(w, j) \<in> set kept1")
      case True
      then show ?thesis using Suc by (auto simp: kept1_def split: if_splits)
    next
      case False
      then obtain m' where "m' < m" "j = Suc i + m'" "w = vs ! m'" "chWhy (choose_all u g recs cur (Suc i) kept1 vs ! m') = []"
        using k(2) wj by blast
      then show ?thesis using Suc by (intro disjI2 exI [of _ "Suc m'"]) simp
    qed
    then show ?thesis unfolding all using k(1) Suc by (intro exI [of _ kept']) auto
  qed
qed simp

lemma index_of_Some: "index_of P xs = Some i \<Longrightarrow> i < length xs \<and> P (xs ! i)"
  by (induction xs arbitrary: i) (auto split: if_splits)

text \<open>C19. A page is skipped only for cause: it holds no letter or digit or reads as a table of contents, or it
  repeats a page earlier in the reading order that was itself read, in this sweep or in one before (the same text, case and
  white space folded, or for a table the same rows in another order); across documents only a page of at
  least forty words is taken for a copy.\<close>

theorem skipped_pages_repeat_read_ones:
  assumes "i < length vs" and "fate_of (choose_all u g recs cur 0 [] vs) runs i = SkippedAs why"
  shows "why = ''boilerplate'' \<and> boilerplate u g (vs ! i)
    \<or> why = ''duplicate'' \<and> (\<exists>j < i. repeats u g (vs ! i) (vs ! j)
        \<and> (viDocument (vs ! j) = viDocument (vs ! i) \<or> 40 \<le> length (str_fields (viText (vs ! i))))
        \<and> (fate_of (choose_all u g recs cur 0 [] vs) runs j = ReadEarlier \<or> fate_of (choose_all u g recs cur 0 [] vs) runs j = ReadNow))"
proof -
  define cs where "cs = choose_all u g recs cur 0 [] vs"
  obtain kept where k: "cs ! i = choose_visit u g recs cur kept (vs ! i)"
    "\<forall>(v, j) \<in> set kept. \<exists>m < i. j = m \<and> v = vs ! m \<and> chWhy (cs ! m) = []"
    using choose_all_nth [OF assms(1), of u g recs cur 0 "[]"] unfolding cs_def by auto
  have why: "chWhy (cs ! i) = why" "why \<noteq> []" and src: "chSrc (cs ! i) = Some j \<Longrightarrow> \<not> left_unread cs runs j" for j
    using assms(2) unfolding cs_def [symmetric] by (auto simp: fate_of_def Let_def split: if_splits option.splits)
  have new: "map_of recs (visit_key (vs ! i)) = None"
    using why k(1) by (auto simp: choose_visit_def Let_def split: option.splits)
  obtain s where s: "skipWhy u g (vs ! i) (map fst kept) = (why, s)" "chSrc (cs ! i) = map_option (\<lambda>k. snd (kept ! k)) s"
    using why new k(1) by (auto simp: choose_visit_def split: prod.splits)
  show ?thesis
  proof (cases "boilerplate u g (vs ! i)")
    case True
    then show ?thesis using s(1) by (simp add: skipWhy_def)
  next
    case False
    define P where "P = (\<lambda>x. \<not> (viDocument x \<noteq> viDocument (vs ! i) \<and> length (str_fields (viText (vs ! i))) < 40) \<and> repeats u g (vs ! i) x)"
    have why_s: "(why, s) = (case index_of P (map fst kept) of Some n \<Rightarrow> (''duplicate'', Some n) | None \<Rightarrow> ([], None))"
      using s(1) [unfolded skipWhy_def Let_def, folded P_def] False by simp
    obtain n where n: "index_of P (map fst kept) = Some n"
      using why_s why(2) by (cases "index_of P (map fst kept)") auto
    then have n: "why = ''duplicate''" "s = Some n" "index_of P (map fst kept) = Some n"
      using why_s by auto
    have "n < length kept" "P (fst (kept ! n))" using index_of_Some [OF n(3)] by auto
    note n = n(1,2) this [unfolded P_def]
    obtain v j where vj: "kept ! n = (v, j)" by (cases "kept ! n")
    then have j: "j < i" "v = vs ! j" "chWhy (cs ! j) = []" using k(2) n(3) nth_mem [OF n(3)] by auto
    have "\<not> left_unread cs runs j" using src s(2) n(2) vj by simp
    then have "fate_of cs runs j = ReadEarlier \<or> fate_of cs runs j = ReadNow" using j(3) by (simp add: fate_of_def Let_def)
    then show ?thesis using n vj j unfolding cs_def by auto
  qed
qed

text \<open>Two pages, the second a copy of the first, and nothing left to read them with.\<close>

definition demo_shape :: page_shape where
  "demo_shape = \<lparr>DigitRune = (\<lambda>r. 48 \<le> r \<and> r \<le> 57), CurrencyRune = (\<lambda>r. r = 36), TocEntry = (\<lambda>l. None),
     TocHeading = (\<lambda>l. False), Cells = (\<lambda>l. [l]), Literal = (\<lambda>l. (False, []))\<rparr>"

definition demo_copies :: "visit list" where
  "demo_copies = map demo_page [''ab'', ''Ab'']"

definition read_all :: visit_run where
  "read_all = no_run\<lparr>vrRan := True\<rparr>"

lemma demo_choices: "choose_all demo_unicode demo_shape [] [] 0 [] demo_copies
    = [\<lparr>chTodo = True, chWas = no_visit, chWhy = [], chSrc = None\<rparr>,
       \<lparr>chTodo = False, chWas = no_visit, chWhy = ''duplicate'', chSrc = Some 0\<rparr>]"
  by code_simp

lemma demo_copies_length: "length demo_copies = 2"
  by (simp add: demo_copies_def)

lemma skipped_pages_repeat_read_ones_witness:
  "\<exists>j < 1. repeats demo_unicode demo_shape (demo_copies ! 1) (demo_copies ! j)"
  using skipped_pages_repeat_read_ones [of 1 demo_copies demo_unicode demo_shape "[]" "[]" "\<lambda>i. read_all" "''duplicate''"]
  by (simp add: demo_choices fate_of_def left_unread_def read_all_def no_run_def demo_copies_length)

lemma reading_order_no_questions: "reading_order u lg planned [] = planned"
  by (simp add: reading_order_def order_def interleave_def rankings_def rounds.simps map_nth)

lemma demo_report: "cgDocs (sweep_report demo_unicode demo_shape (\<lambda>x. x) demo_copies [] [] (\<lambda>vs cs i. no_run))
    = [\<lparr>sdDocument = ''d'', sdName = [], sdPlanned = 2, sdRead = 0, sdSkipped = 0\<rparr>]"
proof -
  have "sweep_report demo_unicode demo_shape (\<lambda>x. x) demo_copies [] [] (\<lambda>vs cs i. no_run)
      = cover_visits (choose_all demo_unicode demo_shape [] [] 0 [] demo_copies) (\<lambda>i. no_run) demo_copies"
    by (simp add: sweep_report_def reading_order_no_questions)
  then show ?thesis unfolding demo_choices
    by (simp add: cover_visits_def cover_visit_def demo_copies_def demo_page_def fate_of_def left_unread_def no_run_def
        no_coverage_def)
qed

lemma sweep_coverage_adds_up_witness:
  "length (filter (\<lambda>y. uvDocument y = ''d'')
     (cgUncovered (sweep_report demo_unicode demo_shape (\<lambda>x. x) demo_copies [] [] (\<lambda>vs cs i. no_run)))) = 2"
  using sweep_coverage_adds_up [of "\<lparr>sdDocument = ''d'', sdName = [], sdPlanned = 2, sdRead = 0, sdSkipped = 0\<rparr>"
      demo_unicode demo_shape "\<lambda>x. x" demo_copies "[]" "[]" "\<lambda>vs cs i. no_run"]
  by (simp add: demo_report)

end
