(* ===== verification/Figures.thy ===== *)
theory Figures
  imports Utf8 Complex_Main
begin

text \<open>
  The literal half of figure reading, \<^verbatim>\<open>internal/analysis/figures.go\<close>: the spans of a text that are numbers as
  written, and the values the marks between a span's digits allow.  The tables of package \<^verbatim>\<open>unicode\<close> and the
  dates found by the regular expressions are parameters.
\<close>

section \<open>Digits\<close>

text \<open>\<^verbatim>\<open>unicode.IsLetter\<close>, \<^verbatim>\<open>unicode.IsDigit\<close> and the value of a decimal digit of any script (\<^verbatim>\<open>digitValue\<close>).\<close>

record digit_tables =
  IsLetter :: "rune \<Rightarrow> bool"
  IsDigit :: "rune \<Rightarrow> bool"
  digitValue :: "rune \<Rightarrow> nat option"

definition minusSigns :: "string list" where
  "minusSigns = [''-'', [CHR 0xE2, CHR 0x88, CHR 0x92], [CHR 0xE2, CHR 0x80, CHR 0x93], [CHR 0xE2, CHR 0x80, CHR 0x94]]"

definition groupSeps :: "string list" where
  "groupSeps = [[CHR 0x27], [CHR 0xE2, CHR 0x80, CHR 0x99], [CHR 0xC2, CHR 0xA0], [CHR 0xE2, CHR 0x80, CHR 0xAF], [CHR 0xE2, CHR 0x80, CHR 0x89]]"

definition marks :: "string list" where
  "marks = '','' # ''.'' # groupSeps"

text \<open>The loop of \<^verbatim>\<open>asciiDigits\<close>: each byte written, with the offset it came from.\<close>

fun digit_pieces :: "digit_tables \<Rightarrow> string \<Rightarrow> nat \<Rightarrow> (rune \<times> nat) list \<Rightarrow> (char \<times> nat) list" where
  "digit_pieces tb txt i [] = []"
| "digit_pieces tb txt i ((r, w) # rs) =
     (case digitValue tb r of
        Some d \<Rightarrow> if r > 127 then [(char_of (48 + d), i)] else map (\<lambda>k. (txt ! (i + k), i + k)) [0..<w]
      | None \<Rightarrow> map (\<lambda>k. (txt ! (i + k), i + k)) [0..<w]) @ digit_pieces tb txt (i + w) rs"

definition asciiDigits :: "digit_tables \<Rightarrow> string \<Rightarrow> string \<times> nat list option" where
  "asciiDigits tb txt =
     (if \<not> list_ex (\<lambda>(r, w). r > 127 \<and> IsDigit tb r) (runes_of txt) then (txt, None)
      else let ps = digit_pieces tb txt 0 (runes_of txt) in (map fst ps, Some (map snd ps @ [length txt])))"

definition isWordRune :: "digit_tables \<Rightarrow> rune \<Rightarrow> bool" where
  "isWordRune tb r \<longleftrightarrow> IsLetter tb r \<or> IsDigit tb r"

definition lastRune :: "string \<Rightarrow> rune" where
  "lastRune s = fst (decode_last_rune s)"

definition sepAt :: "string \<Rightarrow> nat" where
  "sepAt s = (case find (\<lambda>p. has_prefix s p \<and> length p < length s \<and> is_digit_byte (s ! length p)) marks of
     Some p \<Rightarrow> length p | None \<Rightarrow> 0)"

section \<open>Spans\<close>

definition digits_end :: "string \<Rightarrow> nat \<Rightarrow> nat" where
  "digits_end t i = i + length (takeWhile is_digit_byte (drop i t))"

lemma sepAt_bound: "sepAt s = n \<Longrightarrow> 0 < n \<Longrightarrow> n < length s \<and> is_digit_byte (s ! n)"
  by (auto simp: sepAt_def dest!: find_SomeD split: option.splits)

lemma digits_end_ge: "i \<le> digits_end t i"
  by (simp add: digits_end_def)

text \<open>Digits, and separators between digits.\<close>

function number_end :: "string \<Rightarrow> nat \<Rightarrow> nat" where
  "number_end t i =
     (let j = digits_end t i; n = sepAt (drop j t) in if n > 0 then number_end t (j + n) else j)"
  by pat_completeness auto
termination
proof (relation "measure (\<lambda>(t, i). length t - i)", goal_cases)
  case (2 t i j n)
  then have "n < length (drop j t)" using sepAt_bound [of "drop j t" n] by simp
  then show ?case using 2 digits_end_ge [of i t] by auto
qed simp

declare number_end.simps [simp del]

definition lead_point :: "digit_tables \<Rightarrow> string \<Rightarrow> nat \<Rightarrow> bool" where
  "lead_point tb t i \<longleftrightarrow> t ! i = CHR ''.'' \<and> i + 1 < length t \<and> is_digit_byte (t ! (i + 1))
     \<and> (i = 0 \<or> \<not> isWordRune tb (lastRune (take i t)) \<and> lastRune (take i t) \<notin> {46, 44, 39, 8217})"

definition sign_start :: "digit_tables \<Rightarrow> string \<Rightarrow> nat \<Rightarrow> nat" where
  "sign_start tb t s =
     (case find (\<lambda>m. has_suffix (take s t) m \<and> (s = length m \<or> \<not> isWordRune tb (lastRune (take (s - length m) t)))) minusSigns of
        Some m \<Rightarrow> s - length m | None \<Rightarrow> s)"

definition identifier_digit :: "digit_tables \<Rightarrow> string \<Rightarrow> nat \<Rightarrow> bool" where
  "identifier_digit tb t i \<longleftrightarrow> is_digit_byte (t ! i) \<and> i > 0 \<and> IsLetter tb (lastRune (take i t))"

lemma digits_end_digit: "i < length t \<Longrightarrow> is_digit_byte (t ! i) \<Longrightarrow> i < digits_end t i"
  by (simp add: digits_end_def Cons_nth_drop_Suc [symmetric])

lemma number_end_ge: "digits_end t i \<le> number_end t i"
proof (induction t i rule: number_end.induct)
  case (1 t i)
  show ?case
  proof (cases "0 < sepAt (drop (digits_end t i) t)")
    case True
    then show ?thesis using 1 [OF refl refl] digits_end_ge [of "digits_end t i + sepAt (drop (digits_end t i) t)" t]
      by (subst number_end.simps) (simp add: Let_def)
  qed (subst number_end.simps, simp add: Let_def)
qed

function span_scan :: "digit_tables \<Rightarrow> string \<Rightarrow> nat \<Rightarrow> (nat \<times> nat) list" where
  "span_scan tb t i =
     (if i \<ge> length t then []
      else if identifier_digit tb t i then span_scan tb t (digits_end t i)
      else if \<not> is_digit_byte (t ! i) \<and> \<not> lead_point tb t i then span_scan tb t (i + snd (decode_rune (drop i t)))
      else let e = number_end t (if lead_point tb t i then i + 1 else i) in (sign_start tb t i, e) # span_scan tb t e)"
  by pat_completeness auto
termination
proof (relation "measure (\<lambda>(tb, t, i). length t - i)", goal_cases)
  case (2 tb t i)
  then show ?case using digits_end_digit [of i t] by (auto simp: identifier_digit_def)
next
  case (3 tb t i)
  then show ?case using decode_rune_width(1) [of "drop i t"] by auto
next
  case (4 tb t i e)
  have "i < e"
  proof (cases "lead_point tb t i")
    case True
    then show ?thesis using 4 number_end_ge [of t "i + 1"] digits_end_ge [of "i + 1" t] by auto
  next
    case False
    then show ?thesis using 4 number_end_ge [of t i] digits_end_digit [of i t] by auto
  qed
  then show ?case using 4 by auto
qed simp

declare span_scan.simps [simp del]

record number_span =
  nsStart :: nat
  nsEnd :: nat
  nsText :: string

definition span_at :: "string \<Rightarrow> nat list option \<Rightarrow> nat \<times> nat \<Rightarrow> number_span" where
  "span_at txt pos = (\<lambda>(s, e).
     let a = (case pos of None \<Rightarrow> s | Some p \<Rightarrow> p ! s); b = (case pos of None \<Rightarrow> e | Some p \<Rightarrow> p ! e) in
     \<lparr>nsStart = a, nsEnd = b, nsText = subtext txt a b\<rparr>)"

definition Spans :: "digit_tables \<Rightarrow> string \<Rightarrow> number_span list" where
  "Spans tb txt = (let (t, pos) = asciiDigits tb txt in map (span_at txt pos) (span_scan tb t 0))"

section \<open>Values\<close>

text \<open>A span's text without its sign, and whether it has one.\<close>

definition digitsOf :: "digit_tables \<Rightarrow> string \<Rightarrow> string \<times> bool" where
  "digitsOf tb txt =
     (let t = fst (asciiDigits tb txt) in
      case find (has_prefix t) minusSigns of Some m \<Rightarrow> (drop (length m) t, True) | None \<Rightarrow> (t, False))"

definition Neg :: "digit_tables \<Rightarrow> number_span \<Rightarrow> bool" where
  "Neg tb s = snd (digitsOf tb (nsText s))"

definition Single :: "digit_tables \<Rightarrow> number_span \<Rightarrow> bool" where
  "Single tb s \<longleftrightarrow> length (fst (digitsOf tb (nsText s))) = 1 \<and> \<not> snd (digitsOf tb (nsText s))"

definition Grouped :: "digit_tables \<Rightarrow> number_span \<Rightarrow> bool" where
  "Grouped tb s \<longleftrightarrow> \<not> list_all is_digit_byte (fst (digitsOf tb (nsText s)))"

text \<open>\<^verbatim>\<open>strings.Split\<close> at a separator that is not empty.\<close>

function split_str :: "string \<Rightarrow> string \<Rightarrow> string list" where
  "split_str s sep =
     (if sep = [] then [s]
      else case str_index s sep of None \<Rightarrow> [s] | Some i \<Rightarrow> take i s # split_str (drop (i + length sep) s) sep)"
  by pat_completeness auto
termination
proof (relation "measure (\<lambda>(s, sep). length s)", goal_cases)
  case (2 s sep i)
  then have "i + length sep \<le> length s" "0 < length sep" using str_index_Some by auto
  then have "length s - (i + length sep) < length s" by linarith
  then show ?case by simp
qed simp

declare split_str.simps [simp del]

text \<open>One mark is looked for after the other; a second one, or the decimal mark, ends the search.\<close>

definition mark_step :: "string \<Rightarrow> char option \<Rightarrow> string \<Rightarrow> string option \<Rightarrow> string option" where
  "mark_step s decimal p acc =
     (case acc of None \<Rightarrow> None
      | Some sep \<Rightarrow> if contains_str s p then (if sep \<noteq> [] \<or> decimal = Some (hd p) \<and> length p = 1 then None else Some p) else Some sep)"

definition groups_fit :: "string list \<Rightarrow> bool" where
  "groups_fit parts \<longleftrightarrow> 0 < length (hd parts) \<and> length (hd parts) \<le> 3 \<and> length (last parts) = 3
     \<and> list_all (\<lambda>p. length p = 3 \<or> length p = 2) (butlast (tl parts))"

definition ungroup :: "string \<Rightarrow> char option \<Rightarrow> string option" where
  "ungroup s decimal =
     (if s = [] then (if decimal \<noteq> None then Some ''0'' else None)
      else case fold (mark_step s decimal) marks (Some []) of
          None \<Rightarrow> None
        | Some sep \<Rightarrow>
            if sep = [] then Some s
            else let parts = split_str s sep in if groups_fit parts then Some (concat parts) else None)"

text \<open>\<^verbatim>\<open>big.Rat.SetString\<close> on digits with at most one decimal point between them, the texts \<^verbatim>\<open>Value\<close> makes of a span.\<close>

definition number_text :: "string \<Rightarrow> bool" where
  "number_text s \<longleftrightarrow> s \<noteq> [] \<and> list_all is_digit_byte s"

definition set_string :: "string \<Rightarrow> string \<Rightarrow> rat option" where
  "set_string plain fr =
     (if number_text plain \<and> (fr = [] \<or> number_text fr)
      then Some (of_nat (num_of plain) + of_nat (num_of fr) / 10 ^ length fr) else None)"

definition signed :: "bool \<Rightarrow> rat \<Rightarrow> rat" where
  "signed neg r = (if neg then - r else r)"

definition Span_Value :: "digit_tables \<Rightarrow> number_span \<Rightarrow> char option \<Rightarrow> rat option" where
  "Span_Value tb s decimal =
     (let (d, neg) = digitsOf tb (nsText s) in
      case decimal of
        None \<Rightarrow> (case ungroup d None of None \<Rightarrow> None | Some plain \<Rightarrow> map_option (signed neg) (set_string plain []))
      | Some c \<Rightarrow>
          (case str_last_index d [c] of
             None \<Rightarrow> None
           | Some k \<Rightarrow>
               if count_list d c \<noteq> 1 \<or> \<not> number_text (drop (k + 1) d) then None
               else case ungroup (take k d) decimal of
                   None \<Rightarrow> None
                 | Some plain \<Rightarrow> map_option (signed neg) (set_string plain (drop (k + 1) d))))"

text \<open>The distinct values, in the order none, point, comma.\<close>

definition add_reading :: "rat option \<Rightarrow> rat list \<Rightarrow> rat list" where
  "add_reading v out = (case v of None \<Rightarrow> out | Some r \<Rightarrow> if r \<in> set out then out else out @ [r])"

definition Readings :: "digit_tables \<Rightarrow> number_span \<Rightarrow> rat list" where
  "Readings tb s = fold (\<lambda>d. add_reading (Span_Value tb s d)) [None, Some CHR ''.'', Some CHR '',''] []"

section \<open>What a text states\<close>

text \<open>The dates of a text are found by \<^verbatim>\<open>dateRe\<close> and read by \<^verbatim>\<open>ParseDate\<close>; \<open>euro\<close> is the match of
  \<^verbatim>\<open>euroDate\<close>: a day, a month and a year.\<close>

record date_reader =
  DateHits :: "string \<Rightarrow> (nat \<times> nat) list"
  EuroDate :: "string \<Rightarrow> (nat \<times> nat \<times> nat) option"
  DateKey :: "string \<Rightarrow> string option"

definition pad :: "nat \<Rightarrow> nat \<Rightarrow> string" where
  "pad w n = replicate (w - length (digits_of n)) CHR ''0'' @ digits_of n"

text \<open>\<^verbatim>\<open>Date.Key\<close> (\<^verbatim>\<open>normalize.go\<close>): the date as ISO text at its precision.\<close>

definition date_key :: "nat \<Rightarrow> nat \<Rightarrow> nat \<Rightarrow> string" where
  "date_key y m d = pad 4 y @ (if m = 0 then [] else ''-'' @ pad 2 m @ (if d = 0 then [] else ''-'' @ pad 2 d))"

definition date_at :: "date_reader \<Rightarrow> string \<Rightarrow> nat \<times> nat \<Rightarrow> (string \<times> (nat \<times> nat)) option" where
  "date_at dr txt loc =
     (let raw = subtext txt (fst loc) (snd loc) in
      case EuroDate dr raw of
        Some (d, m, y) \<Rightarrow>
          if 1 \<le> m \<and> m \<le> 12 \<and> 1 \<le> d \<and> d \<le> 31 \<and> (fst loc = 0 \<or> lastRune (take (fst loc) txt) \<notin> {46, 44})
          then Some (date_key y m d, loc) else None
      | None \<Rightarrow> map_option (\<lambda>k. (k, loc)) (DateKey dr raw))"

definition dateSpans :: "date_reader \<Rightarrow> string \<Rightarrow> (string \<times> (nat \<times> nat)) list" where
  "dateSpans dr txt = List.map_filter (date_at dr txt) (DateHits dr txt)"

definition blank :: "nat \<times> nat \<Rightarrow> string \<Rightarrow> string" where
  "blank loc b = map (\<lambda>(i, c). if fst loc \<le> i \<and> i < snd loc then CHR '' '' else c) (enumerate 0 b)"

definition Literal :: "digit_tables \<Rightarrow> date_reader \<Rightarrow> string \<Rightarrow> string list \<times> number_span list" where
  "Literal tb dr txt =
     (let ds = dateSpans dr txt; b = fold blank (map snd ds) txt in
      (map fst ds, map (\<lambda>s. s\<lparr>nsText := subtext txt (nsStart s) (nsEnd s)\<rparr>)
         (filter (\<lambda>s. Readings tb s \<noteq> []) (Spans tb b))))"

section \<open>Where the spans are\<close>

fun in_order :: "nat \<Rightarrow> nat \<Rightarrow> (nat \<times> nat) list \<Rightarrow> bool" where
  "in_order lo hi [] \<longleftrightarrow> lo \<le> hi"
| "in_order lo hi ((s, e) # xs) \<longleftrightarrow> lo \<le> s \<and> s < e \<and> in_order e hi xs"

lemma digits_end_le: "i \<le> length t \<Longrightarrow> digits_end t i \<le> length t"
  using length_takeWhile_le [of is_digit_byte "drop i t"] by (simp add: digits_end_def)

lemma digits_end_digits: "i \<le> k \<Longrightarrow> k < digits_end t i \<Longrightarrow> is_digit_byte (t ! k)"
proof -
  assume "i \<le> k" "k < digits_end t i"
  then have "k - i < length (takeWhile is_digit_byte (drop i t))" by (simp add: digits_end_def)
  moreover from this have "k - i < length (drop i t)" using length_takeWhile_le less_le_trans by blast
  ultimately show ?thesis
    using takeWhile_nth [of "k - i" is_digit_byte "drop i t"] nth_mem [of "k - i" "takeWhile is_digit_byte (drop i t)"]
      set_takeWhileD [of "takeWhile is_digit_byte (drop i t) ! (k - i)" is_digit_byte "drop i t"] \<open>i \<le> k\<close> by simp
qed

lemma sepAt_step:
  assumes "0 < sepAt (drop j t)"
  shows "j + sepAt (drop j t) < length t" and "is_digit_byte (t ! (j + sepAt (drop j t)))"
  using sepAt_bound [OF refl assms] by (auto simp: less_diff_conv add.commute)

text \<open>A number ends right after a digit.\<close>

lemma number_end_last:
  "i < length t \<Longrightarrow> is_digit_byte (t ! i) \<Longrightarrow> i < number_end t i \<and> number_end t i \<le> length t \<and> is_digit_byte (t ! (number_end t i - 1))"
proof (induction t i rule: number_end.induct)
  case (1 t i)
  let ?j = "digits_end t i" and ?n = "sepAt (drop (digits_end t i) t)"
  have j: "i < ?j" "?j \<le> length t" using 1 digits_end_digit digits_end_le by auto
  show ?case
  proof (cases "0 < ?n")
    case True
    have "?j + ?n < number_end t (?j + ?n) \<and> number_end t (?j + ?n) \<le> length t \<and> is_digit_byte (t ! (number_end t (?j + ?n) - 1))"
      using "1.IH" [OF refl refl True] sepAt_step [OF True] by blast
    then show ?thesis using True j by (subst (1 2 3) number_end.simps) (simp add: Let_def)
  next
    case False
    then show ?thesis using j digits_end_digits [of i "?j - 1" t] by (subst (1 2 3) number_end.simps) (simp add: Let_def)
  qed
qed

lemma minus_no_digit: "m \<in> set minusSigns \<Longrightarrow> c \<in> set m \<Longrightarrow> \<not> is_digit_byte c"
  by (auto simp: minusSigns_def is_digit_byte_def less_eq_char_def)

text \<open>A sign does not reach back over a digit.\<close>

lemma sign_start_bounds:
  assumes "s \<le> length t"
  shows "sign_start tb t s \<le> s" and "lo \<le> s \<Longrightarrow> lo = 0 \<or> is_digit_byte (t ! (lo - 1)) \<Longrightarrow> lo \<le> sign_start tb t s"
    and "sign_start tb t s \<le> k \<Longrightarrow> k < s \<Longrightarrow> \<not> is_digit_byte (t ! k)"
proof -
  show "sign_start tb t s \<le> s" by (auto simp: sign_start_def split: option.split)
  have no: "\<not> is_digit_byte (t ! k)" if k: "sign_start tb t s \<le> k" "k < s" for k
  proof -
    obtain m where m: "m \<in> set minusSigns" "has_suffix (take s t) m" "sign_start tb t s = s - length m"
      using k by (auto simp: sign_start_def dest!: find_SomeD split: option.splits)
    then have "m = drop (s - length m) (take s t)" "length m \<le> s" using assms by (auto simp: has_suffix_def)
    then have "t ! k = m ! (k - (s - length m))" using k m(3) assms by (metis add_diff_inverse_nat le_eq_less_or_eq linorder_not_le nth_drop nth_take length_take min.absorb2 diff_le_self)
    moreover have "k - (s - length m) < length m" using k m(3) \<open>length m \<le> s\<close> by auto
    ultimately show ?thesis using minus_no_digit [OF m(1)] nth_mem by metis
  qed
  then show "sign_start tb t s \<le> k \<Longrightarrow> k < s \<Longrightarrow> \<not> is_digit_byte (t ! k)" by blast
  assume lo: "lo \<le> s" "lo = 0 \<or> is_digit_byte (t ! (lo - 1))"
  show "lo \<le> sign_start tb t s"
  proof (rule ccontr)
    assume "\<not> lo \<le> sign_start tb t s"
    then have "sign_start tb t s \<le> lo - 1" "lo - 1 < s" "lo \<noteq> 0" using lo(1) by auto
    then show False using no lo(2) by blast
  qed
qed

text \<open>The digits of an identifier: a run of digits right after a letter.\<close>

definition in_identifier :: "digit_tables \<Rightarrow> string \<Rightarrow> nat \<Rightarrow> bool" where
  "in_identifier tb t k \<longleftrightarrow> (\<exists>i \<le> k. identifier_digit tb t i \<and> k < digits_end t i)"

lemma scan_number:
  assumes "i < length t" and "is_digit_byte (t ! i) \<or> lead_point tb t i"
  defines "e \<equiv> number_end t (if lead_point tb t i then i + 1 else i)"
  shows "i < e" and "e \<le> length t" and "is_digit_byte (t ! (e - 1))"
proof -
  have "i < e \<and> e \<le> length t \<and> is_digit_byte (t ! (e - 1))"
  proof (cases "lead_point tb t i")
    case True
    then show ?thesis using number_end_last [of "i + 1" t] by (auto simp: e_def lead_point_def)
  next
    case False
    then show ?thesis using number_end_last [of i t] assms(1,2) by (simp add: e_def)
  qed
  then show "i < e" and "e \<le> length t" and "is_digit_byte (t ! (e - 1))" by blast+
qed

lemma scan_in_order:
  "lo \<le> i \<Longrightarrow> i \<le> length t \<Longrightarrow> lo = 0 \<or> is_digit_byte (t ! (lo - 1)) \<Longrightarrow> in_order lo (length t) (span_scan tb t i)"
proof (induction tb t i arbitrary: lo rule: span_scan.induct)
  case (1 tb t i)
  show ?case
  proof (cases "i < length t")
    case in_text: True
    consider (ident) "identifier_digit tb t i" | (skip) "\<not> identifier_digit tb t i" "\<not> is_digit_byte (t ! i)" "\<not> lead_point tb t i"
      | (number) "\<not> identifier_digit tb t i" "is_digit_byte (t ! i) \<or> lead_point tb t i" by blast
    then show ?thesis
    proof cases
      case ident
      then show ?thesis using "1.IH"(1) "1.prems" in_text digits_end_ge [of i t] digits_end_le [of i t]
        by (subst span_scan.simps) auto
    next
      case skip
      have "i + snd (decode_rune (drop i t)) \<le> length t" using in_text decode_rune_width(2) [of "drop i t"] by auto
      then show ?thesis using skip "1.IH"(2) "1.prems" in_text by (subst span_scan.simps) auto
    next
      case number
      let ?e = "number_end t (if lead_point tb t i then i + 1 else i)"
      note e = scan_number [OF in_text number(2)]
      have "lo \<le> sign_start tb t i" using sign_start_bounds(2) "1.prems" by blast
      moreover have "sign_start tb t i < ?e" using sign_start_bounds(1) [OF "1.prems"(2)] e(1) by (rule le_less_trans)
      moreover have "in_order ?e (length t) (span_scan tb t ?e)"
        using "1.IH"(3) [OF _ number(1) _ refl] number(2) in_text e by auto
      ultimately show ?thesis using number in_text by (subst span_scan.simps) (auto simp: Let_def)
    qed
  qed (use "1.prems" in \<open>subst span_scan.simps, simp\<close>)
qed

lemma scan_complete:
  "i \<le> k \<Longrightarrow> k < length t \<Longrightarrow> is_digit_byte (t ! k) \<Longrightarrow>
   (\<exists>(s, e) \<in> set (span_scan tb t i). s \<le> k \<and> k < e) \<or> in_identifier tb t k"
proof (induction tb t i rule: span_scan.induct)
  case (1 tb t i)
  have in_text: "i < length t" using "1.prems" by simp
  consider (ident) "identifier_digit tb t i" | (skip) "\<not> identifier_digit tb t i" "\<not> is_digit_byte (t ! i)" "\<not> lead_point tb t i"
    | (number) "\<not> identifier_digit tb t i" "is_digit_byte (t ! i) \<or> lead_point tb t i" by blast
  then show ?case
  proof cases
    case ident
    then show ?thesis using "1.IH"(1) "1.prems" in_text
      by (cases "k < digits_end t i") (auto simp: in_identifier_def span_scan.simps [of tb t i])
  next
    case skip
    let ?w = "snd (decode_rune (drop i t))"
    have "\<not> k < i + ?w"
    proof
      assume "k < i + ?w"
      then have k: "k - i < ?w" "t ! k = drop i t ! (k - i)" using "1.prems" by auto
      show False
      proof (cases "1 < ?w")
        case True
        then have "128 \<le> byte_val (t ! k)" using wide_rune_bytes [OF True k(1)] k(2) by simp
        then show False using "1.prems"(3) by (auto simp: is_digit_byte_def byte_val_def less_eq_char_def)
      next
        case False
        then have "k = i" using k(1) "1.prems"(1) by auto
        then show False using skip(2) "1.prems"(3) by simp
      qed
    qed
    then show ?thesis using skip "1.IH"(2) "1.prems" in_text by (auto simp: span_scan.simps [of tb t i])
  next
    case number
    let ?e = "number_end t (if lead_point tb t i then i + 1 else i)"
    have split: "span_scan tb t i = (sign_start tb t i, ?e) # span_scan tb t ?e"
      using number in_text by (subst span_scan.simps) (auto simp: Let_def)
    show ?thesis
    proof (cases "k < ?e")
      case True
      then show ?thesis using sign_start_bounds(1) [of i t tb] in_text "1.prems"(1) unfolding split by fastforce
    next
      case False
      then show ?thesis using "1.IH"(3) [OF _ number(1) _ refl] number(2) in_text "1.prems"(2,3) unfolding split by fastforce
    qed
  qed
qed

lemma in_order_lower: "in_order lo hi xs \<Longrightarrow> lo' \<le> lo \<Longrightarrow> in_order lo' hi xs"
  by (cases xs) auto

lemma in_order_le: "in_order lo hi xs \<Longrightarrow> lo \<le> hi"
  by (induction xs arbitrary: lo) fastforce+

lemma in_order_map:
  "in_order lo hi xs \<Longrightarrow> sorted_wrt (<) p \<Longrightarrow> hi < length p \<Longrightarrow> in_order (p ! lo) (p ! hi) (map (\<lambda>(s, e). (p ! s, p ! e)) xs)"
proof (induction xs arbitrary: lo)
  case Nil
  then show ?case using strict_sorted_imp_sorted [of p] by (auto intro: sorted_nth_mono)
next
  case (Cons x xs)
  obtain s e where x: "x = (s, e)" by (cases x)
  have "lo \<le> s" "s < e" "e \<le> hi" using Cons.prems(1) in_order_le [of e hi xs] by (auto simp: x)
  then have "p ! lo \<le> p ! s" "p ! s < p ! e"
    using Cons.prems(2,3) strict_sorted_imp_sorted [of p] by (auto intro: sorted_nth_mono simp: sorted_wrt_nth_less)
  then show ?case using Cons by (auto simp: x)
qed

lemma digit_pieces_offsets:
  "list_all (\<lambda>(r, w). 0 < w) rs \<Longrightarrow> sorted_wrt (<) (map snd (digit_pieces tb txt i rs) @ [i + sum_list (map snd rs)])
    \<and> (\<forall>x \<in> set (digit_pieces tb txt i rs). i \<le> snd x)"
proof (induction tb "txt" i rs rule: digit_pieces.induct)
  case (2 tb "txt" i r w rs)
  define ps where "ps = (case digitValue tb r of
        Some d \<Rightarrow> if r > 127 then [(char_of (48 + d), i)] else map (\<lambda>k. (txt ! (i + k), i + k)) [0..<w]
      | None \<Rightarrow> map (\<lambda>k. (txt ! (i + k), i + k)) [0..<w])"
  have whole: "sorted_wrt (<) (map (snd \<circ> (\<lambda>k. (txt ! (i + k), i + k))) [0..<w])"
    by (simp add: sorted_wrt_map comp_def)
  have ps: "sorted_wrt (<) (map snd ps)" "\<forall>x \<in> set ps. i \<le> snd x \<and> snd x < i + w"
    using 2(2) whole by (auto simp: ps_def split: option.splits)
  have "sorted_wrt (<) (map snd (digit_pieces tb txt (i + w) rs) @ [i + w + sum_list (map snd rs)])"
    "\<forall>x \<in> set (digit_pieces tb txt (i + w) rs). i + w \<le> snd x" using 2 by auto
  moreover have "digit_pieces tb txt i ((r, w) # rs) = ps @ digit_pieces tb txt (i + w) rs" by (simp add: ps_def)
  ultimately show ?case using ps by (fastforce simp: sorted_wrt_append)
qed simp

lemma asciiDigits_offsets:
  assumes "asciiDigits tb txt = (t, Some p)"
  shows "sorted_wrt (<) p" and "length p = Suc (length t)" and "p ! length t = length txt"
proof -
  let ?ps = "digit_pieces tb txt 0 (runes_of txt)"
  have p: "p = map snd ?ps @ [length txt]" "t = map fst ?ps" using assms by (auto simp: asciiDigits_def Let_def split: if_splits)
  have "list_all (\<lambda>(r, w). 0 < w) (runes_of txt)" by (auto simp: list_all_iff dest!: runes_of_pos)
  from digit_pieces_offsets [OF this, of tb "txt" 0] show "sorted_wrt (<) p" using runes_of_widths [of "txt"] by (simp add: p)
  show "length p = Suc (length t)" "p ! length t = length txt" by (simp_all add: p nth_append)
qed

text \<open>C33. No number of a text is missed and none is read twice: the spans follow each other inside the text, each
  is the text between its offsets, and (other scripts' digits read as ASCII) every digit lies in a span or
  in a run of digits glued to a letter before it.\<close>

theorem Spans_find_all:
  "in_order 0 (length txt) (map (\<lambda>s. (nsStart s, nsEnd s)) (Spans tb txt))
   \<and> list_all (\<lambda>s. nsText s = subtext txt (nsStart s) (nsEnd s)) (Spans tb txt)
   \<and> (\<forall>k. k < length (fst (asciiDigits tb txt)) \<and> is_digit_byte (fst (asciiDigits tb txt) ! k) \<longrightarrow>
       list_ex (\<lambda>(s, e). s \<le> k \<and> k < e) (span_scan tb (fst (asciiDigits tb txt)) 0) \<or> in_identifier tb (fst (asciiDigits tb txt)) k)"
proof -
  obtain t pos where a: "asciiDigits tb txt = (t, pos)" by (cases "asciiDigits tb txt")
  have scan: "in_order 0 (length t) (span_scan tb t 0)" by (rule scan_in_order) auto
  have "in_order 0 (length txt) (map (\<lambda>s. (nsStart s, nsEnd s)) (Spans tb txt))"
  proof (cases pos)
    case None
    then have "t = txt" using a by (auto simp: asciiDigits_def Let_def split: if_splits)
    then show ?thesis using scan None by (simp add: Spans_def a span_at_def comp_def case_prod_unfold Let_def)
  next
    case (Some p)
    note p = asciiDigits_offsets [OF a [unfolded Some]]
    have "in_order (p ! 0) (p ! length t) (map (\<lambda>(s, e). (p ! s, p ! e)) (span_scan tb t 0))"
      using in_order_map [OF scan p(1)] p(2) by simp
    then have "in_order 0 (length txt) (map (\<lambda>(s, e). (p ! s, p ! e)) (span_scan tb t 0))"
      unfolding p(3) by (rule in_order_lower) simp
    then show ?thesis by (simp add: Spans_def a Some span_at_def comp_def case_prod_unfold Let_def)
  qed
  moreover have "list_all (\<lambda>s. nsText s = subtext txt (nsStart s) (nsEnd s)) (Spans tb txt)"
    by (simp add: Spans_def a list_all_iff span_at_def Let_def split: prod.splits)
  ultimately show ?thesis using scan_complete [of 0 _ t tb] by (fastforce simp: a list_ex_iff)
qed

section \<open>Numbers read back\<close>

text \<open>A number written in groups of three digits.\<close>

fun group3 :: "nat \<Rightarrow> string list" where
  "group3 n = (if n < 1000 then [digits_of n] else group3 (n div 1000) @ [pad 3 (n mod 1000)])"

declare group3.simps [simp del]

definition grouped :: "char \<Rightarrow> nat \<Rightarrow> string" where
  "grouped c n = str_join (group3 n) [c]"

lemma num_of_append: "num_of (s @ t) = num_of s * 10 ^ length t + num_of t"
proof (induction t rule: rev_induct)
  case (snoc c t)
  have "num_of (s @ t @ [c]) = 10 * num_of (s @ t) + digit_val c" using num_of_snoc [of "s @ t" c] by simp
  then show ?case using snoc by (simp add: num_of_snoc)
qed (simp add: num_of_def)

lemma num_of_zeros: "num_of (replicate k CHR ''0'') = 0"
  by (induction k) (simp_all add: num_of_def digit_val_def foldl_conv_fold flip: replicate_append_same)

lemma num_of_pad: "num_of (pad w n) = n"
  by (simp add: pad_def num_of_append num_of_zeros num_of_digits_of)

lemma digits_of_length: "n < 10 ^ Suc k \<Longrightarrow> length (digits_of n) \<le> Suc k"
proof (induction k arbitrary: n)
  case (Suc k)
  show ?case
  proof (cases "n < 10")
    case False
    have "n div 10 < 10 ^ Suc k" using Suc.prems by (simp add: less_mult_imp_div_less mult.commute)
    then show ?thesis using Suc.IH False by (subst digits_of.simps) auto
  qed (subst digits_of.simps, simp)
qed (subst digits_of.simps, simp)

lemma digits_of_nonempty: "digits_of n \<noteq> []"
  by (subst digits_of.simps) simp

lemma pad_length: "n < 10 ^ Suc k \<Longrightarrow> length (pad (Suc k) n) = Suc k"
  using digits_of_length [of n k] by (simp add: pad_def)

lemma pad_digits: "list_all is_digit_byte (pad w n)" "list_all is_digit_byte (digits_of n)"
  using digits_of_digit by (auto simp: pad_def list_all_iff is_digit_byte_def)

lemma group3_facts:
  "list_all (list_all is_digit_byte) (group3 n)" "list_all (\<lambda>p. length p = 3) (tl (group3 n))" "group3 n \<noteq> []"
  "0 < length (hd (group3 n))" "length (hd (group3 n)) \<le> 3" "num_of (concat (group3 n)) = n" "1000 \<le> n \<Longrightarrow> tl (group3 n) \<noteq> []"
proof (induction n rule: group3.induct)
  case (1 n)
  have len: "length (pad 3 (n mod 1000)) = 3" using pad_length [of "n mod 1000" 2] by (simp add: numeral_3_eq_3)
  have small: "n < 1000 \<Longrightarrow> length (digits_of n) \<le> 3" using digits_of_length [of n 2] by (simp add: numeral_3_eq_3)
  {
    case 1
    then show ?case using "1.IH"(1) pad_digits by (subst group3.simps) auto
  next
    case 2
    then show ?case using "1.IH"(2,3) len by (subst group3.simps) (auto simp: tl_append2)
  next
    case 3
    then show ?case by (subst group3.simps) auto
  next
    case 4
    then show ?case using "1.IH"(3,4) digits_of_nonempty by (subst group3.simps) auto
  next
    case 5
    then show ?case using "1.IH"(3,5) small by (subst group3.simps) auto
  next
    case 6
    then show ?case using "1.IH"(6) len by (subst group3.simps) (auto simp: num_of_append num_of_pad num_of_digits_of)
  next
    case 7
    then show ?case using "1.IH"(3) by (subst group3.simps) (auto simp: tl_append2)
  }
qed

lemma group3_million: "1000000 \<le> n \<Longrightarrow> 3 \<le> length (group3 n)"
proof -
  assume n: "1000000 \<le> n"
  then have "tl (group3 (n div 1000)) \<noteq> []" by (intro group3_facts(7)) simp
  then have "2 \<le> length (group3 (n div 1000))" by (cases "group3 (n div 1000)" rule: list.exhaust; cases "tl (group3 (n div 1000))") auto
  then show ?thesis using n by (subst group3.simps) simp
qed

lemma group3_thousand: "1000 \<le> n \<Longrightarrow> n < 1000000 \<Longrightarrow> group3 n = [digits_of (n div 1000), pad 3 (n mod 1000)]"
proof -
  assume "1000 \<le> n" "n < 1000000"
  moreover from this have "n div 1000 < 1000" by (simp add: less_mult_imp_div_less)
  ultimately show ?thesis by (subst group3.simps, simp) (subst group3.simps, simp)
qed

text \<open>Marks in a text of digits.\<close>

lemma contains_first: "contains_str s p \<Longrightarrow> p \<noteq> [] \<Longrightarrow> hd p \<in> set s"
proof -
  assume "contains_str s p" "p \<noteq> []"
  then obtain i where "s = take i s @ p @ drop (i + length p) s" by (auto simp: contains_str_def dest!: str_index_Some)
  then have "set p \<subseteq> set s" by (metis Un_upper1 Un_upper2 set_append subset_trans)
  then show ?thesis using \<open>p \<noteq> []\<close> by auto
qed

lemma str_index_char: "c \<notin> set w \<Longrightarrow> str_index (w @ c # t) [c] = Some (length w)"
  by (induction w) (auto simp: has_prefix_def)

lemma str_index_char_None: "c \<notin> set w \<Longrightarrow> str_index w [c] = None"
  by (induction w) (auto simp: has_prefix_def)

lemma contains_char: "contains_str s [c] \<longleftrightarrow> c \<in> set s"
  using contains_first [of s "[c]"] str_index_char split_list_first [of c s] by (fastforce simp: contains_str_def)

lemma split_join:
  "ws \<noteq> [] \<Longrightarrow> list_all (\<lambda>w. c \<notin> set w) ws \<Longrightarrow> split_str (str_join ws [c]) [c] = ws"
proof (induction ws rule: list_nonempty_induct)
  case (single w)
  then show ?case by (subst split_str.simps) (simp add: str_index_char_None)
next
  case (cons w ws)
  then obtain v vs where ws: "ws = v # vs" by (cases ws) auto
  have "str_join (w # ws) [c] = w @ c # str_join ws [c]" by (simp add: ws)
  then show ?case using cons by (subst split_str.simps) (simp add: str_index_char)
qed

lemma str_last_index_None: "c \<notin> set s \<Longrightarrow> str_last_index s [c] = None"
  by (induction s) (auto simp: has_prefix_def)

lemma str_last_index_char: "c \<notin> set v \<Longrightarrow> str_last_index (u @ c # v) [c] = Some (length u)"
  by (induction u) (auto simp: has_prefix_def str_last_index_None)

lemma str_last_index_at: "str_last_index s [c] = Some k \<Longrightarrow> k < length s \<and> s ! k = c"
  by (induction s arbitrary: k) (auto simp: has_prefix_def split: option.splits if_splits)

lemma set_join: "set (str_join ws [c]) \<subseteq> insert c (\<Union>w \<in> set ws. set w)"
  by (induction ws "[c]" rule: str_join.induct) auto

lemma digit_not_mark: "is_digit_byte c \<Longrightarrow> c \<notin> {CHR '','', CHR ''.'', CHR 0x27} \<and> c \<noteq> CHR 0xE2 \<and> c \<noteq> CHR 0xC2"
  by (auto simp: is_digit_byte_def less_eq_char_def)

text \<open>Text whose bytes are digits and a few ASCII marks.\<close>

definition digits_and :: "char set \<Rightarrow> string \<Rightarrow> bool" where
  "digits_and C s \<longleftrightarrow> (\<forall>b \<in> set s. is_digit_byte b \<or> b \<in> C)"

definition ascii_marks :: "char set" where
  "ascii_marks = {CHR '','', CHR ''.'', CHR 0x27}"

lemma asciiDigits_plain:
  assumes "digits_and ascii_marks s"
  shows "asciiDigits tb s = (s, None)"
proof -
  have "byte_val b < 128" if "b \<in> set s" for b
    using assms that by (auto simp: digits_and_def ascii_marks_def is_digit_byte_def less_eq_char_def byte_val_def)
  then have "runes_of s = map (\<lambda>b. (byte_val b, 1)) s" "\<forall>b \<in> set s. byte_val b < 128" using runes_of_ascii by auto
  then show ?thesis by (fastforce simp: asciiDigits_def list_ex_iff)
qed

lemma digitsOf_plain:
  assumes "digits_and ascii_marks s" and "s = [] \<or> is_digit_byte (hd s)"
  shows "digitsOf tb s = (s, False)"
proof -
  have "\<not> has_prefix s m" if "m \<in> set minusSigns" for m
  proof
    assume "has_prefix s m"
    then have "m \<noteq> [] \<longrightarrow> s \<noteq> [] \<and> hd m = hd s" by (cases m; cases s) (auto simp: has_prefix_def)
    then show False using that assms(2) minus_no_digit [OF that, of "hd m"] by (auto simp: minusSigns_def)
  qed
  then have "find (has_prefix s) minusSigns = None" by (auto simp: find_None_iff)
  then show ?thesis by (simp add: digitsOf_def asciiDigits_plain [OF assms(1)])
qed

text \<open>The search of \<^const>\<open>ungroup\<close>: no mark, one mark, or two.\<close>

lemma mark_search:
  assumes "digits_and ascii_marks s" and "decimal \<in> {None, Some CHR ''.'', Some CHR '',''}"
  shows "set s \<inter> ascii_marks = {} \<Longrightarrow> fold (mark_step s decimal) marks (Some []) = Some []"
    and "set s \<inter> ascii_marks = {c} \<Longrightarrow> decimal \<noteq> Some c \<Longrightarrow> fold (mark_step s decimal) marks (Some []) = Some [c]"
    and "CHR '','' \<in> set s \<Longrightarrow> CHR ''.'' \<in> set s \<Longrightarrow> fold (mark_step s decimal) marks (Some []) = None"
proof -
  have wide: "\<not> contains_str s (b # w)" if "b = CHR 0xE2 \<or> b = CHR 0xC2" for b w
    using contains_first [of s "b # w"] that assms(1) digit_not_mark by (auto simp: digits_and_def ascii_marks_def)
  note unfold = marks_def groupSeps_def mark_step_def wide contains_char ascii_marks_def
  show "set s \<inter> ascii_marks = {} \<Longrightarrow> fold (mark_step s decimal) marks (Some []) = Some []"
    by (auto simp: unfold)
  show "set s \<inter> ascii_marks = {c} \<Longrightarrow> decimal \<noteq> Some c \<Longrightarrow> fold (mark_step s decimal) marks (Some []) = Some [c]"
    using assms(2) by (cases "CHR '','' \<in> set s"; cases "CHR ''.'' \<in> set s"; cases "CHR 0x27 \<in> set s") (auto simp: unfold)
  show "CHR '','' \<in> set s \<Longrightarrow> CHR ''.'' \<in> set s \<Longrightarrow> fold (mark_step s decimal) marks (Some []) = None"
    using assms(2) by (auto simp: unfold)
qed

lemma set_string_plain: "number_text s \<Longrightarrow> set_string s [] = Some (of_nat (num_of s))"
  by (simp add: set_string_def num_of_def)

lemma grouped_bytes:
  assumes "c \<in> ascii_marks"
  shows "list_all (\<lambda>w. c \<notin> set w) (group3 n)" and "set (grouped c n) \<subseteq> insert c {b. is_digit_byte b}"
    and "1000 \<le> n \<Longrightarrow> c \<in> set (grouped c n)" and "is_digit_byte (hd (grouped c n))" and "grouped c n \<noteq> []"
    and "number_text (concat (group3 n))" and "1000 \<le> n \<Longrightarrow> groups_fit (group3 n)"
proof -
  note g = group3_facts [of n]
  show "list_all (\<lambda>w. c \<notin> set w) (group3 n)" using g(1) assms digit_not_mark by (fastforce simp: list_all_iff ascii_marks_def)
  show "set (grouped c n) \<subseteq> insert c {b. is_digit_byte b}"
    using set_join [of "group3 n" c] g(1) by (fastforce simp: grouped_def list_all_iff)
  obtain w ws where ws: "group3 n = w # ws" "w \<noteq> []" using g(3,4) by (cases "group3 n") auto
  then show "is_digit_byte (hd (grouped c n))" "grouped c n \<noteq> []" using g(1)
    by (cases ws; cases w; auto simp: grouped_def)+
  show "1000 \<le> n \<Longrightarrow> c \<in> set (grouped c n)" using g(7) ws by (cases ws) (auto simp: grouped_def)
  show "number_text (concat (group3 n))" using g(1) ws by (auto simp: number_text_def list_all_iff)
  show "1000 \<le> n \<Longrightarrow> groups_fit (group3 n)"
    using g(2,4,5,7) ws last_in_set [of ws] by (auto simp: groups_fit_def list_all_iff dest: in_set_butlastD)
qed

lemma ungroup_grouped:
  assumes "c \<in> ascii_marks" and "1000 \<le> n" and "decimal \<in> {None, Some CHR ''.'', Some CHR '',''}" and "decimal \<noteq> Some c"
  shows "ungroup (grouped c n) decimal = Some (concat (group3 n))"
proof -
  note g = grouped_bytes [OF assms(1), of n]
  have "digits_and ascii_marks (grouped c n)" using g(2) assms(1) by (auto simp: digits_and_def)
  moreover have "set (grouped c n) \<inter> ascii_marks = {c}"
    using g(2) g(3) [OF assms(2)] assms(1) digit_not_mark by (auto simp: ascii_marks_def)
  ultimately have "fold (mark_step (grouped c n) decimal) marks (Some []) = Some [c]"
    using mark_search(2) assms(3,4) by blast
  moreover have "split_str (grouped c n) [c] = group3 n"
    unfolding grouped_def using group3_facts(3) g(1) by (rule split_join)
  ultimately show ?thesis using g(5) g(7) [OF assms(2)] by (simp add: ungroup_def)
qed

lemma ungroup_digits: "number_text s \<Longrightarrow> decimal \<in> {None, Some CHR ''.'', Some CHR '',''} \<Longrightarrow> ungroup s decimal = Some s"
proof -
  assume "number_text s" and d: "decimal \<in> {None, Some CHR ''.'', Some CHR '',''}"
  then have "s \<noteq> []" "set s \<inter> ascii_marks = {}" "digits_and ascii_marks s"
    using digit_not_mark by (auto simp: number_text_def list_all_iff ascii_marks_def digits_and_def)
  then show ?thesis using mark_search(1) [OF _ d] by (simp add: ungroup_def)
qed

definition figure :: "string \<Rightarrow> number_span" where
  "figure s = \<lparr>nsStart = 0, nsEnd = length s, nsText = s\<rparr>"

lemma grouped_digitsOf:
  assumes "c \<in> ascii_marks" and "digits_and ascii_marks t"
  shows "digitsOf tb (grouped c n @ t) = (grouped c n @ t, False)"
  using grouped_bytes(2,4,5) [OF assms(1), of n] assms by (intro digitsOf_plain) (auto simp: digits_and_def)

lemma count_list_join: "list_all (\<lambda>w. c \<notin> set w) ws \<Longrightarrow> count_list (str_join ws [c]) c = length ws - 1"
  by (induction ws "[c]" rule: str_join.induct) (auto simp: count_list_0_iff)

lemma grouped_plain: "c \<in> ascii_marks \<Longrightarrow> digits_and ascii_marks (grouped c n)"
  using grouped_bytes(2) [of c n] by (auto simp: digits_and_def)

lemma grouped_whole:
  assumes "1000 \<le> n" and "c \<in> ascii_marks"
  shows "Span_Value tb (figure (grouped c n)) None = Some (of_nat n)"
  using grouped_digitsOf [OF assms(2), of "[]" tb n] ungroup_grouped [OF assms(2,1), of None] grouped_bytes(6) [OF assms(2), of n]
  by (simp add: Span_Value_def figure_def digits_and_def set_string_plain group3_facts(6) signed_def)

lemma grouped_other_decimal:
  assumes "c \<in> ascii_marks" and "d \<in> {CHR ''.'', CHR '',''}" and "d \<noteq> c"
  shows "Span_Value tb (figure (grouped c n)) (Some d) = None"
proof -
  have "d \<notin> set (grouped c n)" using grouped_bytes(2) [OF assms(1), of n] assms digit_not_mark by auto
  then show ?thesis using grouped_digitsOf [OF assms(1), of "[]" tb n]
    by (simp add: Span_Value_def figure_def digits_and_def str_last_index_None)
qed

lemma grouped_decimal_many:
  assumes "1000000 \<le> n" and "c \<in> ascii_marks"
  shows "Span_Value tb (figure (grouped c n)) (Some c) = None"
proof -
  have "count_list (grouped c n) c \<noteq> 1"
    using count_list_join [OF grouped_bytes(1) [OF assms(2)]] group3_million [OF assms(1)] by (simp add: grouped_def)
  then show ?thesis using grouped_digitsOf [OF assms(2), of "[]" tb n]
    by (simp add: Span_Value_def figure_def digits_and_def split: option.split)
qed

lemma grouped_decimal_one:
  assumes "1000 \<le> n" and "n < 1000000" and "c \<in> {CHR ''.'', CHR '',''}"
  shows "Span_Value tb (figure (grouped c n)) (Some c) = Some (of_nat n / 1000)"
proof -
  let ?u = "digits_of (n div 1000)" and ?v = "pad 3 (n mod 1000)"
  have c: "c \<in> ascii_marks" using assms(3) by (auto simp: ascii_marks_def)
  have s: "grouped c n = ?u @ c # ?v" by (simp add: grouped_def group3_thousand [OF assms(1,2)])
  have len: "length ?v = 3" using pad_length [of "n mod 1000" 2] by (simp add: numeral_3_eq_3)
  then have v: "number_text ?v" using pad_digits(1) [of 3 "n mod 1000"] by (auto simp: number_text_def)
  have u: "number_text ?u" using pad_digits(2) digits_of_nonempty by (auto simp: number_text_def)
  have no: "c \<notin> set ?u" "c \<notin> set ?v" using u v c digit_not_mark by (auto simp: number_text_def list_all_iff ascii_marks_def)
  then have "count_list (?u @ c # ?v) c = 1" by (simp add: count_list_0_iff)
  moreover have "str_last_index (?u @ c # ?v) [c] = Some (length ?u)" using no(2) by (rule str_last_index_char)
  moreover have "ungroup ?u (Some c) = Some ?u" using assms(3) by (intro ungroup_digits [OF u]) auto
  moreover have "digitsOf tb (?u @ c # ?v) = (?u @ c # ?v, False)"
    using grouped_digitsOf [OF c, of "[]" tb n] by (simp add: digits_and_def s)
  ultimately have val: "Span_Value tb (figure (grouped c n)) (Some c) = Some (of_nat (n div 1000) + of_nat (n mod 1000) / 1000)"
    using u v len by (simp add: Span_Value_def figure_def s set_string_def num_of_pad num_of_digits_of signed_def)
  have e: "rat_of_nat (n div 1000) * 1000 + rat_of_nat (n mod 1000) = rat_of_nat n"
    using of_nat_add [of "n div 1000 * 1000" "n mod 1000", where ?'a = rat] by simp
  have "of_nat (n div 1000) + of_nat (n mod 1000) / 1000 = (of_nat n / 1000 :: rat)"
    using e by (simp add: field_simps)
  then show ?thesis using val by simp
qed

text \<open>A grouped number, its decimal mark and more digits.\<close>

lemma mixed_values:
  assumes "1000 \<le> n" and cd: "c = CHR '','' \<and> d = CHR ''.'' \<or> c = CHR ''.'' \<and> d = CHR '',''" and ds: "number_text ds"
  shows "Span_Value tb (figure (grouped c n @ d # ds)) None = None"
    and "Span_Value tb (figure (grouped c n @ d # ds)) (Some c) = None"
    and "Span_Value tb (figure (grouped c n @ d # ds)) (Some d) = Some (of_nat n + of_nat (num_of ds) / 10 ^ length ds)"
proof -
  let ?s = "grouped c n @ d # ds"
  have c: "c \<in> ascii_marks" "d \<in> ascii_marks" using cd by (auto simp: ascii_marks_def)
  have no: "c \<notin> set (d # ds)" "d \<notin> set ds" using ds cd digit_not_mark by (auto simp: number_text_def list_all_iff)
  have plain: "digits_and ascii_marks (d # ds)" using ds c by (auto simp: digits_and_def number_text_def list_all_iff)
  have digits: "digitsOf tb ?s = (?s, False)" using plain by (rule grouped_digitsOf [OF c(1)])
  have both: "CHR '','' \<in> set ?s" "CHR ''.'' \<in> set ?s" using grouped_bytes(3) [OF c(1) assms(1)] cd by auto
  have "digits_and ascii_marks ?s" using plain grouped_plain [OF c(1)] by (auto simp: digits_and_def)
  then have "ungroup ?s None = None" using mark_search(3) [OF _ _ both, of None] by (simp add: ungroup_def)
  then show "Span_Value tb (figure ?s) None = None" using digits by (simp add: Span_Value_def figure_def)
  have "\<not> number_text (drop (k + 1) ?s)" if k: "str_last_index ?s [c] = Some k" for k
  proof -
    have "k < length (grouped c n)"
    proof (rule ccontr)
      assume far: "\<not> k < length (grouped c n)"
      have "(d # ds) ! (k - length (grouped c n)) \<in> set (d # ds)"
        using far str_last_index_at [OF k] by (intro nth_mem) auto
      then show False using far str_last_index_at [OF k] no(1) by (simp add: nth_append)
    qed
    then have "d \<in> set (drop (k + 1) ?s)" by simp
    then show ?thesis using c(2) digit_not_mark [of d] by (auto simp: number_text_def list_all_iff ascii_marks_def)
  qed
  then show "Span_Value tb (figure ?s) (Some c) = None" using digits by (auto simp: Span_Value_def figure_def split: option.split)
  have "d \<notin> set (grouped c n)" using grouped_bytes(2) [OF c(1), of n] cd digit_not_mark by auto
  then have "count_list ?s d = 1" using no(2) by (simp add: count_list_0_iff)
  moreover have "str_last_index ?s [d] = Some (length (grouped c n))" using no(2) by (rule str_last_index_char)
  moreover have "ungroup (grouped c n) (Some d) = Some (concat (group3 n))"
    using cd by (intro ungroup_grouped [OF c(1) assms(1)]) auto
  ultimately show "Span_Value tb (figure ?s) (Some d) = Some (of_nat n + of_nat (num_of ds) / 10 ^ length ds)"
    using digits ds grouped_bytes(6) [OF c(1), of n]
    by (simp add: Span_Value_def figure_def set_string_def group3_facts(6) signed_def)
qed

text \<open>C34. A number written in groups of three is read back: with two or more group marks, or the apostrophe, the
  span has that value and no other; with one comma or point it reads two ways, as the whole number and as
  its thousandth; and followed by the other of comma and point and more digits it is that decimal number
  and nothing else.\<close>

theorem grouped_numbers_read_back:
  assumes "1000 \<le> n" and "c \<in> ascii_marks"
  shows "Readings tb (figure (grouped c n))
      = (if c \<noteq> CHR 0x27 \<and> n < 1000000 then [of_nat n, of_nat n / 1000] else [of_nat n])
    \<and> ((c = CHR '','' \<and> d = CHR ''.'' \<or> c = CHR ''.'' \<and> d = CHR '','') \<and> number_text ds \<longrightarrow>
      Readings tb (figure (grouped c n @ d # ds)) = [of_nat n + of_nat (num_of ds) / 10 ^ length ds])"
proof (intro conjI impI)
  have c: "c = CHR 0x27 \<or> c = CHR '','' \<or> c = CHR ''.''" using assms(2) by (auto simp: ascii_marks_def)
  have ne: "of_nat n / 1000 \<noteq> (of_nat n :: rat)" using assms(1) by (simp add: field_simps)
  have v: "Span_Value tb (figure (grouped c n)) (Some d) = (if d = c \<and> n < 1000000 then Some (of_nat n / 1000) else None)"
    if "d \<in> {CHR ''.'', CHR '',''}" for d
    using that grouped_other_decimal [OF assms(2) that, of tb n] grouped_decimal_one [OF assms(1), of d tb]
      grouped_decimal_many [OF _ assms(2), of n tb] by (cases "d = c"; cases "n < 1000000") simp_all
  show "Readings tb (figure (grouped c n)) = (if c \<noteq> CHR 0x27 \<and> n < 1000000 then [of_nat n, of_nat n / 1000] else [of_nat n])"
    using c grouped_whole [OF assms, of tb] ne v [of "CHR ''.''"] v [of "CHR '',''"] by (auto simp: Readings_def add_reading_def)
next
  assume "(c = CHR '','' \<and> d = CHR ''.'' \<or> c = CHR ''.'' \<and> d = CHR '','') \<and> number_text ds"
  then show "Readings tb (figure (grouped c n @ d # ds)) = [of_nat n + of_nat (num_of ds) / 10 ^ length ds]"
    using mixed_values [OF assms(1), of c d ds tb] by (auto simp: Readings_def add_reading_def)
qed

text \<open>Arabic digits are digits; letters are the ASCII ones.\<close>

definition demo_tables :: digit_tables where
  "demo_tables = \<lparr>IsLetter = (\<lambda>r. 97 \<le> r \<and> r \<le> 122 \<or> 65 \<le> r \<and> r \<le> 90),
     IsDigit = (\<lambda>r. 48 \<le> r \<and> r \<le> 57 \<or> 1632 \<le> r \<and> r \<le> 1641),
     digitValue = (\<lambda>r. if 48 \<le> r \<and> r \<le> 57 then Some (r - 48) else if 1632 \<le> r \<and> r \<le> 1641 then Some (r - 1632) else None)\<rparr>"

lemma grouped_numbers_read_back_witness:
  "Readings demo_tables (figure (grouped CHR '','' 1234567)) = [1234567]
   \<and> Readings demo_tables (figure (grouped CHR '','' 1200)) = [1200, 1200 / 1000]
   \<and> Readings demo_tables (figure (grouped CHR ''.'' 1200 @ '',5'')) = [1200 + 5 / 10]"
  using grouped_numbers_read_back [of 1234567 "CHR '',''" demo_tables] grouped_numbers_read_back [of 1200 "CHR '',''" demo_tables]
    grouped_numbers_read_back [of 1200 "CHR ''.''" demo_tables "CHR '',''" "''5''"]
  by (simp add: ascii_marks_def number_text_def is_digit_byte_def less_eq_char_def num_of_def digit_val_def)

lemma demo_ascii: "fst (asciiDigits demo_tables ''pay 12'') = ''pay 12''"
  by code_simp

lemma Spans_find_all_witness:
  "list_ex (\<lambda>(s, e). s \<le> 4 \<and> 4 < e) (span_scan demo_tables ''pay 12'' 0) \<or> in_identifier demo_tables ''pay 12'' 4"
  using Spans_find_all [of "''pay 12''" demo_tables] unfolding demo_ascii
  by (elim conjE allE [of _ 4]) (simp add: is_digit_byte_def less_eq_char_def)

end
