(* ===== verification/Token.thy ===== *)
theory Token
  imports Json "HOL-Library.AList"
begin

text \<open>
  \<^verbatim>\<open>internal/auth/oidc.go\<close>: the issuer's metadata and signing keys as BigLaw keeps them, and the check of an
  ID token.  Base64, JSON text, URLs, the network and the cryptography of the standard library are
  parameters; times are nanoseconds.  One call at a time asks the issuer: the sharing of one fetch by
  callers that arrive while it runs is not modelled.
\<close>

section \<open>Errors and times\<close>

text \<open>\<^verbatim>\<open>ErrToken\<close> with its reason, and every other error of the issuer's.\<close>

datatype token_error = TokenRefused string | IssuerFault string

definition seconds :: "int \<Rightarrow> int" where "seconds n = n * 10 ^ 9"

definition clockSkew :: int where "clockSkew = seconds 60"
definition refetchEvery :: int where "refetchEvery = seconds 60"
definition failBackoff :: int where "failBackoff = seconds 5"

text \<open>\<^verbatim>\<open>unix\<close>: a \<^verbatim>\<open>float64\<close> of seconds cut towards zero.\<close>

definition unix :: "rat \<Rightarrow> int" where
  "unix f = seconds (if f \<ge> 0 then floor f else ceiling f)"

section \<open>Keys\<close>

datatype curve = P256 | P384

datatype public_key = RSAKey nat nat | ECKey curve string string

record signing_key =
  kyPub :: public_key
  kyAlg :: string

datatype hash_alg = SHA256 | SHA384 | SHA512

definition hashes :: "string \<Rightarrow> hash_alg option" where
  "hashes = map_of [(''RS256'', SHA256), (''RS384'', SHA384), (''RS512'', SHA512), (''ES256'', SHA256), (''ES384'', SHA384)]"

record jwk =
  jwKty :: string
  jwKid :: string
  jwUse :: string
  jwAlg :: string
  jwN :: string
  jwE :: string
  jwCrv :: string
  jwX :: string
  jwY :: string

text \<open>What the standard library does: base64url, the header of a token (its alg, kid and crit), one whole JSON
  value with an object's keys as written, Unicode case folding, whether a point is on a curve, and the signatures.\<close>

record crypto =
  B64 :: "string \<Rightarrow> string option"
  Header :: "string \<Rightarrow> (string \<times> string \<times> string list option) option"
  ParseJson :: "string \<Rightarrow> json option"
  FoldEq :: "string \<Rightarrow> string \<Rightarrow> bool"
  OnCurve :: "curve \<Rightarrow> string \<Rightarrow> string \<Rightarrow> bool"
  Digest :: "hash_alg \<Rightarrow> string \<Rightarrow> string"
  RsaVerify :: "nat \<Rightarrow> nat \<Rightarrow> hash_alg \<Rightarrow> string \<Rightarrow> string \<Rightarrow> bool"
  EcVerify :: "curve \<Rightarrow> string \<Rightarrow> string \<Rightarrow> string \<Rightarrow> string \<Rightarrow> string \<Rightarrow> bool"

definition big_bytes :: "string \<Rightarrow> nat" where
  "big_bytes b = foldl (\<lambda>n c. 256 * n + of_char c) 0 b"

definition b64int :: "crypto \<Rightarrow> string \<Rightarrow> nat option" where
  "b64int cr s = (case B64 cr s of None \<Rightarrow> None | Some b \<Rightarrow> if b = [] then None else Some (big_bytes b))"

definition coord_size :: "curve \<Rightarrow> nat" where
  "coord_size c = (case c of P256 \<Rightarrow> 32 | P384 \<Rightarrow> 48)"

definition curve_named :: "string \<Rightarrow> curve option" where
  "curve_named s = (if s = ''P-256'' then Some P256 else if s = ''P-384'' then Some P384 else None)"

text \<open>The loop of \<^verbatim>\<open>fetchKeys\<close>: a key that is too weak, off its curve or a shared secret is no key.\<close>

definition read_key :: "crypto \<Rightarrow> jwk \<Rightarrow> public_key option" where
  "read_key cr j =
     (if jwKty j = ''RSA'' then
        (case (b64int cr (jwN j), b64int cr (jwE j)) of
           (Some n, Some e) \<Rightarrow> if n < 2 ^ 2047 \<or> \<not> e < 2 ^ 63 \<or> e < 3 \<or> e > 2 ^ 31 - 1 then None else Some (RSAKey n e)
         | _ \<Rightarrow> None)
      else if jwKty j = ''EC'' then
        (case (curve_named (jwCrv j), B64 cr (jwX j), B64 cr (jwY j)) of
           (Some c, Some x, Some y) \<Rightarrow>
             if length x \<noteq> coord_size c \<or> length y \<noteq> coord_size c \<or> \<not> OnCurve cr c x y then None else Some (ECKey c x y)
         | _ \<Rightarrow> None)
      else None)"

type_synonym key_set = "(string \<times> signing_key) list"

definition add_key :: "crypto \<Rightarrow> jwk \<Rightarrow> key_set \<Rightarrow> key_set" where
  "add_key cr j ks =
     (if jwUse j \<noteq> [] \<and> jwUse j \<noteq> ''sig'' then ks
      else case read_key cr j of
          None \<Rightarrow> ks
        | Some p \<Rightarrow> AList.update (jwKid j) \<lparr>kyPub = p, kyAlg = jwAlg j\<rparr> ks)"

definition fetchKeys :: "crypto \<Rightarrow> jwk list \<Rightarrow> key_set" where
  "fetchKeys cr js = fold (add_key cr) js []"

definition fits :: "signing_key \<Rightarrow> string \<Rightarrow> bool" where
  "fits k alg \<longleftrightarrow> (kyAlg k = [] \<or> kyAlg k = alg) \<and>
     (case kyPub k of
        RSAKey n e \<Rightarrow> has_prefix alg ''RS''
      | ECKey c x y \<Rightarrow> alg = ''ES256'' \<and> c = P256 \<or> alg = ''ES384'' \<and> c = P384)"

section \<open>The issuer\<close>

record metadata =
  mdIssuer :: string
  mdAuthorize :: string
  mdToken :: string
  mdJWKS :: string
  mdPKCE :: "string list"
  mdAuthMethods :: "string list"

record endpoint_url =
  urScheme :: string
  urHost :: string
  urHostname :: string
  urUser :: bool

record issuer_config =
  icIssuer :: string
  icClientID :: string
  icUrl :: "string \<Rightarrow> endpoint_url option"
  icLoopback :: "string \<Rightarrow> bool"

record provider =
  pvMeta :: "metadata option"
  pvDiscErr :: "token_error option"
  pvDiscAt :: int
  pvKeys :: key_set
  pvFetched :: "int option"

definition new_provider :: provider where
  "new_provider = \<lparr>pvMeta = None, pvDiscErr = None, pvDiscAt = 0, pvKeys = [], pvFetched = None\<rparr>"

definition loopbackHTTP :: "issuer_config \<Rightarrow> endpoint_url \<Rightarrow> bool" where
  "loopbackHTTP ic u \<longleftrightarrow> urScheme u = ''http'' \<and> (urHostname u = ''localhost'' \<or> icLoopback ic (urHostname u))"

definition endpoint_ok :: "issuer_config \<Rightarrow> string \<Rightarrow> bool" where
  "endpoint_ok ic raw \<longleftrightarrow>
     (case icUrl ic raw of
        None \<Rightarrow> False
      | Some u \<Rightarrow> urHost u \<noteq> [] \<and> \<not> urUser u \<and>
          (urScheme u = ''https'' \<or> (case icUrl ic (icIssuer ic) of None \<Rightarrow> False | Some i \<Rightarrow> loopbackHTTP ic i) \<and> loopbackHTTP ic u))"

text \<open>\<^verbatim>\<open>fetchMeta\<close>, given what the issuer answered.\<close>

definition fetchMeta :: "issuer_config \<Rightarrow> (token_error, metadata) result \<Rightarrow> (token_error, metadata) result" where
  "fetchMeta ic ans =
     (case ans of
        Inl e \<Rightarrow> Inl e
      | Inr m \<Rightarrow>
          if mdIssuer m \<noteq> icIssuer ic then Inl (IssuerFault ''the discovery document's issuer is not BIGLAW_OIDC_ISSUER exactly'')
          else if \<not> list_all (endpoint_ok ic) [mdAuthorize m, mdToken m, mdJWKS m]
          then Inl (IssuerFault ''the issuer's discovery document names an endpoint that is not an https URL'')
          else if mdPKCE m \<noteq> [] \<and> ''S256'' \<notin> set (mdPKCE m)
          then Inl (IssuerFault ''the issuer does not support PKCE with S256, which BigLaw requires'')
          else Inr m)"

definition discover :: "issuer_config \<Rightarrow> (token_error, metadata) result \<Rightarrow> int \<Rightarrow> provider \<Rightarrow> (token_error, metadata) result \<times> provider" where
  "discover ic ans now p =
     (let asked = (case fetchMeta ic ans of
            Inl e \<Rightarrow> (Inl e, p\<lparr>pvDiscErr := Some e, pvDiscAt := now\<rparr>)
          | Inr m \<Rightarrow> (Inr m, p\<lparr>pvMeta := Some m, pvDiscErr := None\<rparr>)) in
      case pvMeta p of
        Some m \<Rightarrow> (Inr m, p)
      | None \<Rightarrow>
          (case pvDiscErr p of
             Some e \<Rightarrow> if now - pvDiscAt p < failBackoff then (Inl e, p) else asked
           | None \<Rightarrow> asked))"

definition find_key :: "string \<Rightarrow> string \<Rightarrow> key_set \<Rightarrow> signing_key option" where
  "find_key kid alg ks =
     (if kid \<noteq> [] then (case map_of ks kid of Some k \<Rightarrow> if fits k alg then Some k else None | None \<Rightarrow> None)
      else (case filter (\<lambda>(i, k). fits k alg) ks of [(i, k)] \<Rightarrow> Some k | _ \<Rightarrow> None))"

definition no_key :: token_error where
  "no_key = TokenRefused ''no signing key of the issuer matches the token's key id''"

text \<open>\<^verbatim>\<open>keyFor\<close>; the issuer is asked for its keys (\<open>ans\<close>) at most once a \<^const>\<open>refetchEvery\<close>, a failed fetch included.\<close>

definition keyFor ::
    "crypto \<Rightarrow> (token_error, jwk list) result \<Rightarrow> int \<Rightarrow> string \<Rightarrow> string \<Rightarrow> provider \<Rightarrow> (token_error, signing_key) result \<times> provider" where
  "keyFor cr ans now kid alg p =
     (case find_key kid alg (pvKeys p) of
        Some k \<Rightarrow> (Inr k, p)
      | None \<Rightarrow>
          if (case pvFetched p of None \<Rightarrow> False | Some t \<Rightarrow> now - t < refetchEvery) then (Inl no_key, p)
          else (case ans of
              Inl e \<Rightarrow> (Inl e, p\<lparr>pvFetched := Some now\<rparr>)
            | Inr js \<Rightarrow>
                let ks = fetchKeys cr js; p' = p\<lparr>pvFetched := Some now, pvKeys := ks\<rparr> in
                (case find_key kid alg ks of Some k \<Rightarrow> (Inr k, p') | None \<Rightarrow> (Inl no_key, p'))))"

section \<open>Claims\<close>

record claims =
  clIss :: string
  clSub :: string
  clAzp :: string
  clNonce :: string
  clEmail :: string
  clName :: string
  clPreferred :: string
  clAud :: "string list"
  clExp :: "rat option"
  clIat :: "rat option"
  clNbf :: "rat option"
  clEmailVerified :: bool

definition no_claims :: claims where
  "no_claims = \<lparr>clIss = [], clSub = [], clAzp = [], clNonce = [], clEmail = [], clName = [], clPreferred = [], clAud = [],
     clExp = None, clIat = None, clNbf = None, clEmailVerified = False\<rparr>"

definition claimNames :: "string list" where
  "claimNames = [''iss'', ''sub'', ''aud'', ''azp'', ''exp'', ''iat'', ''nbf'', ''nonce'', ''email'', ''email_verified'', ''name'', ''preferred_username'']"

text \<open>The keys of the object in the order written: none twice, none that is a read claim but for case.\<close>

fun claim_keys :: "(string \<Rightarrow> string \<Rightarrow> bool) \<Rightarrow> string list \<Rightarrow> string list \<Rightarrow> string option" where
  "claim_keys fold_eq seen [] = None"
| "claim_keys fold_eq seen (k # ks) =
     (if k \<in> set seen then Some ''a claim is repeated''
      else case find (\<lambda>n. k \<noteq> n \<and> fold_eq k n) claimNames of
          Some n \<Rightarrow> Some (''a claim's name differs from '' @ n @ '' only by case'')
        | None \<Rightarrow> claim_keys fold_eq (k # seen) ks)"

fun as_str :: "json \<Rightarrow> string option" where
  "as_str (JStr s) = Some s"
| "as_str _ = None"

fun as_num :: "json \<Rightarrow> rat option" where
  "as_num (JNum n) = Some (num_rat n)"
| "as_num _ = None"

text \<open>\<^verbatim>\<open>json.Unmarshal\<close> into a list of strings leaves an element that is null empty.\<close>

fun as_strs :: "json \<Rightarrow> string list option" where
  "as_strs (JStr s) = Some [s]"
| "as_strs (JArr xs) =
     (if list_all (\<lambda>x. x = JNull \<or> as_str x \<noteq> None) xs then Some (map (\<lambda>x. case as_str x of Some s \<Rightarrow> s | None \<Rightarrow> []) xs) else None)"
| "as_strs _ = None"

text \<open>Where the read claims go, as the maps \<^verbatim>\<open>str\<close> and \<^verbatim>\<open>num\<close>.\<close>

definition str_claims :: "(string \<times> (string \<Rightarrow> claims \<Rightarrow> claims)) list" where
  "str_claims = [(''iss'', \<lambda>s c. c\<lparr>clIss := s\<rparr>), (''sub'', \<lambda>s c. c\<lparr>clSub := s\<rparr>), (''azp'', \<lambda>s c. c\<lparr>clAzp := s\<rparr>),
     (''nonce'', \<lambda>s c. c\<lparr>clNonce := s\<rparr>), (''email'', \<lambda>s c. c\<lparr>clEmail := s\<rparr>), (''name'', \<lambda>s c. c\<lparr>clName := s\<rparr>),
     (''preferred_username'', \<lambda>s c. c\<lparr>clPreferred := s\<rparr>)]"

definition num_claims :: "(string \<times> (rat \<Rightarrow> claims \<Rightarrow> claims)) list" where
  "num_claims = [(''exp'', \<lambda>n c. c\<lparr>clExp := Some n\<rparr>), (''iat'', \<lambda>n c. c\<lparr>clIat := Some n\<rparr>), (''nbf'', \<lambda>n c. c\<lparr>clNbf := Some n\<rparr>)]"

text \<open>One key of the map: read when it is a read claim, refused when null or of another type.\<close>

definition set_claim :: "string \<Rightarrow> json \<Rightarrow> claims \<Rightarrow> claims option" where
  "set_claim k v c =
     (if v = JNull \<and> k \<noteq> ''email_verified'' then None
      else case map_of str_claims k of
          Some f \<Rightarrow> map_option (\<lambda>s. f s c) (as_str v)
        | None \<Rightarrow>
            (case map_of num_claims k of
               Some f \<Rightarrow> map_option (\<lambda>n. f n c) (as_num v)
             | None \<Rightarrow>
                 if k = ''aud'' then map_option (\<lambda>l. c\<lparr>clAud := l\<rparr>) (as_strs v)
                 else if k = ''email_verified'' then Some (c\<lparr>clEmailVerified := (v = JBool True)\<rparr>)
                 else Some c))"

fun set_claims :: "(string \<times> json) list \<Rightarrow> claims \<Rightarrow> (string, claims) result" where
  "set_claims [] c = Inr c"
| "set_claims ((k, v) # kvs) c =
     (case set_claim k v c of
        None \<Rightarrow> Inl (''the '' @ k @ '' claim has the wrong type'')
      | Some c' \<Rightarrow> set_claims kvs c')"

definition decodeClaims :: "crypto \<Rightarrow> string \<Rightarrow> (string, claims) result" where
  "decodeClaims cr b =
     (case ParseJson cr b of
        Some (JObj kvs) \<Rightarrow>
          (case claim_keys (FoldEq cr) [] (map fst kvs) of
             Some e \<Rightarrow> Inl e
           | None \<Rightarrow> set_claims kvs no_claims)
      | _ \<Rightarrow> Inl ''the claims are not a JSON object'')"

section \<open>The check of a token\<close>

definition signature_ok :: "crypto \<Rightarrow> signing_key \<Rightarrow> hash_alg \<Rightarrow> string \<Rightarrow> string \<Rightarrow> bool" where
  "signature_ok cr k h data sig =
     (case kyPub k of
        RSAKey n e \<Rightarrow> RsaVerify cr n e h (Digest cr h data) sig
      | ECKey c x y \<Rightarrow>
          length sig = 2 * coord_size c \<and> EcVerify cr c x y (Digest cr h data) (take (coord_size c) sig) (drop (coord_size c) sig))"

text \<open>The first of the claims' faults, in the order of the switch.\<close>

definition claims_fault :: "issuer_config \<Rightarrow> metadata \<Rightarrow> int \<Rightarrow> string \<Rightarrow> claims \<Rightarrow> string option" where
  "claims_fault ic m now nonce c =
     (if clIss c \<noteq> mdIssuer m then Some ''its issuer is not BIGLAW_OIDC_ISSUER''
      else if icClientID ic \<notin> set (clAud c) then Some ''its audience is not BIGLAW_OIDC_CLIENT_ID''
      else if clAzp c \<noteq> [] \<and> clAzp c \<noteq> icClientID ic \<or> length (clAud c) > 1 \<and> clAzp c = []
      then Some ''it was issued to another client (azp)''
      else if (case clExp c of None \<Rightarrow> True | Some e \<Rightarrow> now > unix e + clockSkew) then Some ''it has expired''
      else if (case clIat c of None \<Rightarrow> True | Some i \<Rightarrow> unix i > now + clockSkew) then Some ''it is issued in the future''
      else if (case clNbf c of None \<Rightarrow> False | Some b \<Rightarrow> unix b > now + clockSkew) then Some ''it is not valid yet (nbf)''
      else if nonce = [] \<or> clNonce c \<noteq> nonce then Some ''its nonce is not this sign-in's''
      else if clSub c = [] \<or> length (clSub c) > 255 then Some ''it has no subject''
      else None)"

definition verify_body ::
    "crypto \<Rightarrow> issuer_config \<Rightarrow> metadata \<Rightarrow> int \<Rightarrow> string \<Rightarrow> signing_key \<Rightarrow> hash_alg \<Rightarrow> string \<Rightarrow> string \<Rightarrow> string \<Rightarrow> (token_error, claims) result" where
  "verify_body cr ic m now nonce k h head body sig =
     (if \<not> signature_ok cr k h (head @ ''.'' @ body) sig
      then Inl (TokenRefused ''the signature does not verify with the issuer's key'')
      else case B64 cr body of
          None \<Rightarrow> Inl (TokenRefused ''the claims are not base64url JSON'')
        | Some pb \<Rightarrow>
            (case decodeClaims cr pb of
               Inl e \<Rightarrow> Inl (TokenRefused e)
             | Inr c \<Rightarrow> (case claims_fault ic m now nonce c of Some e \<Rightarrow> Inl (TokenRefused e) | None \<Rightarrow> Inr c)))"

definition verify ::
    "crypto \<Rightarrow> issuer_config \<Rightarrow> (token_error, jwk list) result \<Rightarrow> metadata \<Rightarrow> int \<Rightarrow> string \<Rightarrow> string \<Rightarrow> provider
     \<Rightarrow> (token_error, claims) result \<times> provider" where
  "verify cr ic ans m now raw nonce p =
     (case split_char CHR ''.'' raw of
        [head, body, tail] \<Rightarrow>
          (case Option.bind (B64 cr head) (Header cr) of
             None \<Rightarrow> (Inl (TokenRefused ''the header is not base64url JSON''), p)
           | Some (alg, kid, crit) \<Rightarrow>
               (case hashes alg of
                  None \<Rightarrow> (Inl (TokenRefused ''its algorithm is not one BigLaw accepts''), p)
                | Some h \<Rightarrow>
                    if crit \<noteq> None then (Inl (TokenRefused ''it names critical header extensions''), p)
                    else case B64 cr tail of
                        None \<Rightarrow> (Inl (TokenRefused ''the signature is not base64url''), p)
                      | Some sig \<Rightarrow>
                          (case keyFor cr ans now kid alg p of
                             (Inl e, p') \<Rightarrow> (Inl e, p')
                           | (Inr k, p') \<Rightarrow> (verify_body cr ic m now nonce k h head body sig, p'))))
      | _ \<Rightarrow> (Inl (TokenRefused ''not a signed JWT''), p))"

text \<open>\<^verbatim>\<open>oauthCode\<close>, and the token endpoint's answer as \<^verbatim>\<open>exchange\<close> reads it.\<close>

definition oauthCode :: "string \<Rightarrow> string" where
  "oauthCode s = (if length s > 64 \<or> \<not> list_all (\<lambda>c. c = CHR ''_'' \<or> CHR ''a'' \<le> c \<and> c \<le> CHR ''z'') s then [] else s)"

datatype token_answer = IdToken string | StatusCode nat string | NoAnswer string

fun exchange :: "token_answer \<Rightarrow> (token_error, string) result" where
  "exchange (IdToken t) = (if t = [] then Inl (TokenRefused ''the token answer has no id_token'') else Inr t)"
| "exchange (StatusCode n e) = Inl (TokenRefused (''the issuer refused the code ('' @ itoa (int n) @ '' '' @ oauthCode e @ '')''))"
| "exchange (NoAnswer e) = Inl (IssuerFault e)"

section \<open>What a checked token shows\<close>

definition strong_key :: "crypto \<Rightarrow> public_key \<Rightarrow> bool" where
  "strong_key cr k = (case k of
     RSAKey n e \<Rightarrow> 2 ^ 2047 \<le> n \<and> 3 \<le> e \<and> e < 2 ^ 31
   | ECKey c x y \<Rightarrow> length x = coord_size c \<and> length y = coord_size c \<and> OnCurve cr c x y)"

definition strong_keys :: "crypto \<Rightarrow> key_set \<Rightarrow> bool" where
  "strong_keys cr ks \<longleftrightarrow> (\<forall>k \<in> snd ` set ks. strong_key cr (kyPub k))"

lemma read_key_strong: "read_key cr j = Some k \<Longrightarrow> strong_key cr k"
  by (auto simp: read_key_def strong_key_def split: if_splits option.splits)

lemma fetchKeys_strong: "strong_keys cr (fetchKeys cr js)"
proof -
  have "strong_keys cr ks \<Longrightarrow> strong_keys cr (fold (add_key cr) js ks)" for ks
  proof (induction js arbitrary: ks)
    case (Cons j js)
    have "strong_keys cr (add_key cr j ks)"
    proof (cases "read_key cr j")
      case (Some k)
      have "snd ` set (AList.update (jwKid j) x ks) \<subseteq> insert x (snd ` set ks)" for x
        by (induction ks) auto
      then show ?thesis using Some Cons.prems read_key_strong [OF Some] by (fastforce simp: strong_keys_def add_key_def)
    qed (use Cons.prems in \<open>auto simp: add_key_def\<close>)
    then show ?case using Cons.IH by simp
  qed simp
  from this [of "[]"] show ?thesis by (simp add: fetchKeys_def strong_keys_def)
qed

lemma find_key_some: "find_key kid alg ks = Some k \<Longrightarrow> k \<in> snd ` set ks \<and> fits k alg"
proof (cases "kid = []")
  case True
  assume "find_key kid alg ks = Some k"
  then obtain i where "filter (\<lambda>(i, k). fits k alg) ks = [(i, k)]"
    using True by (auto simp: find_key_def split: list.splits)
  then have "(i, k) \<in> set (filter (\<lambda>(i, k). fits k alg) ks)" by simp
  then show ?thesis by force
next
  case False
  assume k: "find_key kid alg ks = Some k"
  have "map_of ks kid = Some k" "fits k alg" using k False by (auto simp: find_key_def split: option.splits if_splits)
  then show ?thesis by (auto dest!: map_of_SomeD intro: rev_image_eqI)
qed

lemma keyFor_ok:
  assumes "keyFor cr ans now kid alg p = (r, p')" and "strong_keys cr (pvKeys p)"
  shows "strong_keys cr (pvKeys p')" and "r = Inr k \<Longrightarrow> k \<in> snd ` set (pvKeys p') \<and> fits k alg"
  using assms fetchKeys_strong find_key_some
  by (auto simp: keyFor_def Let_def split: option.splits if_splits sum.splits)

lemma claim_keys_none:
  "claim_keys fold_eq seen ks = None \<Longrightarrow> distinct ks \<and> set ks \<inter> set seen = {} \<and> (\<forall>k \<in> set ks. \<forall>n \<in> set claimNames. fold_eq k n \<longrightarrow> k = n)"
proof (induction fold_eq seen ks rule: claim_keys.induct)
  case (2 fold_eq seen k ks)
  have f: "find (\<lambda>n. k \<noteq> n \<and> fold_eq k n) claimNames = None" "k \<notin> set seen"
    using "2.prems" by (auto split: if_splits option.splits)
  then have "claim_keys fold_eq (k # seen) ks = None" using "2.prems" by simp
  then show ?case using "2.IH" [OF f(2,1)] f by (auto simp: find_None_iff)
qed simp

text \<open>A claim read is the value of its one key: another key leaves it alone.\<close>

lemma str_claims_keep:
  assumes "(k, f) \<in> set str_claims"
  shows "k \<noteq> ''iss'' \<Longrightarrow> clIss (f s c) = clIss c" and "k \<noteq> ''sub'' \<Longrightarrow> clSub (f s c) = clSub c"
    and "k \<noteq> ''nonce'' \<Longrightarrow> clNonce (f s c) = clNonce c" and "k \<noteq> ''email'' \<Longrightarrow> clEmail (f s c) = clEmail c"
    and "clEmailVerified (f s c) = clEmailVerified c"
  using assms by (auto simp: str_claims_def)

lemma num_claims_keep:
  assumes "(k, f) \<in> set num_claims"
  shows "clIss (f n c) = clIss c" and "clSub (f n c) = clSub c" and "clNonce (f n c) = clNonce c"
    and "clEmail (f n c) = clEmail c" and "clEmailVerified (f n c) = clEmailVerified c"
  using assms by (auto simp: num_claims_def)

lemma set_claim_keep:
  assumes "set_claim k v c = Some c'"
  shows "k \<noteq> ''iss'' \<Longrightarrow> clIss c' = clIss c" and "k \<noteq> ''sub'' \<Longrightarrow> clSub c' = clSub c"
    and "k \<noteq> ''nonce'' \<Longrightarrow> clNonce c' = clNonce c" and "k \<noteq> ''email'' \<Longrightarrow> clEmail c' = clEmail c"
    and "k \<noteq> ''email_verified'' \<Longrightarrow> clEmailVerified c' = clEmailVerified c"
proof -
  consider (str) f s where "(k, f) \<in> set str_claims" "c' = f s c" | (num) f n where "(k, f) \<in> set num_claims" "c' = f n c"
    | (aud) l where "c' = c\<lparr>clAud := l\<rparr>" | (ver) "k = ''email_verified''" "c' = c\<lparr>clEmailVerified := (v = JBool True)\<rparr>" | (other) "c' = c"
  proof (cases "map_of str_claims k")
    case (Some f)
    moreover obtain s where "c' = f s c" using assms Some by (auto simp: set_claim_def split: if_splits)
    ultimately show ?thesis using str map_of_SomeD by fast
  next
    case no_str: None
    show ?thesis
    proof (cases "map_of num_claims k")
      case (Some f)
      moreover obtain n where "c' = f n c" using assms no_str Some by (auto simp: set_claim_def split: if_splits)
      ultimately show ?thesis using num map_of_SomeD by fast
    next
      case None
      then show ?thesis using assms no_str aud ver other by (auto simp: set_claim_def split: if_splits)
    qed
  qed
  note cs = this
  show "k \<noteq> ''iss'' \<Longrightarrow> clIss c' = clIss c" by (rule cs) (simp_all add: str_claims_keep num_claims_keep)
  show "k \<noteq> ''sub'' \<Longrightarrow> clSub c' = clSub c" by (rule cs) (simp_all add: str_claims_keep num_claims_keep)
  show "k \<noteq> ''nonce'' \<Longrightarrow> clNonce c' = clNonce c" by (rule cs) (simp_all add: str_claims_keep num_claims_keep)
  show "k \<noteq> ''email'' \<Longrightarrow> clEmail c' = clEmail c" by (rule cs) (simp_all add: str_claims_keep num_claims_keep)
  show "k \<noteq> ''email_verified'' \<Longrightarrow> clEmailVerified c' = clEmailVerified c" by (rule cs) (simp_all add: str_claims_keep num_claims_keep)
qed

lemma as_str_some: "as_str v = Some t \<longleftrightarrow> v = JStr t"
  by (cases v) auto

lemma set_claim_reads:
  "set_claim ''iss'' v c = Some c' \<Longrightarrow> v = JStr (clIss c')" "set_claim ''sub'' v c = Some c' \<Longrightarrow> v = JStr (clSub c')"
  "set_claim ''nonce'' v c = Some c' \<Longrightarrow> v = JStr (clNonce c')" "set_claim ''email'' v c = Some c' \<Longrightarrow> v = JStr (clEmail c')"
  "set_claim ''email_verified'' v c = Some c' \<Longrightarrow> clEmailVerified c' = (v = JBool True)"
  "set_claim k JNull c = Some c' \<Longrightarrow> k = ''email_verified''"
proof -
  have at: "map_of str_claims ''iss'' = Some (\<lambda>s c. c\<lparr>clIss := s\<rparr>)" "map_of str_claims ''sub'' = Some (\<lambda>s c. c\<lparr>clSub := s\<rparr>)"
    "map_of str_claims ''nonce'' = Some (\<lambda>s c. c\<lparr>clNonce := s\<rparr>)" "map_of str_claims ''email'' = Some (\<lambda>s c. c\<lparr>clEmail := s\<rparr>)"
    "map_of str_claims ''email_verified'' = None" "map_of num_claims ''email_verified'' = None"
    by (simp_all add: str_claims_def num_claims_def)
  show "set_claim ''iss'' v c = Some c' \<Longrightarrow> v = JStr (clIss c')" by (cases "v = JNull") (auto simp: set_claim_def at as_str_some)
  show "set_claim ''sub'' v c = Some c' \<Longrightarrow> v = JStr (clSub c')" by (cases "v = JNull") (auto simp: set_claim_def at as_str_some)
  show "set_claim ''nonce'' v c = Some c' \<Longrightarrow> v = JStr (clNonce c')" by (cases "v = JNull") (auto simp: set_claim_def at as_str_some)
  show "set_claim ''email'' v c = Some c' \<Longrightarrow> v = JStr (clEmail c')" by (cases "v = JNull") (auto simp: set_claim_def at as_str_some)
  show "set_claim ''email_verified'' v c = Some c' \<Longrightarrow> clEmailVerified c' = (v = JBool True)" by (auto simp: set_claim_def at)
  show "set_claim k JNull c = Some c' \<Longrightarrow> k = ''email_verified''" by (cases "k = ''email_verified''") (simp_all add: set_claim_def)
qed

text \<open>The claim a key names, once the loop is over.\<close>

lemma set_claims_keep: "set_claims kvs c = Inr c' \<Longrightarrow>
   (''iss'' \<notin> fst ` set kvs \<longrightarrow> clIss c' = clIss c) \<and> (''sub'' \<notin> fst ` set kvs \<longrightarrow> clSub c' = clSub c)
   \<and> (''nonce'' \<notin> fst ` set kvs \<longrightarrow> clNonce c' = clNonce c) \<and> (''email'' \<notin> fst ` set kvs \<longrightarrow> clEmail c' = clEmail c)
   \<and> (''email_verified'' \<notin> fst ` set kvs \<longrightarrow> clEmailVerified c' = clEmailVerified c)"
proof (induction kvs arbitrary: c)
  case (Cons x kvs)
  obtain k v c1 where x: "x = (k, v)" "set_claim k v c = Some c1" "set_claims kvs c1 = Inr c'"
    using Cons.prems(1) by (cases x) (auto split: option.splits)
  then show ?case using Cons.IH [OF x(3)] set_claim_keep [OF x(2)] by auto
qed simp

lemma set_claims_split:
  assumes "set_claims kvs c = Inr c'" and "distinct (map fst kvs)" and "map_of kvs k = Some v"
  shows "\<exists>c1 c2 rest. set_claim k v c1 = Some c2 \<and> set_claims rest c2 = Inr c' \<and> k \<notin> fst ` set rest"
  using assms
proof (induction kvs arbitrary: c)
  case (Cons x kvs)
  obtain k0 v0 c1 where x: "x = (k0, v0)" "set_claim k0 v0 c = Some c1" "set_claims kvs c1 = Inr c'"
    using Cons.prems(1) by (cases x) (auto split: option.splits)
  show ?case
  proof (cases "k0 = k")
    case True
    then show ?thesis using x Cons.prems(2,3) by (intro exI [of _ c] exI [of _ c1] exI [of _ kvs]) auto
  next
    case False
    then show ?thesis using Cons.IH [OF x(3)] Cons.prems(2,3) x(1) by simp
  qed
qed simp

lemma set_claims_read:
  assumes "set_claims kvs c = Inr c'" and "distinct (map fst kvs)"
  shows "map_of kvs ''iss'' = Some v \<Longrightarrow> v = JStr (clIss c')" and "map_of kvs ''sub'' = Some v \<Longrightarrow> v = JStr (clSub c')"
    and "map_of kvs ''nonce'' = Some v \<Longrightarrow> v = JStr (clNonce c')" and "map_of kvs ''email'' = Some v \<Longrightarrow> v = JStr (clEmail c')"
    and "map_of kvs ''email_verified'' = Some v \<Longrightarrow> clEmailVerified c' = (v = JBool True)"
    and "map_of kvs k = Some JNull \<Longrightarrow> k = ''email_verified''"
proof -
  note at = set_claims_split [OF assms]
  show "map_of kvs ''iss'' = Some v \<Longrightarrow> v = JStr (clIss c')" using at set_claim_reads(1) set_claims_keep by metis
  show "map_of kvs ''sub'' = Some v \<Longrightarrow> v = JStr (clSub c')" using at set_claim_reads(2) set_claims_keep by metis
  show "map_of kvs ''nonce'' = Some v \<Longrightarrow> v = JStr (clNonce c')" using at set_claim_reads(3) set_claims_keep by metis
  show "map_of kvs ''email'' = Some v \<Longrightarrow> v = JStr (clEmail c')" using at set_claim_reads(4) set_claims_keep by metis
  show "map_of kvs ''email_verified'' = Some v \<Longrightarrow> clEmailVerified c' = (v = JBool True)" using at set_claim_reads(5) set_claims_keep by metis
  show "map_of kvs k = Some JNull \<Longrightarrow> k = ''email_verified''" using at set_claim_reads(6) by metis
qed

definition in_time :: "int \<Rightarrow> claims \<Rightarrow> bool" where
  "in_time now c \<longleftrightarrow> (\<exists>e i. clExp c = Some e \<and> now \<le> unix e + clockSkew \<and> clIat c = Some i \<and> unix i \<le> now + clockSkew)
     \<and> (\<forall>b. clNbf c = Some b \<longrightarrow> unix b \<le> now + clockSkew)"

text \<open>A payload that names \<open>c\<close>'s claims once each.\<close>

definition payload_of :: "crypto \<Rightarrow> string \<Rightarrow> claims \<Rightarrow> bool" where
  "payload_of cr body c \<longleftrightarrow> (\<exists>pb kvs. B64 cr body = Some pb \<and> ParseJson cr pb = Some (JObj kvs) \<and> distinct (map fst kvs)
     \<and> (\<forall>k \<in> fst ` set kvs. \<forall>n \<in> set claimNames. FoldEq cr k n \<longrightarrow> k = n)
     \<and> map_of kvs ''iss'' = Some (JStr (clIss c)) \<and> map_of kvs ''sub'' = Some (JStr (clSub c))
     \<and> map_of kvs ''nonce'' = Some (JStr (clNonce c))
     \<and> (clEmailVerified c \<longrightarrow> map_of kvs ''email_verified'' = Some (JBool True))
     \<and> (clEmail c \<noteq> [] \<longrightarrow> map_of kvs ''email'' = Some (JStr (clEmail c))))"

lemma decodeClaims_payload:
  assumes "B64 cr body = Some pb" and "decodeClaims cr pb = Inr c" and "clIss c \<noteq> []" and "clSub c \<noteq> []" and "clNonce c \<noteq> []"
  shows "payload_of cr body c"
proof -
  obtain kvs where kvs: "ParseJson cr pb = Some (JObj kvs)" "claim_keys (FoldEq cr) [] (map fst kvs) = None" "set_claims kvs no_claims = Inr c"
    using assms(2) by (auto simp: decodeClaims_def split: option.splits json.splits)
  note keys = claim_keys_none [OF kvs(2)]
  have none: "map_of kvs k = None \<Longrightarrow> k \<notin> fst ` set kvs" for k by (simp add: map_of_eq_None_iff)
  note other = set_claims_keep [OF kvs(3)] and got = set_claims_read [OF kvs(3) conjunct1 [OF keys]]
  have iss: "map_of kvs ''iss'' = Some (JStr (clIss c))"
    using got(1) none [of "''iss''"] other assms(3-5) by (cases "map_of kvs ''iss''") (auto simp: no_claims_def)
  have sub: "map_of kvs ''sub'' = Some (JStr (clSub c))"
    using got(2) none [of "''sub''"] other assms(3-5) by (cases "map_of kvs ''sub''") (auto simp: no_claims_def)
  have nonce: "map_of kvs ''nonce'' = Some (JStr (clNonce c))"
    using got(3) none [of "''nonce''"] other assms(3-5) by (cases "map_of kvs ''nonce''") (auto simp: no_claims_def)
  have email: "clEmail c \<noteq> [] \<longrightarrow> map_of kvs ''email'' = Some (JStr (clEmail c))"
    using got(4) none [of "''email''"] other assms(3-5) by (cases "map_of kvs ''email''") (auto simp: no_claims_def)
  have email_verified: "clEmailVerified c \<longrightarrow> map_of kvs ''email_verified'' = Some (JBool True)"
    using got(5) none [of "''email_verified''"] other assms(3-5) by (cases "map_of kvs ''email_verified''") (auto simp: no_claims_def)
  show ?thesis unfolding payload_of_def
    using assms(1) kvs(1) keys iss sub nonce email email_verified by (intro exI [of _ pb] exI [of _ kvs]) auto
qed

lemma claims_fault_none:
  assumes "claims_fault ic m now nonce c = None"
  shows "clIss c = mdIssuer m" and "icClientID ic \<in> set (clAud c)" and "clAzp c = [] \<or> clAzp c = icClientID ic"
    and "length (clAud c) > 1 \<Longrightarrow> clAzp c = icClientID ic" and "in_time now c" and "clNonce c = nonce" and "nonce \<noteq> []"
    and "clSub c \<noteq> []" and "length (clSub c) \<le> 255"
  using assms by (auto simp: claims_fault_def in_time_def split: if_splits option.splits)


section \<open>Asking for keys\<close>

definition asks :: "int \<Rightarrow> string \<Rightarrow> string \<Rightarrow> provider \<Rightarrow> bool" where
  "asks now kid alg p \<longleftrightarrow> find_key kid alg (pvKeys p) = None \<and> (case pvFetched p of None \<Rightarrow> True | Some t \<Rightarrow> refetchEvery \<le> now - t)"

lemma keyFor_fetched:
  "pvFetched (snd (keyFor cr ans now kid alg p)) = (if asks now kid alg p then Some now else pvFetched p)"
  by (auto simp: keyFor_def asks_def Let_def not_less split: option.splits sum.splits)

text \<open>The times a run of calls of \<^const>\<open>keyFor\<close> asks the issuer.\<close>

fun fetch_times :: "crypto \<Rightarrow> (int \<times> string \<times> string \<times> (token_error, jwk list) result) list \<Rightarrow> provider \<Rightarrow> int list" where
  "fetch_times cr [] p = []"
| "fetch_times cr ((now, kid, alg, ans) # calls) p =
     (if asks now kid alg p then [now] else []) @ fetch_times cr calls (snd (keyFor cr ans now kid alg p))"

lemma fetch_times_after:
  "sorted_wrt (\<lambda>a b. a + refetchEvery \<le> b) (case pvFetched p of None \<Rightarrow> fetch_times cr calls p | Some t \<Rightarrow> t # fetch_times cr calls p)"
proof (induction calls arbitrary: p)
  case (Cons call calls)
  obtain now kid alg ans where call: "call = (now, kid, alg, ans)" by (cases call)
  let ?p = "snd (keyFor cr ans now kid alg p)"
  show ?case
  proof (cases "asks now kid alg p")
    case True
    then have "sorted_wrt (\<lambda>a b. a + refetchEvery \<le> b) (now # fetch_times cr calls ?p)" using Cons.IH [of ?p] by (simp add: keyFor_fetched)
    moreover have "t + refetchEvery \<le> now" if "pvFetched p = Some t" for t using True that by (auto simp: asks_def)
    ultimately show ?thesis using True
      by (auto simp: call refetchEvery_def seconds_def split: option.split dest: order_trans)
  next
    case False
    then show ?thesis using Cons.IH [of ?p] by (simp add: call keyFor_fetched split: option.splits)
  qed
qed (simp split: option.split)


text \<open>A token is refused for a claim BigLaw never reads when the issuer wrote it as null, although only a read claim
  of the wrong type should refuse it.\<close>

theorem unread_null_refused:
  assumes "ParseJson cr b = Some (JObj kvs)" and "(k, JNull) \<in> set kvs" and "k \<notin> set claimNames"
  shows "\<exists>e. decodeClaims cr b = Inl e"
proof (cases "decodeClaims cr b")
  case (Inr c)
  then have c: "claim_keys (FoldEq cr) [] (map fst kvs) = None" "set_claims kvs no_claims = Inr c"
    using assms(1) by (auto simp: decodeClaims_def split: option.splits)
  have d: "distinct (map fst kvs)" using claim_keys_none [OF c(1)] by blast
  then have "map_of kvs k = Some JNull" using assms(2) by simp
  then have "k = ''email_verified''" by (rule set_claims_read(6) [OF c(2) d])
  then show ?thesis using assms(3) by (simp add: claimNames_def)
qed simp

text \<open>A cryptography of one key, in which every signature is good, and a token of the form a.b.c.\<close>

definition demo_payload :: "(string \<times> json) list" where
  "demo_payload = [(''iss'', JStr ''i''), (''sub'', JStr ''u''), (''nonce'', JStr ''n''), (''aud'', JStr ''me''),
     (''exp'', JNum ''100''), (''iat'', JNum ''10'')]"

definition demo_crypto :: crypto where
  "demo_crypto = \<lparr>B64 = Some, Header = (\<lambda>s. Some (''ES256'', ''k'', None)),
     ParseJson = (\<lambda>s. if s = ''b'' then Some (JObj demo_payload) else if s = ''z'' then Some (JObj [(''picture'', JNull)]) else None),
     FoldEq = (=), OnCurve = (\<lambda>c x y. True), Digest = (\<lambda>h s. s), RsaVerify = (\<lambda>n e h d s. True),
     EcVerify = (\<lambda>c x y d r s. True)\<rparr>"

definition demo_provider :: provider where
  "demo_provider = new_provider\<lparr>pvKeys :=
     [(''k'', \<lparr>kyPub = ECKey P256 (replicate 32 CHR ''x'') (replicate 32 CHR ''y''), kyAlg = ''ES256''\<rparr>)]\<rparr>"

definition demo_issuer :: issuer_config where
  "demo_issuer = \<lparr>icIssuer = ''i'', icClientID = ''me'', icUrl = (\<lambda>s. None), icLoopback = (\<lambda>s. False)\<rparr>"

definition demo_meta :: metadata where
  "demo_meta = \<lparr>mdIssuer = ''i'', mdAuthorize = [], mdToken = [], mdJWKS = [], mdPKCE = [], mdAuthMethods = []\<rparr>"

definition demo_token :: string where
  "demo_token = ''a.b.'' @ replicate 64 CHR ''s''"

lemma demo_verified:
  "map_sum id clSub (fst (verify demo_crypto demo_issuer (Inr []) demo_meta (seconds 50) demo_token ''n'' demo_provider)) = Inr ''u''"
  by code_simp


lemma unread_null_refused_witness: "\<exists>e. decodeClaims demo_crypto ''z'' = Inl e"
  using unread_null_refused [of demo_crypto "''z''" "[(''picture'', JNull)]" "''picture''"]
  by (simp add: demo_crypto_def claimNames_def)

end
