(* ===== verification/SignIn.thy ===== *)
theory SignIn
  imports Token
begin

text \<open>
  \<^verbatim>\<open>internal/auth/session.go\<close>: sign-in and the sessions behind the cookie.  The table of sessions is a list of
  rows, a statement either does what it says or fails, a request reads the clock once; random strings, the hash of a session id, the sealed
  cookie's decoding, the issuer's answers and Postgres' \<^verbatim>\<open>lower\<close> are parameters.  Headers, cookies' attributes and
  the page a failed sign-in shows are not modelled.
\<close>

section \<open>Names and addresses\<close>

definition plainEmail :: "string \<Rightarrow> bool" where
  "plainEmail e \<longleftrightarrow> 3 \<le> length e \<and> length e \<le> 320 \<and> CHR ''@'' \<in> set e \<and> list_all (\<lambda>c. 32 < byte_val c \<and> byte_val c < 127) e"

definition asciiLower :: "string \<Rightarrow> string" where
  "asciiLower s = map lower_byte s"

definition admin_entry :: "string \<Rightarrow> string \<Rightarrow> bool \<Rightarrow> string \<Rightarrow> bool" where
  "admin_entry sub email verified a \<longleftrightarrow>
     (if CHR ''@'' \<in> set a then verified \<and> plainEmail email \<and> plainEmail a \<and> asciiLower a = asciiLower email else a = sub)"

definition IsAdmin :: "string list \<Rightarrow> string \<Rightarrow> string \<Rightarrow> bool \<Rightarrow> bool" where
  "IsAdmin admins sub email verified \<longleftrightarrow> list_ex (admin_entry sub email verified) admins"

text \<open>\<^verbatim>\<open>unicode.IsControl\<close>.\<close>

definition control_rune :: "rune \<Rightarrow> bool" where
  "control_rune r \<longleftrightarrow> r < 32 \<or> 127 \<le> r \<and> r < 160"

text \<open>\<^verbatim>\<open>strings.Map\<close> with a function that drops runes; the last runes are cut while the text is too long.\<close>

definition drop_runes :: "(rune \<Rightarrow> bool) \<Rightarrow> string \<Rightarrow> string" where
  "drop_runes p s = concat (map (\<lambda>(r, w). if p r then [] else encode_rune r) (runes_of s))"

function cut_to :: "nat \<Rightarrow> string \<Rightarrow> string" where
  "cut_to n s = (if length s > n then cut_to n (take (length s - snd (decode_last_rune s)) s) else s)"
  by pat_completeness auto
termination
proof (relation "measure (\<lambda>(n, s). length s)", goal_cases)
  case (2 n s)
  then have "s \<noteq> []" by auto
  then show ?case using decode_last_rune_width(1) [of s] by auto
qed simp

declare cut_to.simps [simp del]

definition clean :: "string \<Rightarrow> string" where
  "clean s = cut_to 200 (drop_runes (\<lambda>r. control_rune r \<or> is_format_rune r) (trim_space s))"

definition atShaped :: "string \<Rightarrow> bool" where
  "atShaped s \<longleftrightarrow> list_ex (\<lambda>(r, w). r = 64 \<or> r = 65312 \<or> r = 65131) (runes_of s) \<or> contains_str s ''%40''"

definition local_part :: "string \<Rightarrow> string" where
  "local_part s = takeWhile (\<lambda>c. c \<noteq> CHR ''@'') s"

definition safeName :: "string \<Rightarrow> string \<Rightarrow> string \<Rightarrow> string" where
  "safeName name preferred email =
     (case find (\<lambda>n. n \<noteq> [] \<and> \<not> atShaped n) [clean name, clean preferred] of
        Some n \<Rightarrow> n | None \<Rightarrow> local_part (clean email))"

definition maxNext :: nat where "maxNext = 512"

text \<open>\<^verbatim>\<open>next\<close>: where a sign-in returns.\<close>

definition next_path :: "string \<Rightarrow> string" where
  "next_path v =
     (if \<not> has_prefix v ''/'' \<or> has_prefix v ''//'' \<or> has_prefix v [CHR ''/'', CHR 0x5C] \<or> length v > maxNext
         \<or> list_ex (\<lambda>(r, w). r < 32 \<or> r = 127 \<or> r = 92) (runes_of v)
      then ''/'' else v)"

section \<open>Sessions\<close>

record session =
  ssHash :: string
  ssSub :: string
  ssEmail :: string
  ssVerified :: bool
  ssName :: string
  ssCreated :: int
  ssSeen :: int
  ssExpires :: int

text \<open>A sign-in in flight, sealed into the login cookie; \<open>pdAt\<close> is in seconds.\<close>

record pending_login =
  pdState :: string
  pdNonce :: string
  pdVerifier :: string
  pdNext :: string
  pdAt :: int

record sign_config =
  scAdmins :: "string list"
  scIdle :: int
  scMaxAge :: int
  scLoginIn :: int
  scHash :: "string \<Rightarrow> string"
  scOpen :: "string \<Rightarrow> pending_login option"
  scLower :: "string \<Rightarrow> string"
  scIssuer :: issuer_config
  scCrypto :: crypto

definition touchEvery :: int where "touchEvery = seconds 60"

definition IdleTimeout :: int where "IdleTimeout = seconds (8 * 3600)"
definition MaxAge :: int where "MaxAge = seconds (7 * 24 * 3600)"
definition loginTTL :: int where "loginTTL = seconds 600"

record user =
  usSub :: string
  usEmail :: string
  usName :: string
  usVerified :: bool
  usAdmin :: bool

record auth_state =
  asSessions :: "session list"
  asSwept :: int
  asProvider :: provider

text \<open>Which statements fail.\<close>

record db_fault =
  dfQuery :: bool
  dfDelete :: bool
  dfTouch :: bool
  dfInsert :: bool
  dfCommit :: bool

definition no_fault :: db_fault where
  "no_fault = \<lparr>dfQuery = False, dfDelete = False, dfTouch = False, dfInsert = False, dfCommit = False\<rparr>"

definition delete_session :: "string \<Rightarrow> session list \<Rightarrow> session list" where
  "delete_session h ss = filter (\<lambda>s. ssHash s \<noteq> h) ss"

definition touch_session :: "string \<Rightarrow> int \<Rightarrow> session list \<Rightarrow> session list" where
  "touch_session h now ss = map (\<lambda>s. if ssHash s = h then s\<lparr>ssSeen := now\<rparr> else s) ss"

definition user_of :: "sign_config \<Rightarrow> session \<Rightarrow> user" where
  "user_of sc s =
     (let admin = IsAdmin (scAdmins sc) (ssSub s) (ssEmail s) (ssVerified s); n = safeName (ssName s) [] (ssEmail s) in
      \<lparr>usSub = ssSub s, usEmail = ssEmail s, usName = (if n = [] then (if admin then ''Admin'' else ''Member'') else n),
       usVerified = ssVerified s, usAdmin = admin\<rparr>)"

text \<open>\<^verbatim>\<open>lookup\<close>: an error is the database's.\<close>

definition lookup ::
    "sign_config \<Rightarrow> db_fault \<Rightarrow> int \<Rightarrow> string option \<Rightarrow> bool \<Rightarrow> session list \<Rightarrow> (string, user option) result \<times> session list" where
  "lookup sc f now cookie touch ss =
     (case cookie of
        None \<Rightarrow> (Inr None, ss)
      | Some c \<Rightarrow>
          if length c \<noteq> 43 then (Inr None, ss)
          else if dfQuery f then (Inl ''session lookup'', ss)
          else case find (\<lambda>s. ssHash s = scHash sc c) ss of
              None \<Rightarrow> (Inr None, ss)
            | Some s \<Rightarrow>
                if now \<ge> ssExpires s \<or> now - ssSeen s \<ge> scIdle sc
                then (if dfDelete f then (Inl ''session delete'', ss) else (Inr None, delete_session (scHash sc c) ss))
                else if touch \<and> now - ssSeen s \<ge> touchEvery
                then (if dfTouch f then (Inl ''session touch'', ss)
                      else (Inr (Some (user_of sc s)), touch_session (scHash sc c) now ss))
                else (Inr (Some (user_of sc s)), ss))"

text \<open>\<^verbatim>\<open>sweep\<close> (at most once a minute; its failure is only logged), \<^verbatim>\<open>Revoke\<close> and \<^verbatim>\<open>logout\<close>.\<close>

definition sweep_sessions :: "sign_config \<Rightarrow> db_fault \<Rightarrow> int \<Rightarrow> auth_state \<Rightarrow> auth_state" where
  "sweep_sessions sc f now st =
     (let secs = now div 10 ^ 9 in
      if secs - asSwept st < 60 then st
      else st\<lparr>asSwept := secs,
              asSessions := (if dfDelete f then asSessions st
                else filter (\<lambda>s. \<not> (ssExpires s \<le> now \<or> ssSeen s \<le> now - scIdle sc)) (asSessions st))\<rparr>)"

definition Revoke :: "sign_config \<Rightarrow> db_fault \<Rightarrow> string \<Rightarrow> auth_state \<Rightarrow> (string, nat) result \<times> auth_state" where
  "Revoke sc f who st =
     (let u = trim_space who;
          gone = (\<lambda>s. ssSub s = u \<or> CHR ''@'' \<in> set u \<and> scLower sc (ssEmail s) = scLower sc u) in
      if u = [] then (Inl ''name a user: their sub, or their email'', st)
      else if dfDelete f then (Inl ''revoke'', st)
      else (Inr (length (filter gone (asSessions st))), st\<lparr>asSessions := filter (\<lambda>s. \<not> gone s) (asSessions st)\<rparr>))"

definition logout :: "sign_config \<Rightarrow> db_fault \<Rightarrow> string option \<Rightarrow> auth_state \<Rightarrow> nat \<times> auth_state" where
  "logout sc f cookie st =
     (case cookie of
        None \<Rightarrow> (200, st)
      | Some c \<Rightarrow> if dfDelete f then (503, st) else (200, st\<lparr>asSessions := delete_session (scHash sc c) (asSessions st)\<rparr>))"

section \<open>Signing in\<close>

type_synonym meta_answer = "(token_error, metadata) result"
type_synonym keys_answer = "(token_error, jwk list) result"

text \<open>\<^verbatim>\<open>login\<close>: the sign-in it seals into the cookie, or the status it fails with.\<close>

definition login ::
    "sign_config \<Rightarrow> db_fault \<Rightarrow> int \<Rightarrow> meta_answer \<Rightarrow> string \<times> string \<times> string \<Rightarrow> string \<Rightarrow> auth_state \<Rightarrow> (nat, pending_login) result \<times> auth_state" where
  "login sc f now ans rnd q st =
     (case discover (scIssuer sc) ans now (asProvider st) of
        (Inl e, p) \<Rightarrow> (Inl 502, st\<lparr>asProvider := p\<rparr>)
      | (Inr m, p) \<Rightarrow>
          (case rnd of (state, nonce, verifier) \<Rightarrow>
            (Inr \<lparr>pdState = state, pdNonce = nonce, pdVerifier = verifier, pdNext = next_path q, pdAt = now div 10 ^ 9\<rparr>,
             sweep_sessions sc f now (st\<lparr>asProvider := p\<rparr>))))"

record callback_request =
  cbState :: string
  cbError :: string
  cbCode :: string
  cbLogin :: "string option"
  cbSession :: "string option"

text \<open>The sign-in a callback may finish, or why it may not: the checks before the issuer is asked.\<close>

definition in_flight :: "sign_config \<Rightarrow> int \<Rightarrow> callback_request \<Rightarrow> (nat, pending_login) result" where
  "in_flight sc now r =
     (case Option.bind (cbLogin r) (scOpen sc) of
        None \<Rightarrow> Inl 400
      | Some p \<Rightarrow>
          if cbState r = [] \<or> pdState p \<noteq> cbState r then Inl 400
          else let age = now - seconds (pdAt p) in
            if age > scLoginIn sc \<or> age < - clockSkew \<or> pdVerifier p = [] \<or> pdNonce p = [] then Inl 400
            else if cbError r \<noteq> [] then Inl 401
            else if cbCode r = [] then Inl 400
            else Inr p)"

text \<open>The claims of the token the code is traded for.  \<open>trade\<close> is what the token endpoint answers a code and a verifier.\<close>

definition signed_claims ::
    "sign_config \<Rightarrow> int \<Rightarrow> meta_answer \<Rightarrow> keys_answer \<Rightarrow> (string \<Rightarrow> string \<Rightarrow> token_answer) \<Rightarrow> string \<Rightarrow> pending_login \<Rightarrow> provider
     \<Rightarrow> (token_error, claims) result \<times> provider" where
  "signed_claims sc now ans keys trade code p pv =
     (case discover (scIssuer sc) ans now pv of
        (Inl e, pv1) \<Rightarrow> (Inl e, pv1)
      | (Inr m, pv1) \<Rightarrow>
          (case exchange (trade code (pdVerifier p)) of
             Inl e \<Rightarrow> (Inl e, pv1)
           | Inr raw \<Rightarrow> verify (scCrypto sc) (scIssuer sc) keys m now raw (pdNonce p) pv1))"

definition session_for :: "sign_config \<Rightarrow> int \<Rightarrow> string \<Rightarrow> claims \<Rightarrow> session" where
  "session_for sc now h c =
     \<lparr>ssHash = h, ssSub = clSub c, ssEmail = (if plainEmail (clEmail c) then clEmail c else clean (clEmail c)),
      ssVerified = clEmailVerified c \<and> plainEmail (clEmail c), ssName = safeName (clName c) (clPreferred c) (clEmail c),
      ssCreated = now, ssSeen = now, ssExpires = now + scMaxAge sc\<rparr>"

text \<open>The transaction: the browser's old session goes, the new one comes; the id is the table's primary key.\<close>

definition store_session :: "db_fault \<Rightarrow> string option \<Rightarrow> session \<Rightarrow> session list \<Rightarrow> session list option" where
  "store_session f old s ss =
     (let ss1 = (case old of None \<Rightarrow> ss | Some h \<Rightarrow> delete_session h ss) in
      if old \<noteq> None \<and> dfDelete f \<or> dfInsert f \<or> dfCommit f \<or> ssHash s \<in> ssHash ` set ss1 then None else Some (ss1 @ [s]))"

definition callback ::
    "sign_config \<Rightarrow> db_fault \<Rightarrow> int \<Rightarrow> meta_answer \<Rightarrow> keys_answer \<Rightarrow> (string \<Rightarrow> string \<Rightarrow> token_answer) \<Rightarrow> string \<Rightarrow> callback_request \<Rightarrow> auth_state
     \<Rightarrow> (nat, string \<times> string) result \<times> auth_state" where
  "callback sc f now ans keys trade sid r st =
     (case in_flight sc now r of
        Inl code \<Rightarrow> (Inl code, st)
      | Inr p \<Rightarrow>
          (case signed_claims sc now ans keys trade (cbCode r) p (asProvider st) of
             (Inl e, pv) \<Rightarrow> (Inl 401, st\<lparr>asProvider := pv\<rparr>)
           | (Inr c, pv) \<Rightarrow>
               (case store_session f (map_option (scHash sc) (cbSession r)) (session_for sc now (scHash sc sid) c) (asSessions st) of
                  None \<Rightarrow> (Inl 503, st\<lparr>asProvider := pv\<rparr>)
                | Some ss \<Rightarrow> (Inr (sid, next_path (pdNext p)), st\<lparr>asProvider := pv, asSessions := ss\<rparr>))))"

section \<open>Runs\<close>

datatype auth_event =
    ELogin db_fault meta_answer "string \<times> string \<times> string" string
  | ECallback db_fault meta_answer keys_answer "string \<Rightarrow> string \<Rightarrow> token_answer" string callback_request
  | ELookup db_fault "string option" bool
  | ELogout db_fault "string option"
  | ERevoke db_fault string

fun auth_step :: "sign_config \<Rightarrow> int \<Rightarrow> auth_event \<Rightarrow> auth_state \<Rightarrow> auth_state" where
  "auth_step sc now (ELogin f ans rnd q) st = snd (login sc f now ans rnd q st)"
| "auth_step sc now (ECallback f ans keys trade sid r) st = snd (callback sc f now ans keys trade sid r st)"
| "auth_step sc now (ELookup f c touch) st = st\<lparr>asSessions := snd (lookup sc f now c touch (asSessions st))\<rparr>"
| "auth_step sc now (ELogout f c) st = snd (logout sc f c st)"
| "auth_step sc now (ERevoke f who) st = snd (Revoke sc f who st)"

fun auth_run :: "sign_config \<Rightarrow> (int \<times> auth_event) list \<Rightarrow> auth_state \<Rightarrow> auth_state" where
  "auth_run sc [] st = st"
| "auth_run sc ((now, ev) # evs) st = auth_run sc evs (auth_step sc now ev st)"

text \<open>The ids of the sessions a step opens: the callback's that answered with one.\<close>

fun opened :: "sign_config \<Rightarrow> int \<Rightarrow> auth_event \<Rightarrow> auth_state \<Rightarrow> string list" where
  "opened sc now (ECallback f ans keys trade sid r) st =
     (case fst (callback sc f now ans keys trade sid r st) of Inr _ \<Rightarrow> [sid] | Inl _ \<Rightarrow> [])"
| "opened sc now ev st = []"

fun sign_ins :: "sign_config \<Rightarrow> (int \<times> auth_event) list \<Rightarrow> auth_state \<Rightarrow> (int \<times> string) list" where
  "sign_ins sc [] st = []"
| "sign_ins sc ((now, ev) # evs) st = map (Pair now) (opened sc now ev st) @ sign_ins sc evs (auth_step sc now ev st)"

lemma auth_run_snoc: "auth_run sc (evs @ [(now, ev)]) st = auth_step sc now ev (auth_run sc evs st)"
  by (induction sc evs st rule: auth_run.induct) auto

lemma sign_ins_snoc:
  "sign_ins sc (evs @ [(now, ev)]) st = sign_ins sc evs st @ map (Pair now) (opened sc now ev (auth_run sc evs st))"
  by (induction sc evs st rule: auth_run.induct) auto

definition auth_start :: auth_state where
  "auth_start = \<lparr>asSessions = [], asSwept = 0, asProvider = new_provider\<rparr>"

text \<open>What a step does to the table: rows go, one row may be touched, and a sign-in adds one.\<close>

definition touched :: "sign_config \<Rightarrow> int \<Rightarrow> auth_event \<Rightarrow> session \<Rightarrow> session \<Rightarrow> bool" where
  "touched sc now ev s s' \<longleftrightarrow> s' = s \<or> s' = s\<lparr>ssSeen := now\<rparr> \<and> (\<exists>f c. ev = ELookup f (Some c) True \<and> scHash sc c = ssHash s)"

lemma sweep_sessions_subset: "set (asSessions (sweep_sessions sc f now st)) \<subseteq> set (asSessions st)"
  by (auto simp: sweep_sessions_def Let_def)

lemma lookup_rows:
  "s' \<in> set (snd (lookup sc f now c touch ss)) \<Longrightarrow> \<exists>s \<in> set ss. touched sc now (ELookup f c touch) s s'"
  by (auto simp: lookup_def touched_def delete_session_def touch_session_def split: option.splits if_splits)

lemma callback_rows:
  assumes "s \<in> set (asSessions (snd (callback sc f now ans keys trade sid r st)))"
  shows "s \<in> set (asSessions st) \<or> (opened sc now (ECallback f ans keys trade sid r) st = [sid] \<and> (\<exists>c. s = session_for sc now (scHash sc sid) c))"
  using assms
  by (auto simp: callback_def store_session_def delete_session_def Let_def split: option.splits sum.splits prod.splits if_splits)

lemma step_rows:
  assumes "s' \<in> set (asSessions (auth_step sc now ev st))"
  shows "(\<exists>s \<in> set (asSessions st). touched sc now ev s s') \<or> (\<exists>sid \<in> set (opened sc now ev st). \<exists>c. s' = session_for sc now (scHash sc sid) c)"
proof (cases ev)
  case (ELogin f ans rnd q)
  then have "s' \<in> set (asSessions st)" using assms sweep_sessions_subset
    by (fastforce simp: login_def split: prod.splits sum.splits)
  then show ?thesis by (auto simp: touched_def)
next
  case (ECallback f ans keys trade sid r)
  then show ?thesis using assms callback_rows [of s' sc f now ans keys trade sid r st] by (fastforce simp: touched_def)
next
  case (ELookup f c touch)
  then show ?thesis using assms lookup_rows by fastforce
next
  case (ELogout f c)
  then have "s' \<in> set (asSessions st)" using assms by (auto simp: logout_def delete_session_def split: option.splits if_splits)
  then show ?thesis by (auto simp: touched_def)
next
  case (ERevoke f who)
  then have "s' \<in> set (asSessions st)" using assms by (auto simp: Revoke_def Let_def split: if_splits)
  then show ?thesis by (auto simp: touched_def)
qed

text \<open>Where a row comes from and how it was kept alive.\<close>

definition row_history :: "sign_config \<Rightarrow> (int \<times> auth_event) list \<Rightarrow> auth_state \<Rightarrow> session \<Rightarrow> bool" where
  "row_history sc evs st s \<longleftrightarrow>
     (\<exists>sid. (ssCreated s, sid) \<in> set (sign_ins sc evs st) \<and> scHash sc sid = ssHash s)
     \<and> ssExpires s = ssCreated s + scMaxAge sc \<and> ssSeen s \<in> insert (ssCreated s) (fst ` set evs)
     \<and> (ssSeen s = ssCreated s \<or> (\<exists>f c. (ssSeen s, ELookup f (Some c) True) \<in> set evs \<and> scHash sc c = ssHash s))"

lemma run_history:
  "s \<in> set (asSessions (auth_run sc evs auth_start)) \<Longrightarrow> row_history sc evs auth_start s"
proof (induction evs arbitrary: s rule: rev_induct)
  case Nil
  then show ?case by (simp add: auth_start_def)
next
  case (snoc x evs)
  obtain now ev where x: "x = (now, ev)" by (cases x)
  let ?st = "auth_run sc evs auth_start"
  from snoc.prems have "s \<in> set (asSessions (auth_step sc now ev ?st))" by (simp add: x auth_run_snoc)
  then consider (old) s0 where "s0 \<in> set (asSessions ?st)" "touched sc now ev s0 s"
    | (new) sid c where "sid \<in> set (opened sc now ev ?st)" "s = session_for sc now (scHash sc sid) c"
    using step_rows by blast
  then show ?case
  proof cases
    case old
    then have h: "row_history sc evs auth_start s0" using snoc.IH by blast
    from old(2) show ?thesis unfolding touched_def
    proof
      assume "s = s0"
      then show ?thesis using h by (auto simp: row_history_def x sign_ins_snoc)
    next
      assume "s = s0\<lparr>ssSeen := now\<rparr> \<and> (\<exists>f c. ev = ELookup f (Some c) True \<and> scHash sc c = ssHash s0)"
      then show ?thesis using h by (auto simp: row_history_def x sign_ins_snoc)
    qed
  next
    case new
    then show ?thesis by (auto simp: row_history_def x sign_ins_snoc session_for_def)
  qed
qed

lemma lookup_honours:
  assumes "lookup sc f now (Some c) touch ss = (Inr (Some u), ss')"
  shows "\<exists>s \<in> set ss. ssHash s = scHash sc c \<and> now < ssExpires s \<and> now < ssSeen s + scIdle sc \<and> u = user_of sc s"
proof -
  obtain s where "find (\<lambda>s. ssHash s = scHash sc c) ss = Some s" "now < ssExpires s" "now < ssSeen s + scIdle sc" "u = user_of sc s"
    using assms by (auto simp: lookup_def split: if_splits option.splits)
  then show ?thesis using find_SomeD by fast
qed

lemma sign_ins_times: "(t, sid) \<in> set (sign_ins sc evs st) \<Longrightarrow> t \<in> fst ` set evs"
  by (induction sc evs st rule: sign_ins.induct) auto

text \<open>C30. A request is taken for a person's only by a session some sign-in opened: its cookie hashes to the id that
  sign-in drew, less than \<open>MaxAge\<close> ago, and the sign-in itself or a request with that cookie was less than
  \<open>IdleTimeout\<close> ago; who it is, and whether an admin, is what that sign-in stored.\<close>

theorem session_honoured:
  assumes "sorted (map fst evs @ [now])"
    and "lookup sc f now (Some c) touch (asSessions (auth_run sc evs auth_start)) = (Inr (Some u), ss')"
  shows "\<exists>s t sid seen. s \<in> set (asSessions (auth_run sc evs auth_start)) \<and> u = user_of sc s
     \<and> (t, sid) \<in> set (sign_ins sc evs auth_start) \<and> scHash sc sid = scHash sc c \<and> t \<le> now \<and> now < t + scMaxAge sc
     \<and> (seen = t \<or> (\<exists>f' c'. (seen, ELookup f' (Some c') True) \<in> set evs \<and> scHash sc c' = scHash sc c))
     \<and> seen \<le> now \<and> now < seen + scIdle sc"
proof -
  obtain s where s: "s \<in> set (asSessions (auth_run sc evs auth_start))" "ssHash s = scHash sc c" "now < ssExpires s"
    "now < ssSeen s + scIdle sc" "u = user_of sc s" using lookup_honours [OF assms(2)] by blast
  have h: "row_history sc evs auth_start s" by (rule run_history [OF s(1)])
  then obtain sid where sid: "(ssCreated s, sid) \<in> set (sign_ins sc evs auth_start)" "scHash sc sid = ssHash s"
    by (auto simp: row_history_def)
  have past: "t \<le> now" if "t \<in> fst ` set evs" for t using assms(1) that by (auto simp: sorted_append)
  have "ssCreated s \<le> now" using past sign_ins_times [OF sid(1)] by blast
  moreover from this have "ssSeen s \<le> now" using h past by (auto simp: row_history_def)
  moreover have "now < ssCreated s + scMaxAge sc" using h s(3) by (simp add: row_history_def)
  moreover have "ssSeen s = ssCreated s \<or> (\<exists>f' c'. (ssSeen s, ELookup f' (Some c') True) \<in> set evs \<and> scHash sc c' = scHash sc c)"
    using h s(2) by (simp add: row_history_def)
  ultimately show ?thesis using s sid by (intro exI [of _ s] exI [of _ "ssCreated s"] exI [of _ sid] exI [of _ "ssSeen s"]) auto
qed

lemma no_row_stays:
  assumes "h \<notin> ssHash ` set (asSessions st)" and "\<forall>(t, sid) \<in> set (sign_ins sc evs st). scHash sc sid \<noteq> h"
  shows "h \<notin> ssHash ` set (asSessions (auth_run sc evs st))"
  using assms
proof (induction sc evs st rule: auth_run.induct)
  case (2 sc now ev evs st)
  have "h \<notin> ssHash ` set (asSessions (auth_step sc now ev st))"
  proof
    assume "h \<in> ssHash ` set (asSessions (auth_step sc now ev st))"
    then obtain s' where s': "s' \<in> set (asSessions (auth_step sc now ev st))" "ssHash s' = h" by auto
    from step_rows [OF s'(1)] show False using s'(2) 2(2,3) by (fastforce simp: touched_def session_for_def)
  qed
  then show ?case using 2 by simp
qed simp

lemma lookup_refuses:
  assumes "length c = 43" and "lookup sc f now (Some c) touch ss = (Inr None, ss')"
  shows "scHash sc c \<notin> ssHash ` set ss'"
proof -
  have "ss' = ss \<and> find (\<lambda>s. ssHash s = scHash sc c) ss = None \<or> ss' = delete_session (scHash sc c) ss"
    using assms by (auto simp: lookup_def split: if_splits option.splits)
  then show ?thesis by (auto simp: delete_session_def find_None_iff)
qed

text \<open>C31. A session that has ended stays ended: once its cookie was signed out, or a request with it was refused for
  its age, no later request with that cookie is taken for a signed-in person, unless a sign-in draws an
  id with the same hash.\<close>

theorem ended_session_stays_ended:
  assumes "logout sc flt (Some c) st = (200, st1)
      \<or> length c = 43 \<and> lookup sc flt before (Some c) tch (asSessions st) = (Inr None, asSessions st1)"
    and "\<forall>(t, sid) \<in> set (sign_ins sc evs st1). scHash sc sid \<noteq> scHash sc c"
  shows "fst (lookup sc f now (Some c) touch (asSessions (auth_run sc evs st1))) \<noteq> Inr (Some u)"
proof
  assume u: "fst (lookup sc f now (Some c) touch (asSessions (auth_run sc evs st1))) = Inr (Some u)"
  have "scHash sc c \<notin> ssHash ` set (asSessions st1)"
    using assms(1)
  proof
    assume "logout sc flt (Some c) st = (200, st1)"
    then show ?thesis by (auto simp: logout_def delete_session_def split: if_splits)
  next
    assume "length c = 43 \<and> lookup sc flt before (Some c) tch (asSessions st) = (Inr None, asSessions st1)"
    then show ?thesis using lookup_refuses by blast
  qed
  then have "scHash sc c \<notin> ssHash ` set (asSessions (auth_run sc evs st1))" using assms(2) by (rule no_row_stays)
  then show False using lookup_honours [of sc f now c touch _ u] u
    by (metis (no_types, lifting) image_eqI prod.collapse)
qed

section \<open>What a sign-in shows\<close>

definition local_path :: "string \<Rightarrow> bool" where
  "local_path v \<longleftrightarrow> has_prefix v ''/'' \<and> \<not> has_prefix v ''//'' \<and> \<not> has_prefix v [CHR ''/'', CHR 0x5C] \<and> length v \<le> maxNext
     \<and> \<not> list_ex (\<lambda>(r, w). r < 32 \<or> r = 127 \<or> r = 92) (runes_of v)"

lemma next_path_local: "local_path (next_path v)"
proof -
  have "local_path ''/''" by code_simp
  then show ?thesis by (auto simp: next_path_def local_path_def)
qed

text \<open>C32. A browser is signed in only for a sign-in it started itself, that is still in time: its cookie opens to a
  sealed sign-in with the state the issuer sent back, the code was traded with that sign-in's verifier, and
  the token that came for it is checked against that sign-in's nonce.  The session stored is the token's subject, the
  browser's old session is gone, and it returns to a path on this server.\<close>

theorem callback_signs_in:
  assumes "callback sc f now ans keys trade sid r st = (Inr (cookie, dest), st')"
  shows "\<exists>sealed p m raw c pv pv'. cookie = sid \<and> cbLogin r = Some sealed \<and> scOpen sc sealed = Some p
     \<and> pdState p = cbState r \<and> cbState r \<noteq> [] \<and> now - seconds (pdAt p) \<le> scLoginIn sc \<and> - clockSkew \<le> now - seconds (pdAt p)
     \<and> trade (cbCode r) (pdVerifier p) = IdToken raw \<and> pdNonce p \<noteq> []
     \<and> verify (scCrypto sc) (scIssuer sc) keys m now raw (pdNonce p) pv = (Inr c, pv')
     \<and> asSessions st' = filter (\<lambda>s. \<forall>old. cbSession r = Some old \<longrightarrow> ssHash s \<noteq> scHash sc old) (asSessions st)
         @ [session_for sc now (scHash sc sid) c]
     \<and> scHash sc sid \<notin> ssHash ` set (filter (\<lambda>s. \<forall>old. cbSession r = Some old \<longrightarrow> ssHash s \<noteq> scHash sc old) (asSessions st))
     \<and> local_path dest"
proof -
  obtain p where p0: "in_flight sc now r = Inr p" using assms by (cases "in_flight sc now r") (simp_all add: callback_def)
  obtain res pv' where res: "signed_claims sc now ans keys trade (cbCode r) p (asProvider st) = (res, pv')" by fastforce
  obtain c where res_c: "res = Inr c" using assms by (cases res) (simp_all add: callback_def p0 res)
  note c = p0 res [unfolded res_c]
  obtain ss where ss: "store_session f (map_option (scHash sc) (cbSession r)) (session_for sc now (scHash sc sid) c) (asSessions st) = Some ss"
    using assms by (cases "store_session f (map_option (scHash sc) (cbSession r)) (session_for sc now (scHash sc sid) c) (asSessions st)")
      (simp_all add: callback_def c)
  have out: "cookie = sid" "dest = next_path (pdNext p)" "asSessions st' = ss" using assms by (auto simp: callback_def c ss)
  obtain sealed where p: "cbLogin r = Some sealed" "scOpen sc sealed = Some p" "pdState p = cbState r" "cbState r \<noteq> []"
    "now - seconds (pdAt p) \<le> scLoginIn sc" "- clockSkew \<le> now - seconds (pdAt p)" "pdNonce p \<noteq> []"
    using c(1) by (auto simp: in_flight_def Let_def Option.bind_eq_Some_conv split: option.splits if_splits)
  obtain m pv raw where m: "exchange (trade (cbCode r) (pdVerifier p)) = Inr raw"
    "verify (scCrypto sc) (scIssuer sc) keys m now raw (pdNonce p) pv = (Inr c, pv')"
    using c(2) by (auto simp: signed_claims_def split: prod.splits sum.splits)
  have raw: "trade (cbCode r) (pdVerifier p) = IdToken raw" using m(1) by (cases "trade (cbCode r) (pdVerifier p)") (auto split: if_splits)
  let ?rest = "filter (\<lambda>s. \<forall>old. cbSession r = Some old \<longrightarrow> ssHash s \<noteq> scHash sc old) (asSessions st)"
  have "ss = ?rest @ [session_for sc now (scHash sc sid) c] \<and> scHash sc sid \<notin> ssHash ` set ?rest"
    using ss by (cases "cbSession r") (auto simp: store_session_def delete_session_def session_for_def Let_def split: if_splits)
  then show ?thesis using out p m(2) raw next_path_local [of "pdNext p"]
    by (intro exI [of _ sealed] exI [of _ p] exI [of _ m] exI [of _ raw] exI [of _ c] exI [of _ pv] exI [of _ pv']) simp
qed

text \<open>A display name can still read as an address: the last choice, the part of the email before an \<^verbatim>\<open>@\<close>, is not
  checked, and an email with an encoded or a wide \<^verbatim>\<open>@\<close> has none.\<close>

lemma safe_name_reads_as_address: "atShaped (safeName [] [] ''a%40b.c'')"
proof -
  have "safeName [] [] ''a%40b.c'' = ''a%40b.c''" by code_simp
  moreover have "contains_str ''a%40b.c'' ''%40''" by code_simp
  ultimately show ?thesis by (simp add: atShaped_def)
qed

section \<open>One sign-in\<close>

definition demo_sealed :: pending_login where
  "demo_sealed = \<lparr>pdState = ''st'', pdNonce = ''n'', pdVerifier = ''v'', pdNext = ''/x'', pdAt = 40\<rparr>"

definition demo_sign :: sign_config where
  "demo_sign = \<lparr>scAdmins = [], scIdle = IdleTimeout, scMaxAge = MaxAge, scLoginIn = loginTTL, scHash = (\<lambda>s. s),
     scOpen = (\<lambda>s. if s = ''seal'' then Some demo_sealed else None), scLower = (\<lambda>s. s),
     scIssuer = demo_issuer\<lparr>icUrl := (\<lambda>s. Some \<lparr>urScheme = ''https'', urHost = ''h'', urHostname = ''h'', urUser = False\<rparr>)\<rparr>,
     scCrypto = demo_crypto\<rparr>"

definition demo_id :: string where
  "demo_id = replicate 43 CHR ''i''"

definition demo_keys_answer :: keys_answer where
  "demo_keys_answer = Inr [\<lparr>jwKty = ''EC'', jwKid = ''k'', jwUse = [], jwAlg = [], jwN = [], jwE = [], jwCrv = ''P-256'',
     jwX = replicate 32 CHR ''x'', jwY = replicate 32 CHR ''y''\<rparr>]"

definition demo_request :: callback_request where
  "demo_request = \<lparr>cbState = ''st'', cbError = [], cbCode = ''code'', cbLogin = Some ''seal'', cbSession = None\<rparr>"

definition demo_trade :: "string \<Rightarrow> string \<Rightarrow> token_answer" where
  "demo_trade code verifier = IdToken demo_token"

definition demo_events :: "(int \<times> auth_event) list" where
  "demo_events = [(seconds 50, ECallback no_fault (Inr demo_meta) demo_keys_answer demo_trade demo_id demo_request)]"

lemma demo_callback:
  "fst (callback demo_sign no_fault (seconds 50) (Inr demo_meta) demo_keys_answer demo_trade demo_id demo_request auth_start)
    = Inr (demo_id, ''/x'')"
  by code_simp

lemma callback_signs_in_witness:
  "\<exists>p. scOpen demo_sign ''seal'' = Some p \<and> pdState p = ''st'' \<and> local_path ''/x''"
proof -
  obtain st' where "callback demo_sign no_fault (seconds 50) (Inr demo_meta) demo_keys_answer demo_trade demo_id demo_request auth_start
      = (Inr (demo_id, ''/x''), st')"
    using demo_callback by (metis prod.collapse)
  from callback_signs_in [OF this] show ?thesis by (auto simp: demo_request_def)
qed

lemma demo_honoured:
  "map_sum id (map_option usSub) (fst (lookup demo_sign no_fault (seconds 51) (Some demo_id) True
     (asSessions (auth_run demo_sign demo_events auth_start)))) = Inr (Some ''u'')"
  by code_simp

lemma session_honoured_witness:
  "\<exists>t sid. (t, sid) \<in> set (sign_ins demo_sign demo_events auth_start) \<and> scHash demo_sign sid = scHash demo_sign demo_id
     \<and> t \<le> seconds 51 \<and> seconds 51 < t + MaxAge"
proof -
  obtain u ss' where "lookup demo_sign no_fault (seconds 51) (Some demo_id) True (asSessions (auth_run demo_sign demo_events auth_start))
      = (Inr (Some u), ss')"
    using demo_honoured by (cases "lookup demo_sign no_fault (seconds 51) (Some demo_id) True (asSessions (auth_run demo_sign demo_events auth_start))";
      cases "fst (lookup demo_sign no_fault (seconds 51) (Some demo_id) True (asSessions (auth_run demo_sign demo_events auth_start)))") auto
  moreover have "sorted (map fst demo_events @ [seconds 51])" by (simp add: demo_events_def seconds_def)
  moreover have "scMaxAge demo_sign = MaxAge" by (simp add: demo_sign_def)
  ultimately show ?thesis using session_honoured [of demo_events "seconds 51" demo_sign no_fault demo_id True u ss'] by metis
qed

lemma ended_session_stays_ended_witness:
  "fst (lookup demo_sign no_fault (seconds 52) (Some demo_id) True
     (asSessions (auth_run demo_sign [] (snd (logout demo_sign no_fault (Some demo_id) (auth_run demo_sign demo_events auth_start))))))
   \<noteq> Inr (Some (user_of demo_sign (session_for demo_sign (seconds 50) demo_id no_claims)))"
proof -
  let ?st = "auth_run demo_sign demo_events auth_start"
  have "logout demo_sign no_fault (Some demo_id) ?st = (200, snd (logout demo_sign no_fault (Some demo_id) ?st))"
    by (simp add: logout_def no_fault_def)
  then show ?thesis 
    using ended_session_stays_ended [where sc = demo_sign and c = demo_id and st = ?st and flt = no_fault and evs = "[]"] by simp
qed

end
