(* ===== verification/Specs.thy ===== *)
theory Specs
  imports Policy Tasks Chunk "HOL-Library.AList"
begin

text \<open>
  \<^verbatim>\<open>internal/engine/specset.go\<close>, with the table of \<^verbatim>\<open>register.go\<close> that says what Go needs: the files of the spec
  set by item, the front matter of packs and skills, and the set a snapshot of overrides makes.  A Go map of files is
  an association list in the order its iteration takes.  What \<^verbatim>\<open>encoding/json\<close> decodes from a file, and the
  files built into the binary, are parameters.
\<close>

section \<open>What Go needs\<close>

datatype go_need =
    LeadTool | GoWrites | EnginePass | WritesLedger | HookedSub | ForcedStep | SubagentOK | CriticSub | Unhookable | Pinned
  | ReaderTurn | CheckTurn

record go_row =
  grName :: string
  grNeeds :: "go_need list"
  grCallers :: "string list option"

definition go_row_of :: "string \<Rightarrow> go_need list \<Rightarrow> string list option \<Rightarrow> go_row" where
  "go_row_of n ns cs = \<lparr>grName = n, grNeeds = ns, grCallers = cs\<rparr>"

definition goContract :: "go_row list" where
  "goContract =
    [go_row_of ''retrieve'' [LeadTool, Pinned] None,
     go_row_of ''ledger'' [LeadTool, EnginePass, WritesLedger, SubagentOK, Pinned] None,
     go_row_of ''sweep'' [LeadTool, EnginePass, WritesLedger] None,
     go_row_of ''extract_facts'' [LeadTool, GoWrites, HookedSub, ReaderTurn] (Some [''sweep'']),
     go_row_of ''analyze_issue'' [LeadTool, GoWrites, HookedSub, ReaderTurn] (Some [''cover'']),
     go_row_of ''check_deviation'' [LeadTool, HookedSub, CheckTurn] None,
     go_row_of ''numbers'' [LeadTool, WritesLedger] None,
     go_row_of ''join_discrepancies'' [LeadTool, WritesLedger] None,
     go_row_of ''draft_section'' [LeadTool, GoWrites, HookedSub, ReaderTurn] (Some [''cover'']),
     go_row_of ''committee'' [LeadTool, GoWrites, EnginePass, WritesLedger, ForcedStep, Pinned] (Some [''Go: finish, a stopped run's review'']),
     go_row_of ''finish'' [LeadTool, GoWrites, EnginePass, WritesLedger, Pinned] (Some [''Go: a stopped run's forced finish'']),
     go_row_of ''use_skill'' [LeadTool, WritesLedger] None,
     go_row_of ''cover'' [GoWrites, EnginePass, WritesLedger, ForcedStep] (Some [''Go: finish, a stopped run'']),
     go_row_of ''verify_quote'' [GoWrites, Unhookable] (Some [''Go: admit (every quote's paraphrase judge)'']),
     go_row_of ''read_figures'' [GoWrites, WritesLedger] (Some [''Go: admission and drafted sections (figures.go)'']),
     go_row_of ''judge_figures'' [GoWrites, WritesLedger] (Some [''Go: join_discrepancies, finish (judge.go)'']),
     go_row_of ''prosecute'' [GoWrites, CriticSub] (Some [''committee'']),
     go_row_of ''reproduce'' [GoWrites, CriticSub] (Some [''committee'']),
     go_row_of ''audit_gaps'' [GoWrites, CriticSub] (Some [''committee'']),
     go_row_of ''meta'' [] (Some [''Go: finish (the process note)'']),
     go_row_of ''section_check'' [] (Some [''Go: check_deviation's requirement check'']),
     go_row_of ''figure_context'' [] (Some []),
     go_row_of ''exact_calc'' [] (Some [])]"

definition named_needs :: "go_need \<Rightarrow> string list" where
  "named_needs n = map grName (filter (\<lambda>r. n \<in> set (grNeeds r)) goContract)"

definition needs :: "string \<Rightarrow> go_need \<Rightarrow> bool" where
  "needs name n \<longleftrightarrow> name \<in> set (named_needs n)"

text \<open>\<^const>\<open>None\<close> for nil: nothing of Go calls it.\<close>

definition goCallers :: "string \<Rightarrow> string list option" where
  "goCallers name = Option.bind (find (\<lambda>r. grName r = name) goContract) grCallers"

definition MemoVisible :: "string list" where "MemoVisible = named_needs LeadTool"

definition reservedNames :: "string list" where
  "reservedNames = [''lead'', ''meta'', ''manage_test''] @ named_needs EnginePass"

definition goDepends :: "string \<Rightarrow> string" where
  "goDepends name =
     (if needs name LeadTool then ''it is one of the memo lead's tools''
      else case goCallers name of
          Some (c # cs) \<Rightarrow> ''Go calls it ('' @ str_join (c # cs) ''; '' @ '')''
        | Some [] \<Rightarrow> ''the figure reader calls it''
        | None \<Rightarrow>
            if needs name EnginePass then ''it is one of the engine's passes''
            else if needs name GoWrites then ''Go calls it'' else [])"

section \<open>Paths and items\<close>

type_synonym files = "(string \<times> string) list"

definition slash :: char where "slash = CHR ''/''"

text \<open>\<^verbatim>\<open>path.Base\<close>, \<^verbatim>\<open>path.Clean\<close> and \<^verbatim>\<open>path.Dir\<close>.\<close>

definition path_base :: "string \<Rightarrow> string" where
  "path_base p =
     (if p = [] then ''.''
      else let q = trim_right (\<lambda>c. c = slash) p; b = rev (takeWhile (\<lambda>c. c \<noteq> slash) (rev q)) in
        if b = [] then ''/'' else b)"

fun clean_parts :: "bool \<Rightarrow> string list \<Rightarrow> string list \<Rightarrow> string list" where
  "clean_parts rooted st [] = rev st"
| "clean_parts rooted st (p # ps) =
     (if p = [] \<or> p = ''.'' then clean_parts rooted st ps
      else if p = ''..'' then
        (case st of
           d # rest \<Rightarrow> if d \<noteq> ''..'' then clean_parts rooted rest ps else clean_parts rooted (p # st) ps
         | [] \<Rightarrow> if rooted then clean_parts rooted [] ps else clean_parts rooted [p] ps)
      else clean_parts rooted (p # st) ps)"

definition path_clean :: "string \<Rightarrow> string" where
  "path_clean p =
     (let rooted = has_prefix p ''/''; s = str_join (clean_parts rooted [] (split_char slash p)) ''/'' in
      if rooted then slash # s else if s = [] then ''.'' else s)"

definition path_dir :: "string \<Rightarrow> string" where
  "path_dir p = path_clean (rev (dropWhile (\<lambda>c. c \<noteq> slash) (rev p)))"

definition engineDir :: string where "engineDir = ''internal/engine/''"
definition agentsDir :: string where "agentsDir = engineDir @ ''specs/agents/''"
definition skillsDir :: string where "skillsDir = engineDir @ ''skills/''"
definition toolsDir :: string where "toolsDir = engineDir @ ''specs/tools/''"
definition serversDir :: string where "serversDir = engineDir @ ''specs/servers/''"
definition hooksDir :: string where "hooksDir = engineDir @ ''specs/hooks/''"

definition fileStem :: "string \<Rightarrow> string" where
  "fileStem f = trim_suffix (path_base f) ''.json''"

definition itemOf :: "string \<Rightarrow> string" where
  "itemOf f =
     (let rest = trim_prefix f engineDir in
      if has_prefix f toolsDir \<and> has_suffix f ''.json'' then ''tool.'' @ fileStem f
      else if has_prefix f serversDir \<and> has_suffix f ''.json'' then ''server.'' @ fileStem f
      else if has_prefix f hooksDir \<and> has_suffix f ''.json'' then ''rule.'' @ fileStem f
      else if has_prefix f agentsDir then ''agent.'' @ trim_suffix (fileStem f) ''.md''
      else if has_prefix f skillsDir then ''skill.'' @ takeWhile (\<lambda>c. c \<noteq> slash) (drop (length skillsDir) f)
      else if has_prefix rest ''packs/'' \<and> has_suffix f ''.md''
      then ''pack.'' @ map (\<lambda>c. if c = slash then CHR ''.'' else c) (trim_suffix (trim_prefix rest ''packs/'') ''.md'')
      else if has_prefix rest ''specs/'' \<and> has_suffix f ''.md'' then ''prompt.'' @ trim_suffix (path_base f) ''.md''
      else if has_suffix f ''.json'' \<and> contains_str f ''/specs/''
      then (if needs (fileStem f) EnginePass then ''pass.'' else ''tool.'') @ fileStem f
      else [])"

definition itemFiles :: "files \<Rightarrow> string \<Rightarrow> string list" where
  "itemFiles fs it = sort (filter (\<lambda>f. itemOf f = it) (map fst fs))"

text \<open>\<^verbatim>\<open>fileMap\<close> of manage.go: an item's files with their contents.\<close>

definition file_text :: "files \<Rightarrow> string \<Rightarrow> string" where
  "file_text fs f = (case map_of fs f of Some t \<Rightarrow> t | None \<Rightarrow> [])"

definition fileMap :: "files \<Rightarrow> string \<Rightarrow> files" where
  "fileMap fs it = map (\<lambda>f. (f, file_text fs f)) (itemFiles fs it)"

text \<open>The kind and the name of an item's id (\<^verbatim>\<open>strings.Cut\<close>).\<close>

definition kind_of :: "string \<Rightarrow> string" where "kind_of it = fst (str_cut it ''.'')"
definition name_of :: "string \<Rightarrow> string" where "name_of it = fst (snd (str_cut it ''.''))"

section \<open>Front matter\<close>

definition front_end :: string where
  "front_end = [newline_byte] @ ''---'' @ [newline_byte]"

record front =
  fmFields :: "(string \<times> string) list"
  fmLists :: "(string \<times> string list) list"
  fmBody :: string

definition field :: "(string \<times> string) list \<Rightarrow> string \<Rightarrow> string" where
  "field fs k = (case map_of fs k of Some v \<Rightarrow> v | None \<Rightarrow> [])"

definition list_field :: "(string \<times> string list) list \<Rightarrow> string \<Rightarrow> string list" where
  "list_field ls k = (case map_of ls k of Some v \<Rightarrow> v | None \<Rightarrow> [])"

fun front_lines ::
    "nat \<Rightarrow> string \<Rightarrow> (string \<times> string) list \<Rightarrow> (string \<times> string list) list \<Rightarrow> string list
     \<Rightarrow> (string, (string \<times> string) list \<times> (string \<times> string list) list) result" where
  "front_lines i l fs ls [] = Inr (fs, ls)"
| "front_lines i l fs ls (lin # lins) =
     (if has_prefix lin ''- '' \<and> l \<noteq> []
      then front_lines (Suc i) l fs (AList.update l (list_field ls l @ [trim_space (drop 2 lin)]) ls) lins
      else case str_cut lin '':'' of
          (k, v, ok) \<Rightarrow>
            if \<not> ok \<or> trim_space k = [] \<or> CHR '' '' \<in> set (trim_space k) \<or> CHR ''-'' \<in> set (trim_space k)
                \<or> trim_space k \<in> set (map fst fs)
            then Inl (''front matter line '' @ itoa (int (i + 2)) @ '' ('' @ quoted lin @ '') is neither key: value nor a list item'')
            else front_lines (Suc i) (if trim_space v = [] then trim_space k else []) (fs @ [(trim_space k, trim_space v)]) ls lins)"

definition frontMatter :: "string \<Rightarrow> (string, front) result" where
  "frontMatter s =
     (case str_cut (trim_prefix s (''---'' @ [newline_byte])) front_end of
        (head, body, ok) \<Rightarrow>
          if \<not> has_prefix s (''---'' @ [newline_byte]) \<or> \<not> ok
          then Inl ''the front matter must open and close with a --- line''
          else (case front_lines 0 [] [] [] (split_char newline_byte head) of
              Inl e \<Rightarrow> Inl e
            | Inr (fs, ls) \<Rightarrow> Inr \<lparr>fmFields = fs, fmLists = ls, fmBody = trim_space body\<rparr>))"

text \<open>\<^verbatim>\<open>setFront\<close> of manage.go rewrites keys' values in place.\<close>

definition set_line :: "(string \<times> string) list \<Rightarrow> string \<Rightarrow> string" where
  "set_line kv lin =
     (case str_cut lin '':'' of
        (k, v, ok) \<Rightarrow>
          (case map_of kv (trim_space k) of
             Some w \<Rightarrow> if ok then trim_right (\<lambda>c. c = CHR '' '') (trim_space k @ '': '' @ w) else lin
           | None \<Rightarrow> lin))"

definition setFront :: "string \<Rightarrow> (string \<times> string) list \<Rightarrow> string" where
  "setFront s kv =
     (case str_cut (trim_prefix s (''---'' @ [newline_byte])) front_end of
        (head, body, ok) \<Rightarrow>
          ''---'' @ [newline_byte] @ str_join (map (set_line kv) (split_char newline_byte head)) [newline_byte] @ front_end @ body)"

definition parsePack :: "string \<Rightarrow> string \<Rightarrow> (string, pack) result" where
  "parsePack f s =
     (case frontMatter s of
        Inl e \<Rightarrow> Inl (f @ '': '' @ e)
      | Inr m \<Rightarrow> Inr \<lparr>pkCode = field (fmFields m) ''code'', pkStatus = field (fmFields m) ''status'',
            pkReviewedBy = field (fmFields m) ''reviewedBy'', pkBody = fmBody m, pkPractice = (path_base (path_dir f) = ''practice''),
            pkChecklist = list_field (fmLists m) ''checklist''\<rparr>)"

record skill =
  skName :: string
  skDescription :: string
  skStatus :: string
  skReviewedBy :: string
  skTools :: "string list"
  skFiles :: "string list"
  skBody :: string

definition parseSkill :: "string \<Rightarrow> string \<Rightarrow> (string, skill) result" where
  "parseSkill f s =
     (case frontMatter s of
        Inl e \<Rightarrow> Inl (f @ '': '' @ e)
      | Inr m \<Rightarrow> Inr \<lparr>skName = field (fmFields m) ''name'', skDescription = field (fmFields m) ''description'',
            skStatus = field (fmFields m) ''status'', skReviewedBy = field (fmFields m) ''reviewedBy'',
            skTools = list_field (fmLists m) ''tools'', skFiles = [], skBody = fmBody m\<rparr>)"

section \<open>The set of a snapshot\<close>

text \<open>The parts of a custom tool, an MCP server and a hook that the set and its checks read.\<close>

record imported =
  imText :: string
  imAcceptedBy :: string

record remote_auth =
  raSecret :: string
  raUrl :: string

record custom_tool =
  ctName :: string
  ctEnabled :: bool
  ctOfferToLead :: bool
  ctClass :: string
  ctDescription :: string
  ctIn :: raw_message
  ctServer :: "string option"
  ctHttp :: "remote_auth option"
  ctImported :: "imported option"

record mcp_server =
  msName :: string
  msAuth :: remote_auth

record hook_rule =
  hrName :: string
  hrAction :: string
  hrAgent :: string
  hrWebhook :: "remote_auth option"

text \<open>\<^verbatim>\<open>json.Unmarshal\<close> of a file's text or its error, and the strict decoding of a spec; the inputs a description's
  examples show; \<^verbatim>\<open>json.Marshal\<close>; the schema a raw message holds.\<close>

record decoders =
  dcTool :: "string \<Rightarrow> (string, custom_tool) result"
  dcServer :: "string \<Rightarrow> (string, mcp_server) result"
  dcRule :: "string \<Rightarrow> (string, hook_rule) result"
  dcSpec :: "string \<Rightarrow> (string, spec) result"
  dcStrictSpec :: "string \<Rightarrow> (string, spec) result"
  dcExamples :: "string \<Rightarrow> raw_message list"
  dcMarshal :: "json \<Rightarrow> string"
  dcSchema :: "raw_message \<Rightarrow> schema option"
  dcRemoteOut :: "schema option"

record spec_set =
  stFiles :: files
  stVersions :: "(string \<times> int) list"
  stSpecs :: "(string \<times> spec) list"
  stPaths :: "(string \<times> string) list"
  stPacks :: "pack list"
  stSkills :: "skill list"
  stTools :: "(string \<times> custom_tool) list"
  stServers :: "(string \<times> mcp_server) list"
  stRules :: "(string \<times> hook_rule) list"

definition customSpec :: "decoders \<Rightarrow> custom_tool \<Rightarrow> spec" where
  "customSpec dc t =
     \<lparr>Name = ctName t, Kind = ''go'', Description = ctDescription t, In = dcSchema dc (ctIn t), Out = dcRemoteOut dc,
      Class = (if ctClass t \<noteq> [] then ctClass t else ''free''), MaxTurns = 0, Allowed = [], Role = [], Solo = [], Final = False\<rparr>"

text \<open>An override's files replace the item's built-in ones.\<close>

fun put_files :: "string \<Rightarrow> files \<Rightarrow> files \<Rightarrow> (string, files) result" where
  "put_files it [] fs = Inr fs"
| "put_files it ((f, s) # rest) fs =
     (if itemOf f \<noteq> it then Inl (it @ '': file '' @ f @ '' is not one of its files'')
      else put_files it rest (AList.update f s fs))"

fun overlay_files :: "files \<Rightarrow> snapshot \<Rightarrow> files \<Rightarrow> (string, files) result" where
  "overlay_files builtin [] fs = Inr fs"
| "overlay_files builtin ((it, v, ofs) # rest) fs =
     (case put_files it ofs (filter (\<lambda>(f, s). f \<notin> set (itemFiles builtin it)) fs) of
        Inl e \<Rightarrow> Inl e
      | Inr fs' \<Rightarrow> overlay_files builtin rest fs')"

definition decode_file :: "string \<Rightarrow> (string, 'a) result \<Rightarrow> (string, 'a) result" where
  "decode_file f r = (case r of Inl e \<Rightarrow> Inl (f @ '': '' @ e) | Inr v \<Rightarrow> Inr v)"

text \<open>The reference files beside a skill's SKILL.md.\<close>

definition files_beside :: "files \<Rightarrow> string \<Rightarrow> string list" where
  "files_beside fs f = sort (map path_base (filter (\<lambda>g. path_dir g = path_dir f \<and> g \<noteq> f) (map fst fs)))"

definition add_file :: "decoders \<Rightarrow> string \<Rightarrow> spec_set \<Rightarrow> (string, spec_set) result" where
  "add_file dc f s =
     (let data = file_text (stFiles s) f in
      if has_prefix f toolsDir then
        map_sum (\<lambda>e. e) (\<lambda>t. s\<lparr>stTools := AList.update (ctName t) t (stTools s), stSpecs := AList.update (ctName t) (customSpec dc t) (stSpecs s)\<rparr>)
          (decode_file f (dcTool dc data))
      else if has_prefix f serversDir then
        map_sum (\<lambda>e. e) (\<lambda>v. s\<lparr>stServers := AList.update (msName v) v (stServers s)\<rparr>) (decode_file f (dcServer dc data))
      else if has_prefix f hooksDir then
        map_sum (\<lambda>e. e) (\<lambda>h. s\<lparr>stRules := AList.update (hrName h) h (stRules s)\<rparr>) (decode_file f (dcRule dc data))
      else if has_suffix f ''.json'' \<and> contains_str f ''/specs/'' then
        map_sum (\<lambda>e. e) (\<lambda>sp. s\<lparr>stSpecs := AList.update (Name sp) sp (stSpecs s), stPaths := AList.update (Name sp) f (stPaths s)\<rparr>)
          (decode_file f (dcSpec dc data))
      else if has_prefix f (engineDir @ ''packs/'') then
        map_sum (\<lambda>e. e) (\<lambda>p. s\<lparr>stPacks := stPacks s @ [p]\<rparr>) (parsePack f data)
      else if has_prefix f skillsDir \<and> path_base f = ''SKILL.md'' then
        map_sum (\<lambda>e. e) (\<lambda>k. s\<lparr>stSkills := stSkills s @ [k\<lparr>skFiles := files_beside (stFiles s) f\<rparr>]\<rparr>) (parseSkill f data)
      else Inr s)"

fun add_files :: "decoders \<Rightarrow> string list \<Rightarrow> spec_set \<Rightarrow> (string, spec_set) result" where
  "add_files dc [] s = Inr s"
| "add_files dc (f # fs) s = (case add_file dc f s of Inl e \<Rightarrow> Inl e | Inr s' \<Rightarrow> add_files dc fs s')"

definition sorted_snapshot :: "snapshot \<Rightarrow> snapshot" where
  "sorted_snapshot snap = sort_key fst snap"

definition newSpecs :: "decoders \<Rightarrow> files \<Rightarrow> snapshot \<Rightarrow> (string, spec_set) result" where
  "newSpecs dc builtin snap =
     (case overlay_files builtin (sorted_snapshot snap) builtin of
        Inl e \<Rightarrow> Inl e
      | Inr fs \<Rightarrow>
          add_files dc (sort (map fst fs))
            \<lparr>stFiles = fs, stVersions = map (\<lambda>(it, v, ofs). (it, v)) (sorted_snapshot snap), stSpecs = [], stPaths = [], stPacks = [],
             stSkills = [], stTools = [], stServers = [], stRules = []\<rparr>)"

definition find_skill :: "spec_set \<Rightarrow> string \<Rightarrow> skill option" where
  "find_skill s n = find (\<lambda>k. skName k = n) (stSkills s)"

definition maxSkills :: int where "maxSkills = 40"
definition maxSkillIndex :: int where "maxSkillIndex = 4096"

definition skillIndex :: "spec_set \<Rightarrow> string" where
  "skillIndex s =
     concat (map (\<lambda>k. ''- '' @ skName k @ '' ('' @ skStatus k @ ''): '' @ skDescription k @ [newline_byte]) (stSkills s))"

text \<open>\<^verbatim>\<open>leadVisible\<close> of custom.go: the lead's tools in a set.\<close>

definition check_agents :: "spec_set \<Rightarrow> string list" where
  "check_agents s = map (\<lambda>(n, r). hrAgent r) (filter (\<lambda>(n, r). hrAction r = ''check'') (stRules s))"

definition leadVisible :: "spec_set \<Rightarrow> string list" where
  "leadVisible s =
     MemoVisible
     @ filter (\<lambda>n. (case map_of (stSpecs s) n of None \<Rightarrow> False | Some sp \<Rightarrow> Kind sp = ''subagent'')
          \<and> n \<notin> set MemoVisible \<and> goCallers n = None \<and> n \<notin> set (check_agents s)) (sort (map fst (stSpecs s)))
     @ filter (\<lambda>n. (case map_of (stTools s) n of None \<Rightarrow> False | Some t \<Rightarrow> ctEnabled t \<and> ctOfferToLead t)) (sort (map fst (stTools s)))"

section \<open>Which files a set holds\<close>

lemma itemFiles_iff: "f \<in> set (itemFiles fs it) \<longleftrightarrow> f \<in> fst ` set fs \<and> itemOf f = it"
  by (auto simp: itemFiles_def)

lemma itemFiles_empty: "itemFiles fs it = [] \<longleftrightarrow> (\<forall>f \<in> fst ` set fs. itemOf f \<noteq> it)"
proof -
  have "itemFiles fs it = [] \<longleftrightarrow> set (itemFiles fs it) = {}" by (simp only: set_empty)
  then show ?thesis unfolding set_eq_iff itemFiles_iff by blast
qed

lemma map_of_filter_key: "map_of (filter (\<lambda>(f, s). P f) fs) f = (if P f then map_of fs f else None)"
  by (induction fs) auto

lemma map_of_keys: "map_of fs f \<noteq> None \<longleftrightarrow> f \<in> fst ` set fs"
  by (simp add: map_of_eq_None_iff)

lemma put_files_map:
  "put_files it ofs fs = Inr fs' \<Longrightarrow> distinct (map fst ofs) \<Longrightarrow>
     (\<forall>f \<in> fst ` set ofs. itemOf f = it) \<and> map_of fs' = map_of fs ++ map_of ofs"
proof (induction it ofs fs rule: put_files.induct)
  case (2 it f s rest fs)
  then have item: "itemOf f = it" "put_files it rest (AList.update f s fs) = Inr fs'" by (auto split: if_splits)
  then have "map_of fs' = map_of (AList.update f s fs) ++ map_of rest" "\<forall>g \<in> fst ` set rest. itemOf g = it"
    using 2 by auto
  moreover have "map_of (AList.update f s fs) ++ map_of rest = map_of fs ++ map_of ((f, s) # rest)"
  proof
    fix g
    have "map_of rest f = None" using 2(3) by (simp add: map_of_eq_None_iff)
    then show "(map_of (AList.update f s fs) ++ map_of rest) g = (map_of fs ++ map_of ((f, s) # rest)) g"
      by (simp add: update_conv' map_add_def split: option.split)
  qed
  ultimately have "map_of fs' = map_of fs ++ map_of ((f, s) # rest)" "\<forall>g \<in> fst ` set rest. itemOf g = it" by (simp only:)+
  moreover have "\<forall>g \<in> fst ` set ((f, s) # rest). itemOf g = it" using calculation(2) item(1) by simp
  ultimately show ?case by blast
qed simp

lemma overlay_map:
  "overlay_files builtin snap fs = Inr fs' \<Longrightarrow> distinct (map fst snap) \<Longrightarrow> \<forall>(it, v, ofs) \<in> set snap. distinct (map fst ofs) \<Longrightarrow>
   \<forall>f \<in> fst ` set fs. itemOf f \<in> fst ` set snap \<longrightarrow> f \<in> fst ` set builtin \<Longrightarrow>
   map_of fs' f = (case map_of snap (itemOf f) of None \<Rightarrow> map_of fs f | Some (v, ofs) \<Rightarrow> map_of ofs f)"
proof (induction builtin snap fs rule: overlay_files.induct)
  case (2 builtin it v ofs rest fs)
  define fs1 where "fs1 = filter (\<lambda>(f, s). f \<notin> set (itemFiles builtin it)) fs"
  obtain fs2 where fs2: "put_files it ofs fs1 = Inr fs2" "overlay_files builtin rest fs2 = Inr fs'"
    using 2(2) by (cases "put_files it ofs fs1") (simp_all add: fs1_def)
  have "distinct (map fst ofs)" using 2(4) by simp
  note own = put_files_map [OF fs2(1) this, THEN conjunct1] put_files_map [OF fs2(1) this, THEN conjunct2]
  have keys: "g \<in> fst ` set fs2 \<longleftrightarrow> g \<in> fst ` set fs1 \<or> g \<in> fst ` set ofs" for g
    unfolding map_of_keys [symmetric] own(2) map_add_None de_Morgan_conj by (rule disj_commute)
  have fs1: "fst ` set fs1 \<subseteq> fst ` set fs" by (auto simp: fs1_def)
  have rest: "it \<notin> fst ` set rest" "distinct (map fst rest)" using 2(3) by auto
  have sub: "g \<in> fst ` set fs" if "g \<in> fst ` set fs2" "itemOf g \<noteq> it" for g
  proof -
    have "g \<notin> fst ` set ofs" using own(1) that(2) by blast
    then have "g \<in> fst ` set fs1" using that(1) by (simp only: keys simp_thms)
    then show ?thesis using fs1 by (rule subsetD [rotated])
  qed
  have built: "\<forall>g \<in> fst ` set fs2. itemOf g \<in> fst ` set rest \<longrightarrow> g \<in> fst ` set builtin"
  proof (intro ballI impI)
    fix g assume g: "g \<in> fst ` set fs2" "itemOf g \<in> fst ` set rest"
    then have "itemOf g \<noteq> it" using rest(1) by auto
    then have "g \<in> fst ` set fs" using sub g(1) by simp
    then show "g \<in> fst ` set builtin" using bspec [OF 2(5)] g(2) by simp
  qed
  have ofs_rest: "\<forall>(i, v, ofs) \<in> set rest. distinct (map fst ofs)" using 2(4) by simp
  have ih: "map_of fs' f = (case map_of rest (itemOf f) of None \<Rightarrow> map_of fs2 f | Some (v, ofs) \<Rightarrow> map_of ofs f)"
    by (rule 2(1) [OF fs2(1) [unfolded fs1_def] fs2(2) rest(2) ofs_rest built])
  show ?case
  proof (cases "itemOf f = it")
    case True
    have r: "map_of rest it = None" using rest(1) by (simp add: map_of_eq_None_iff)
    have "f \<in> fst ` set fs \<longrightarrow> f \<in> set (itemFiles builtin it)"
      using bspec [OF 2(5), of f] True by (simp add: itemFiles_iff)
    then have "map_of fs1 f = None" unfolding fs1_def map_of_filter_key map_of_eq_None_iff by (auto simp: map_of_eq_None_iff simp del: set_sort)
    then show ?thesis using ih own(2) True r by (simp add: map_add_def split: option.splits)
  next
    case False
    have "f \<notin> set (itemFiles builtin it)" using False by (simp add: itemFiles_iff)
    moreover have "map_of ofs f = None" using bspec [OF own(1), of f] False by (auto simp: map_of_eq_None_iff)
    ultimately have "map_of fs2 f = map_of fs f" using own(2) by (simp add: map_add_def fs1_def map_of_filter_key)
    then show ?thesis using ih False by (simp split: option.split)
  qed
qed simp

lemma add_file_files: "add_file dc f s = Inr s' \<Longrightarrow> stFiles s' = stFiles s"
  by (auto simp: add_file_def Let_def map_sum_def decode_file_def split: if_splits sum.splits)

lemma add_files_files: "add_files dc fs s = Inr s' \<Longrightarrow> stFiles s' = stFiles s"
proof (induction dc fs s rule: add_files.induct)
  case (2 dc f fs s)
  then obtain s1 where "add_file dc f s = Inr s1" "add_files dc fs s1 = Inr s'" by (cases "add_file dc f s") simp_all
  then show ?case using 2(1) add_file_files by metis
qed simp

lemma sort_key_set_eq:
  fixes xs ys :: "(string \<times> 'a) list"
  assumes "distinct (map fst xs)" and "distinct (map fst ys)" and "set xs = set ys"
  shows "sort_key fst xs = sort_key fst ys"
proof -
  have "distinct xs" "distinct ys" using assms(1,2) by (simp_all add: distinct_map)
  then have "mset xs = mset ys" using assms(3) by (simp add: set_eq_iff_mset_eq_distinct)
  moreover have "inj_on fst (set xs)" using assms(1) by (simp add: distinct_map)
  ultimately show ?thesis by (intro sort_key_inj_key_eq) (simp_all)
qed

lemma newSpecs_set_eq:
  assumes "distinct (map fst a)" and "distinct (map fst b)" and "set a = set b"
  shows "newSpecs dc builtin a = newSpecs dc builtin b"
  unfolding newSpecs_def sorted_snapshot_def sort_key_set_eq [OF assms] by (rule refl)

text \<open>The files of a set: an item's override stands for all of its built-in files, every other item keeps them.\<close>

lemma newSpecs_files:
  assumes "newSpecs dc builtin snap = Inr s" and "distinct (map fst snap)" and "\<forall>(it, v, ofs) \<in> set snap. distinct (map fst ofs)"
  shows "map_of (stFiles s) f = (case map_of snap (itemOf f) of None \<Rightarrow> map_of builtin f | Some (v, ofs) \<Rightarrow> map_of ofs f)"
proof -
  obtain fs where fs: "overlay_files builtin (sorted_snapshot snap) builtin = Inr fs" "stFiles s = fs"
    using assms(1) add_files_files by (fastforce simp: newSpecs_def split: sum.splits)
  have d: "distinct (map fst (sorted_snapshot snap))" using assms(2) by (simp add: sorted_snapshot_def distinct_map)
  have "map_of (sorted_snapshot snap) = map_of snap"
    using map_of_inject_set [OF d assms(2)] by (simp add: sorted_snapshot_def)
  then show ?thesis using overlay_map [OF fs(1) d] assms(3) fs(2) by (simp add: sorted_snapshot_def)
qed

section \<open>Rewriting front matter\<close>

lemma has_prefix_append [simp]: "has_prefix (p @ s) p"
  by (simp add: has_prefix_def)

lemma trim_prefix_append [simp]: "trim_prefix (p @ s) p = s"
  by (simp add: trim_prefix_def)

lemma str_index_skip: "c \<notin> set l \<Longrightarrow> str_index (l @ s) (c # p) = map_option ((+) (length l)) (str_index s (c # p))"
proof (induction l)
  case Nil
  then show ?case by (cases "str_index s (c # p)") simp_all
next
  case (Cons x l)
  then have "\<not> has_prefix ((x # l) @ s) (c # p)" by (auto simp: has_prefix_def)
  then show ?case using Cons by (cases "str_index s (c # p)") simp_all
qed

lemma line_prefix: "c \<notin> set l \<Longrightarrow> c \<notin> set p \<Longrightarrow> has_prefix (l @ c # u) (p @ [c]) \<longleftrightarrow> l = p"
proof (induction l arbitrary: p)
  case Nil
  then show ?case by (cases p) (auto simp: has_prefix_def)
next
  case (Cons x l)
  then show ?case by (cases p) (auto simp: has_prefix_def)
qed

lemma split_char_no: "w \<in> set (split_char c s) \<Longrightarrow> c \<notin> set w"
proof (induction s arbitrary: w)
  case (Cons x xs)
  then show ?case by (cases "x = c"; cases "split_char c xs") auto
qed simp

lemma split_char_ne [simp]: "split_char c s \<noteq> []"
  by (induction c s rule: split_char.induct) (auto split: list.splits)

lemma str_join_Cons: "ws \<noteq> [] \<Longrightarrow> str_join (w # ws) sep = w @ sep @ str_join ws sep"
  by (cases ws) simp_all

lemma join_split: "str_join (split_char c s) [c] = s"
proof (induction c s rule: split_char.induct)
  case (2 c x xs)
  obtain w ws where w: "split_char c xs = w # ws" using split_char_ne by (metis neq_Nil_conv)
  then show ?case using 2 by (cases ws) (auto simp: str_join_Cons)
qed simp

lemma split_char_app: "c \<notin> set l \<Longrightarrow> split_char c (l @ c # s) = l # split_char c s"
  by (induction l) auto

lemma split_char_id: "c \<notin> set l \<Longrightarrow> split_char c l = [l]"
  by (induction l) auto

lemma split_joined: "ls \<noteq> [] \<Longrightarrow> \<forall>l \<in> set ls. c \<notin> set l \<Longrightarrow> split_char c (str_join ls [c]) = ls"
proof (induction ls)
  case (Cons l ls)
  then show ?case by (cases ls) (simp_all add: split_char_id split_char_app)
qed simp

lemma front_end_Cons: "front_end = newline_byte # (''---'' @ [newline_byte])"
  by (simp add: front_end_def)

lemma newline_dash: "newline_byte \<notin> set ''---''"
  by (simp add: newline_byte_def)

lemma joined_line:
  "ls \<noteq> [] \<Longrightarrow> \<exists>u. str_join ls [newline_byte] @ front_end @ b = hd ls @ newline_byte # u"
  by (cases ls; cases "tl ls") (auto simp: front_end_Cons)

lemma index_next_line:
  assumes "newline_byte \<notin> set l" and "ls \<noteq> []" and "newline_byte \<notin> set (hd ls)"
  shows "str_index (str_join (l # ls) [newline_byte] @ front_end @ b) front_end =
    (if hd ls = ''---'' then Some (length l)
     else map_option (\<lambda>n. length l + Suc n) (str_index (str_join ls [newline_byte] @ front_end @ b) front_end))"
proof -
  let ?X = "str_join ls [newline_byte] @ front_end @ b"
  obtain u where u: "?X = hd ls @ newline_byte # u" using joined_line [OF assms(2)] by blast
  have "has_prefix ?X (''---'' @ [newline_byte]) \<longleftrightarrow> hd ls = ''---''"
    unfolding u by (rule line_prefix [OF assms(3) newline_dash])
  then have p: "has_prefix (newline_byte # ?X) front_end \<longleftrightarrow> hd ls = ''---''"
    unfolding front_end_Cons by (simp add: has_prefix_def)
  have "str_index (str_join (l # ls) [newline_byte] @ front_end @ b) front_end
      = map_option ((+) (length l)) (str_index (newline_byte # ?X) front_end)"
    using str_index_skip [OF assms(1), of "newline_byte # ?X" "''---'' @ [newline_byte]"]
    by (simp add: front_end_Cons str_join_Cons [OF assms(2)])
  also have "\<dots> = (if hd ls = ''---'' then Some (length l) else map_option (\<lambda>n. length l + Suc n) (str_index ?X front_end))"
    using p by (simp add: option.map_comp comp_def)
  finally show ?thesis .
qed

lemma index_last_line:
  "newline_byte \<notin> set l \<Longrightarrow> str_index (l @ front_end @ b) front_end = Some (length l)"
proof -
  assume l: "newline_byte \<notin> set l"
  have "str_index (front_end @ b) front_end = Some 0" by (subst front_end_Cons) (simp add: has_prefix_def front_end_Cons)
  then show ?thesis using str_index_skip [OF l, of "front_end @ b" "''---'' @ [newline_byte]"] by (simp add: front_end_Cons)
qed

text \<open>The front matter ends at the first line that is three dashes, other than its own first.\<close>

lemma index_lines:
  "ls \<noteq> [] \<Longrightarrow> \<forall>l \<in> set ls. newline_byte \<notin> set l \<Longrightarrow>
   str_index (str_join ls [newline_byte] @ front_end @ b) front_end = Some (length (str_join ls [newline_byte]))
     \<longleftrightarrow> ''---'' \<notin> set (tl ls)"
proof (induction ls)
  case (Cons l ls)
  show ?case
  proof (cases ls)
    case Nil
    then show ?thesis using Cons.prems index_last_line by simp
  next
    case (Cons l2 ls2)
    have ne: "ls \<noteq> []" "newline_byte \<notin> set (hd ls)" "newline_byte \<notin> set l" using Cons Cons.prems by auto
    have len: "length (str_join (l # ls) [newline_byte]) = length l + Suc (length (str_join ls [newline_byte]))"
      by (simp add: str_join_Cons [OF ne(1)])
    have ih: "str_index (str_join ls [newline_byte] @ front_end @ b) front_end = Some (length (str_join ls [newline_byte]))
        \<longleftrightarrow> ''---'' \<notin> set (tl ls)"
      using Cons.IH [OF ne(1)] Cons.prems by simp
    have "''---'' \<notin> set (tl (l # ls)) \<longleftrightarrow> hd ls \<noteq> ''---'' \<and> ''---'' \<notin> set (tl ls)" using Cons by auto
    then show ?thesis
      unfolding index_next_line [OF ne(3,1,2)] len using ih
      by (cases "str_index (str_join ls [newline_byte] @ front_end @ b) front_end") auto
  qed
qed simp

definition front_text :: "string list \<Rightarrow> string \<Rightarrow> string" where
  "front_text ls b = ''---'' @ [newline_byte] @ str_join ls [newline_byte] @ front_end @ b"

definition front_shape :: "string list \<Rightarrow> bool" where
  "front_shape ls \<longleftrightarrow> ls \<noteq> [] \<and> (\<forall>l \<in> set ls. newline_byte \<notin> set l) \<and> ''---'' \<notin> set (tl ls)"

lemma front_text_cut:
  assumes "front_shape ls"
  shows "str_cut (trim_prefix (front_text ls b) (''---'' @ [newline_byte])) front_end = (str_join ls [newline_byte], b, True)"
proof -
  have t: "trim_prefix (front_text ls b) (''---'' @ [newline_byte]) = str_join ls [newline_byte] @ front_end @ b"
    unfolding front_text_def using trim_prefix_append [of "''---'' @ [newline_byte]"] by simp
  have "str_index (str_join ls [newline_byte] @ front_end @ b) front_end = Some (length (str_join ls [newline_byte]))"
    using assms index_lines [of ls b] by (simp add: front_shape_def)
  then show ?thesis unfolding t by (simp add: str_cut_def)
qed

lemma frontMatter_text:
  "front_shape ls \<Longrightarrow> frontMatter (front_text ls b) =
     (case front_lines 0 [] [] [] ls of Inl e \<Rightarrow> Inl e | Inr (fs, lsts) \<Rightarrow> Inr \<lparr>fmFields = fs, fmLists = lsts, fmBody = trim_space b\<rparr>)"
proof -
  assume ls: "front_shape ls"
  have p: "has_prefix (front_text ls b) (''---'' @ [newline_byte])" by (simp add: front_text_def has_prefix_def)
  have "split_char newline_byte (str_join ls [newline_byte]) = ls" using ls split_joined by (simp add: front_shape_def)
  then show ?thesis unfolding frontMatter_def front_text_cut [OF ls] using p by simp
qed

lemma setFront_text: "front_shape ls \<Longrightarrow> setFront (front_text ls b) kv = front_text (map (set_line kv) ls) b"
proof -
  assume ls: "front_shape ls"
  have "split_char newline_byte (str_join ls [newline_byte]) = ls" using ls split_joined by (simp add: front_shape_def)
  then show ?thesis unfolding setFront_def front_text_cut [OF ls] by (simp add: front_text_def)
qed

lemma frontMatter_lines:
  assumes "frontMatter s = Inr m"
  obtains ls b where "s = front_text ls b" and "front_shape ls" and "\<exists>lsts. front_lines 0 [] [] [] ls = Inr (fmFields m, lsts)"
proof -
  let ?d = "''---'' @ [newline_byte]"
  let ?t = "trim_prefix s ?d"
  obtain head body ok where c: "str_cut ?t front_end = (head, body, ok)" by (metis prod_cases3)
  have pre: "has_prefix s ?d" and ok: "ok" using assms c by (auto simp: frontMatter_def split: if_splits)
  obtain fs lsts where fl: "front_lines 0 [] [] [] (split_char newline_byte head) = Inr (fs, lsts)" "fmFields m = fs"
    using assms c pre ok by (auto simp: frontMatter_def split: sum.splits)
  have s: "s = ?d @ ?t" using pre by (metis append_take_drop_id has_prefix_def trim_prefix_def)
  obtain i where i: "str_index ?t front_end = Some i" "head = take i ?t" "body = drop (i + length front_end) ?t"
    using c ok by (auto simp: str_cut_def split: option.splits)
  have t: "?t = head @ front_end @ body" "i = length head" using str_index_Some [OF i(1)] i(2,3) by auto
  let ?ls = "split_char newline_byte head"
  have j: "str_join ?ls [newline_byte] = head" by (rule join_split)
  have no: "\<forall>l \<in> set ?ls. newline_byte \<notin> set l" using split_char_no by blast
  have "str_index (str_join ?ls [newline_byte] @ front_end @ body) front_end = Some (length (str_join ?ls [newline_byte]))"
    unfolding j using i(1) t by simp
  then have "front_shape ?ls" using index_lines [OF _ no] no by (simp add: front_shape_def)
  moreover have "s = front_text ?ls body" using s t(1) by (simp add: front_text_def j)
  ultimately show ?thesis using that fl by blast
qed

text \<open>A line the rewriting touches is one of a few texts, so the new front matter has the same shape.\<close>

lemma front_shape_map:
  assumes ls: "front_shape ls" and f: "\<And>l. f l = l \<or> newline_byte \<notin> set (f l) \<and> f l \<noteq> ''---''"
  shows "front_shape (map f ls)"
  unfolding front_shape_def
proof (intro conjI ballI notI)
  show "map f ls = [] \<Longrightarrow> False" using ls by (simp add: front_shape_def)
next
  fix l assume "l \<in> set (map f ls)" "newline_byte \<in> set l"
  then obtain k where "k \<in> set ls" "l = f k" "newline_byte \<in> set (f k)" by auto
  then show False using f [of k] ls by (auto simp: front_shape_def)
next
  assume "''---'' \<in> set (tl (map f ls))"
  moreover have "tl (map f ls) = map f (tl ls)" by (rule map_tl [symmetric])
  ultimately have "''---'' \<in> f ` set (tl ls)" by (simp only: list.set_map)
  then obtain k where k: "''---'' = f k" "k \<in> set (tl ls)" by (rule imageE)
  from f [of k] show False
  proof
    assume "f k = k"
    then show False using k ls unfolding front_shape_def by metis
  next
    assume "newline_byte \<notin> set (f k) \<and> f k \<noteq> ''---''"
    then show False using k(1) by simp
  qed
qed

text \<open>What the fields of the result are, line by line: a key's line that every line of that key was replaced by sets its value.\<close>

lemma front_lines_field:
  assumes "front_lines i l fs lsts lins = Inr (fs', lsts')"
    and "\<And>lin k v. lin \<in> set lins \<Longrightarrow> str_cut lin '':'' = (k, v, True) \<Longrightarrow> trim_space k = key \<Longrightarrow> trim_space v = w"
    and "map_of fs key = None \<or> map_of fs key = Some w"
  shows "map_of fs' key = None \<or> map_of fs' key = Some w"
  using assms
proof (induction i l fs lsts lins rule: front_lines.induct)
  case (2 i l fs lsts lin lins)
  obtain k v ok where c: "str_cut lin '':'' = (k, v, ok)" by (metis prod_cases3)
  show ?case
  proof (cases "has_prefix lin ''- '' \<and> l \<noteq> []")
    case True
    then have rec: "front_lines (Suc i) l fs (AList.update l (list_field lsts l @ [trim_space (drop 2 lin)]) lsts) lins = Inr (fs', lsts')"
      using 2(3) by simp
    show ?thesis by (rule 2(1) [OF True rec _ 2(5)]) (rule 2(4), simp_all)
  next
    case False
    then have ok: "ok" "trim_space k \<notin> set (map fst fs)"
      and rec: "front_lines (Suc i) (if trim_space v = [] then trim_space k else []) (fs @ [(trim_space k, trim_space v)]) lsts lins = Inr (fs', lsts')"
      using 2(3) c by (auto split: if_splits)
    have fld: "map_of (fs @ [(trim_space k, trim_space v)]) key = None \<or> map_of (fs @ [(trim_space k, trim_space v)]) key = Some w"
    proof (cases "trim_space k = key")
      case True
      then have "map_of fs key = None" "trim_space v = w" using ok 2(4) [of lin k v] c by (auto simp: map_of_eq_None_iff)
      then show ?thesis using True by (simp add: map_add_def)
    next
      case other: False
      then show ?thesis using 2(5) by (auto simp: map_add_def)
    qed
    have cond: "\<not> (\<not> ok \<or> trim_space k = [] \<or> CHR '' '' \<in> set (trim_space k) \<or> CHR ''-'' \<in> set (trim_space k)
        \<or> trim_space k \<in> set (map fst fs))"
      using 2(3) c False by (auto split: if_splits)
    show ?thesis by (rule 2(2) [OF False c [symmetric] refl cond rec _ fld]) (rule 2(4), simp_all)
  qed
qed simp

end
