(* ===== verification/SaveChecks.thy ===== *)
theory SaveChecks
  imports Specs Registry
begin

text \<open>
  \<^verbatim>\<open>internal/engine/manage_validate.go\<close>: what an admin may save, file by file and as the whole set a task would run
  on, and the compatibility of a changed schema with the built-in's.  The checks of custom tools, servers and
  hooks (custom.go, hookrules.go) and the registration with the runtime are parameters that list problems.
\<close>

section \<open>Names\<close>

text \<open>The expressions \<open>^[a-z][a-z0-9_-]{1,39}$\<close>, \<open>^[a-z][a-z0-9-]{1,39}$\<close> and
  \<open>^[a-z0-9][a-z0-9._-]{0,59}\.(md|json|csv)$\<close>.\<close>

definition name_chars :: "nat \<Rightarrow> char list \<Rightarrow> string \<Rightarrow> bool" where
  "name_chars most extra s \<longleftrightarrow>
     2 \<le> length s \<and> length s \<le> most \<and> lower_letter (hd s) \<and> list_all (\<lambda>c. lower_letter c \<or> is_digit_byte c \<or> c \<in> set extra) s"

definition secret_name_ok :: "string \<Rightarrow> bool" where "secret_name_ok = name_chars 40 ''_-''"
definition skill_name_ok :: "string \<Rightarrow> bool" where "skill_name_ok = name_chars 40 ''-''"

definition skill_file_name_ok :: "string \<Rightarrow> bool" where
  "skill_file_name_ok s \<longleftrightarrow>
     list_ex (\<lambda>ext. has_suffix s ext \<and>
        (let b = take (length s - length ext) s in
         b \<noteq> [] \<and> length b \<le> 60 \<and> (lower_letter (hd b) \<or> is_digit_byte (hd b))
         \<and> list_all (\<lambda>c. lower_letter c \<or> is_digit_byte c \<or> c \<in> set ''._-'') b)) [''.md'', ''.json'', ''.csv'']"

section \<open>Problems\<close>

type_synonym problem = "string \<times> string"

text \<open>The first case of a Go switch that applies.\<close>

fun first_case :: "(bool \<times> string) list \<Rightarrow> string option" where
  "first_case [] = None"
| "first_case ((b, m) # cs) = (if b then Some m else first_case cs)"

definition switch :: "string \<Rightarrow> (bool \<times> string) list \<Rightarrow> problem list" where
  "switch f cs = (case first_case cs of Some m \<Rightarrow> [(f, m)] | None \<Rightarrow> [])"

definition maxPromptBytes :: int where "maxPromptBytes = 65536"
definition maxSkillBody :: int where "maxSkillBody = 32768"
definition maxSkillFile :: int where "maxSkillFile = 65536"
definition maxSkillFiles :: int where "maxSkillFiles = 16"
definition maxSubagentTurns :: int where "maxSubagentTurns = 32"
definition maxToolTurns :: int where "maxToolTurns = 10000"
definition maxSkillDescBytes :: int where "maxSkillDescBytes = 200"
definition maxDescBytes :: int where "maxDescBytes = 4096"
definition maxVisible :: int where "maxVisible = 24"

definition knownKeys :: "string \<Rightarrow> (string \<times> string) list \<Rightarrow> string list \<Rightarrow> problem list" where
  "knownKeys f fds known = map (\<lambda>k. (f, ''front matter: unknown key '' @ quoted k)) (filter (\<lambda>k. k \<notin> set known) (map fst fds))"

definition validatePack :: "string \<Rightarrow> string \<Rightarrow> problem list" where
  "validatePack f s =
     (case frontMatter s of
        Inl e \<Rightarrow> [(f, e)]
      | Inr m \<Rightarrow>
          (let v = field (fmFields m) in
           knownKeys f (fmFields m) [''code'', ''status'', ''reviewedBy'', ''checklist'']
           @ switch f
               [(v ''code'' \<noteq> trim_suffix (path_base f) ''.md'', ''code: must stay the file's''),
                (v ''status'' \<noteq> ''candidate'' \<and> v ''status'' \<noteq> ''reviewed'', ''status: candidate or reviewed''),
                (v ''status'' = ''reviewed'' \<and> v ''reviewedBy'' = [], ''status reviewed needs reviewedBy: the lawyer who reviewed it''),
                (fmBody m = [], ''the body (after the front matter) is empty''),
                (int (length s) > maxPromptBytes, ''over 64 KiB'')]))"

text \<open>\<open>json_ok\<close> is \<^verbatim>\<open>json.Valid\<close>.\<close>

definition validateSkillFile :: "(string \<Rightarrow> bool) \<Rightarrow> string \<Rightarrow> string \<Rightarrow> string \<Rightarrow> problem list" where
  "validateSkillFile json_ok f name s =
     (if path_dir f \<noteq> skillsDir @ name then [(f, ''a skill's files sit in its directory, one level'')]
      else if path_base f \<noteq> ''SKILL.md'' then
        switch f
          [(\<not> skill_file_name_ok (path_base f), ''a reference file is named in lower-case letters, digits, . _ - and ends .md, .json or .csv''),
           (int (length s) > maxSkillFile, ''a reference file is at most 64 KiB''),
           (has_suffix (path_base f) ''.json'' \<and> \<not> json_ok s, ''not well-formed JSON'')]
      else case frontMatter s of
          Inl e \<Rightarrow> [(f, e)]
        | Inr m \<Rightarrow>
            (let v = field (fmFields m) in
             knownKeys f (fmFields m) [''name'', ''description'', ''status'', ''reviewedBy'', ''tools'']
             @ switch f
                 [(v ''name'' \<noteq> name, ''name: must be the skill's directory''),
                  (v ''description'' = [] \<or> int (length (v ''description'')) > maxSkillDescBytes, ''description: one line of 1 to 200 bytes (the brief lists it)''),
                  (v ''status'' \<noteq> ''candidate'' \<and> v ''status'' \<noteq> ''reviewed'', ''status: candidate or reviewed''),
                  (v ''status'' = ''reviewed'' \<and> v ''reviewedBy'' = [], ''status reviewed needs reviewedBy: the lawyer who reviewed it''),
                  (fmBody m = [] \<or> int (length (fmBody m)) > maxSkillBody, ''the body (the instructions) is 1 byte to 32 KiB''),
                  (int (length (list_field (fmLists m) ''tools'')) > maxVisible, ''tools: at most 24'')]
             @ (if v ''tools'' \<noteq> [] then [(f, ''tools: a list, one line each'')] else [])))"

definition control_char_rune :: "rune \<Rightarrow> bool" where
  "control_char_rune r \<longleftrightarrow> r < 32 \<or> 127 \<le> r \<and> r < 160"

definition validateDescription :: "string \<Rightarrow> string \<Rightarrow> problem list" where
  "validateDescription f d =
     switch f
       [(int (length d) > maxDescBytes, ''description: over 4 KiB (every prompt that offers it carries it)''),
        (list_ex (\<lambda>(r, w). r \<noteq> 10 \<and> (control_char_rune r \<or> is_format_rune r)) (runes_of d),
         ''description: no control or format characters (bidi overrides, zero-width marks) but line breaks'')]"

definition schema_problems :: "string \<Rightarrow> string \<Rightarrow> schema option \<Rightarrow> problem list" where
  "schema_problems f n raw =
     (case Compile raw of
        Inl e \<Rightarrow> [(f, n @ '': not a schema of the subset'')]
      | Inr c \<Rightarrow> (case strict_schema n c of Some e \<Rightarrow> [(f, n @ '': not strict-shaped'')] | None \<Rightarrow> []))"

definition subagent_named :: "string \<Rightarrow> spec" where
  "subagent_named n = \<lparr>Name = n, Kind = ''subagent'', Description = [], In = None, Out = None, Class = [], MaxTurns = 0, Allowed = [],
     Role = [], Solo = [], Final = False\<rparr>"

definition validateSpec :: "decoders \<Rightarrow> files \<Rightarrow> string \<Rightarrow> string \<Rightarrow> problem list" where
  "validateSpec dc builtin f s =
     (case dcStrictSpec dc s of
        Inl e \<Rightarrow> [(f, ''not one well-formed spec object: '' @ e)]
      | Inr sp \<Rightarrow>
          (let was = (case map_of builtin f of
                 Some b \<Rightarrow> (case dcSpec dc b of Inr w \<Rightarrow> w | Inl e \<Rightarrow> subagent_named (Name sp))
               | None \<Rightarrow> subagent_named (Name sp)) in
           switch f
             [(Name sp \<noteq> fileStem f, ''name: must stay the file's (Go and the other specs call it by name)''),
              (Kind sp \<noteq> Kind was, ''kind: must stay (Go implements it as one)''),
              (Final sp \<noteq> Final was, ''final: must stay (only finish may end the run)''),
              (Solo sp \<noteq> Solo was, ''solo: must stay''),
              (Kind sp = ''subagent'' \<and> (MaxTurns sp < 1 \<or> MaxTurns sp > maxSubagentTurns), ''maxTurns: a subagent's is 1 to 32''),
              (Kind sp \<noteq> ''subagent'' \<and> (MaxTurns sp < 0 \<or> MaxTurns sp > maxToolTurns), ''maxTurns: a Go tool's is 0 to 10000''),
              (Kind sp \<noteq> ''subagent'' \<and> (Role sp \<noteq> [] \<or> Allowed sp \<noteq> []), ''role and allowed are a subagent's only''),
              (Kind sp = ''subagent'' \<and> Class sp = ''free'' \<and> Class was \<noteq> ''free'', ''class: free is the figure reader's and judge's only'')]
           @ validateDescription f (Description sp)
           @ schema_problems f ''in'' (In sp) @ schema_problems f ''out'' (Out sp)))"

section \<open>Compatibility with what Go reads and writes\<close>

definition enumSet :: "(json \<Rightarrow> string) \<Rightarrow> json list option \<Rightarrow> string list" where
  "enumSet marshal e = (case e of None \<Rightarrow> [] | Some vs \<Rightarrow> sort (remdups (map marshal vs)))"

function compatSchema :: "(json \<Rightarrow> string) \<Rightarrow> string \<Rightarrow> schema \<Rightarrow> schema \<Rightarrow> bool \<Rightarrow> string list" where
  "compatSchema marshal loc a b goWrites =
     (if sort (types_of a) \<noteq> sort (types_of b) then [loc @ '': Go reads or writes this field; it cannot be retyped'']
      else
        (if enumSet marshal (Enum a) \<noteq> enumSet marshal (Enum b) then [loc @ '': Go branches on this field's values; its enum cannot change''] else [])
        @ concat (map (\<lambda>n. case map_of (Properties a) n of
                 None \<Rightarrow> []
               | Some p \<Rightarrow>
                   (case map_of (Properties b) n of
                      None \<Rightarrow> [loc @ ''.'' @ n @ '': Go reads or writes this field; it cannot be removed or renamed'']
                    | Some q \<Rightarrow> compatSchema marshal (loc @ ''.'' @ n) p q goWrites)) (json_keys (Properties a)))
        @ (if goWrites
           then map (\<lambda>n. loc @ ''.'' @ n @ '': Go writes this object and has no value for a new field'')
                  (filter (\<lambda>n. map_of (Properties a) n = None) (json_keys (Properties b)))
           else [])
        @ (case Items a of
             None \<Rightarrow> []
           | Some i \<Rightarrow>
               (case Items b of
                  Some j \<Rightarrow> compatSchema marshal (loc @ ''[]'') i j goWrites
                | None \<Rightarrow> [loc @ '': Go reads or writes its items; they cannot be removed''])))"
  by pat_completeness auto
termination
  by (relation "measure (\<lambda>(marshal, loc, a, b, w). size a)") (auto simp: schema_size_items schema_size_lookup)

declare compatSchema.simps [simp del]

text \<open>What Go sends as written: the \<open>sent\<close> inputs of the table of names.\<close>

definition sentInputs :: "(string \<times> json) list" where
  "sentInputs = [(''committee'', JObj []), (''finish'', JObj [(''op'', JStr ''submit''), (''limitations'', JNull)]), (''cover'', JObj [])]"

definition compatSpec :: "decoders \<Rightarrow> string \<Rightarrow> string \<Rightarrow> string list" where
  "compatSpec dc old cur =
     (case (dcSpec dc old, dcSpec dc cur) of
        (Inr was, Inr now) \<Rightarrow>
          (let pair = (\<lambda>n ra rb w. case (Compile ra, Compile rb) of
                 (Inr a, Inr b) \<Rightarrow> compatSchema (dcMarshal dc) n a b w
               | _ \<Rightarrow> []) in
           pair ''in'' (In was) (In now) (needs (Name was) GoWrites)
           @ pair ''out'' (Out was) (Out now) (Kind was \<noteq> ''subagent'')
           @ (case Compile (In now) of
                Inl e \<Rightarrow> []
              | Inr c \<Rightarrow>
                  map (\<lambda>m. ''in: a built-in example no longer validates'') (filter (\<lambda>m. Validate c m \<noteq> None) (dcExamples dc (Description was)))
                  @ (case map_of sentInputs (Name was) of
                       None \<Rightarrow> []
                     | Some x \<Rightarrow> if Validate c (Some x) \<noteq> None then [''in: Go calls '' @ Name was @ '' with an input which no longer validates''] else [])))
      | _ \<Rightarrow> [])"

section \<open>A save's files\<close>

record save_checks =
  scBuiltin :: files
  scDec :: decoders
  scJsonOk :: "string \<Rightarrow> bool"
  scFileProblems :: "string \<Rightarrow> string \<Rightarrow> string list"
  scSetProblems :: "spec_set \<Rightarrow> problem list"

definition sorted_names :: "files \<Rightarrow> string list" where
  "sorted_names fs = sort (map fst fs)"

text \<open>The files an item an admin creates must have, for the kinds that fix them.\<close>

definition created_files :: "string \<Rightarrow> string \<Rightarrow> string list option" where
  "created_files kind name =
     map_of [(''agent'', [agentsDir @ name @ ''.json'', agentsDir @ name @ ''.md'']), (''tool'', [toolsDir @ name @ ''.json'']),
       (''server'', [serversDir @ name @ ''.json'']), (''rule'', [hooksDir @ name @ ''.json''])] kind"

definition file_set_problems :: "files \<Rightarrow> string \<Rightarrow> files \<Rightarrow> problem list" where
  "file_set_problems builtin it fs =
     (let kind = kind_of it; name = name_of it; want = itemFiles builtin it in
      (if kind \<noteq> ''skill'' \<and> want \<noteq> [] \<and> fs \<noteq> [] \<and> sorted_names fs \<noteq> want
       then [([], ''the files must be exactly the item's own'')] else [])
      @ (if want = [] \<and> fs \<noteq> [] then
           (case created_files kind name of
              Some need \<Rightarrow> if sorted_names fs \<noteq> need then [([], ''a new item is exactly its kind's files'')] else []
            | None \<Rightarrow> [])
           @ (if kind \<noteq> ''skill'' \<and> kind \<noteq> ''server'' \<and> \<not> tool_name_ok name
              then [([], ''a name is 2 to 64 lower-case letters, digits and _, starting with a letter'')] else [])
           @ (if name \<in> set reservedNames then [([], quoted name @ '' is reserved'')] else [])
           @ (if kind = ''server'' \<and> \<not> secret_name_ok name
              then [([], ''a server's name is 2 to 40 lower-case letters, digits, _ and -, starting with a letter'')] else [])
         else [])
      @ (if kind = ''skill'' \<and> fs \<noteq> [] \<and> skillsDir @ name @ ''/SKILL.md'' \<notin> set (map fst fs)
         then [([], ''a skill needs its SKILL.md (front matter and instructions)'')] else [])
      @ (if kind = ''skill'' \<and> int (length fs) > maxSkillFiles + 1 then [([], ''a skill has at most 16 reference files'')] else []))"

text \<open>One file of the save.\<close>

definition one_file_problems :: "save_checks \<Rightarrow> string \<Rightarrow> string \<times> string \<Rightarrow> problem list" where
  "one_file_problems sc it fs =
     (case fs of (f, s) \<Rightarrow>
       let kind = kind_of it; name = name_of it in
       if itemOf f \<noteq> it then [(f, ''not one of its item's files'')]
       else if \<not> valid_utf8 s \<or> CHR 0x00 \<in> set s then [(f, ''not UTF-8 text'')]
       else if kind = ''skill'' then validateSkillFile (scJsonOk sc) f name s
       else if has_prefix f toolsDir \<or> has_prefix f serversDir \<or> has_prefix f hooksDir then map (Pair f) (scFileProblems sc f s)
       else if kind = ''pack'' then validatePack f s
       else if has_suffix f ''.md'' then
         (if trim_space s = [] \<or> int (length s) > maxPromptBytes then [(f, ''a prompt is 1 byte to 64 KiB of text'')] else [])
       else
         validateSpec (scDec sc) (scBuiltin sc) f s
         @ (case map_of (scBuiltin sc) f of Some b \<Rightarrow> map (Pair f) (compatSpec (scDec sc) b s) | None \<Rightarrow> []))"

section \<open>The whole set\<close>

text \<open>\<^verbatim>\<open>skillCallable\<close> of manage.go.\<close>

definition skillCallable :: "spec_set \<Rightarrow> string list" where
  "skillCallable s =
     sort (remdups ((if ''use_skill'' \<in> set (leadVisible s) then leadVisible s else [])
       @ concat (map (\<lambda>(n, sp). if ''use_skill'' \<in> set (Allowed sp) then Allowed sp else []) (stSpecs s))))"

text \<open>A tool the lead alone may call: it ends the run, or has calls that stand alone in a lead turn.\<close>

definition lead_only :: "files \<Rightarrow> spec_set \<Rightarrow> string \<Rightarrow> string \<Rightarrow> bool" where
  "lead_only builtin s n a \<longleftrightarrow>
     (case map_of (stSpecs s) a of
        None \<Rightarrow> False
      | Some t \<Rightarrow> Final t \<or> Solo t \<noteq> [] \<and> (agentsDir @ n @ ''.json'' \<notin> set (map fst builtin) \<or> \<not> needs a SubagentOK))"

definition set_problems :: "save_checks \<Rightarrow> spec_set \<Rightarrow> problem list" where
  "set_problems sc s =
     (if int (length (stSkills s)) > maxSkills then [([], ''at most 40 skills: the brief lists every one'')] else [])
     @ (if int (length (skillIndex s)) > maxSkillIndex then [([], ''the skills' names and descriptions take too many bytes of the brief'')] else [])
     @ concat (map (\<lambda>(n, t). case ctServer t of
            None \<Rightarrow> []
          | Some v \<Rightarrow> if v \<notin> set (map fst (stServers s)) then [(toolsDir @ n @ ''.json'', ''mcp.server: '' @ quoted v @ '' is not a saved MCP server'')] else [])
          (stTools s))
     @ concat (map (\<lambda>(n, sp). if Kind sp = ''subagent''
            then map (\<lambda>a. (agentsDir @ n @ ''.json'', ''allowed: '' @ quoted a @ '' is the lead's own'')) (filter (lead_only (scBuiltin sc) s n) (Allowed sp))
            else []) (stSpecs s))
     @ concat (map (\<lambda>k. map (\<lambda>t. (skillsDir @ skName k @ ''/SKILL.md'', ''tools: '' @ quoted t @ '' is not a tool use_skill's callers may call''))
            (filter (\<lambda>t. t \<notin> set (skillCallable s)) (skTools k))) (stSkills s))
     @ scSetProblems sc s"

text \<open>\<^verbatim>\<open>validate\<close>: no problem means the save may be stored.\<close>

definition save_files :: "snapshot \<Rightarrow> string \<Rightarrow> files" where
  "save_files snap it = (case map_of snap it of Some (v, fs) \<Rightarrow> fs | None \<Rightarrow> [])"

definition validate_save :: "save_checks \<Rightarrow> snapshot \<Rightarrow> string \<Rightarrow> problem list" where
  "validate_save sc snap it =
     (let fs = save_files snap it;
          ps = file_set_problems (scBuiltin sc) it fs @ concat (map (one_file_problems sc it) (sort_key fst fs)) in
      if ps \<noteq> [] then ps
      else case newSpecs (scDec sc) (scBuiltin sc) snap of
          Inl e \<Rightarrow> [([], e)]
        | Inr s \<Rightarrow> set_problems sc s)"

section \<open>Go still reads what a saved schema accepts\<close>

definition type_reads :: "schema \<Rightarrow> json \<Rightarrow> bool" where
  "type_reads a v \<longleftrightarrow> types_of a = [] \<or> typeOf v \<in> set (types_of a) \<or> typeOf v = ''integer'' \<and> ''number'' \<in> set (types_of a)"

text \<open>The fields Go decodes by a schema are there, at their places and of their types; others may be added.\<close>

inductive go_reads :: "schema \<Rightarrow> json \<Rightarrow> bool" where
  scalar: "type_reads a v \<Longrightarrow> (\<And>xs. v \<noteq> JArr xs) \<Longrightarrow> (\<And>kvs. v \<noteq> JObj kvs) \<Longrightarrow> go_reads a v"
| array: "type_reads a (JArr xs) \<Longrightarrow> (\<And>i x. Items a = Some i \<Longrightarrow> x \<in> set xs \<Longrightarrow> go_reads i x) \<Longrightarrow> go_reads a (JArr xs)"
| object: "type_reads a (JObj kvs) \<Longrightarrow>
     (\<And>n p. map_of (Properties a) n = Some p \<Longrightarrow> \<exists>x. map_of kvs n = Some x \<and> go_reads p x) \<Longrightarrow> go_reads a (JObj kvs)"

inductive_cases go_reads_objE: "go_reads a (JObj kvs)"

lemma json_keys_iff: "n \<in> set (json_keys ps) \<longleftrightarrow> (\<exists>p. map_of ps n = Some p)"
proof -
  have "set (json_keys ps) = fst ` set ps" by (simp add: json_keys_def)
  then show ?thesis by (metis domD domI dom_map_of_conv_image_fst)
qed

lemma strict_props:
  assumes "strict_schema loc b = None"
  shows "map_of (Properties b) n = Some p \<Longrightarrow> n \<in> set (Required b) \<and> (\<exists>loc'. strict_schema loc' p = None)"
    and "Items b = Some i \<Longrightarrow> \<exists>loc'. strict_schema loc' i = None"
proof -
  note all = assms [unfolded strict_schema.simps [of loc b]]
  have loop: "first_error (\<lambda>n. if n \<notin> set (Required b) then Some (NotRequired (loc @ ''.'' @ n))
      else (case map_of (Properties b) n of None \<Rightarrow> None | Some p \<Rightarrow> strict_schema (loc @ ''.'' @ n) p)) (json_keys (Properties b)) = None"
    using all by (simp split: if_splits option.splits)
  show "n \<in> set (Required b) \<and> (\<exists>loc'. strict_schema loc' p = None)" if "map_of (Properties b) n = Some p"
    using loop that json_keys_iff [of n "Properties b"] by (fastforce simp: first_error_None split: if_splits option.splits)
  show "\<exists>loc'. strict_schema loc' i = None" if "Items b = Some i"
    using all that by (auto split: if_splits option.splits)
qed

lemma compat_parts:
  assumes "compatSchema marshal loc a b w = []"
  shows "set (types_of a) = set (types_of b)" and "types_of a = [] \<longleftrightarrow> types_of b = []"
    and "map_of (Properties a) n = Some p \<Longrightarrow> \<exists>q. map_of (Properties b) n = Some q \<and> compatSchema marshal (loc @ ''.'' @ n) p q w = []"
    and "Items a = Some i \<Longrightarrow> \<exists>j. Items b = Some j \<and> compatSchema marshal (loc @ ''[]'') i j w = []"
proof -
  note all = assms [unfolded compatSchema.simps [of marshal loc a b w]]
  have t: "sort (types_of a) = sort (types_of b)" using all by (simp split: if_splits)
  then show "set (types_of a) = set (types_of b)" by (metis set_sort)
  show "types_of a = [] \<longleftrightarrow> types_of b = []" using t by (metis length_0_conv length_sort)
  show "\<exists>q. map_of (Properties b) n = Some q \<and> compatSchema marshal (loc @ ''.'' @ n) p q w = []" if "map_of (Properties a) n = Some p"
    using all t that json_keys_iff [of n "Properties a"] by (fastforce split: option.splits)
  show "\<exists>j. Items b = Some j \<and> compatSchema marshal (loc @ ''[]'') i j w = []" if "Items a = Some i"
    using all t that by (auto split: option.splits)
qed

lemma compat_reads:
  "compatSchema marshal loc a b w = [] \<Longrightarrow> strict_schema loc' b = None \<Longrightarrow> conforms b v \<Longrightarrow> go_reads a v"
proof (induction a arbitrary: loc b loc' v rule: measure_induct_rule [of size])
  case (less a)
  note parts = compat_parts [OF less.prems(1)]
  have "type_ok b v" using conforms_enum_type [OF less.prems(3)] by simp
  then have "type_reads b v" by (auto simp: type_ok_def type_reads_def types_of_def split: option.splits)
  then have t: "type_reads a v" using parts(1,2) by (simp add: type_reads_def)
  show ?case
  proof (cases v)
    case (JArr xs)
    have "go_reads i x" if i: "Items a = Some i" and x: "x \<in> set xs" for i x
    proof -
      obtain j where j: "Items b = Some j" "compatSchema marshal (loc @ ''[]'') i j w = []" using parts(4) [OF i] by blast
      moreover obtain l where "strict_schema l j = None" using strict_props(2) [OF less.prems(2) j(1)] by blast
      moreover have "conforms j x" using less.prems(3) JArr j(1) x by (simp add: conforms_arr_iff)
      ultimately show ?thesis using less.IH [OF schema_size_items [OF i]] by blast
    qed
    then show ?thesis using t JArr by (auto intro: go_reads.array)
  next
    case (JObj kvs)
    have "\<exists>x. map_of kvs n = Some x \<and> go_reads p x" if p: "map_of (Properties a) n = Some p" for n p
    proof -
      obtain q where q: "map_of (Properties b) n = Some q" "compatSchema marshal (loc @ ''.'' @ n) p q w = []" using parts(3) [OF p] by blast
      obtain l where l: "n \<in> set (Required b)" "strict_schema l q = None" using strict_props(1) [OF less.prems(2) q(1)] by blast
      have obj: "set (Required b) \<subseteq> fst ` set kvs" "\<forall>k p x. map_of (Properties b) k = Some p \<longrightarrow> map_of kvs k = Some x \<longrightarrow> conforms p x"
        using less.prems(3) unfolding JObj by (auto simp: conforms_obj_iff)
      obtain x where x: "map_of kvs n = Some x" using obj(1) l(1) by (metis domD dom_map_of_conv_image_fst subsetD)
      then have "conforms q x" using obj(2) q(1) by blast
      then show ?thesis using x less.IH [OF schema_size_lookup [OF p] q(2) l(2)] by blast
    qed
    then show ?thesis using t JObj by (auto intro: go_reads.object)
  qed (use t in \<open>auto intro: go_reads.scalar\<close>)
qed

lemma switch_none: "switch f cs = [] \<Longrightarrow> first_case cs = None"
  by (simp add: switch_def split: option.splits)

text \<open>C26. Go reads every answer and every input that a saved spec lets through: when a built-in spec's new version is
  accepted, a value its schema validates still has each field the built-in schema has, at its place and of its type,
  however the admin rearranged, bounded or added to the rest.\<close>

theorem saved_schema_stays_readable:
  assumes "validateSpec dc builtin f s = []" and "compatSpec dc b s = []"
    and "dcSpec dc b = Inr was" and "dcStrictSpec dc s = Inr now" and "dcSpec dc s = Inr now"
    and "Compile (In was) = Inr in1" and "Compile (Out was) = Inr out1"
  shows "\<exists>in2 out2. Compile (In now) = Inr in2 \<and> Compile (Out now) = Inr out2
     \<and> (\<forall>v. Validate in2 (Some v) = None \<longrightarrow> go_reads in1 v) \<and> (\<forall>v. Validate out2 (Some v) = None \<longrightarrow> go_reads out1 v)"
proof -
  have "schema_problems f ''in'' (In now) = []" "schema_problems f ''out'' (Out now) = []"
    using assms(1,4) by (simp_all add: validateSpec_def Let_def)
  then obtain in2 out2 where c: "Compile (In now) = Inr in2" "strict_schema ''in'' in2 = None"
    "Compile (Out now) = Inr out2" "strict_schema ''out'' out2 = None"
    by (auto simp: schema_problems_def split: sum.splits option.splits)
  have k: "compatSchema (dcMarshal dc) ''in'' in1 in2 (needs (Name was) GoWrites) = []"
    "compatSchema (dcMarshal dc) ''out'' out1 out2 (Kind was \<noteq> ''subagent'') = []"
    using assms(2,3,5-7) c by (simp_all add: compatSpec_def Let_def)
  have "go_reads in1 v" if "Validate in2 (Some v) = None" for v
    using compat_reads [OF k(1) c(2)] that by (simp add: Validate_def validate_conforms)
  moreover have "go_reads out1 v" if "Validate out2 (Some v) = None" for v
    using compat_reads [OF k(2) c(4)] that by (simp add: Validate_def validate_conforms)
  ultimately show ?thesis using c by blast
qed

text \<open>A subagent whose answer gains a field.\<close>

definition demo_leaf :: "string \<Rightarrow> schema" where
  "demo_leaf t = Schema (Some [t]) [] [] None None None None None None None None None"

definition demo_object :: "(string \<times> schema) list \<Rightarrow> schema" where
  "demo_object ps = Schema (Some [''object'']) ps (map fst ps) (Some False) None None None None None None None None"

definition demo_out :: schema where "demo_out = demo_object [(''a'', demo_leaf ''string'')]"
definition demo_wider :: schema where "demo_wider = demo_object [(''b'', demo_leaf ''number''), (''a'', demo_leaf ''string'')]"

definition demo_sub_spec :: "schema \<Rightarrow> spec" where
  "demo_sub_spec out = (subagent_named ''x'')\<lparr>In := Some demo_out, Out := Some out, MaxTurns := 1\<rparr>"

definition demo_spec_dec :: decoders where
  "demo_spec_dec = \<lparr>dcTool = (\<lambda>s. Inl []), dcServer = (\<lambda>s. Inl []), dcRule = (\<lambda>s. Inl []),
     dcSpec = (\<lambda>s. Inr (demo_sub_spec (if s = ''o'' then demo_out else demo_wider))), dcStrictSpec = (\<lambda>s. Inr (demo_sub_spec demo_wider)),
     dcExamples = (\<lambda>s. []), dcMarshal = (\<lambda>v. []), dcSchema = (\<lambda>r. None), dcRemoteOut = None\<rparr>"

lemma saved_schema_stays_readable_witness:
  "go_reads demo_out (JObj [(''b'', JNum ''1''), (''a'', JStr ''t'')])"
proof -
  have "validateSpec demo_spec_dec [(''x.json'', ''o'')] ''x.json'' ''n'' = []" by code_simp
  moreover have "compatSpec demo_spec_dec ''o'' ''n'' = []" by code_simp
  moreover have "dcSpec demo_spec_dec ''o'' = Inr (demo_sub_spec demo_out)" "dcStrictSpec demo_spec_dec ''n'' = Inr (demo_sub_spec demo_wider)"
    "dcSpec demo_spec_dec ''n'' = Inr (demo_sub_spec demo_wider)" by (simp_all add: demo_spec_dec_def)
  moreover have c: "Compile (In (demo_sub_spec demo_out)) = Inr demo_out" "Compile (Out (demo_sub_spec demo_out)) = Inr demo_out" by code_simp+
  ultimately obtain out2 where out2: "Compile (Out (demo_sub_spec demo_wider)) = Inr out2" "\<forall>v. Validate out2 (Some v) = None \<longrightarrow> go_reads demo_out v"
    using saved_schema_stays_readable [of demo_spec_dec "[(''x.json'', ''o'')]" "''x.json''" "''n''" "''o''"] by blast
  have "Compile (Out (demo_sub_spec demo_wider)) = Inr demo_wider" by code_simp
  then have "out2 = demo_wider" using out2(1) by simp
  moreover have "Validate demo_wider (Some (JObj [(''b'', JNum ''1''), (''a'', JStr ''t'')])) = None" by code_simp
  ultimately show ?thesis using out2(2) by blast
qed

end
