(* ===== verification/Manage.thy ===== *)
theory Manage
  imports SaveChecks
begin

text \<open>
  \<^verbatim>\<open>internal/engine/manage.go\<close>: admins' edits as versions of items.  The table \<^verbatim>\<open>spec_versions\<close> is a list of rows in
  the order they were inserted; every operation runs under one lock in one transaction, so it is a function of the
  table.  Secrets' origins and the checks of the other theories' parameters are given to each operation.
\<close>

section \<open>The table\<close>

record version_row = spec_version +
  vrAction :: string
  vrFrom :: int
  vrRestored :: "int option"
  vrAuthor :: string
  vrNote :: string

type_synonym spec_table = "version_row list"

datatype manage_error = NoItem string | Stale string | Refused "problem list"

definition invalid :: "string \<Rightarrow> string \<Rightarrow> manage_error" where
  "invalid f m = Refused [(f, m)]"

definition plain_rows :: "spec_table \<Rightarrow> spec_version list" where
  "plain_rows vs = map spec_version.truncate vs"

definition latest_version :: "spec_table \<Rightarrow> string \<Rightarrow> int" where
  "latest_version vs it = (case latest (plain_rows vs) it of None \<Rightarrow> 0 | Some v \<Rightarrow> svVersion v)"

text \<open>\<^verbatim>\<open>current\<close>: the snapshot a task submitted now would take.\<close>

definition current :: "spec_table \<Rightarrow> snapshot" where
  "current vs = snapshot_of (plain_rows vs)"

text \<open>\<^verbatim>\<open>loadable\<close>: the set without the overrides that do not load, and why they do not.\<close>

definition loads_alone :: "save_checks \<Rightarrow> string \<times> int \<times> files \<Rightarrow> string option" where
  "loads_alone sc o1 = (case newSpecs (scDec sc) (scBuiltin sc) [o1] of Inl e \<Rightarrow> Some e | Inr s \<Rightarrow> None)"

definition broken_items :: "save_checks \<Rightarrow> snapshot \<Rightarrow> (string \<times> string) list" where
  "broken_items sc snap =
     (case newSpecs (scDec sc) (scBuiltin sc) snap of
        Inr s \<Rightarrow> []
      | Inl e \<Rightarrow>
          (let bad = List.map_filter (\<lambda>ov. map_option (Pair (fst ov)) (loads_alone sc ov)) snap;
               good = filter (\<lambda>ov. loads_alone sc ov = None) snap in
           case newSpecs (scDec sc) (scBuiltin sc) good of
             Inr s \<Rightarrow> bad
           | Inl e' \<Rightarrow> bad @ map (\<lambda>ov. (fst ov, e')) good))"

definition brokenSet :: "save_checks \<Rightarrow> snapshot \<Rightarrow> string \<Rightarrow> string \<Rightarrow> manage_error" where
  "brokenSet sc snap it err =
     (case filter (\<lambda>(i, why). i \<noteq> it) (broken_items sc snap) of
        [] \<Rightarrow> invalid [] err
      | bad \<Rightarrow> invalid [] (''the latest version of '' @ str_join (sort (map fst bad)) '', '' @ '' does not load: revert it in Manage (History) first''))"

definition currentSpecs :: "save_checks \<Rightarrow> spec_table \<Rightarrow> (manage_error, spec_set) result" where
  "currentSpecs sc vs =
     (case newSpecs (scDec sc) (scBuiltin sc) (current vs) of
        Inl e \<Rightarrow> Inl (brokenSet sc (current vs) [] e)
      | Inr s \<Rightarrow> Inr s)"

text \<open>The snapshot with one item's override replaced.\<close>

definition snapshot_put :: "string \<Rightarrow> int \<Rightarrow> files \<Rightarrow> snapshot \<Rightarrow> snapshot" where
  "snapshot_put it v fs snap = AList.update it (v, fs) snap"

section \<open>What may not be deleted\<close>

definition undeletable :: "string \<Rightarrow> manage_error option" where
  "undeletable it =
     (let kind = kind_of it; name = name_of it in
      if kind \<in> {''prompt'', ''pass'', ''pack''}
      then Some (invalid [] (it @ '' is part of the engine's workflow: edit or revert it; it cannot be deleted''))
      else if kind \<in> {''agent'', ''tool''} \<and> goDepends name \<noteq> []
      then Some (invalid [] (it @ '' cannot be deleted or disabled: '' @ goDepends name @ ''. Edit or revert it instead''))
      else None)"

definition revertRefused :: "files \<Rightarrow> string \<Rightarrow> files option \<Rightarrow> manage_error option" where
  "revertRefused builtin it fs =
     (if fs \<noteq> Some [] then None
      else case undeletable it of
          Some e \<Rightarrow> Some e
        | None \<Rightarrow>
            if \<not> has_prefix it ''skill.'' \<and> itemFiles builtin it \<noteq> []
            then Some (invalid [] (it @ '' is built in: it cannot be deleted; revert it to a version that has its files''))
            else None)"

section \<open>The review rule\<close>

definition skill_md :: string where "skill_md = ''SKILL.md''"

definition is_head :: "string \<Rightarrow> string \<Rightarrow> bool" where
  "is_head kind f \<longleftrightarrow> kind = ''pack'' \<or> path_base f = skill_md"

text \<open>The last file the loop takes for the head.\<close>

definition head_file :: "string \<Rightarrow> files \<Rightarrow> string option" where
  "head_file kind fs = (case filter (is_head kind) (map fst fs) of [] \<Rightarrow> None | hs \<Rightarrow> Some (last hs))"

definition review_fields :: "(string \<times> string) list" where
  "review_fields = [(''status'', []), (''reviewedBy'', [])]"

text \<open>The item less its review fields, in a fixed order.\<close>

definition review_content :: "string \<Rightarrow> files \<Rightarrow> string" where
  "review_content hd_file fs =
     concat (map (\<lambda>f. f @ [CHR 0x00] @ (if f = hd_file then setFront (file_text fs f) review_fields else file_text fs f) @ [CHR 0x00])
       (sorted_names fs))"

definition front_fields :: "string \<Rightarrow> (string \<times> string) list" where
  "front_fields s = (case frontMatter s of Inl e \<Rightarrow> [] | Inr m \<Rightarrow> fmFields m)"

definition candidate_fields :: "(string \<times> string) list" where
  "candidate_fields = [(''status'', ''candidate''), (''reviewedBy'', [])]"

definition reviewRule :: "string \<Rightarrow> files \<Rightarrow> files \<Rightarrow> (manage_error, string list \<times> files) result" where
  "reviewRule kind old fs =
     (if kind \<noteq> ''pack'' \<and> kind \<noteq> ''skill'' then Inr ([], fs)
      else case head_file kind fs of
          None \<Rightarrow> Inr ([], fs)
        | Some h \<Rightarrow>
            (case frontMatter (file_text fs h) of
               Inl e \<Rightarrow> Inl (invalid h e)
             | Inr m \<Rightarrow>
                 (let v = field (fmFields m); was = field (front_fields (file_text old h)) in
                  if old \<noteq> [] \<and> review_content h old = review_content h fs then Inr ([], fs)
                  else if v ''reviewedBy'' \<noteq> [] \<and> v ''reviewedBy'' \<noteq> was ''reviewedBy'' then Inr ([], fs)
                  else if v ''status'' = ''candidate'' \<and> v ''reviewedBy'' = [] then Inr ([], fs)
                  else Inr ([path_base (path_dir h) @ ''/'' @ path_base h @ '': ''
                        @ (if old = [] then ''it is new and names no reviewer'' else ''its content changed and no new reviewer was named'')
                        @ '', so its status is candidate''],
                      AList.update h (setFront (file_text fs h) candidate_fields) fs))))"

section \<open>Whose text a tool shows\<close>

text \<open>\<^verbatim>\<open>DisplayName\<close>: an author's name without the email or the subject.\<close>

definition strip_label :: "string \<Rightarrow> string \<Rightarrow> string \<Rightarrow> string option" where
  "strip_label op1 cl label =
     (case str_last_index label op1 of
        Some i \<Rightarrow> if 0 < i \<and> has_suffix label cl then Some (take i label) else None
      | None \<Rightarrow> None)"

definition at_signs :: "string list" where
  "at_signs = [''@'', [CHR 0xEF, CHR 0xBC, CHR 0xA0], [CHR 0xEF, CHR 0xB9, CHR 0xAB], ''%40'']"

definition DisplayName :: "string \<Rightarrow> string" where
  "DisplayName label =
     (let l = (case strip_label '' <'' ''>'' label of
                 Some s \<Rightarrow> s
               | None \<Rightarrow> (case strip_label '' ('' '')'' label of Some s \<Rightarrow> s | None \<Rightarrow> label)) in
      case List.map_filter (str_index l) at_signs of
        [] \<Rightarrow> l
      | i # ix \<Rightarrow> (let n = trim_space (take (fold min ix i) l) in if n = [] then ''a user'' else n))"

text \<open>One file of \<^verbatim>\<open>acceptRule\<close>: the tool as it is kept, when the rule rewrites it.\<close>

definition no_import :: imported where "no_import = \<lparr>imText = [], imAcceptedBy = []\<rparr>"

definition accept_tool :: "(raw_message \<Rightarrow> raw_message \<Rightarrow> bool) \<Rightarrow> string \<Rightarrow> custom_tool option \<Rightarrow> custom_tool \<Rightarrow> custom_tool option" where
  "accept_tool json_eq author was t =
     (case ctImported t of
        None \<Rightarrow> None
      | Some im \<Rightarrow>
          (let prev = (case was of Some w \<Rightarrow> (case ctImported w of Some p \<Rightarrow> p | None \<Rightarrow> no_import) | None \<Rightarrow> no_import);
               same_in = (case was of Some w \<Rightarrow> json_eq (ctIn t) (ctIn w) | None \<Rightarrow> False) in
           if imAcceptedBy im \<noteq> [] \<and> imAcceptedBy im \<noteq> imAcceptedBy prev then
             (if imAcceptedBy im = author then None else Some (t\<lparr>ctImported := Some (im\<lparr>imAcceptedBy := author\<rparr>)\<rparr>))
           else if imAcceptedBy im \<noteq> [] \<and> (imText im \<noteq> imText prev \<or> \<not> same_in)
           then Some (t\<lparr>ctImported := Some (im\<lparr>imAcceptedBy := []\<rparr>), ctEnabled := False\<rparr>)
           else None))"

definition tool_at :: "decoders \<Rightarrow> files \<Rightarrow> string \<Rightarrow> custom_tool option" where
  "tool_at dc fs f =
     (case map_of fs f of
        None \<Rightarrow> None
      | Some s \<Rightarrow> (case dcTool dc s of Inl e \<Rightarrow> None | Inr t \<Rightarrow> Some t))"

text \<open>The loop returns at the first tool it disables.  \<open>encode\<close> is \<^verbatim>\<open>json.MarshalIndent\<close> of a tool read from a file.\<close>

fun acceptRule ::
    "decoders \<Rightarrow> (raw_message \<Rightarrow> raw_message \<Rightarrow> bool) \<Rightarrow> (string \<Rightarrow> custom_tool \<Rightarrow> string) \<Rightarrow> files \<Rightarrow> string \<Rightarrow> string list \<Rightarrow> files
     \<Rightarrow> string list \<times> files" where
  "acceptRule dc json_eq encode old author [] fs = ([], fs)"
| "acceptRule dc json_eq encode old author (f # todo) fs =
     (case (if has_prefix f toolsDir then Option.bind (tool_at dc fs f) (accept_tool json_eq author (tool_at dc old f)) else None) of
        None \<Rightarrow> acceptRule dc json_eq encode old author todo fs
      | Some t \<Rightarrow>
          (let fs' = AList.update f (encode (file_text fs f) t @ [newline_byte]) fs in
           if (case ctImported t of Some im \<Rightarrow> imAcceptedBy im = [] | None \<Rightarrow> False)
           then ([path_base f @ '': its server's text changed and this save accepts no new text, so it is disabled until an admin accepts it''], fs')
           else acceptRule dc json_eq encode old author todo fs'))"

section \<open>Secrets stay with their origin\<close>

definition remoteOf :: "decoders \<Rightarrow> string \<Rightarrow> string \<Rightarrow> remote_auth option" where
  "remoteOf dc f s =
     (if has_prefix f toolsDir then (case dcTool dc s of Inr t \<Rightarrow> ctHttp t | Inl e \<Rightarrow> None)
      else if has_prefix f serversDir then (case dcServer dc s of Inr v \<Rightarrow> Some (msAuth v) | Inl e \<Rightarrow> None)
      else if has_prefix f hooksDir then (case dcRule dc s of Inr r \<Rightarrow> hrWebhook r | Inl e \<Rightarrow> None)
      else None)"

text \<open>\<open>secrets\<close> gives the origin a secret is set for; \<open>origin\<close> is \<^verbatim>\<open>originOf\<close>.\<close>

definition origin_problem :: "decoders \<Rightarrow> (string \<Rightarrow> string) \<Rightarrow> (string \<Rightarrow> string option) \<Rightarrow> string \<times> string \<Rightarrow> manage_error option" where
  "origin_problem dc origin secrets fs =
     (case remoteOf dc (fst fs) (snd fs) of
        None \<Rightarrow> None
      | Some a \<Rightarrow>
          if raSecret a = [] then None
          else (case secrets (raSecret a) of
              None \<Rightarrow> None
            | Some o1 \<Rightarrow>
                if o1 \<noteq> origin (raUrl a)
                then Some (invalid (fst fs) (''secret: '' @ quoted (raSecret a) @ '' is set for another origin; it is never sent to another origin''))
                else None))"

definition secretOrigins :: "decoders \<Rightarrow> (string \<Rightarrow> string) \<Rightarrow> (string \<Rightarrow> string option) \<Rightarrow> files \<Rightarrow> manage_error option" where
  "secretOrigins dc origin secrets fs = first_error (origin_problem dc origin secrets) (sort_key fst fs)"

section \<open>Saving, reverting, deleting\<close>

record manage_env =
  meChecks :: save_checks
  meJsonEq :: "raw_message \<Rightarrow> raw_message \<Rightarrow> bool"
  meEncode :: "string \<Rightarrow> custom_tool \<Rightarrow> string"
  meOrigin :: "string \<Rightarrow> string"
  meSecrets :: "string \<Rightarrow> string option"

definition lastContent :: "files \<Rightarrow> spec_table \<Rightarrow> string \<Rightarrow> files" where
  "lastContent builtin vs it =
     (case latest (plain_rows (filter (\<lambda>r. svFiles r \<noteq> Some []) vs)) it of
        Some v \<Rightarrow> (case svFiles v of Some fs \<Rightarrow> fs | None \<Rightarrow> fileMap builtin it)
      | None \<Rightarrow> fileMap builtin it)"

definition same_files :: "files \<Rightarrow> files \<Rightarrow> bool" where
  "same_files a b \<longleftrightarrow> list_all (\<lambda>f. map_of a f = map_of b f) (map fst a @ map fst b)"

definition truncate_text :: "nat \<Rightarrow> string \<Rightarrow> string" where
  "truncate_text n s =
     (if rune_count s > n
      then concat (map (\<lambda>(r, w). encode_rune r) (take (n - 1) (runes_of s))) @ [CHR 0xE2, CHR 0x80, CHR 0xA6] else s)"

definition insertVersion ::
    "string \<Rightarrow> int \<Rightarrow> string \<Rightarrow> files option \<Rightarrow> int \<Rightarrow> int option \<Rightarrow> string \<Rightarrow> string \<Rightarrow> spec_table \<Rightarrow> (manage_error, version_row) result \<times> spec_table" where
  "insertVersion it n action fs base restored author note vs =
     (if list_ex (\<lambda>r. svItem r = it \<and> svVersion r = n) vs then (Inl (Stale it), vs)
      else let r = \<lparr>svItem = it, svVersion = n, svFiles = fs, vrAction = action, vrFrom = base, vrRestored = restored,
                vrAuthor = author, vrNote = truncate_text 2000 (trim_space note)\<rparr> in
        (Inr r, vs @ [r]))"

record save_in =
  siBase :: int
  siFiles :: files
  siNote :: string

definition creatable :: "string list" where
  "creatable = [''skill'', ''agent'', ''tool'', ''server'', ''rule'']"

text \<open>The guards of \<^verbatim>\<open>save\<close> before the files are looked at: whether the item exists, its action, its base.\<close>

definition save_guard :: "save_checks \<Rightarrow> spec_table \<Rightarrow> string \<Rightarrow> save_in \<Rightarrow> bool \<Rightarrow> manage_error option" where
  "save_guard sc vs it si ex =
     (if \<not> ex \<and> kind_of it \<notin> set creatable \<and> latest (plain_rows vs) it = None \<and> itemFiles (scBuiltin sc) it = []
      then Some (NoItem it)
      else if siBase si \<noteq> latest_version vs it then Some (Stale it)
      else if siFiles si = [] \<and> ex \<and> undeletable it \<noteq> None then undeletable it
      else if siFiles si = [] \<and> ex \<and> itemFiles (scBuiltin sc) it \<noteq> []
      then Some (invalid [] (it @ '' is built in: a save keeps its files''))
      else if kind_of it = ''skill'' \<and> \<not> ex \<and> \<not> skill_name_ok (name_of it)
      then Some (invalid [] ''a skill's name is 2 to 40 lower-case letters, digits and -, starting with a letter'')
      else None)"

definition save_action :: "string \<Rightarrow> bool \<Rightarrow> string" where
  "save_action it ex = (if \<not> ex \<and> kind_of it \<in> set creatable then ''create'' else ''save'')"

text \<open>What a save's files are reviewed against.\<close>

definition prior_files :: "save_checks \<Rightarrow> spec_table \<Rightarrow> string \<Rightarrow> bool \<Rightarrow> files \<Rightarrow> files" where
  "prior_files sc vs it ex old = (if \<not> ex \<and> latest_version vs it > 0 then lastContent (scBuiltin sc) vs it else old)"

text \<open>The files after the review and the acceptance rules.\<close>

definition ruled_files :: "manage_env \<Rightarrow> spec_table \<Rightarrow> string \<Rightarrow> save_in \<Rightarrow> string \<Rightarrow> bool \<Rightarrow> files \<Rightarrow> (manage_error, string list \<times> files) result" where
  "ruled_files e vs it si author ex old =
     (case reviewRule (kind_of it) (prior_files (meChecks e) vs it ex old) (siFiles si) of
        Inl err \<Rightarrow> Inl err
      | Inr (notes, fs) \<Rightarrow>
          if kind_of it = ''tool'' then
            (case acceptRule (scDec (meChecks e)) (meJsonEq e) (meEncode e) old (DisplayName author) (map fst fs) fs of
               (added, fs') \<Rightarrow> Inr (notes @ added, fs'))
          else Inr (notes, fs))"

definition save :: "manage_env \<Rightarrow> string \<Rightarrow> save_in \<Rightarrow> string \<Rightarrow> spec_table \<Rightarrow> (manage_error, version_row \<times> string list) result \<times> spec_table" where
  "save e it si author vs =
     (let sc = meChecks e in
      case currentSpecs sc vs of
        Inl err \<Rightarrow> (Inl err, vs)
      | Inr before \<Rightarrow>
          (let ex = itemFiles (stFiles before) it \<noteq> []; old = fileMap (stFiles before) it in
           case save_guard sc vs it si ex of
             Some err \<Rightarrow> (Inl err, vs)
           | None \<Rightarrow>
               (case ruled_files e vs it si author ex old of
                  Inl err \<Rightarrow> (Inl err, vs)
                | Inr (notes, fs) \<Rightarrow>
                    if save_action it ex = ''create'' \<and> fs = [] then (Inl (invalid [] ''a new item needs its files''), vs)
                    else if same_files old fs
                    then (Inl (invalid [] ''nothing changed: the files are the version new tasks already run on''), vs)
                    else (case validate_save sc (snapshot_put it (siBase si + 1) fs (current vs)) it of
                        p # ps \<Rightarrow> (Inl (Refused (p # ps)), vs)
                      | [] \<Rightarrow>
                          (case secretOrigins (scDec sc) (meOrigin e) (meSecrets e) fs of
                             Some err \<Rightarrow> (Inl err, vs)
                           | None \<Rightarrow>
                               (case insertVersion it (siBase si + 1) (save_action it ex) (Some fs) (latest_version vs it) None author (siNote si) vs of
                                  (Inl err, vs') \<Rightarrow> (Inl err, vs')
                                | (Inr v, vs') \<Rightarrow> (Inr (v, notes), vs')))))))"

text \<open>\<open>n = 0\<close> is the built-in.\<close>

definition versionFiles :: "spec_table \<Rightarrow> string \<Rightarrow> nat \<Rightarrow> files option option" where
  "versionFiles vs it n = map_option svFiles (find (\<lambda>r. svItem r = it \<and> svVersion r = int n) vs)"

definition revert_files :: "files \<Rightarrow> spec_table \<Rightarrow> string \<Rightarrow> nat \<Rightarrow> files option option" where
  "revert_files builtin vs it n =
     map_option (\<lambda>fs. if fs = None \<and> itemFiles builtin it = [] then Some [] else fs)
       (if n > 0 then versionFiles vs it n else Some None)"

definition snapshot_with :: "string \<Rightarrow> int \<Rightarrow> files option \<Rightarrow> snapshot \<Rightarrow> snapshot" where
  "snapshot_with it v fs snap = (case fs of None \<Rightarrow> AList.delete it snap | Some f \<Rightarrow> snapshot_put it v f snap)"

definition revert :: "manage_env \<Rightarrow> string \<Rightarrow> nat \<Rightarrow> int \<Rightarrow> string \<Rightarrow> string \<Rightarrow> spec_table \<Rightarrow> (manage_error, version_row) result \<times> spec_table" where
  "revert e it n base note author vs =
     (let sc = meChecks e in
      if latest (plain_rows vs) it = None then (Inl (NoItem it), vs)
      else if base \<noteq> latest_version vs it then (Inl (Stale it), vs)
      else case revert_files (scBuiltin sc) vs it n of
          None \<Rightarrow> (Inl (NoItem it), vs)
        | Some fs \<Rightarrow>
            (case revertRefused (scBuiltin sc) it fs of
               Some err \<Rightarrow> (Inl err, vs)
             | None \<Rightarrow>
                 (case validate_save sc (snapshot_with it (base + 1) fs (current vs)) it of
                    p # ps \<Rightarrow> (Inl (Refused (p # ps)), vs)
                  | [] \<Rightarrow> insertVersion it (base + 1) ''revert'' fs base (Some (int n)) author note vs)))"

definition delete_item :: "manage_env \<Rightarrow> string \<Rightarrow> int \<Rightarrow> string \<Rightarrow> string \<Rightarrow> spec_table \<Rightarrow> (manage_error, version_row) result \<times> spec_table" where
  "delete_item e it base note author vs =
     (let sc = meChecks e in
      case undeletable it of
        Some err \<Rightarrow> (Inl err, vs)
      | None \<Rightarrow>
          (case currentSpecs sc vs of
             Inl err \<Rightarrow> (Inl err, vs)
           | Inr s \<Rightarrow>
               if itemFiles (stFiles s) it = [] then (Inl (NoItem it), vs)
               else if kind_of it = ''agent'' \<and> \<not> has_prefix (hd (itemFiles (stFiles s) it)) agentsDir
               then (Inl (invalid [] (it @ '' is not a subagent'')), vs)
               else if base \<noteq> latest_version vs it then (Inl (Stale it), vs)
               else (case validate_save sc (snapshot_put it (base + 1) [] (current vs)) it of
                   p # ps \<Rightarrow> (Inl (Refused (p # ps)), vs)
                 | [] \<Rightarrow> insertVersion it (base + 1) ''delete'' (Some []) base None author note vs)))"

section \<open>Histories\<close>

text \<open>The tables admins can reach; secrets may be set and moved between operations.  A save brings a Go map of files.\<close>

inductive managed :: "save_checks \<Rightarrow> spec_table \<Rightarrow> bool" for sc where
  none: "managed sc []"
| saved: "managed sc vs \<Longrightarrow> meChecks e = sc \<Longrightarrow> distinct (map fst (siFiles si)) \<Longrightarrow>
     save e it si author vs = (Inr (v, notes), vs') \<Longrightarrow> managed sc vs'"
| reverted: "managed sc vs \<Longrightarrow> meChecks e = sc \<Longrightarrow> revert e it n base note author vs = (Inr v, vs') \<Longrightarrow> managed sc vs'"
| deleted: "managed sc vs \<Longrightarrow> meChecks e = sc \<Longrightarrow> delete_item e it base note author vs = (Inr v, vs') \<Longrightarrow> managed sc vs'"

end
