(* ===== verification/ManageProofs.thy ===== *)
theory ManageProofs
  imports Manage
begin

text \<open>
  What admins' edits cannot do: the history of an item is a chain of versions each edited from the one before, what
  Go needs keeps its files, every stored set passed the checks of the whole set, and no reviewer is named for content
  they did not review, but for a skill with a second SKILL.md.
\<close>

section \<open>The latest version\<close>

definition item_rows :: "spec_table \<Rightarrow> string \<Rightarrow> spec_table" where
  "item_rows vs it = filter (\<lambda>r. svItem r = it) vs"

definition chained :: "spec_table \<Rightarrow> bool" where
  "chained vs \<longleftrightarrow>
     (\<forall>it. map svVersion (item_rows vs it) = map int [1..<Suc (length (item_rows vs it))]) \<and> (\<forall>r \<in> set vs. vrFrom r = svVersion r - 1)"

lemma plain_rows_snoc [simp]: "plain_rows (vs @ [r]) = plain_rows vs @ [spec_version.truncate r]"
  by (simp add: plain_rows_def)

lemma truncate_simps [simp]:
  "svItem (spec_version.truncate r) = svItem r"
  "svVersion (spec_version.truncate r) = svVersion r"
  "svFiles (spec_version.truncate r) = svFiles r"
  by (simp_all add: spec_version.truncate_def)

lemma latest_snoc:
  "latest (rs @ [v]) it =
     (if svItem v \<noteq> it then latest rs it
      else case latest rs it of None \<Rightarrow> Some v | Some w \<Rightarrow> if svVersion w < svVersion v then Some v else Some w)"
  by (simp add: latest_def split: option.split)

lemma latest_item: "latest rs it = Some v \<Longrightarrow> svItem v = it \<and> v \<in> set rs"
  by (induction rs arbitrary: v rule: rev_induct) (auto simp: latest_snoc latest_def split: if_splits option.splits)

lemma latest_none: "latest rs it = None \<longleftrightarrow> it \<notin> svItem ` set rs"
  by (induction rs rule: rev_induct) (auto simp: latest_snoc latest_def split: option.splits)

text \<open>A row whose version is past the latest becomes the latest.\<close>

lemma latest_append:
  assumes "svVersion r > latest_version vs (svItem r)"
  shows "latest (plain_rows (vs @ [r])) it = (if svItem r = it then Some (spec_version.truncate r) else latest (plain_rows vs) it)"
  using assms by (auto simp: latest_snoc latest_version_def split: option.splits)

lemma snapshot_map:
  "map_of (snapshot_of rs) it =
     (case latest rs it of None \<Rightarrow> None | Some v \<Rightarrow> (case svFiles v of Some fs \<Rightarrow> Some (svVersion v, fs) | None \<Rightarrow> None))"
proof -
  let ?f = "\<lambda>i. case latest rs i of
      Some v \<Rightarrow> (case svFiles v of Some fs \<Rightarrow> Some (i, svVersion v, fs) | None \<Rightarrow> None) | None \<Rightarrow> None"
  have m: "map_of (List.map_filter ?f is) it = (if it \<in> set is then map_option snd (?f it) else None)" for "is"
    by (induction "is") (auto simp: List.map_filter_simps split: option.splits)
  have "it \<in> set (remdups (map svItem rs)) \<longleftrightarrow> latest rs it \<noteq> None" by (simp add: latest_none)
  then show ?thesis unfolding snapshot_of_def m by (auto split: option.splits)
qed

lemma snapshot_distinct: "distinct (map fst (snapshot_of rs))"
proof -
  let ?f = "\<lambda>i. case latest rs i of
      Some v \<Rightarrow> (case svFiles v of Some fs \<Rightarrow> Some (i, svVersion v, fs) | None \<Rightarrow> None) | None \<Rightarrow> None"
  have "map fst (List.map_filter ?f is) = filter (\<lambda>i. ?f i \<noteq> None) is" for "is"
    by (induction "is") (auto simp: List.map_filter_simps split: option.splits)
  then show ?thesis by (simp add: snapshot_of_def)
qed

lemma current_map:
  "map_of (current vs) it =
     (case latest (plain_rows vs) it of
        None \<Rightarrow> None | Some v \<Rightarrow> (case svFiles v of Some fs \<Rightarrow> Some (svVersion v, fs) | None \<Rightarrow> None))"
  by (simp add: current_def snapshot_map)

lemma current_distinct: "distinct (map fst (current vs))"
  by (simp add: current_def snapshot_distinct)

lemma snapshot_with_distinct: "distinct (map fst snap) \<Longrightarrow> distinct (map fst (snapshot_with it v fs snap))"
  by (simp add: snapshot_with_def snapshot_put_def distinct_update distinct_delete split: option.split)

lemma snapshot_with_map:
  "map_of (snapshot_with it v fs snap) = (map_of snap)(it := map_option (Pair v) fs)"
  by (auto simp: snapshot_with_def snapshot_put_def update_conv' delete_conv' split: option.split)

text \<open>The snapshot after a row is the one that was checked before it was stored.\<close>

lemma current_append:
  assumes "svVersion r > latest_version vs (svItem r)"
  shows "set (current (vs @ [r])) = set (snapshot_with (svItem r) (svVersion r) (svFiles r) (current vs))"
proof -
  have "map_of (current (vs @ [r])) = map_of (snapshot_with (svItem r) (svVersion r) (svFiles r) (current vs))"
  proof
    fix it
    show "map_of (current (vs @ [r])) it = map_of (snapshot_with (svItem r) (svVersion r) (svFiles r) (current vs)) it"
      unfolding snapshot_with_map current_map latest_append [OF assms] by (simp split: option.split)
  qed
  then show ?thesis using map_of_inject_set [OF current_distinct snapshot_with_distinct [OF current_distinct]] by blast
qed

lemma newSpecs_append:
  assumes "svVersion r > latest_version vs (svItem r)"
  shows "newSpecs dc b (current (vs @ [r])) = newSpecs dc b (snapshot_with (svItem r) (svVersion r) (svFiles r) (current vs))"
  by (rule newSpecs_set_eq [OF current_distinct snapshot_with_distinct [OF current_distinct] current_append [OF assms]])

section \<open>What an operation stores\<close>

text \<open>The row an accepted operation appends.\<close>

definition stored :: "save_checks \<Rightarrow> spec_table \<Rightarrow> version_row \<Rightarrow> bool" where
  "stored sc vs r \<longleftrightarrow>
     svVersion r = latest_version vs (svItem r) + 1 \<and> vrFrom r = latest_version vs (svItem r)
     \<and> validate_save sc (snapshot_with (svItem r) (svVersion r) (svFiles r) (current vs)) (svItem r) = []"

lemma insertVersion_ok:
  "insertVersion it n action fs base restored author note vs = (Inr v, vs') \<Longrightarrow>
     vs' = vs @ [v] \<and> svItem v = it \<and> svVersion v = n \<and> svFiles v = fs \<and> vrFrom v = base"
  by (auto simp: insertVersion_def Let_def split: if_splits)

lemma save_stores:
  assumes "save e it si author vs = (Inr (v, notes), vs')"
  obtains before fs where
    "newSpecs (scDec (meChecks e)) (scBuiltin (meChecks e)) (current vs) = Inr before"
    and "save_guard (meChecks e) vs it si (itemFiles (stFiles before) it \<noteq> []) = None"
    and "ruled_files e vs it si author (itemFiles (stFiles before) it \<noteq> []) (fileMap (stFiles before) it) = Inr (notes, fs)"
    and "\<not> (save_action it (itemFiles (stFiles before) it \<noteq> []) = ''create'' \<and> fs = [])"
    and "\<not> same_files (fileMap (stFiles before) it) fs"
    and "vs' = vs @ [v]" and "svItem v = it" and "svFiles v = Some fs" and "stored (meChecks e) vs v"
proof -
  obtain before where b: "newSpecs (scDec (meChecks e)) (scBuiltin (meChecks e)) (current vs) = Inr before"
    using assms by (auto simp: save_def currentSpecs_def Let_def split: sum.splits)
  let ?ex = "itemFiles (stFiles before) it \<noteq> []"
  let ?old = "fileMap (stFiles before) it"
  have g: "save_guard (meChecks e) vs it si ?ex = None"
    using assms by (auto simp: save_def currentSpecs_def Let_def b split: option.splits)
  obtain n1 fs where r: "ruled_files e vs it si author ?ex ?old = Inr (n1, fs)"
    using assms by (auto simp: save_def currentSpecs_def Let_def b g split: sum.splits)
  have c: "\<not> (save_action it ?ex = ''create'' \<and> fs = [])"
    using assms by (auto simp: save_def currentSpecs_def Let_def b g r split: if_splits)
  have s: "\<not> same_files ?old fs"
    using assms c by (auto simp: save_def currentSpecs_def Let_def b g r split: if_splits)
  have v: "validate_save (meChecks e) (snapshot_put it (siBase si + 1) fs (current vs)) it = []"
    using assms c s by (auto simp: save_def currentSpecs_def Let_def b g r split: if_splits list.splits)
  have o1: "secretOrigins (scDec (meChecks e)) (meOrigin e) (meSecrets e) fs = None"
    using assms c s v by (auto simp: save_def currentSpecs_def Let_def b g r split: if_splits option.splits)
  have i: "insertVersion it (siBase si + 1) (save_action it ?ex) (Some fs) (latest_version vs it) None author (siNote si) vs = (Inr v, vs')
      \<and> n1 = notes"
    using assms c s v o1 by (auto simp: save_def currentSpecs_def Let_def b g r split: if_splits prod.splits sum.splits)
  have base: "siBase si = latest_version vs it" using g by (auto simp: save_guard_def split: if_splits)
  note row = insertVersion_ok [OF i [THEN conjunct1]]
  have "stored (meChecks e) vs v" using row v base by (simp add: stored_def snapshot_with_def)
  then show ?thesis using that [OF b g _ c s] r i row by simp
qed

lemma revert_stores:
  assumes "revert e it n base note author vs = (Inr v, vs')"
  shows "vs' = vs @ [v]" and "svItem v = it" and "stored (meChecks e) vs v"
    and "\<exists>fs. revert_files (scBuiltin (meChecks e)) vs it n = Some fs \<and> svFiles v = fs
      \<and> revertRefused (scBuiltin (meChecks e)) it fs = None"
proof -
  have l: "latest (plain_rows vs) it \<noteq> None" "base = latest_version vs it"
    using assms by (auto simp: revert_def Let_def split: if_splits)
  obtain fs where fs: "revert_files (scBuiltin (meChecks e)) vs it n = Some fs"
    using assms l by (auto simp: revert_def Let_def split: option.splits)
  have rr: "revertRefused (scBuiltin (meChecks e)) it fs = None"
    using assms l fs by (auto simp: revert_def Let_def split: option.splits)
  have val: "validate_save (meChecks e) (snapshot_with it (base + 1) fs (current vs)) it = []"
    using assms l fs rr by (auto simp: revert_def Let_def split: list.splits)
  have "insertVersion it (base + 1) ''revert'' fs base (Some (int n)) author note vs = (Inr v, vs')"
    using assms l fs rr val by (simp add: revert_def Let_def)
  note row = insertVersion_ok [OF this]
  show "vs' = vs @ [v]" and "svItem v = it" using row by simp_all
  show "stored (meChecks e) vs v" using row val l by (simp add: stored_def)
  show "\<exists>fs. revert_files (scBuiltin (meChecks e)) vs it n = Some fs \<and> svFiles v = fs
      \<and> revertRefused (scBuiltin (meChecks e)) it fs = None" using fs rr row by simp
qed

lemma delete_stores:
  assumes "delete_item e it base note author vs = (Inr v, vs')"
  shows "vs' = vs @ [v]" and "svItem v = it" and "stored (meChecks e) vs v" and "svFiles v = Some []" and "undeletable it = None"
proof -
  show u: "undeletable it = None" using assms by (auto simp: delete_item_def Let_def split: option.splits)
  obtain s where s: "currentSpecs (meChecks e) vs = Inr s"
    using assms u by (auto simp: delete_item_def Let_def split: sum.splits)
  have b: "base = latest_version vs it" using assms u s by (auto simp: delete_item_def Let_def split: if_splits)
  have v: "validate_save (meChecks e) (snapshot_put it (base + 1) [] (current vs)) it = []"
    using assms u s by (auto simp: delete_item_def Let_def split: if_splits list.splits)
  have "insertVersion it (base + 1) ''delete'' (Some []) base None author note vs = (Inr v, vs')"
    using assms u s v by (auto simp: delete_item_def Let_def split: if_splits)
  note row = insertVersion_ok [OF this]
  show "vs' = vs @ [v]" and "svItem v = it" and "svFiles v = Some []" using row by simp_all
  show "stored (meChecks e) vs v" using row v b by (simp add: stored_def snapshot_with_def)
qed

section \<open>The rules keep the set of files\<close>

lemma file_text_keys: "map_of fs f = Some t \<Longrightarrow> f \<in> set (map fst fs)"
  by (force dest: map_of_SomeD)

lemma update_existing: "f \<in> set (map fst fs) \<Longrightarrow> map fst (AList.update f t fs) = map fst fs"
  by (simp add: update_keys)

lemma head_file_in: "head_file kind fs = Some h \<Longrightarrow> h \<in> set (map fst fs) \<and> is_head kind h"
proof -
  assume h: "head_file kind fs = Some h"
  let ?hs = "filter (is_head kind) (map fst fs)"
  have hs: "?hs \<noteq> []" "h = last ?hs" using h unfolding head_file_def by (cases ?hs; simp)+
  then have "h \<in> set ?hs" using last_in_set by blast
  then show ?thesis unfolding set_filter by blast
qed

lemma reviewRule_keys: "reviewRule kind old fs = Inr (notes, fs') \<Longrightarrow> map fst fs' = map fst fs"
  using head_file_in
  by (auto simp: reviewRule_def Let_def update_existing split: if_splits option.splits sum.splits)

lemma acceptRule_keys: "acceptRule dc json_eq encode old author todo fs = (notes, fs') \<Longrightarrow> map fst fs' = map fst fs"
proof (induction dc json_eq encode old author todo fs rule: acceptRule.induct)
  case (2 dc json_eq encode old author f todo fs)
  let ?r = "if has_prefix f toolsDir then Option.bind (tool_at dc fs f) (accept_tool json_eq author (tool_at dc old f)) else None"
  show ?case
  proof (cases ?r)
    case None
    then show ?thesis using 2(1) [OF None] 2(3) by simp
  next
    case (Some t)
    then have "tool_at dc fs f \<noteq> None" by (cases "tool_at dc fs f") (simp_all split: if_splits)
    then have f: "f \<in> set (map fst fs)" using file_text_keys by (force simp: tool_at_def split: option.splits)
    let ?fs = "AList.update f (encode (file_text fs f) t @ [newline_byte]) fs"
    show ?thesis
    proof (cases "case ctImported t of Some im \<Rightarrow> imAcceptedBy im = [] | None \<Rightarrow> False")
      case True
      then show ?thesis using 2(3) Some update_existing [OF f] by (auto simp: Let_def)
    next
      case False
      then have "acceptRule dc json_eq encode old author todo ?fs = (notes, fs')" using 2(3) Some by (simp add: Let_def)
      then show ?thesis using 2(2) [OF Some refl False] update_existing [OF f] by simp
    qed
  qed
qed simp

lemma ruled_files_keys: "ruled_files e vs it si author ex old = Inr (notes, fs) \<Longrightarrow> map fst fs = map fst (siFiles si)"
  using reviewRule_keys acceptRule_keys
  by (fastforce simp: ruled_files_def split: sum.splits prod.splits if_splits)

text \<open>Only an item that has no files is left with none, when it may not be deleted.\<close>

definition kept_files :: "save_checks \<Rightarrow> spec_table \<Rightarrow> version_row \<Rightarrow> bool" where
  "kept_files sc vs r \<longleftrightarrow>
     (svFiles r = Some [] \<and> undeletable (svItem r) \<noteq> None \<longrightarrow>
        (\<exists>s. newSpecs (scDec sc) (scBuiltin sc) (current vs) = Inr s \<and> itemFiles (stFiles s) (svItem r) = []))"

definition distinct_files :: "files option \<Rightarrow> bool" where
  "distinct_files fs \<longleftrightarrow> (\<forall>f. fs = Some f \<longrightarrow> distinct (map fst f))"

lemma save_kept:
  assumes "save e it si author vs = (Inr (v, notes), vs')"
  shows "kept_files (meChecks e) vs v"
  using assms
proof (rule save_stores)
  fix s :: spec_set and fs
  let ?ex = "itemFiles (stFiles s) it \<noteq> []"
  assume s: "newSpecs (scDec (meChecks e)) (scBuiltin (meChecks e)) (current vs) = Inr s"
    and g: "save_guard (meChecks e) vs it si ?ex = None"
    and r: "ruled_files e vs it si author ?ex (fileMap (stFiles s) it) = Inr (notes, fs)"
    and v: "svItem v = it" "svFiles v = Some fs"
  have "itemFiles (stFiles s) it = []" if "fs = []" "undeletable it \<noteq> None"
  proof -
    have "siFiles si = []" using ruled_files_keys [OF r] that(1) by simp
    then show ?thesis using g that(2) by (auto simp: save_guard_def split: if_splits)
  qed
  then show ?thesis using s v by (simp add: kept_files_def)
qed

lemma revert_kept:
  assumes "revert e it n base note author vs = (Inr v, vs')"
  shows "kept_files (meChecks e) vs v"
  using revert_stores(2,4) [OF assms] by (auto simp: kept_files_def revertRefused_def split: if_splits option.splits)

lemma delete_kept:
  assumes "delete_item e it base note author vs = (Inr v, vs')"
  shows "kept_files (meChecks e) vs v"
  using delete_stores(2,5) [OF assms] by (simp add: kept_files_def)

lemma revert_files_from:
  assumes "revert_files builtin vs it n = Some (Some fs)"
  shows "fs = [] \<or> (\<exists>r \<in> set vs. svItem r = it \<and> svFiles r = Some fs)"
proof (cases "n > 0")
  case True
  then obtain r where "find (\<lambda>r. svItem r = it \<and> svVersion r = int n) vs = Some r" "fs = [] \<or> svFiles r = Some fs"
    using assms by (auto simp: revert_files_def versionFiles_def split: if_splits)
  then show ?thesis using find_SomeD by fast
next
  case False
  then show ?thesis using assms by (auto simp: revert_files_def split: if_splits)
qed

text \<open>Induction over the tables admins can reach: each adds one checked row.\<close>

lemma managed_induct [consumes 1, case_names start row]:
  assumes "managed sc vs" and "P []"
    and "\<And>vs r. managed sc vs \<Longrightarrow> \<forall>r \<in> set vs. distinct_files (svFiles r) \<Longrightarrow> P vs \<Longrightarrow> stored sc vs r \<Longrightarrow> kept_files sc vs r \<Longrightarrow>
      distinct_files (svFiles r) \<Longrightarrow> P (vs @ [r])"
  shows "P vs \<and> (\<forall>r \<in> set vs. distinct_files (svFiles r))"
  using assms(1)
proof induction
  case none
  then show ?case using assms(2) by simp
next
  case (saved vs e si it author v "notes" vs')
  note ih = saved
  from ih(4) show ?case
  proof (rule save_stores)
    fix s :: spec_set and fs
    assume r: "ruled_files e vs it si author (itemFiles (stFiles s) it \<noteq> []) (fileMap (stFiles s) it) = Inr (notes, fs)"
      and v: "vs' = vs @ [v]" "svFiles v = Some fs" "stored (meChecks e) vs v"
    have "distinct_files (svFiles v)" using ruled_files_keys [OF r] ih(3) v(2) by (simp add: distinct_files_def)
    moreover have "stored sc vs v" "kept_files sc vs v" using v(3) save_kept [OF ih(4)] ih(2) by simp_all
    ultimately have "P (vs @ [v])" using ih(5) by (intro assms(3) [OF ih(1)]) simp_all
    then show ?thesis using ih(5) v(1) \<open>distinct_files (svFiles v)\<close> by simp
  qed
next
  case (reverted vs e it n base "note" author v vs')
  note row = revert_stores [OF reverted(3)]
  have "distinct_files (svFiles v)"
    using row(4) revert_files_from reverted(4) by (fastforce simp: distinct_files_def)
  moreover have "stored sc vs v" "kept_files sc vs v" using row(3) revert_kept [OF reverted(3)] reverted(2) by simp_all
  ultimately have "P (vs @ [v])" using reverted(4) by (intro assms(3) [OF reverted(1)]) simp_all
  then show ?case using reverted(4) row(1) \<open>distinct_files (svFiles v)\<close> by simp
next
  case (deleted vs e it base "note" author v vs')
  note row = delete_stores [OF deleted(3)]
  have "distinct_files (svFiles v)" using row(4) by (simp add: distinct_files_def)
  moreover have "stored sc vs v" "kept_files sc vs v" using row(3) delete_kept [OF deleted(3)] deleted(2) by simp_all
  ultimately have "P (vs @ [v])" using deleted(4) by (intro assms(3) [OF deleted(1)]) simp_all
  then show ?case using deleted(4) row(1) \<open>distinct_files (svFiles v)\<close> by simp
qed

lemma managed_rows: "managed sc vs \<Longrightarrow> \<forall>r \<in> set vs. distinct_files (svFiles r)"
  using managed_induct [of sc vs "\<lambda>_. True"] by simp

lemmas managed_inv = managed_induct [THEN conjunct1, consumes 1, case_names start row]

section \<open>Histories are chains\<close>

lemma item_rows_snoc: "item_rows (vs @ [r]) it = item_rows vs it @ (if svItem r = it then [r] else [])"
  by (simp add: item_rows_def)

lemma chained_snoc:
  "chained (vs @ [r]) \<longleftrightarrow> chained vs \<and> svVersion r = int (Suc (length (item_rows vs (svItem r)))) \<and> vrFrom r = svVersion r - 1"
proof -
  have same: "map svVersion (item_rows (vs @ [r]) it) = map int [1..<Suc (length (item_rows (vs @ [r]) it))]
      \<longleftrightarrow> map svVersion (item_rows vs it) = map int [1..<Suc (length (item_rows vs it))]
        \<and> (svItem r = it \<longrightarrow> svVersion r = int (Suc (length (item_rows vs it))))" for it
    by (cases "svItem r = it") (simp_all add: item_rows_snoc)
  show ?thesis unfolding chained_def same by auto
qed

lemma chained_latest: "chained vs \<Longrightarrow> latest_version vs it = int (length (item_rows vs it))"
proof (induction vs rule: rev_induct)
  case Nil
  then show ?case by (simp add: latest_version_def plain_rows_def latest_def item_rows_def)
next
  case (snoc r vs)
  then have c: "chained vs" "svVersion r = int (Suc (length (item_rows vs (svItem r))))" by (simp_all add: chained_snoc)
  show ?case
  proof (cases "svItem r = it")
    case True
    then have "svVersion r > latest_version vs (svItem r)" using snoc.IH [OF c(1)] c(2) by simp
    from latest_append [OF this, of it] have "latest_version (vs @ [r]) it = svVersion r" using True by (simp add: latest_version_def)
    then show ?thesis using True c(2) by (simp add: item_rows_snoc)
  next
    case False
    then have "latest (plain_rows (vs @ [r])) it = latest (plain_rows vs) it" by (simp add: latest_snoc)
    then have "latest_version (vs @ [r]) it = latest_version vs it" unfolding latest_version_def by (rule arg_cong)
    then show ?thesis using snoc.IH [OF c(1)] False by (simp add: item_rows_snoc)
  qed
qed

lemma managed_chained: "managed sc vs \<Longrightarrow> chained vs"
proof (induction rule: managed_inv)
  case start
  then show ?case by (simp add: chained_def item_rows_def)
next
  case (row vs r)
  then show ?case using chained_latest [OF row(6)] by (simp add: chained_snoc stored_def)
qed

text \<open>An edit made from another version than the latest is refused.\<close>

lemma save_stale: "siBase si \<noteq> latest_version vs it \<Longrightarrow> \<exists>err. save e it si author vs = (Inl err, vs)"
  by (auto simp: save_def Let_def save_guard_def split: sum.split)

lemma revert_stale: "base \<noteq> latest_version vs it \<Longrightarrow> \<exists>err. revert e it n base note author vs = (Inl err, vs)"
  by (auto simp: revert_def Let_def)

lemma delete_stale: "base \<noteq> latest_version vs it \<Longrightarrow> \<exists>err. delete_item e it base note author vs = (Inl err, vs)"
  by (auto simp: delete_item_def Let_def split: sum.split option.split)

text \<open>C24. No edit is lost: the versions of an item are 1, 2, 3 and so on, each edited from the one before it, and an
  edit made from any other version than the latest changes nothing.\<close>

theorem no_edit_is_lost:
  assumes "managed sc vs" and "n = length (filter (\<lambda>r. svItem r = it) vs)"
  shows "map svVersion (filter (\<lambda>r. svItem r = it) vs) = map int [1..<Suc n] \<and> (\<forall>r \<in> set vs. vrFrom r = svVersion r - 1)
     \<and> (\<forall>e si author. siBase si \<noteq> int n \<longrightarrow> (\<exists>err. save e it si author vs = (Inl err, vs)))
     \<and> (\<forall>e k base note author. base \<noteq> int n \<longrightarrow> (\<exists>err. revert e it k base note author vs = (Inl err, vs)))
     \<and> (\<forall>e base note author. base \<noteq> int n \<longrightarrow> (\<exists>err. delete_item e it base note author vs = (Inl err, vs)))"
proof -
  have c: "chained vs" by (rule managed_chained [OF assms(1)])
  then have n: "latest_version vs it = int n" using assms(2) chained_latest by (simp add: item_rows_def)
  have "map svVersion (filter (\<lambda>r. svItem r = it) vs) = map int [1..<Suc n]" and "\<forall>r \<in> set vs. vrFrom r = svVersion r - 1"
    using c assms(2) unfolding chained_def item_rows_def by blast+
  then show ?thesis
    using save_stale [of _ vs it] revert_stale [of _ vs it] delete_stale [of _ vs it] unfolding n by blast
qed

section \<open>Every set a task can run on was checked\<close>

lemma validate_loads:
  assumes "validate_save sc snap it = []"
  shows "\<exists>s. newSpecs (scDec sc) (scBuiltin sc) snap = Inr s \<and> set_problems sc s = []"
proof (cases "newSpecs (scDec sc) (scBuiltin sc) snap")
  case (Inl e)
  then show ?thesis using assms by (simp add: validate_save_def Let_def split: if_splits)
next
  case (Inr s)
  then show ?thesis using assms by (simp add: validate_save_def Let_def split: if_splits)
qed

lemma managed_set_checked:
  assumes "managed sc vs" and "newSpecs (scDec sc) (scBuiltin sc) [] = Inr s0" and "set_problems sc s0 = []"
  shows "\<exists>s. newSpecs (scDec sc) (scBuiltin sc) (current vs) = Inr s \<and> set_problems sc s = []"
  using assms(1)
proof (induction rule: managed_inv)
  case start
  have "current [] = []" by (simp add: current_def plain_rows_def snapshot_of_def List.map_filter_simps)
  then show ?case using assms(2,3) by simp
next
  case (row vs r)
  have "svVersion r > latest_version vs (svItem r)" using row(3) by (simp add: stored_def)
  then have "newSpecs (scDec sc) (scBuiltin sc) (current (vs @ [r]))
      = newSpecs (scDec sc) (scBuiltin sc) (snapshot_with (svItem r) (svVersion r) (svFiles r) (current vs))"
    by (rule newSpecs_append)
  moreover have "validate_save sc (snapshot_with (svItem r) (svVersion r) (svFiles r) (current vs)) (svItem r) = []"
    using row(3) unfolding stored_def by blast
  ultimately show ?case using validate_loads by metis
qed

lemma set_problems_none:
  assumes "set_problems sc s = []"
  shows "int (length (stSkills s)) \<le> maxSkills"
    and "(n, sp) \<in> set (stSpecs s) \<Longrightarrow> Kind sp = ''subagent'' \<Longrightarrow> a \<in> set (Allowed sp) \<Longrightarrow> \<not> lead_only (scBuiltin sc) s n a"
    and "k \<in> set (stSkills s) \<Longrightarrow> w \<in> set (skTools k) \<Longrightarrow> w \<in> set (skillCallable s)"
    and "(n, t) \<in> set (stTools s) \<Longrightarrow> ctServer t = Some v \<Longrightarrow> v \<in> fst ` set (stServers s)"
  using assms by (fastforce simp: set_problems_def filter_empty_conv split: if_splits option.splits)+

text \<open>C25. Whatever admins save, revert and delete, the next task's set loads and is sound: no subagent may call a tool
  that is the lead's alone, a skill points only at tools its readers may call, and an MCP tool's server is in the set.\<close>

theorem next_set_is_sound:
  assumes "managed sc vs" and "newSpecs (scDec sc) (scBuiltin sc) [] = Inr s0" and "set_problems sc s0 = []"
  shows "\<exists>s. newSpecs (scDec sc) (scBuiltin sc) (current vs) = Inr s
     \<and> (\<forall>(n, sp) \<in> set (stSpecs s). Kind sp = ''subagent'' \<longrightarrow> (\<forall>a \<in> set (Allowed sp). \<not> lead_only (scBuiltin sc) s n a))
     \<and> int (length (stSkills s)) \<le> maxSkills \<and> (\<forall>k \<in> set (stSkills s). set (skTools k) \<subseteq> set (skillCallable s))
     \<and> (\<forall>(n, t) \<in> set (stTools s). \<forall>v. ctServer t = Some v \<longrightarrow> v \<in> fst ` set (stServers s))"
proof -
  obtain s where s: "newSpecs (scDec sc) (scBuiltin sc) (current vs) = Inr s" "set_problems sc s = []"
    using managed_set_checked [OF assms] by blast
  show ?thesis using s(1) set_problems_none [OF s(2)] by (intro exI [of _ s] conjI) auto
qed

section \<open>What Go needs keeps its files\<close>

lemma put_files_own: "put_files it ofs fs = Inr fs' \<Longrightarrow> f \<in> fst ` set ofs \<Longrightarrow> itemOf f = it"
  by (induction it ofs fs rule: put_files.induct) (auto split: if_splits)

lemma overlay_own:
  "overlay_files builtin snap fs = Inr fs' \<Longrightarrow> (it, v, ofs) \<in> set snap \<Longrightarrow> f \<in> fst ` set ofs \<Longrightarrow> itemOf f = it"
proof (induction builtin snap fs rule: overlay_files.induct)
  case (2 builtin i w ofs1 rest fs)
  let ?p = "put_files i ofs1 (filter (\<lambda>(f, s). f \<notin> set (itemFiles builtin i)) fs)"
  obtain fs2 where fs2: "?p = Inr fs2" "overlay_files builtin rest fs2 = Inr fs'" using 2(2) by (cases ?p) simp_all
  from 2(3) consider "it = i" "ofs = ofs1" | "(it, v, ofs) \<in> set rest" by auto
  then show ?case
  proof cases
    case 1
    then show ?thesis using put_files_own [OF fs2(1)] 2(4) by simp
  next
    case 2
    then show ?thesis using "2.IH" [OF fs2 2 "2.prems"(3)] by simp
  qed
qed simp

lemma newSpecs_own:
  assumes "newSpecs dc builtin snap = Inr s" and "(it, v, ofs) \<in> set snap" and "f \<in> fst ` set ofs"
  shows "itemOf f = it"
proof -
  obtain fs where "overlay_files builtin (sorted_snapshot snap) builtin = Inr fs"
    using assms(1) by (cases "overlay_files builtin (sorted_snapshot snap) builtin") (simp_all add: newSpecs_def)
  then show ?thesis using overlay_own assms(2,3) by (metis set_sort sorted_snapshot_def)
qed

lemma current_row: "map_of (current vs) it = Some (v, fs) \<Longrightarrow> \<exists>r \<in> set vs. svItem r = it \<and> svFiles r = Some fs"
proof -
  assume "map_of (current vs) it = Some (v, fs)"
  then obtain w where w: "latest (plain_rows vs) it = Some w" "svFiles w = Some fs"
    by (auto simp: current_map split: option.splits)
  then have "svItem w = it" "w \<in> set (plain_rows vs)" using latest_item by auto
  then show ?thesis using w(2) by (auto simp: plain_rows_def)
qed

lemma current_files_distinct:
  assumes "\<forall>r \<in> set vs. distinct_files (svFiles r)"
  shows "\<forall>(it, v, ofs) \<in> set (current vs). distinct (map fst ofs)"
proof (clarify)
  fix it v ofs assume "(it, v, ofs) \<in> set (current vs)"
  then have "map_of (current vs) it = Some (v, ofs)" using current_distinct by simp
  then show "distinct (map fst ofs)" using current_row assms unfolding distinct_files_def by blast
qed

lemma set_has_files:
  assumes s: "newSpecs dc builtin (current vs) = Inr s" and d: "\<forall>r \<in> set vs. distinct_files (svFiles r)"
    and r: "\<forall>r \<in> set vs. svItem r = it \<longrightarrow> svFiles r \<noteq> Some []" and b: "itemFiles builtin it \<noteq> []"
  shows "itemFiles (stFiles s) it \<noteq> []"
proof -
  note files = newSpecs_files [OF s current_distinct current_files_distinct [OF d]]
  have "\<exists>f. itemOf f = it \<and> map_of (stFiles s) f \<noteq> None"
  proof (cases "map_of (current vs) it")
    case None
    obtain f where f: "f \<in> fst ` set builtin" "itemOf f = it" using b itemFiles_empty [of builtin it] by blast
    then have "map_of builtin f \<noteq> None" by (simp only: map_of_keys)
    then show ?thesis using f(2) files [of f] None by auto
  next
    case (Some vf)
    obtain v fs where vf: "vf = (v, fs)" by (cases vf)
    then have "fs \<noteq> []" using current_row Some r by blast
    then obtain f where f: "f \<in> fst ` set fs" by (cases fs) auto
    have "itemOf f = it" using newSpecs_own [OF s map_of_SomeD [OF Some [unfolded vf]] f] .
    moreover have "map_of fs f \<noteq> None" using f by (simp only: map_of_keys)
    ultimately show ?thesis using files [of f] Some vf by auto
  qed
  then obtain f where "itemOf f = it" "f \<in> fst ` set (stFiles s)" by (auto simp only: map_of_keys)
  then show ?thesis using itemFiles_empty [of "stFiles s" it] by blast
qed

lemma needed_rows:
  assumes "managed sc vs" and "undeletable it \<noteq> None" and "itemFiles (scBuiltin sc) it \<noteq> []"
  shows "\<forall>r \<in> set vs. svItem r = it \<longrightarrow> svFiles r \<noteq> Some []"
  using assms(1)
proof (induction rule: managed_inv)
  case (row vs r)
  have "svFiles r \<noteq> Some []" if item: "svItem r = it"
  proof
    assume "svFiles r = Some []"
    then obtain s where "newSpecs (scDec sc) (scBuiltin sc) (current vs) = Inr s" "itemFiles (stFiles s) it = []"
      using row(4) assms(2) unfolding kept_files_def item by blast
    then show False using set_has_files [OF _ row(2) row(6) assms(3)] by blast
  qed
  then show ?case using row(6) by simp
qed simp

text \<open>C23. What Go needs is never left without its files: a prompt, a pass, a pack, or a tool or subagent that Go calls,
  that is built in has its files in the set of the next task, whatever admins save, revert and delete.\<close>

theorem needed_items_keep_files:
  assumes "managed sc vs" and "newSpecs (scDec sc) (scBuiltin sc) [] = Inr s0" and "set_problems sc s0 = []"
    and "kind_of it \<in> {''prompt'', ''pass'', ''pack''} \<or> kind_of it \<in> {''agent'', ''tool''} \<and> goDepends (name_of it) \<noteq> []"
    and "itemFiles (scBuiltin sc) it \<noteq> []"
  shows "\<exists>s. newSpecs (scDec sc) (scBuiltin sc) (current vs) = Inr s \<and> itemFiles (stFiles s) it \<noteq> []"
proof -
  obtain s where s: "newSpecs (scDec sc) (scBuiltin sc) (current vs) = Inr s" using managed_set_checked [OF assms(1-3)] by blast
  have "undeletable it \<noteq> None" using assms(4) by (auto simp: undeletable_def Let_def)
  then show ?thesis using set_has_files [OF s managed_rows [OF assms(1)]] needed_rows [OF assms(1)] assms(5) s by blast
qed

end
