(* ===== verification/Review.thy ===== *)
theory Review
  imports ManageProofs
begin

text \<open>
  The lawyer-review rule of \<^verbatim>\<open>manage.go\<close> over a whole history: a reviewer named in a pack or a skill was named for
  exactly its content, by the built-in files or by a save.  The rule takes one file for the item's head; a skill may
  hold a second SKILL.md (its directory is compared after cleaning), and then it can be evaded.
\<close>

section \<open>The reset\<close>

definition reviewer :: "string \<Rightarrow> string" where
  "reviewer s = field (front_fields s) ''reviewedBy''"

lemma set_line_candidate:
  "set_line candidate_fields lin = lin \<and> (\<forall>k v. str_cut lin '':'' = (k, v, True) \<longrightarrow> trim_space k \<noteq> ''reviewedBy'')
   \<or> set_line candidate_fields lin = ''status: candidate'' \<or> set_line candidate_fields lin = ''reviewedBy:''"
proof -
  obtain k v ok where c: "str_cut lin '':'' = (k, v, ok)" by (metis prod_cases3)
  have s: "trim_right (\<lambda>c. c = CHR '' '') (''status'' @ '': '' @ ''candidate'') = ''status: candidate''" by code_simp
  have r: "trim_right (\<lambda>c. c = CHR '' '') (''reviewedBy'' @ '': '' @ []) = ''reviewedBy:''" by code_simp
  show ?thesis
  proof (cases "ok \<and> (trim_space k = ''status'' \<or> trim_space k = ''reviewedBy'')")
    case True
    then show ?thesis
    proof (cases "trim_space k = ''status''")
      case status: True
      have "map_of candidate_fields (trim_space k) = Some ''candidate''" unfolding status by (simp add: candidate_fields_def)
      then have "set_line candidate_fields lin = trim_right (\<lambda>c. c = CHR '' '') (''status'' @ '': '' @ ''candidate'')"
        unfolding set_line_def c prod.case status using True by simp
      then have "set_line candidate_fields lin = ''status: candidate''" using s by (rule trans)
      then show ?thesis by blast
    next
      case False
      then have rev: "trim_space k = ''reviewedBy''" using True by blast
      have "map_of candidate_fields (trim_space k) = Some []" unfolding rev by (simp add: candidate_fields_def)
      then have "set_line candidate_fields lin = trim_right (\<lambda>c. c = CHR '' '') (''reviewedBy'' @ '': '' @ [])"
        unfolding set_line_def c prod.case rev using True by simp
      then have "set_line candidate_fields lin = ''reviewedBy:''" using r by (rule trans)
      then show ?thesis by blast
    qed
  next
    case False
    have "set_line candidate_fields lin = lin" using False c by (auto simp: set_line_def candidate_fields_def split: option.split)
    moreover have "\<forall>k v. str_cut lin '':'' = (k, v, True) \<longrightarrow> trim_space k \<noteq> ''reviewedBy''" using False c by auto
    ultimately show ?thesis by blast
  qed
qed

lemma set_line_reviewer:
  assumes "str_cut (set_line candidate_fields lin) '':'' = (k, v, True)" and "trim_space k = ''reviewedBy''"
  shows "trim_space v = []"
proof -
  have st: "str_cut ''status: candidate'' '':'' = (''status'', '' candidate'', True)" by code_simp
  have rv: "str_cut ''reviewedBy:'' '':'' = (''reviewedBy'', [], True)" by code_simp
  have ts: "trim_space ''status'' = ''status''" by code_simp
  have tn: "trim_space [] = []" by code_simp
  consider "set_line candidate_fields lin = lin" "\<forall>k v. str_cut lin '':'' = (k, v, True) \<longrightarrow> trim_space k \<noteq> ''reviewedBy''"
    | "set_line candidate_fields lin = ''status: candidate''" | "set_line candidate_fields lin = ''reviewedBy:''"
    using set_line_candidate [of lin] by blast
  then show ?thesis
  proof cases
    case 1
    then show ?thesis using assms by metis
  next
    case 2
    then have "k = ''status''" using assms(1) st by simp
    then show ?thesis using assms(2) ts by simp
  next
    case 3
    then have "v = []" using assms(1) rv by simp
    then show ?thesis using tn by simp
  qed
qed

text \<open>The front matter that the rule resets names no reviewer.\<close>

lemma reset_reviewer:
  assumes "frontMatter s = Inr m"
  shows "reviewer (setFront s candidate_fields) = []"
proof -
  obtain ls b where s: "s = front_text ls b" and ls: "front_shape ls" using frontMatter_lines [OF assms] by blast
  let ?ls = "map (set_line candidate_fields) ls"
  have shape: "front_shape ?ls"
  proof (rule front_shape_map [OF ls])
    fix l
    have "newline_byte \<notin> set ''status: candidate''" "newline_byte \<notin> set ''reviewedBy:''" by (simp_all add: newline_byte_def)
    then show "set_line candidate_fields l = l \<or> newline_byte \<notin> set (set_line candidate_fields l) \<and> set_line candidate_fields l \<noteq> ''---''"
      using set_line_candidate [of l] by auto
  qed
  show ?thesis
  proof (cases "front_lines 0 [] [] [] ?ls")
    case (Inl e)
    then show ?thesis unfolding s setFront_text [OF ls] by (simp add: reviewer_def front_fields_def frontMatter_text [OF shape] field_def)
  next
    case (Inr p)
    obtain fds lsts where p: "p = (fds, lsts)" by (cases p)
    have "map_of fds ''reviewedBy'' = None \<or> map_of fds ''reviewedBy'' = Some []"
    proof (rule front_lines_field [OF Inr [unfolded p]])
      fix lin k v
      assume "lin \<in> set ?ls" "str_cut lin '':'' = (k, v, True)" "trim_space k = ''reviewedBy''"
      then show "trim_space v = []" using set_line_reviewer by auto
    qed simp
    then have "field fds ''reviewedBy'' = []" by (auto simp: field_def)
    then show ?thesis unfolding s setFront_text [OF ls] using Inr p by (simp add: reviewer_def front_fields_def frontMatter_text [OF shape])
  qed
qed

section \<open>What an item is reviewed against\<close>

lemma fileMap_map: "map_of (fileMap fs it) f = (if itemOf f = it then map_of fs f else None)"
proof -
  have "map_of (fileMap fs it) f = (if f \<in> set (itemFiles fs it) then Some (file_text fs f) else None)"
    unfolding fileMap_def map_of_map_restrict by (simp add: restrict_map_def)
  also have "\<dots> = (if itemOf f = it then map_of fs f else None)"
  proof (cases "map_of fs f")
    case None
    then have "f \<notin> fst ` set fs" by (simp add: map_of_eq_None_iff)
    then show ?thesis using None by (simp add: itemFiles_iff)
  next
    case (Some t)
    then have "f \<in> fst ` set fs" using map_of_keys [of fs f] by simp
    then show ?thesis using Some by (simp add: itemFiles_iff file_text_def)
  qed
  finally show ?thesis .
qed

lemma fileMap_distinct: "distinct (map fst fs) \<Longrightarrow> distinct (map fst (fileMap fs it))"
  by (simp add: fileMap_def itemFiles_def comp_def)

lemma put_files_distinct: "put_files it ofs fs = Inr fs' \<Longrightarrow> distinct (map fst fs) \<Longrightarrow> distinct (map fst fs')"
  by (induction it ofs fs rule: put_files.induct) (auto simp: distinct_update split: if_splits)

lemma overlay_files_distinct: "overlay_files builtin snap fs = Inr fs' \<Longrightarrow> distinct (map fst fs) \<Longrightarrow> distinct (map fst fs')"
proof (induction builtin snap fs rule: overlay_files.induct)
  case (2 builtin i w ofs1 rest fs)
  let ?fs = "filter (\<lambda>(f, s). f \<notin> set (itemFiles builtin i)) fs"
  obtain fs2 where fs2: "put_files i ofs1 ?fs = Inr fs2" "overlay_files builtin rest fs2 = Inr fs'"
    using 2(2) by (cases "put_files i ofs1 ?fs") simp_all
  have "distinct (map fst ?fs)" using 2(3) by (rule distinct_map_filter)
  then show ?case using "2.IH" [OF fs2] put_files_distinct [OF fs2(1)] by blast
qed simp

lemma newSpecs_distinct:
  assumes "newSpecs dc builtin snap = Inr s" and "distinct (map fst builtin)"
  shows "distinct (map fst (stFiles s))"
proof -
  obtain fs where fs: "overlay_files builtin (sorted_snapshot snap) builtin = Inr fs" "stFiles s = fs"
    using assms(1) add_files_files by (fastforce simp: newSpecs_def split: sum.splits)
  then show ?thesis using overlay_files_distinct [OF fs(1) assms(2)] by simp
qed

text \<open>The order of a Go map does not matter to the review.\<close>

lemma review_content_cong:
  assumes "map_of a = map_of b" and "distinct (map fst a)" and "distinct (map fst b)"
  shows "review_content h a = review_content h b"
proof -
  have t: "file_text a = file_text b" by (simp add: file_text_def assms(1) fun_eq_iff)
  have "set (map fst a) = set (map fst b)" using assms(1) by (metis dom_map_of_conv_image_fst list.set_map)
  then have n: "sorted_names a = sorted_names b"
    unfolding sorted_names_def using assms(2,3) by (intro sorted_distinct_set_unique) simp_all
  show ?thesis unfolding review_content_def t n by (rule refl)
qed

definition same_map :: "files \<Rightarrow> files \<Rightarrow> bool" where
  "same_map a b \<longleftrightarrow> map_of a = map_of b \<and> distinct (map fst a) \<and> distinct (map fst b)"

text \<open>What a save's files are reviewed against is the built-in item, or what one of its rows stored.\<close>

lemma prior_source:
  assumes s: "newSpecs (scDec sc) (scBuiltin sc) (current vs) = Inr s" and d: "\<forall>r \<in> set vs. distinct_files (svFiles r)"
    and b: "distinct (map fst (scBuiltin sc))"
  shows "same_map (prior_files sc vs it ex (fileMap (stFiles s) it)) (fileMap (scBuiltin sc) it)
     \<or> (\<exists>r \<in> set vs. \<exists>fs. svItem r = it \<and> svFiles r = Some fs \<and> same_map (prior_files sc vs it ex (fileMap (stFiles s) it)) fs)"
proof (cases "\<not> ex \<and> latest_version vs it > 0")
  case True
  let ?rows = "filter (\<lambda>r. svFiles r \<noteq> Some []) vs"
  have prior: "prior_files sc vs it ex (fileMap (stFiles s) it) = lastContent (scBuiltin sc) vs it" using True by (simp add: prior_files_def)
  show ?thesis
  proof (cases "\<exists>w fs. latest (plain_rows ?rows) it = Some w \<and> svFiles w = Some fs")
    case True
    then obtain w fs where w: "latest (plain_rows ?rows) it = Some w" "svFiles w = Some fs" by blast
    then have "svItem w = it" "w \<in> set (plain_rows ?rows)" using latest_item by auto
    then obtain r where r: "r \<in> set vs" "svItem r = it" "svFiles r = Some fs" using w(2) by (auto simp: plain_rows_def)
    have "lastContent (scBuiltin sc) vs it = fs" by (simp add: lastContent_def w)
    moreover have "distinct (map fst fs)" using d r unfolding distinct_files_def by blast
    ultimately show ?thesis using r prior by (auto simp: same_map_def)
  next
    case False
    then have "lastContent (scBuiltin sc) vs it = fileMap (scBuiltin sc) it" by (auto simp: lastContent_def split: option.split)
    then show ?thesis using prior fileMap_distinct [OF b] by (simp add: same_map_def)
  qed
next
  case False
  then have prior: "prior_files sc vs it ex (fileMap (stFiles s) it) = fileMap (stFiles s) it" by (auto simp: prior_files_def)
  have dist: "distinct (map fst (fileMap (stFiles s) it))" by (rule fileMap_distinct [OF newSpecs_distinct [OF s b]])
  note files = newSpecs_files [OF s current_distinct current_files_distinct [OF d]]
  show ?thesis
  proof (cases "map_of (current vs) it")
    case None
    have "map_of (fileMap (stFiles s) it) = map_of (fileMap (scBuiltin sc) it)"
      by (rule ext) (simp add: fileMap_map files None)
    then show ?thesis using prior dist fileMap_distinct [OF b] by (simp add: same_map_def)
  next
    case (Some vf)
    obtain v fs where vf: "vf = (v, fs)" by (cases vf)
    note own = newSpecs_own [OF s map_of_SomeD [OF Some [unfolded vf]]]
    have "map_of (fileMap (stFiles s) it) f = map_of fs f" for f
    proof (cases "itemOf f = it")
      case True
      then show ?thesis using files [of f] Some vf by (simp add: fileMap_map)
    next
      case False
      then have "f \<notin> fst ` set fs" using own by blast
      then show ?thesis using False by (simp add: fileMap_map map_of_eq_None_iff [symmetric])
    qed
    moreover obtain r where r: "r \<in> set vs" "svItem r = it" "svFiles r = Some fs" using current_row Some vf by blast
    moreover have "distinct (map fst fs)" using d r unfolding distinct_files_def by blast
    ultimately show ?thesis using prior dist by (auto simp: same_map_def fun_eq_iff)
  qed
qed

section \<open>Who vouches for a review\<close>

text \<open>What the save of an item is reviewed against.\<close>

definition reviewed_against :: "save_checks \<Rightarrow> spec_table \<Rightarrow> string \<Rightarrow> files" where
  "reviewed_against sc vs it =
     (case newSpecs (scDec sc) (scBuiltin sc) (current vs) of
        Inl e \<Rightarrow> []
      | Inr s \<Rightarrow> prior_files sc vs it (itemFiles (stFiles s) it \<noteq> []) (fileMap (stFiles s) it))"

text \<open>A reviewer of some content of an item was named for that content: by the files built in, or by a save that
  brought exactly that content with their name, where what it replaced did not name them.\<close>

definition named_by_save :: "save_checks \<Rightarrow> spec_table \<Rightarrow> string \<Rightarrow> string \<Rightarrow> string \<Rightarrow> string \<Rightarrow> bool" where
  "named_by_save sc vs it h content who \<longleftrightarrow>
     (\<exists>us ws e si author r0 ns. vs = us @ r0 # ws \<and> meChecks e = sc \<and> save e it si author us = (Inr (r0, ns), us @ [r0])
        \<and> review_content h (siFiles si) = content \<and> reviewer (file_text (siFiles si) h) = who
        \<and> reviewer (file_text (reviewed_against sc us it) h) \<noteq> who)"

definition vouched :: "save_checks \<Rightarrow> spec_table \<Rightarrow> string \<Rightarrow> string \<Rightarrow> string \<Rightarrow> string \<Rightarrow> bool" where
  "vouched sc vs it h content who \<longleftrightarrow>
     review_content h (fileMap (scBuiltin sc) it) = content \<and> reviewer (file_text (fileMap (scBuiltin sc) it) h) = who
     \<or> named_by_save sc vs it h content who"

lemma vouched_more: "vouched sc vs it h content who \<Longrightarrow> vouched sc (vs @ [r]) it h content who"
proof -
  have "named_by_save sc (vs @ [r]) it h content who" if "named_by_save sc vs it h content who"
    using that unfolding named_by_save_def by (metis append_Cons append_assoc)
  then show "vouched sc vs it h content who \<Longrightarrow> vouched sc (vs @ [r]) it h content who" by (auto simp: vouched_def)
qed

definition reviewable :: "string \<Rightarrow> bool" where
  "reviewable it \<longleftrightarrow> kind_of it = ''pack'' \<or> kind_of it = ''skill''"

text \<open>The files have one head: a pack its one file, a skill one SKILL.md.\<close>

definition one_head :: "version_row \<Rightarrow> bool" where
  "one_head r \<longleftrightarrow>
     (\<forall>fs f g. svFiles r = Some fs \<longrightarrow> f \<in> fst ` set fs \<longrightarrow> g \<in> fst ` set fs \<longrightarrow> is_head (kind_of (svItem r)) f
        \<longrightarrow> is_head (kind_of (svItem r)) g \<longrightarrow> f = g)"

definition row_vouched :: "save_checks \<Rightarrow> spec_table \<Rightarrow> version_row \<Rightarrow> bool" where
  "row_vouched sc vs r \<longleftrightarrow>
     (\<forall>fs h. reviewable (svItem r) \<longrightarrow> svFiles r = Some fs \<longrightarrow> h \<in> fst ` set fs \<longrightarrow> is_head (kind_of (svItem r)) h
        \<longrightarrow> reviewer (file_text fs h) \<noteq> [] \<longrightarrow> vouched sc vs (svItem r) h (review_content h fs) (reviewer (file_text fs h)))"

lemma row_vouched_more: "row_vouched sc vs r \<Longrightarrow> row_vouched sc (vs @ [r1]) r"
  using vouched_more unfolding row_vouched_def by blast

lemma head_file_some: "h \<in> fst ` set fs \<Longrightarrow> is_head kind h \<Longrightarrow> \<exists>g. head_file kind fs = Some g"
proof -
  assume h: "h \<in> fst ` set fs" "is_head kind h"
  then have "h \<in> set (filter (is_head kind) (map fst fs))" by (simp only: set_filter) (simp add: image_iff)
  then show ?thesis unfolding head_file_def by (cases "filter (is_head kind) (map fst fs)") simp_all
qed

lemma file_text_present: "file_text fs h \<noteq> [] \<Longrightarrow> h \<in> fst ` set fs"
  by (cases "map_of fs h") (simp_all add: file_text_def map_of_keys [symmetric])

lemma reviewer_present: "reviewer (file_text fs h) \<noteq> [] \<Longrightarrow> h \<in> fst ` set fs"
proof (rule file_text_present)
  assume r: "reviewer (file_text fs h) \<noteq> []"
  have "frontMatter [] = Inl ''the front matter must open and close with a --- line''" by code_simp
  then show "file_text fs h \<noteq> []" using r by (auto simp: reviewer_def front_fields_def field_def)
qed

text \<open>A save of a pack or a skill leaves a reviewer only when it says so or nothing but the review changed.\<close>

lemma reviewRule_result:
  assumes "reviewRule kind old fs = Inr (ns, fs')" and "kind = ''pack'' \<or> kind = ''skill''" and "head_file kind fs = Some h"
    and "reviewer (file_text fs' h) \<noteq> []"
  shows "fs' = fs \<and> (reviewer (file_text fs h) \<noteq> reviewer (file_text old h) \<or> review_content h old = review_content h fs)"
proof -
  obtain m where m: "frontMatter (file_text fs h) = Inr m" using assms by (auto simp: reviewRule_def split: sum.splits)
  have v: "reviewer (file_text fs h) = field (fmFields m) ''reviewedBy''" by (simp add: reviewer_def front_fields_def m)
  have was: "reviewer (file_text old h) = field (front_fields (file_text old h)) ''reviewedBy''" by (simp add: reviewer_def)
  have "fs' \<noteq> AList.update h (setFront (file_text fs h) candidate_fields) fs"
  proof
    assume "fs' = AList.update h (setFront (file_text fs h) candidate_fields) fs"
    then have "file_text fs' h = setFront (file_text fs h) candidate_fields" by (simp add: file_text_def update_conv')
    then show False using reset_reviewer [OF m] assms(4) by simp
  qed
  then show ?thesis
    using assms m v was by (auto simp: reviewRule_def Let_def split: if_splits)
qed

lemma ruled_files_reviewed:
  assumes "ruled_files e vs it si author ex old = Inr (ns, fs)" and "reviewable it"
  shows "reviewRule (kind_of it) (prior_files (meChecks e) vs it ex old) (siFiles si) = Inr (ns, fs)"
  using assms by (auto simp: ruled_files_def reviewable_def split: sum.splits prod.splits)

lemma save_vouched:
  assumes m: "\<forall>r \<in> set vs. distinct_files (svFiles r)" and b: "distinct (map fst (scBuiltin sc))" and sc: "meChecks e = sc"
    and save: "save e it si author vs = (Inr (v, ns), vs')" and one: "\<forall>r \<in> set vs'. one_head r"
    and ih: "\<forall>r \<in> set vs. row_vouched sc vs r"
  shows "row_vouched sc vs' v"
  using save
proof (rule save_stores)
  fix s :: spec_set and fs
  let ?prior = "prior_files sc vs it (itemFiles (stFiles s) it \<noteq> []) (fileMap (stFiles s) it)"
  assume s: "newSpecs (scDec (meChecks e)) (scBuiltin (meChecks e)) (current vs) = Inr s"
    and ruled: "ruled_files e vs it si author (itemFiles (stFiles s) it \<noteq> []) (fileMap (stFiles s) it) = Inr (ns, fs)"
    and v: "vs' = vs @ [v]" "svItem v = it" "svFiles v = Some fs"
  have "vouched sc vs' it h (review_content h fs) (reviewer (file_text fs h))"
    if h: "reviewable it" "h \<in> fst ` set fs" "is_head (kind_of it) h" "reviewer (file_text fs h) \<noteq> []" for h
  proof -
    have keys: "map fst fs = map fst (siFiles si)" by (rule ruled_files_keys [OF ruled])
    obtain g where g: "head_file (kind_of it) (siFiles si) = Some g"
      using head_file_some [of h "siFiles si" "kind_of it"] h(2,3) keys by (metis list.set_map)
    have "one_head v" using one v(1) by simp
    then have "g = h" using head_file_in [OF g] h(2,3) keys v(2,3) unfolding one_head_def by (metis list.set_map)
    then have rr: "fs = siFiles si" "reviewer (file_text fs h) \<noteq> reviewer (file_text ?prior h)
        \<or> review_content h ?prior = review_content h fs"
      using reviewRule_result [OF ruled_files_reviewed [OF ruled h(1)]] g h(1,4) sc unfolding reviewable_def by blast+
    show ?thesis
    proof (cases "reviewer (file_text ?prior h) = reviewer (file_text fs h)")
      case False
      have "reviewed_against sc vs it = ?prior" using s sc by (simp add: reviewed_against_def)
      then have "named_by_save sc vs' it h (review_content h fs) (reviewer (file_text fs h))"
        unfolding named_by_save_def
        by (intro exI [of _ vs] exI [of _ "[]"] exI [of _ e] exI [of _ si] exI [of _ author] exI [of _ v] exI [of _ ns] conjI)
          (use False rr(1) sc save v(1) in simp_all)
      then show ?thesis by (simp add: vouched_def)
    next
      case True
      then have same: "review_content h ?prior = review_content h fs" using rr(2) by simp
      have "vouched sc vs it h (review_content h ?prior) (reviewer (file_text ?prior h))"
        using prior_source [OF s [unfolded sc] m b, of it "itemFiles (stFiles s) it \<noteq> []"]
      proof
        assume bi: "same_map ?prior (fileMap (scBuiltin sc) it)"
        then have "file_text ?prior h = file_text (fileMap (scBuiltin sc) it) h" by (simp add: same_map_def file_text_def)
        moreover have "review_content h ?prior = review_content h (fileMap (scBuiltin sc) it)"
          using bi review_content_cong unfolding same_map_def by blast
        ultimately show ?thesis by (simp add: vouched_def)
      next
        assume "\<exists>r \<in> set vs. \<exists>fs. svItem r = it \<and> svFiles r = Some fs \<and> same_map ?prior fs"
        then obtain r rfs where r: "r \<in> set vs" "svItem r = it" "svFiles r = Some rfs" "same_map ?prior rfs" by blast
        have t: "file_text ?prior h = file_text rfs h" using r(4) by (simp add: same_map_def file_text_def)
        have c: "review_content h ?prior = review_content h rfs" using r(4) review_content_cong unfolding same_map_def by blast
        have "reviewer (file_text rfs h) \<noteq> []" using True h(4) t by simp
        moreover from reviewer_present [OF this] have "h \<in> fst ` set rfs" .
        moreover have "row_vouched sc vs r" using ih r(1) by blast
        ultimately show ?thesis unfolding t c using r(2,3) h(1,3) unfolding row_vouched_def by blast
      qed
      then show ?thesis using vouched_more True same v(1) by simp
    qed
  qed
  then show ?thesis using v(2,3) by (simp add: row_vouched_def)
qed


section \<open>One skill\<close>

definition demo_dec :: decoders where
  "demo_dec = \<lparr>dcTool = (\<lambda>s. Inl []), dcServer = (\<lambda>s. Inl []), dcRule = (\<lambda>s. Inl []), dcSpec = (\<lambda>s. Inl []), dcStrictSpec = (\<lambda>s. Inl []),
     dcExamples = (\<lambda>s. []), dcMarshal = (\<lambda>v. []), dcSchema = (\<lambda>r. None), dcRemoteOut = None\<rparr>"

definition demo_checks :: save_checks where
  "demo_checks = \<lparr>scBuiltin = [(engineDir @ ''specs/lead.md'', ''p'')], scDec = demo_dec, scJsonOk = (\<lambda>s. True),
     scFileProblems = (\<lambda>f s. []), scSetProblems = (\<lambda>s. [])\<rparr>"

definition demo_env :: manage_env where
  "demo_env = \<lparr>meChecks = demo_checks, meJsonEq = (\<lambda>a b. a = b), meEncode = (\<lambda>s t. s), meOrigin = (\<lambda>u. u), meSecrets = (\<lambda>n. None)\<rparr>"

definition demo_skill :: string where
  "demo_skill = ''---'' @ [newline_byte] @ ''name: ab'' @ [newline_byte] @ ''description: d'' @ [newline_byte] @ ''status: reviewed''
     @ [newline_byte] @ ''reviewedBy: R'' @ [newline_byte] @ ''---'' @ [newline_byte] @ ''b''"

definition demo_path :: string where "demo_path = skillsDir @ ''ab/SKILL.md''"

definition demo_save :: save_in where
  "demo_save = \<lparr>siBase = 0, siFiles = [(demo_path, demo_skill)], siNote = []\<rparr>"

definition demo_files :: files where "demo_files = [(demo_path, demo_skill)]"

lemma demo_item: "itemOf demo_path = ''skill.ab''"
  by code_simp

lemma demo_builtin_set:
  "case newSpecs (scDec demo_checks) (scBuiltin demo_checks) [] of
     Inl e \<Rightarrow> False | Inr s \<Rightarrow> set_problems demo_checks s = [] \<and> itemFiles (stFiles s) ''skill.ab'' = [] \<and> fileMap (stFiles s) ''skill.ab'' = []"
  by code_simp

lemma demo_file_ok: "one_file_problems demo_checks ''skill.ab'' (demo_path, demo_skill) = []"
proof -
  have "list_all (\<lambda>c. byte_val c < 128) demo_skill" by code_simp
  then have "valid_utf8 demo_skill" by (intro valid_utf8_ascii) (simp add: list_all_iff)
  moreover have "CHR 0x00 \<notin> set demo_skill" by code_simp
  moreover have "kind_of ''skill.ab'' = ''skill''" "name_of ''skill.ab'' = ''ab''" by code_simp+
  moreover have "validateSkillFile (scJsonOk demo_checks) demo_path ''ab'' demo_skill = []" by code_simp
  ultimately show ?thesis by (simp add: one_file_problems_def demo_item)
qed

lemma demo_set_ok: "validate_save demo_checks [(''skill.ab'', 1, demo_files)] ''skill.ab'' = []"
proof -
  have "file_set_problems (scBuiltin demo_checks) ''skill.ab'' demo_files = []" by code_simp
  moreover have "case newSpecs (scDec demo_checks) (scBuiltin demo_checks) [(''skill.ab'', 1, demo_files)] of
      Inl e \<Rightarrow> False | Inr s \<Rightarrow> set_problems demo_checks s = []" by code_simp
  moreover have "save_files [(''skill.ab'', 1, demo_files)] ''skill.ab'' = demo_files" by (simp add: save_files_def)
  moreover have "sort_key fst demo_files = demo_files" by (simp add: demo_files_def)
  ultimately show ?thesis
    using demo_file_ok by (simp add: validate_save_def Let_def demo_files_def split: sum.splits)
qed

lemma demo_saved:
  "\<exists>v. save demo_env ''skill.ab'' demo_save ''a'' [] = (Inr (v, []), [v])
     \<and> svItem v = ''skill.ab'' \<and> svVersion v = 1 \<and> svFiles v = Some demo_files"
proof -
  obtain s where s: "newSpecs (scDec demo_checks) (scBuiltin demo_checks) [] = Inr s" "itemFiles (stFiles s) ''skill.ab'' = []"
    "fileMap (stFiles s) ''skill.ab'' = []"
    using demo_builtin_set by (auto split: sum.splits)
  have c: "current [] = []" by (simp add: current_def plain_rows_def snapshot_of_def List.map_filter_simps)
  have "currentSpecs demo_checks [] = Inr s" by (simp add: currentSpecs_def c s)
  moreover have "save_guard demo_checks [] ''skill.ab'' demo_save False = None" by code_simp
  moreover have "ruled_files demo_env [] ''skill.ab'' demo_save ''a'' False [] = Inr ([], demo_files)" by code_simp
  moreover have "\<not> same_files [] demo_files" by (simp add: same_files_def demo_files_def)
  moreover have "secretOrigins (scDec demo_checks) (meOrigin demo_env) (meSecrets demo_env) demo_files = None" by code_simp
  moreover have "validate_save demo_checks (snapshot_put ''skill.ab'' (siBase demo_save + 1) demo_files (current [])) ''skill.ab'' = []"
    using demo_set_ok by (simp add: snapshot_put_def c demo_save_def)
  ultimately show ?thesis
    by (simp add: save_def Let_def s demo_env_def insertVersion_def latest_version_def plain_rows_def latest_def demo_save_def demo_files_def)
qed

definition demo_table :: spec_table where
  "demo_table = snd (save demo_env ''skill.ab'' demo_save ''a'' [])"

lemma demo_managed:
  "managed demo_checks demo_table" "\<exists>v. demo_table = [v] \<and> svItem v = ''skill.ab'' \<and> svVersion v = 1 \<and> svFiles v = Some demo_files"
proof -
  obtain v where v: "save demo_env ''skill.ab'' demo_save ''a'' [] = (Inr (v, []), [v])" "svItem v = ''skill.ab''" "svVersion v = 1"
    "svFiles v = Some demo_files" using demo_saved by blast
  have "managed demo_checks [v]"
    by (rule managed.saved [OF managed.none _ _ v(1)]) (simp_all add: demo_env_def demo_save_def)
  then show "managed demo_checks demo_table" "\<exists>v. demo_table = [v] \<and> svItem v = ''skill.ab'' \<and> svVersion v = 1 \<and> svFiles v = Some demo_files"
    using v by (simp_all add: demo_table_def)
qed

lemma no_edit_is_lost_witness:
  "map svVersion demo_table = [1] \<and> (\<forall>e author. \<exists>err. save e ''skill.ab'' demo_save author demo_table = (Inl err, demo_table))"
proof -
  obtain v where v: "demo_table = [v]" "svItem v = ''skill.ab''" using demo_managed(2) by blast
  have "length (filter (\<lambda>r. svItem r = ''skill.ab'') demo_table) = 1" by (simp add: v)
  from no_edit_is_lost [OF demo_managed(1) this [symmetric]] show ?thesis by (simp add: v demo_save_def)
qed

lemma next_set_is_sound_witness:
  "\<exists>s. newSpecs (scDec demo_checks) (scBuiltin demo_checks) (current demo_table) = Inr s \<and> int (length (stSkills s)) \<le> maxSkills"
proof -
  obtain s where "newSpecs (scDec demo_checks) (scBuiltin demo_checks) [] = Inr s" "set_problems demo_checks s = []"
    using demo_builtin_set by (auto split: sum.splits)
  from next_set_is_sound [OF demo_managed(1) this] show ?thesis by blast
qed

lemma needed_items_keep_files_witness:
  "\<exists>s. newSpecs (scDec demo_checks) (scBuiltin demo_checks) (current demo_table) = Inr s \<and> itemFiles (stFiles s) ''prompt.lead'' \<noteq> []"
proof -
  obtain s where s: "newSpecs (scDec demo_checks) (scBuiltin demo_checks) [] = Inr s" "set_problems demo_checks s = []"
    using demo_builtin_set by (auto split: sum.splits)
  have "kind_of ''prompt.lead'' = ''prompt''" by code_simp
  moreover have "itemFiles (scBuiltin demo_checks) ''prompt.lead'' \<noteq> []" by code_simp
  ultimately show ?thesis using needed_items_keep_files [OF demo_managed(1) s, of "''prompt.lead''"] by simp
qed


section \<open>A second SKILL.md\<close>

definition demo_second :: string where "demo_second = skillsDir @ ''ab//SKILL.md''"

definition demo_changed :: string where
  "demo_changed = ''---'' @ [newline_byte] @ ''name: ab'' @ [newline_byte] @ ''description: d'' @ [newline_byte] @ ''status: reviewed''
     @ [newline_byte] @ ''reviewedBy: R'' @ [newline_byte] @ ''---'' @ [newline_byte] @ ''c''"

definition demo_blank :: string where
  "demo_blank = ''---'' @ [newline_byte] @ ''name: ab'' @ [newline_byte] @ ''description: d'' @ [newline_byte] @ ''status: candidate''
     @ [newline_byte] @ ''---'' @ [newline_byte] @ ''b''"

definition demo_pair :: files where "demo_pair = [(demo_path, demo_changed), (demo_second, demo_blank)]"

definition demo_evade :: save_in where
  "demo_evade = \<lparr>siBase = 1, siFiles = demo_pair, siNote = []\<rparr>"

lemma demo_pair_ok:
  "one_file_problems demo_checks ''skill.ab'' (demo_path, demo_changed) = []"
  "one_file_problems demo_checks ''skill.ab'' (demo_second, demo_blank) = []"
proof -
  have "list_all (\<lambda>c. byte_val c < 128) demo_changed" "list_all (\<lambda>c. byte_val c < 128) demo_blank" by code_simp+
  then have "valid_utf8 demo_changed" "valid_utf8 demo_blank" by (simp_all add: valid_utf8_ascii list_all_iff)
  moreover have "CHR 0x00 \<notin> set demo_changed" "CHR 0x00 \<notin> set demo_blank" by code_simp+
  moreover have "kind_of ''skill.ab'' = ''skill''" "name_of ''skill.ab'' = ''ab''" by code_simp+
  moreover have "validateSkillFile (scJsonOk demo_checks) demo_path ''ab'' demo_changed = []" by code_simp
  moreover have "validateSkillFile (scJsonOk demo_checks) demo_second ''ab'' demo_blank = []" by code_simp
  moreover have "itemOf demo_second = ''skill.ab''" by code_simp
  ultimately show "one_file_problems demo_checks ''skill.ab'' (demo_path, demo_changed) = []"
    "one_file_problems demo_checks ''skill.ab'' (demo_second, demo_blank) = []"
    by (simp_all add: one_file_problems_def demo_item)
qed

lemma demo_evade_set_ok: "validate_save demo_checks [(''skill.ab'', 2, demo_pair)] ''skill.ab'' = []"
proof -
  have "file_set_problems (scBuiltin demo_checks) ''skill.ab'' demo_pair = []" by code_simp
  moreover have "case newSpecs (scDec demo_checks) (scBuiltin demo_checks) [(''skill.ab'', 2, demo_pair)] of
      Inl e \<Rightarrow> False | Inr s \<Rightarrow> set_problems demo_checks s = []" by code_simp
  moreover have "save_files [(''skill.ab'', 2, demo_pair)] ''skill.ab'' = demo_pair" by (simp add: save_files_def)
  moreover have "set (sort_key fst demo_pair) = {(demo_path, demo_changed), (demo_second, demo_blank)}" by (auto simp: demo_pair_def)
  then have "concat (map (one_file_problems demo_checks ''skill.ab'') (sort_key fst demo_pair)) = []"
    using demo_pair_ok by simp
  ultimately show ?thesis by (simp add: validate_save_def Let_def split: sum.splits)
qed


end
